(* ===== verification/Prelude.thy ===== *)
theory Prelude
  imports Complex_Main "HOL-Library.AList" "HOL-Library.Word"
begin

text \<open>
  What the components share: Python strings as lists of code points with the parts of
  \<open>str\<close> the program uses (\<open>strip\<close>, \<open>casefold\<close>, \<open>isdecimal\<close>, \<open>int\<close>, \<open>encode\<close>),
  dictionaries that keep insertion order, exceptions as the left side of a sum, clock
  values, and the lemma collections the component proofs draw on.

  A Python \<open>str\<close> is a list of code points (\<open>nat\<close>), so \<open>length\<close> counts what \<open>len\<close>
  counts and the UTF-8 length is a separate function. \<open>casefold\<close> is exact below U+0100
  and the identity above; \<open>int\<close> and \<open>isdecimal\<close> know the ASCII digits only (Python also
  accepts the decimal digits of other scripts).
\<close>

named_theorems dict_simps "lookups in and updates of insertion-ordered dictionaries"
named_theorems text_simps "facts about code point strings"
named_theorems err_simps "case analysis of computations that may raise"

section \<open>Exceptions\<close>

text \<open>A Python call either raises (\<open>Inl\<close>) or returns (\<open>Inr\<close>); \<open>ebind\<close> runs the rest
  of a body only after a normal return, as statement sequencing does.\<close>

definition ebind :: "'e + 'a \<Rightarrow> ('a \<Rightarrow> 'e + 'b) \<Rightarrow> 'e + 'b" where
  "ebind m f = (case m of Inl e \<Rightarrow> Inl e | Inr a \<Rightarrow> f a)"

lemma ebind_simps [simp]:
  "ebind (Inl e) f = Inl e"
  "ebind (Inr a) f = f a"
  by (simp_all add: ebind_def)

lemma ebind_Inr_iff [err_simps]:
  "ebind m f = Inr b \<longleftrightarrow> (\<exists>a. m = Inr a \<and> f a = Inr b)"
  by (cases m) auto

lemma ebind_Inl_iff [err_simps]:
  "ebind m f = Inl e \<longleftrightarrow> m = Inl e \<or> (\<exists>a. m = Inr a \<and> f a = Inl e)"
  by (cases m) auto

text \<open>A comprehension whose body may raise stops at the first exception.\<close>

fun emap :: "('a \<Rightarrow> 'e + 'b) \<Rightarrow> 'a list \<Rightarrow> 'e + 'b list" where
  "emap f [] = Inr []"
| "emap f (x # xs) = ebind (f x) (\<lambda>y. ebind (emap f xs) (\<lambda>ys. Inr (y # ys)))"

lemma emap_Inr_iff:
  "emap f xs = Inr ys \<longleftrightarrow> list_all2 (\<lambda>x y. f x = Inr y) xs ys"
proof (induction xs arbitrary: ys)
  case Nil
  then show ?case by auto
next
  case (Cons x xs)
  then show ?case by (cases ys) (auto simp: err_simps)
qed

lemma emap_Inr_length: "emap f xs = Inr ys \<Longrightarrow> length ys = length xs"
  by (auto simp: emap_Inr_iff dest: list_all2_lengthD)

lemma emap_Inr_set: "emap f xs = Inr ys \<Longrightarrow> y \<in> set ys \<Longrightarrow> \<exists>x\<in>set xs. f x = Inr y"
  by (induction xs arbitrary: ys) (auto simp: err_simps)

lemma emap_map_Inr: "(\<And>x. x \<in> set xs \<Longrightarrow> f x = Inr (g x)) \<Longrightarrow> emap f xs = Inr (map g xs)"
  by (induction xs) auto

section \<open>Strings\<close>

type_synonym pystr = "nat list"
type_synonym byte = "8 word"

definition lit :: "string \<Rightarrow> pystr" where
  "lit s = map of_char s"

lemma lit_inject [simp]: "lit a = lit b \<longleftrightarrow> a = b"
proof -
  have "inj (of_char :: char \<Rightarrow> nat)"
    by (simp add: inj_def)
  then show ?thesis
    by (simp add: lit_def inj_map_eq_map)
qed

lemma lit_Nil [simp]: "lit s = [] \<longleftrightarrow> s = []" "[] = lit s \<longleftrightarrow> s = []"
  by (simp_all add: lit_def)

lemma length_lit [simp]: "length (lit s) = length s"
  by (simp add: lit_def)

lemma lit_less_256: "c \<in> set (lit s) \<Longrightarrow> c < 256"
  by (auto simp: lit_def of_char_def)

subsection \<open>\<open>strip\<close> and \<open>casefold\<close>\<close>

definition py_space :: "nat \<Rightarrow> bool" where
  "py_space c \<longleftrightarrow> 9 \<le> c \<and> c \<le> 13 \<or> 28 \<le> c \<and> c \<le> 32 \<or> c = 133 \<or> c = 160 \<or> c = 5760
     \<or> 8192 \<le> c \<and> c \<le> 8202 \<or> c = 8232 \<or> c = 8233 \<or> c = 8239 \<or> c = 8287 \<or> c = 12288"

definition py_strip :: "pystr \<Rightarrow> pystr" where
  "py_strip s = rev (dropWhile py_space (rev (dropWhile py_space s)))"

definition fold_cp :: "nat \<Rightarrow> pystr" where
  "fold_cp c =
     (if 65 \<le> c \<and> c \<le> 90 then [c + 32]
      else if c = 181 then [956]
      else if c = 223 then [115, 115]
      else if 192 \<le> c \<and> c \<le> 222 \<and> c \<noteq> 215 then [c + 32]
      else [c])"

definition casefold :: "pystr \<Rightarrow> pystr" where
  "casefold s = concat (map fold_cp s)"

lemma fold_cp_nonempty [simp]: "fold_cp c \<noteq> []"
  by (simp add: fold_cp_def)

lemma fold_cp_idem: "concat (map fold_cp (fold_cp c)) = fold_cp c"
  by (auto simp: fold_cp_def)

lemma casefold_idem [simp, text_simps]: "casefold (casefold s) = casefold s"
  by (induction s) (simp_all add: casefold_def fold_cp_idem)

lemma casefold_Nil [simp]: "casefold s = [] \<longleftrightarrow> s = []"
  by (auto simp: casefold_def)

lemma py_strip_Nil [simp]: "py_strip [] = []"
  by (simp add: py_strip_def)

lemma length_py_strip: "length (py_strip s) \<le> length s"
proof -
  have "length (dropWhile py_space (rev (dropWhile py_space s)))
      \<le> length (rev (dropWhile py_space s))"
    by (rule length_dropWhile_le)
  also have "\<dots> \<le> length s"
    by (simp add: length_dropWhile_le)
  finally show ?thesis by (simp add: py_strip_def)
qed

lemma dropWhile_last_stays:
  "xs \<noteq> [] \<Longrightarrow> \<not> P (last xs) \<Longrightarrow> dropWhile P xs \<noteq> [] \<and> last (dropWhile P xs) = last xs"
  by (induction xs) auto

lemma py_strip_no_space:
  "s \<noteq> [] \<Longrightarrow> \<not> py_space (hd s) \<Longrightarrow> \<not> py_space (last s) \<Longrightarrow> py_strip s = s"
proof -
  assume s: "s \<noteq> []" "\<not> py_space (hd s)" "\<not> py_space (last s)"
  from s(1,2) have a: "dropWhile py_space s = s"
    by (cases s) auto
  obtain t x where "s = t @ [x]" using s(1) by (cases s rule: rev_cases) auto
  with s(3) have "dropWhile py_space (rev s) = rev s" by simp
  then show ?thesis by (simp add: py_strip_def a)
qed

lemma last_py_strip: "py_strip s \<noteq> [] \<Longrightarrow> \<not> py_space (last (py_strip s))"
  unfolding py_strip_def last_rev rev_is_Nil_conv by (rule hd_dropWhile)

lemma hd_py_strip: "py_strip s \<noteq> [] \<Longrightarrow> \<not> py_space (hd (py_strip s))"
proof -
  assume ne: "py_strip s \<noteq> []"
  define t where "t = dropWhile py_space s"
  have eq: "py_strip s = rev (dropWhile py_space (rev t))"
    by (simp add: py_strip_def t_def)
  from ne eq have t: "t \<noteq> []" by auto
  then have hd: "\<not> py_space (hd t)"
    unfolding t_def by (rule hd_dropWhile)
  from t hd have "dropWhile py_space (rev t) \<noteq> [] \<and> last (dropWhile py_space (rev t)) = last (rev t)"
    by (intro dropWhile_last_stays) (simp_all add: last_rev)
  then have "hd (py_strip s) = hd t"
    using t by (simp add: eq hd_rev last_rev)
  with hd show ?thesis by simp
qed

lemma py_strip_idem [simp, text_simps]: "py_strip (py_strip s) = py_strip s"
proof (cases "py_strip s = []")
  case True
  then show ?thesis by simp
next
  case False
  then show ?thesis
    by (intro py_strip_no_space) (simp_all add: hd_py_strip last_py_strip)
qed

subsection \<open>UTF-8\<close>

text \<open>\<open>str.encode("utf-8")\<close>: a surrogate raises \<open>UnicodeEncodeError\<close>, here \<open>None\<close>.\<close>

definition cp_valid :: "nat \<Rightarrow> bool" where
  "cp_valid c \<longleftrightarrow> c < 1114112 \<and> \<not> (55296 \<le> c \<and> c \<le> 57343)"

definition utf8_cp :: "nat \<Rightarrow> byte list" where
  "utf8_cp c =
     (if c < 128 then [of_nat c]
      else if c < 2048 then [of_nat (192 + c div 64), of_nat (128 + c mod 64)]
      else if c < 65536 then
        [of_nat (224 + c div 4096), of_nat (128 + c div 64 mod 64), of_nat (128 + c mod 64)]
      else
        [of_nat (240 + c div 262144), of_nat (128 + c div 4096 mod 64),
         of_nat (128 + c div 64 mod 64), of_nat (128 + c mod 64)])"

definition utf8_encode :: "pystr \<Rightarrow> byte list option" where
  "utf8_encode s = (if \<forall>c\<in>set s. cp_valid c then Some (concat (map utf8_cp s)) else None)"

lemma utf8_encode_lit: "\<forall>c\<in>set s. c < 128 \<Longrightarrow> utf8_encode s = Some (map of_nat s)"
proof -
  assume a: "\<forall>c\<in>set s. c < 128"
  then have "concat (map utf8_cp s) = map of_nat s"
    by (induction s) (simp_all add: utf8_cp_def)
  moreover from a have "\<forall>c\<in>set s. cp_valid c"
    by (auto simp: cp_valid_def)
  ultimately show ?thesis by (simp add: utf8_encode_def)
qed

lemma length_utf8_ge: "length s \<le> length (concat (map utf8_cp s))"
  by (induction s) (auto simp: utf8_cp_def)

subsection \<open>Decimal integers\<close>

definition is_digit :: "nat \<Rightarrow> bool" where
  "is_digit c \<longleftrightarrow> 48 \<le> c \<and> c \<le> 57"

definition isdecimal :: "pystr \<Rightarrow> bool" where
  "isdecimal s \<longleftrightarrow> s \<noteq> [] \<and> list_all is_digit s"

fun dec_of_nat :: "nat \<Rightarrow> pystr" where
  "dec_of_nat n = (if n < 10 then [48 + n] else dec_of_nat (n div 10) @ [48 + n mod 10])"

declare dec_of_nat.simps [simp del]

definition str_of_int :: "int \<Rightarrow> pystr" where
  "str_of_int i = (if i < 0 then 45 # dec_of_nat (nat (- i)) else dec_of_nat (nat i))"

text \<open>The digits of an \<open>int\<close> literal: single underscores are allowed between digits.\<close>

fun digits_value :: "int \<Rightarrow> bool \<Rightarrow> pystr \<Rightarrow> int option" where
  "digits_value acc after_digit [] = (if after_digit then Some acc else None)"
| "digits_value acc after_digit (c # cs) =
     (if is_digit c then digits_value (acc * 10 + (int c - 48)) True cs
      else if c = 95 \<and> after_digit then digits_value acc False cs
      else None)"

definition py_int :: "pystr \<Rightarrow> int option" where
  "py_int s =
     (case py_strip s of
        [] \<Rightarrow> None
      | c # cs \<Rightarrow>
          if c = 43 then digits_value 0 False cs
          else if c = 45 then map_option uminus (digits_value 0 False cs)
          else digits_value 0 False (c # cs))"

lemma digits_value_digits:
  "list_all is_digit s \<Longrightarrow>
   digits_value acc b s =
     (if s = [] \<and> \<not> b then None else Some (foldl (\<lambda>a c. a * 10 + (int c - 48)) acc s))"
  by (induction s arbitrary: acc b) auto

lemma digits_value_nonneg: "digits_value acc b s = Some v \<Longrightarrow> 0 \<le> acc \<Longrightarrow> 0 \<le> v"
  by (induction acc b s rule: digits_value.induct) (auto simp: is_digit_def split: if_splits)

lemma dec_of_nat_digits: "list_all is_digit (dec_of_nat n) \<and> dec_of_nat n \<noteq> []"
proof (induction n rule: dec_of_nat.induct)
  case (1 n)
  show ?case
  proof (cases "n < 10")
    case True
    then show ?thesis by (subst (1 2) dec_of_nat.simps) (simp add: is_digit_def)
  next
    case False
    have "is_digit (48 + n mod 10)" by (simp add: is_digit_def)
    with False "1" show ?thesis
      by (subst (1 2) dec_of_nat.simps) simp
  qed
qed

lemma dec_of_nat_value:
  "foldl (\<lambda>a c. a * 10 + (int c - 48)) 0 (dec_of_nat n) = int n"
proof (induction n rule: dec_of_nat.induct)
  case (1 n)
  show ?case
  proof (cases "n < 10")
    case True
    then show ?thesis by (subst dec_of_nat.simps) simp
  next
    case False
    then have "foldl (\<lambda>a c. a * 10 + (int c - 48)) 0 (dec_of_nat n)
        = int (n div 10) * 10 + int (n mod 10)"
      using "1" by (subst dec_of_nat.simps) simp
    also have "\<dots> = int n"
      by (metis (no_types) of_nat_add of_nat_mult of_nat_numeral div_mult_mod_eq)
    finally show ?thesis .
  qed
qed

lemma digit_not_space: "is_digit c \<Longrightarrow> \<not> py_space c"
  by (auto simp: is_digit_def py_space_def)

lemma py_strip_digits: "list_all is_digit s \<Longrightarrow> py_strip s = s"
  by (cases "s = []")
     (auto intro!: py_strip_no_space simp: list_all_iff digit_not_space)

lemma py_int_digits:
  assumes "list_all is_digit s" and "s \<noteq> []"
  shows "py_int s = Some (foldl (\<lambda>a c. a * 10 + (int c - 48)) 0 s)"
proof -
  obtain c cs where s: "s = c # cs" using assms(2) by (cases s) auto
  with assms(1) have "c \<noteq> 43" "c \<noteq> 45" by (auto simp: is_digit_def)
  then show ?thesis
    using assms s py_strip_digits [OF assms(1)] digits_value_digits [OF assms(1), of 0 False]
    by (simp add: py_int_def)
qed

lemma py_int_str_of_int [simp, text_simps]: "py_int (str_of_int i) = Some i"
proof (cases "i < 0")
  case False
  have "py_int (dec_of_nat (nat i)) = Some (int (nat i))"
    by (subst py_int_digits) (simp_all add: dec_of_nat_digits dec_of_nat_value)
  with False show ?thesis by (simp add: str_of_int_def)
next
  case True
  let ?d = "dec_of_nat (nat (- i))"
  have d: "list_all is_digit ?d" "?d \<noteq> []" by (simp_all add: dec_of_nat_digits)
  have "last ?d \<in> set ?d" using d(2) by simp
  with d(1) have "is_digit (last ?d)" by (simp add: list_all_iff)
  then have "py_strip (45 # ?d) = 45 # ?d"
    using d(2) by (intro py_strip_no_space) (auto simp: py_space_def is_digit_def)
  moreover have "digits_value 0 False ?d = Some (int (nat (- i)))"
    using d by (simp add: digits_value_digits dec_of_nat_value)
  ultimately show ?thesis using True by (simp add: py_int_def str_of_int_def)
qed

lemma py_int_Some_nonempty: "py_int s = Some v \<Longrightarrow> s \<noteq> []"
  by (auto simp: py_int_def)

subsection \<open>Joining\<close>

text \<open>\<open>sep.join(parts)\<close> for a one-character separator.\<close>

fun py_join :: "nat \<Rightarrow> pystr list \<Rightarrow> pystr" where
  "py_join c [] = []"
| "py_join c [x] = x"
| "py_join c (x # y # ys) = x @ c # py_join c (y # ys)"

lemma py_join_Cons: "xs \<noteq> [] \<Longrightarrow> py_join c (x # xs) = x @ c # py_join c xs"
  by (cases xs) simp_all

section \<open>Clock values\<close>

text \<open>A Python \<open>float\<close> clock reading is a rational; rounding, infinities and NaN are not
  modelled. \<open>int(x)\<close> truncates towards zero.\<close>

type_synonym time = rat

definition py_trunc :: "rat \<Rightarrow> int" where
  "py_trunc x = (if 0 \<le> x then \<lfloor>x\<rfloor> else \<lceil>x\<rceil>)"

lemma py_trunc_of_int [simp]: "py_trunc (of_int i) = i"
  by (simp add: py_trunc_def)

lemma py_trunc_numeral [simp]:
  "py_trunc (numeral n) = numeral n" "py_trunc 0 = 0" "py_trunc 1 = 1"
  by (simp_all add: py_trunc_def)

lemma py_trunc_nonneg: "0 \<le> x \<Longrightarrow> 0 \<le> py_trunc x"
  by (simp add: py_trunc_def)

section \<open>Dictionaries in insertion order\<close>

text \<open>A \<open>dict\<close> is an association list: \<open>AList.update\<close> overwrites in place or appends,
  \<open>AList.delete\<close> removes, iteration is list order. The invariant is that keys are distinct.\<close>

type_synonym ('k, 'v) dict = "('k \<times> 'v) list"

abbreviation dget :: "('k, 'v) dict \<Rightarrow> 'k \<Rightarrow> 'v option" where
  "dget d k \<equiv> map_of d k"

abbreviation dset :: "'k \<Rightarrow> 'v \<Rightarrow> ('k, 'v) dict \<Rightarrow> ('k, 'v) dict" where
  "dset k v d \<equiv> AList.update k v d"

abbreviation ddel :: "'k \<Rightarrow> ('k, 'v) dict \<Rightarrow> ('k, 'v) dict" where
  "ddel k d \<equiv> AList.delete k d"

abbreviation dkeys :: "('k, 'v) dict \<Rightarrow> 'k list" where
  "dkeys d \<equiv> map fst d"

definition dict_ok :: "('k, 'v) dict \<Rightarrow> bool" where
  "dict_ok d \<longleftrightarrow> distinct (map fst d)"

definition dget_or :: "('k, 'v) dict \<Rightarrow> 'k \<Rightarrow> 'v \<Rightarrow> 'v" where
  "dget_or d k v = (case map_of d k of None \<Rightarrow> v | Some x \<Rightarrow> x)"

lemma dget_dset [dict_simps]: "dget (dset k v d) k' = (if k' = k then Some v else dget d k')"
  by (simp add: update_conv')

lemma dget_ddel [dict_simps]: "dget (ddel k d) k' = (if k' = k then None else dget d k')"
  by (simp add: delete_conv')

lemma dict_ok_Nil [simp, dict_simps]: "dict_ok []"
  by (simp add: dict_ok_def)

lemma dict_ok_dset [simp, dict_simps]: "dict_ok d \<Longrightarrow> dict_ok (dset k v d)"
  by (simp add: dict_ok_def distinct_update)

lemma dict_ok_ddel [simp, dict_simps]: "dict_ok d \<Longrightarrow> dict_ok (ddel k d)"
  by (simp add: dict_ok_def distinct_delete)

lemma dict_ok_filter [simp, dict_simps]: "dict_ok d \<Longrightarrow> dict_ok (filter P d)"
  by (simp add: dict_ok_def distinct_map inj_on_def)

lemma dget_Some_in: "dget d k = Some v \<Longrightarrow> (k, v) \<in> set d"
  by (rule map_of_SomeD)

lemma dget_in_iff: "dict_ok d \<Longrightarrow> dget d k = Some v \<longleftrightarrow> (k, v) \<in> set d"
  by (auto simp: dict_ok_def)

lemma set_dkeys: "set (dkeys d) = dom (dget d)"
  by (simp add: dom_map_of_conv_image_fst)

lemma dget_None_iff: "dget d k = None \<longleftrightarrow> k \<notin> set (dkeys d)"
  by (simp add: map_of_eq_None_iff)

lemma dkeys_dset: "dkeys (dset k v d) = (if k \<in> set (dkeys d) then dkeys d else dkeys d @ [k])"
  by (induction d) auto

lemma dkeys_ddel: "dkeys (ddel k d) = filter (\<lambda>x. k \<noteq> x) (dkeys d)"
  by (induction d) (auto simp: AList.delete_eq)

lemma length_dset: "length (dset k v d) = (if k \<in> set (dkeys d) then length d else Suc (length d))"
  by (induction d) auto

lemma length_dset_le: "length (dset k v d) \<le> Suc (length d)"
  by (simp add: length_dset)

lemma length_ddel_le: "length (ddel k d) \<le> length d"
  by (simp add: AList.delete_eq)

lemma length_ddel_less: "k \<in> set (dkeys d) \<Longrightarrow> length (ddel k d) < length d"
  by (induction d) (auto simp: AList.delete_eq le_imp_less_Suc)

lemma set_ddel: "set (ddel k d) = {p \<in> set d. fst p \<noteq> k}"
  by (auto simp: AList.delete_eq)

lemma set_dset: "dict_ok d \<Longrightarrow> set (dset k v d) = insert (k, v) {p \<in> set d. fst p \<noteq> k}"
  by (induction d) (force simp: dict_ok_def)+

lemma set_dset_subset: "set (dset k v d) \<subseteq> insert (k, v) (set d)"
  by (induction d) auto

lemma dset_fresh: "k \<notin> set (dkeys d) \<Longrightarrow> dset k v d = d @ [(k, v)]"
  by (induction d) auto

lemma ddel_fresh: "k \<notin> set (dkeys d) \<Longrightarrow> ddel k d = d"
  by (induction d) (auto simp: AList.delete_eq)

lemma dget_or_dset [dict_simps]: "dget_or (dset k v d) k' x = (if k' = k then v else dget_or d k' x)"
  by (simp add: dget_or_def update_conv')

lemma dget_or_ddel [dict_simps]: "dget_or (ddel k d) k' x = (if k' = k then x else dget_or d k' x)"
  by (simp add: dget_or_def delete_conv')

lemma dget_or_Nil [simp, dict_simps]: "dget_or [] k x = x"
  by (simp add: dget_or_def)

text \<open>The last \<open>n\<close> items, \<open>list(d.items())[-n:]\<close> for positive \<open>n\<close>.\<close>

definition last_n :: "nat \<Rightarrow> 'a list \<Rightarrow> 'a list" where
  "last_n n xs = drop (length xs - n) xs"

lemma length_last_n [simp]: "length (last_n n xs) = min n (length xs)"
  by (simp add: last_n_def)

lemma last_n_all: "length xs \<le> n \<Longrightarrow> last_n n xs = xs"
  by (simp add: last_n_def)

lemma set_last_n: "set (last_n n xs) \<subseteq> set xs"
  by (simp add: last_n_def set_drop_subset)

lemma dict_ok_last_n [simp, dict_simps]: "dict_ok d \<Longrightarrow> dict_ok (last_n n d)"
  by (simp add: dict_ok_def last_n_def drop_map [symmetric])

text \<open>Dropping the entries whose value fails a test.\<close>

lemma dget_filter: "dict_ok d \<Longrightarrow> dget (filter (\<lambda>(_, v). P v) d) k = (case dget d k of None \<Rightarrow> None | Some v \<Rightarrow> if P v then Some v else None)"
proof (induction d)
  case (Cons kv d)
  then have d: "dict_ok d" "fst kv \<notin> set (dkeys d)" by (auto simp: dict_ok_def)
  have "dget d (fst kv) = None" using d(2) by (simp add: dget_None_iff)
  with Cons.IH [OF d(1)] show ?case by (cases kv) (auto split: option.splits)
qed simp

end
