(* ===== verification/Wire.thy ===== *)
theory Wire
  imports Prelude
begin

unbundle bit_operations_syntax

text \<open>
  \<open>routeros_binary.py\<close>, the length-prefixed word encoding of the RouterOS API: lengths,
  words, sentences and their decoders, with the errors of the whole module. A raise site is a
  constructor of \<open>rb_error\<close>; \<open>is_truncated\<close> holds for the messages that start with
  "truncated", which the incremental reader treats as "wait for more bytes".
\<close>

datatype trunc_kind = Len1 | Len2 | Len3 | Len4 | Len5 | TruncWord

datatype rb_error =
    NegativeLength | LengthTooLarge | ReaderLimits
  | Truncated trunc_kind | ReservedPrefix
  | DataAfterTerminator | MissingTerminator
  | WordTooLarge | ResponseTooLarge | SentenceTooManyWords
  | NoReplyKind | KindTooLong | ReplyTooManyWords
  | FieldNameTooLong | FieldValueTooLong | TooManyAttributes
  | QueryNotAllowed | BadPath | PathNotAllowed
  | InsecureTls | LegacyChallenge | NotOpen | PeerClosed | ClosedConcurrently
  | TooManyReplies | TooManyWords | TagMismatch
  | Rejected pystr | UnicodeEncode | SocketError

definition is_truncated :: "rb_error \<Rightarrow> bool" where
  "is_truncated e = (case e of Truncated _ \<Rightarrow> True | _ \<Rightarrow> False)"

lemma is_truncated_simps [simp]:
  "is_truncated (Truncated k)" "\<not> is_truncated ReservedPrefix"
  by (simp_all add: is_truncated_def)

definition max_word_size :: int where "max_word_size = 65536"
definition max_sentence_size :: int where "max_sentence_size = 4194304"
definition max_response_bytes :: int where "max_response_bytes = 16777216"
definition max_response_replies :: nat where "max_response_replies = 10000"
definition max_reply_words :: nat where "max_reply_words = 4096"
definition max_response_words :: nat where "max_response_words = 65536"
definition max_reply_kind_bytes :: nat where "max_reply_kind_bytes = 32"
definition max_reply_field_name_bytes :: nat where "max_reply_field_name_bytes = 128"
definition max_reply_field_value_bytes :: nat where "max_reply_field_value_bytes = 4096"
definition max_query_word_bytes :: nat where "max_query_word_bytes = 512"

lemmas wire_limits =
  max_word_size_def max_sentence_size_def max_response_bytes_def max_response_replies_def
  max_reply_words_def max_response_words_def max_reply_kind_bytes_def
  max_reply_field_name_bytes_def max_reply_field_value_bytes_def max_query_word_bytes_def

section \<open>Lengths\<close>

definition encode_length :: "int \<Rightarrow> rb_error + byte list" where
  "encode_length n =
     (if n < 0 then Inl NegativeLength
      else if n < 0x80 then Inr [word_of_int n]
      else if n < 0x4000 then
        Inr [word_of_int (drop_bit 8 n OR 0x80), word_of_int (n AND 0xFF)]
      else if n < 0x200000 then
        Inr [word_of_int (drop_bit 16 n OR 0xC0), word_of_int (drop_bit 8 n AND 0xFF),
             word_of_int (n AND 0xFF)]
      else if n < 0x10000000 then
        Inr [word_of_int (drop_bit 24 n OR 0xE0), word_of_int (drop_bit 16 n AND 0xFF),
             word_of_int (drop_bit 8 n AND 0xFF), word_of_int (n AND 0xFF)]
      else if 0x100000000 \<le> n then Inl LengthTooLarge
      else
        Inr [0xF0, word_of_int (drop_bit 24 n AND 0xFF), word_of_int (drop_bit 16 n AND 0xFF),
             word_of_int (drop_bit 8 n AND 0xFF), word_of_int (n AND 0xFF)])"

definition decode_length :: "byte list \<Rightarrow> nat \<Rightarrow> rb_error + (int \<times> nat)" where
  "decode_length data offset =
     (if length data \<le> offset then Inl (Truncated Len1)
      else let first = uint (data ! offset); off = offset + 1; b = (\<lambda>i. uint (data ! i)) in
        if first < 0x80 then Inr (first, off)
        else if first < 0xC0 then
          (if length data \<le> off then Inl (Truncated Len2)
           else Inr (push_bit 8 (first AND 0x3F) OR b off, off + 1))
        else if first < 0xE0 then
          (if length data \<le> off + 1 then Inl (Truncated Len3)
           else Inr (push_bit 16 (first AND 0x1F) OR push_bit 8 (b off) OR b (off + 1), off + 2))
        else if first < 0xF0 then
          (if length data \<le> off + 2 then Inl (Truncated Len4)
           else Inr (push_bit 24 (first AND 0x0F) OR push_bit 16 (b off)
                       OR push_bit 8 (b (off + 1)) OR b (off + 2), off + 3))
        else if first = 0xF0 then
          (if length data < off + 4 then Inl (Truncated Len5)
           else Inr (((b off * 256 + b (off + 1)) * 256 + b (off + 2)) * 256 + b (off + 3),
                     off + 4))
        else Inl ReservedPrefix)"

lemma decode_length_advances:
  "decode_length data off = Inr (n, off') \<Longrightarrow> off < off' \<and> off' \<le> length data \<and> 0 \<le> n"
  by (auto simp: decode_length_def Let_def or_nonnegative_int_iff split: if_splits)

lemma decode_length_truncated_past_end:
  "length data \<le> off \<Longrightarrow> decode_length data off = Inl (Truncated Len1)"
  by (simp add: decode_length_def)

text \<open>The decoder looks at no byte past the length, so bytes that arrive later do not change it.\<close>

lemma decode_length_append:
  "decode_length data off = Inr r \<Longrightarrow> decode_length (data @ more) off = Inr r"
  unfolding decode_length_def Let_def by (simp add: nth_append_left split: if_split_asm)

lemma decode_length_append_error:
  "decode_length data off = Inl e \<Longrightarrow> \<not> is_truncated e \<Longrightarrow> decode_length (data @ more) off = Inl e"
  unfolding decode_length_def Let_def by (simp add: nth_append_left split: if_split_asm) auto

lemma decode_length_error_cases:
  "decode_length data off = Inl e \<Longrightarrow> is_truncated e \<or> e = ReservedPrefix"
  by (auto simp: decode_length_def Let_def split: if_splits)

subsection \<open>Bit arithmetic of the two directions\<close>

lemma or_push_bit_eq_add:
  assumes "0 \<le> b" and "b < 2 ^ n"
  shows "push_bit n a OR b = a * 2 ^ n + (b::int)"
proof -
  have "take_bit n b = b" using assms by (simp add: take_bit_int_eq_self)
  then have "push_bit n a OR b = concat_bit n b a"
    by (simp add: concat_bit_def or.commute)
  also have "\<dots> = b + push_bit n a"
    using \<open>take_bit n b = b\<close> by (simp add: concat_bit_eq)
  finally show ?thesis by (simp add: push_bit_eq_mult)
qed

lemma and_mask_int: "(n::int) AND (2 ^ k - 1) = n mod 2 ^ k"
  by (simp add: take_bit_eq_mask [symmetric] mask_eq_exp_minus_1 [symmetric] take_bit_eq_mod)

lemma and_low_bits:
  "(n::int) AND 0xFF = n mod 256" "n AND 0x3F = n mod 64"
  "n AND 0x1F = n mod 32" "n AND 0x0F = n mod 16"
  using and_mask_int [of n 8] and_mask_int [of n 6] and_mask_int [of n 5] and_mask_int [of n 4]
  by simp_all

lemma or_prefix:
  "0 \<le> b \<Longrightarrow> b < 64 \<Longrightarrow> b OR 0x80 = 128 + (b::int)"
  "0 \<le> b \<Longrightarrow> b < 32 \<Longrightarrow> b OR 0xC0 = 192 + b"
  "0 \<le> b \<Longrightarrow> b < 16 \<Longrightarrow> b OR 0xE0 = 224 + b"
  using or_push_bit_eq_add [of b 6 2] or_push_bit_eq_add [of b 5 6] or_push_bit_eq_add [of b 4 14]
  by (simp_all add: or.commute push_bit_eq_mult)

lemma uint_byte [simp]: "uint (word_of_int n :: byte) = n mod 256"
  by (simp add: uint_word_of_int)

lemma uint_byte_less [simp]: "uint (b :: byte) < 256" "0 \<le> uint b"
  using uint_lt2p [of b] by simp_all

text \<open>The arithmetic reading of the five encodings; in every branch the arguments of
  \<open>bytes(...)\<close> lie in \<open>range(256)\<close>, so the constructor never raises.\<close>

lemma encode_length_forms:
  assumes "encode_length n = Inr bs"
  shows "0 \<le> n \<and>
    (n < 0x80 \<and> bs = [word_of_int n]
     \<or> 0x80 \<le> n \<and> n < 0x4000 \<and> bs = [word_of_int (128 + n div 256), word_of_int (n mod 256)]
     \<or> 0x4000 \<le> n \<and> n < 0x200000 \<and>
         bs = [word_of_int (192 + n div 65536), word_of_int (n div 256 mod 256),
               word_of_int (n mod 256)]
     \<or> 0x200000 \<le> n \<and> n < 0x10000000 \<and>
         bs = [word_of_int (224 + n div 16777216), word_of_int (n div 65536 mod 256),
               word_of_int (n div 256 mod 256), word_of_int (n mod 256)]
     \<or> 0x10000000 \<le> n \<and> n < 0x100000000 \<and>
         bs = [0xF0, word_of_int (n div 16777216 mod 256), word_of_int (n div 65536 mod 256),
               word_of_int (n div 256 mod 256), word_of_int (n mod 256)])"
  using assms
  by (auto simp: encode_length_def drop_bit_eq_div and_low_bits or_prefix split: if_splits)

lemma encode_length_Inr_iff: "(\<exists>bs. encode_length n = Inr bs) \<longleftrightarrow> 0 \<le> n \<and> n < 0x100000000"
  by (auto simp: encode_length_def)

lemma encode_length_size: "encode_length n = Inr bs \<Longrightarrow> 1 \<le> length bs \<and> length bs \<le> 5"
  by (auto dest: encode_length_forms)

lemma encode_length_zero: "encode_length 0 = Inr [0]"
  by (simp add: encode_length_def)

text \<open>The decoder on each of the five prefixes, the bytes given by their values.\<close>

lemma decode_length_1:
  "uint b0 < 128 \<Longrightarrow> decode_length (pre @ b0 # rest) (length pre) = Inr (uint b0, length pre + 1)"
  by (simp add: decode_length_def Let_def)

lemma drop_prefix_bits:
  "0 \<le> h \<Longrightarrow> h < 64 \<Longrightarrow> (128 + h) mod 64 = (h::int)"
  "0 \<le> h \<Longrightarrow> h < 32 \<Longrightarrow> (192 + h) mod 32 = h"
  "0 \<le> h \<Longrightarrow> h < 16 \<Longrightarrow> (224 + h) mod 16 = h"
  using mod_mult_self2 [of h 64 2] mod_mult_self2 [of h 32 6] mod_mult_self2 [of h 16 14]
  by (simp_all add: add.commute)

lemma decode_length_2:
  "uint b0 = 128 + h \<Longrightarrow> 0 \<le> h \<Longrightarrow> h < 64 \<Longrightarrow>
   decode_length (pre @ b0 # b1 # rest) (length pre) = Inr (h * 256 + uint b1, length pre + 2)"
  by (simp add: decode_length_def Let_def nth_append and_low_bits or_push_bit_eq_add
      drop_prefix_bits)

lemma two_bytes_less: "uint (b1 :: byte) * 256 + uint (b2 :: byte) < 65536"
  using uint_byte_less [of b1] uint_byte_less [of b2] by linarith

lemma decode_length_3:
  assumes "uint b0 = 192 + h" and "0 \<le> h" and "h < 32"
  shows "decode_length (pre @ b0 # b1 # b2 # rest) (length pre)
     = Inr (h * 65536 + uint b1 * 256 + uint b2, length pre + 3)"
  using assms two_bytes_less [of b1 b2]
  by (simp add: decode_length_def Let_def nth_append and_low_bits or.assoc or_push_bit_eq_add
      drop_prefix_bits)

lemma decode_length_4:
  assumes "uint b0 = 224 + h" and "0 \<le> h" and "h < 16"
  shows "decode_length (pre @ b0 # b1 # b2 # b3 # rest) (length pre)
     = Inr (h * 16777216 + uint b1 * 65536 + uint b2 * 256 + uint b3, length pre + 4)"
proof -
  have "uint b1 * 65536 + (uint b2 * 256 + uint b3) < 16777216"
    using two_bytes_less [of b2 b3] uint_byte_less [of b1] by linarith
  with assms two_bytes_less [of b2 b3] show ?thesis
    by (simp add: decode_length_def Let_def nth_append and_low_bits or.assoc or_push_bit_eq_add
        drop_prefix_bits)
qed

lemma decode_length_5:
  "decode_length (pre @ 0xF0 # b1 # b2 # b3 # b4 # rest) (length pre)
     = Inr (uint b1 * 16777216 + uint b2 * 65536 + uint b3 * 256 + uint b4, length pre + 5)"
proof -
  let ?d = "pre @ 0xF0 # b1 # b2 # b3 # b4 # rest"
  have nth: "?d ! (length pre) = 0xF0" "?d ! (length pre + 1) = b1" "?d ! (length pre + 1 + 1) = b2"
    "?d ! (length pre + 1 + 2) = b3" "?d ! (length pre + 1 + 3) = b4"
    by (simp_all add: nth_append)
  have f0: "uint (0xF0 :: byte) = 240" by simp
  show ?thesis
    unfolding decode_length_def Let_def nth f0 by simp
qed

lemma base_256:
  "n div 65536 * 65536 + n div 256 mod 256 * 256 + n mod 256 = (n::int)"
  "n div 16777216 * 16777216 + n div 65536 mod 256 * 65536 + n div 256 mod 256 * 256 + n mod 256
     = (n::int)"
proof -
  have d: "n div 65536 = n div 256 div 256" "n div 16777216 = n div 256 div 256 div 256"
    by (simp_all add: zdiv_zmult2_eq [symmetric])
  have m: "k = k div 256 * 256 + k mod 256" for k :: int by simp
  show "n div 65536 * 65536 + n div 256 mod 256 * 256 + n mod 256 = n"
    unfolding d using m [of n] m [of "n div 256"] by linarith
  show "n div 16777216 * 16777216 + n div 65536 mod 256 * 65536 + n div 256 mod 256 * 256
      + n mod 256 = n"
    unfolding d using m [of n] m [of "n div 256"] m [of "n div 256 div 256"] by linarith
qed

lemma decode_encode_length:
  assumes "encode_length n = Inr bs"
  shows "decode_length (pre @ bs @ rest) (length pre) = Inr (n, length pre + length bs)"
proof -
  note n3 = base_256(1) [of n] and n4 = base_256(2) [of n]
  from encode_length_forms [OF assms] show ?thesis
  proof (elim conjE disjE, goal_cases)
    case 1
    then show ?case using decode_length_1 [of "word_of_int n" pre rest] by simp
  next
    case 2
    then have h: "0 \<le> n div 256" "n div 256 < 64" by simp_all
    then have u: "uint (word_of_int (128 + n div 256) :: byte) = 128 + n div 256"
      by (subst uint_byte) (rule mod_pos_pos_trivial, linarith+)
    show ?case
      using decode_length_2 [OF u h, of pre "word_of_int (n mod 256)" rest] 2(4)
      by (simp only: uint_byte mod_mod_trivial div_mult_mod_eq) simp
  next
    case 3
    then have h: "0 \<le> n div 65536" "n div 65536 < 32" by simp_all
    then have u: "uint (word_of_int (192 + n div 65536) :: byte) = 192 + n div 65536"
      by (subst uint_byte) (rule mod_pos_pos_trivial, linarith+)
    show ?case
      using decode_length_3 [OF u h, of pre "word_of_int (n div 256 mod 256)"
          "word_of_int (n mod 256)" rest] 3(4)
      by (simp only: uint_byte mod_mod_trivial n3) simp
  next
    case 4
    then have h: "0 \<le> n div 16777216" "n div 16777216 < 16" by simp_all
    then have u: "uint (word_of_int (224 + n div 16777216) :: byte) = 224 + n div 16777216"
      by (subst uint_byte) (rule mod_pos_pos_trivial, linarith+)
    show ?case
      using decode_length_4 [OF u h, of pre "word_of_int (n div 65536 mod 256)"
          "word_of_int (n div 256 mod 256)" "word_of_int (n mod 256)" rest] 4(4)
      by (simp only: uint_byte mod_mod_trivial n4) simp
  next
    case 5
    then have "n div 16777216 mod 256 = n div 16777216" by simp
    then have "uint (word_of_int (n div 16777216 mod 256) :: byte) * 16777216
        + uint (word_of_int (n div 65536 mod 256) :: byte) * 65536
        + uint (word_of_int (n div 256 mod 256) :: byte) * 256
        + uint (word_of_int (n mod 256) :: byte) = n"
      by (simp only: uint_byte mod_mod_trivial n4)
    moreover have "length bs = 5" unfolding 5(4) by simp
    ultimately show ?case
      using decode_length_5 [of pre "word_of_int (n div 16777216 mod 256)"
          "word_of_int (n div 65536 mod 256)" "word_of_int (n div 256 mod 256)"
          "word_of_int (n mod 256)" rest]
      by (simp only: 5(4) append_Cons append_Nil)
  qed
qed

text \<open>A length read from the wire took at least as many bytes as \<open>encode_length\<close> would use.\<close>

lemma decoded_bounds:
  "push_bit 8 (a AND 0x3F) OR uint (b :: byte) < 0x4000"
  "push_bit 16 (a AND 0x1F) OR push_bit 8 (uint (b :: byte)) OR uint (c :: byte) < 0x200000"
  "push_bit 24 (a AND 0x0F) OR push_bit 16 (uint (b :: byte)) OR push_bit 8 (uint (c :: byte))
     OR uint (d :: byte) < 0x10000000"
proof -
  have m: "a mod 64 < 64" "a mod 32 < 32" "a mod 16 < (16::int)" by simp_all
  have l2: "uint b * 256 + uint c < 65536" "uint c * 256 + uint d < 65536"
    by (rule two_bytes_less)+
  have l3: "uint b * 65536 + (uint c * 256 + uint d) < 16777216"
    using l2(2) uint_byte_less [of b] by linarith
  show "push_bit 8 (a AND 0x3F) OR uint b < 0x4000"
  proof -
    have "push_bit 8 (a mod 64) OR uint b = a mod 64 * 256 + uint b"
      using or_push_bit_eq_add [of "uint b" 8 "a mod 64"] by simp
    also have "\<dots> < 0x4000" using m(1) uint_byte_less(1) [of b] by linarith
    finally show ?thesis by (simp add: and_low_bits)
  qed
  show "push_bit 16 (a AND 0x1F) OR push_bit 8 (uint b) OR uint c < 0x200000"
    using m(2) l2(1) by (simp add: and_low_bits or.assoc or_push_bit_eq_add)
  show "push_bit 24 (a AND 0x0F) OR push_bit 16 (uint b) OR push_bit 8 (uint c) OR uint d < 0x10000000"
    using m(3) l2(2) l3 by (simp add: and_low_bits or.assoc or_push_bit_eq_add)
qed

lemma decode_length_value:
  assumes "decode_length data off = Inr (n, off')"
  shows "off' = off + 1 \<and> n < 0x80 \<or> off' = off + 2 \<and> n < 0x4000 \<or>
    off' = off + 3 \<and> n < 0x200000 \<or> off' = off + 4 \<and> n < 0x10000000 \<or> off' = off + 5"
  using assms unfolding decode_length_def Let_def
  by (simp split: if_split_asm) (use decoded_bounds in \<open>auto simp: or.assoc\<close>)

lemma decode_length_minimal:
  assumes "decode_length data off = Inr (n, off')" and "encode_length n = Inr bs"
  shows "off + length bs \<le> off'"
  using decode_length_value [OF assms(1)] encode_length_forms [OF assms(2)] by auto

section \<open>Words and sentences\<close>

datatype word_arg = WStr pystr | WBytes "byte list"

definition word_payload :: "word_arg \<Rightarrow> rb_error + byte list" where
  "word_payload w =
     (case w of
        WStr s \<Rightarrow> (case utf8_encode s of None \<Rightarrow> Inl UnicodeEncode | Some bs \<Rightarrow> Inr bs)
      | WBytes bs \<Rightarrow> Inr bs)"

definition encode_word :: "word_arg \<Rightarrow> rb_error + byte list" where
  "encode_word w =
     ebind (word_payload w) (\<lambda>payload.
     ebind (encode_length (int (length payload))) (\<lambda>len. Inr (len @ payload)))"

definition encode_sentence :: "word_arg list \<Rightarrow> rb_error + byte list" where
  "encode_sentence ws = ebind (emap encode_word ws) (\<lambda>parts. Inr (concat parts @ [0]))"

text \<open>\<open>decode_words\<close>: the \<open>while\<close> loop with its accumulator \<open>words\<close>.\<close>

function decode_words_from :: "byte list \<Rightarrow> nat \<Rightarrow> byte list list \<Rightarrow> rb_error + byte list list" where
  "decode_words_from data offset ws =
     (if length data \<le> offset then Inl MissingTerminator
      else case decode_length data offset of
        Inl e \<Rightarrow> Inl e
      | Inr (len, off) \<Rightarrow>
          if len = 0 then (if off \<noteq> length data then Inl DataAfterTerminator else Inr ws)
          else let stop = off + nat len in
            if length data < stop then Inl (Truncated TruncWord)
            else if max_word_size < len then Inl WordTooLarge
            else decode_words_from data stop (ws @ [take (nat len) (drop off data)]))"
  by pat_completeness auto
termination
  by (relation "measure (\<lambda>(data, offset, ws). length data - offset)")
     (auto dest!: decode_length_advances)

declare decode_words_from.simps [simp del]

definition decode_words :: "byte list \<Rightarrow> rb_error + byte list list" where
  "decode_words data = decode_words_from data 0 []"

lemma decode_word_step:
  assumes enc: "encode_word (WBytes w) = Inr bs" and "w \<noteq> []" and "int (length w) \<le> max_word_size"
  shows "decode_words_from (pre @ bs @ rest) (length pre) ws
           = decode_words_from (pre @ bs @ rest) (length (pre @ bs)) (ws @ [w])"
proof -
  from enc obtain len where len: "encode_length (int (length w)) = Inr len" and bs: "bs = len @ w"
    by (auto simp: encode_word_def word_payload_def err_simps)
  have "decode_length (pre @ len @ w @ rest) (length pre) = Inr (int (length w), length pre + length len)"
    by (rule decode_encode_length [OF len])
  then show ?thesis
    using assms(2,3) encode_length_size [OF len]
    by (subst decode_words_from.simps) (auto simp: bs Let_def add.assoc)
qed

lemma decode_encoded_words:
  assumes "emap encode_word (map WBytes ws) = Inr parts"
    and "\<forall>w\<in>set ws. w \<noteq> [] \<and> int (length w) \<le> max_word_size"
  shows "decode_words_from (pre @ concat parts @ [0]) (length pre) acc = Inr (acc @ ws)"
  using assms
proof (induction ws arbitrary: pre parts acc)
  case Nil
  have "decode_length (pre @ [0]) (length pre) = Inr (0, length pre + 1)"
    using decode_length_1 [of 0 pre "[]"] by simp
  with Nil show ?case by (subst decode_words_from.simps) auto
next
  case (Cons w ws)
  then obtain bs parts' where bs: "encode_word (WBytes w) = Inr bs"
    and rest: "emap encode_word (map WBytes ws) = Inr parts'" and parts: "parts = bs # parts'"
    by (auto simp: err_simps)
  have "decode_words_from (pre @ bs @ concat parts' @ [0]) (length pre) acc
      = decode_words_from ((pre @ bs) @ concat parts' @ [0]) (length (pre @ bs)) (acc @ [w])"
    using decode_word_step [OF bs, of pre "concat parts' @ [0]" acc] Cons.prems(2) by simp
  also have "\<dots> = Inr ((acc @ [w]) @ ws)"
    using Cons.prems(2) by (intro Cons.IH [OF rest]) simp
  finally show ?case by (simp add: parts)
qed

lemma decode_words_encode_sentence:
  assumes "encode_sentence (map WBytes ws) = Inr bs"
    and "\<forall>w\<in>set ws. w \<noteq> [] \<and> int (length w) \<le> max_word_size"
  shows "decode_words bs = Inr ws"
proof -
  from assms(1) obtain parts where "emap encode_word (map WBytes ws) = Inr parts"
    and "bs = concat parts @ [0]"
    by (auto simp: encode_sentence_def err_simps)
  then show ?thesis
    using decode_encoded_words [of ws parts "[]" "[]"] assms(2) by (simp add: decode_words_def)
qed

text \<open>An empty word is the terminator: a sentence that holds one does not survive the wire.\<close>

lemma empty_word_ends_sentence:
  "encode_sentence [WBytes [], WBytes [1]] = Inr [0, 1, 1, 0]"
  "decode_words [0, 1, 1, 0] = Inl DataAfterTerminator"
  by (simp_all add: encode_sentence_def encode_word_def word_payload_def encode_length_def
      decode_words_def decode_words_from.simps decode_length_def)

section \<open>Properties\<close>

text \<open>C32: every length that \<open>encode_length\<close> accepts is read back by \<open>decode_length\<close>,
  at any offset and whatever follows, and exactly its own bytes are consumed; the accepted
  lengths are those below \<open>2 ^ 32\<close>.\<close>

theorem length_roundtrip:
  assumes "0 \<le> n" and "n < 0x100000000"
  shows "\<exists>bs. encode_length n = Inr bs \<and>
    (\<forall>pre rest. decode_length (pre @ bs @ rest) (length pre) = Inr (n, length pre + length bs))"
proof -
  obtain bs where "encode_length n = Inr bs"
    using assms encode_length_Inr_iff [of n] by auto
  then show ?thesis using decode_encode_length by blast
qed

theorem length_roundtrip_witness:
  "\<exists>bs. encode_length 300 = Inr bs \<and>
    (\<forall>pre rest. decode_length (pre @ bs @ rest) (length pre) = Inr (300, length pre + length bs))"
  using length_roundtrip [of 300] by simp

text \<open>C33: a sentence of non-empty words within the word limit survives the wire: what
  \<open>encode_sentence\<close> writes, \<open>decode_words\<close> reads back word for word.\<close>

theorem sentence_roundtrip:
  assumes "encode_sentence (map WBytes ws) = Inr bs"
    and "\<forall>w\<in>set ws. w \<noteq> [] \<and> int (length w) \<le> max_word_size"
  shows "decode_words bs = Inr ws"
  using assms by (rule decode_words_encode_sentence)

theorem sentence_roundtrip_witness: "decode_words [2, 33, 97, 0] = Inr [[33, 97]]"
  using sentence_roundtrip [of "[[33, 97]]" "[2, 33, 97, 0]"]
  by (simp add: encode_sentence_def encode_word_def word_payload_def encode_length_def wire_limits)

end
