(* ===== verification/Reply.thy ===== *)
theory Reply
  imports Wire
begin

text \<open>
  \<open>parse_reply\<close> and \<open>RouterOSReply\<close> of \<open>routeros_binary.py\<close>: a sentence becomes a reply kind
  and a dictionary of attributes, under limits on the words, the field names and the values.
  \<open>utf8_replace\<close> is \<open>bytes.decode("utf-8", "replace")\<close>: every maximal prefix of an invalid
  sequence becomes one U+FFFD. The lemmas show that decoding commutes with the split at
  "=", so that the limits checked on the bytes bound the decoded names and values, and that
  the fields of a well-formed reply are read back in order.
\<close>

section \<open>Decoding with replacement\<close>

definition utf8_cont :: "nat \<Rightarrow> bool" where
  "utf8_cont b \<longleftrightarrow> 128 \<le> b \<and> b < 192"

definition utf8_second :: "nat \<Rightarrow> nat \<Rightarrow> bool" where
  "utf8_second b0 b1 \<longleftrightarrow>
     (if b0 = 224 then 160 \<le> b1 \<and> b1 < 192
      else if b0 = 237 then 128 \<le> b1 \<and> b1 < 160
      else if b0 = 240 then 144 \<le> b1 \<and> b1 < 192
      else if b0 = 244 then 128 \<le> b1 \<and> b1 < 144
      else 194 \<le> b0 \<and> b0 < 244 \<and> utf8_cont b1)"

text \<open>The first character of a non-empty input and the number of bytes it took after \<open>b0\<close>.\<close>

definition utf8_step :: "nat \<Rightarrow> nat list \<Rightarrow> nat \<times> nat" where
  "utf8_step b0 bs =
     (if b0 < 128 then (b0, 0)
      else if bs = [] \<or> \<not> utf8_second b0 (bs ! 0) then (65533, 0)
      else if b0 < 224 then ((b0 - 192) * 64 + (bs ! 0 - 128), 1)
      else if length bs < 2 \<or> \<not> utf8_cont (bs ! 1) then (65533, 1)
      else if b0 < 240 then ((b0 - 224) * 4096 + (bs ! 0 - 128) * 64 + (bs ! 1 - 128), 2)
      else if length bs < 3 \<or> \<not> utf8_cont (bs ! 2) then (65533, 2)
      else ((b0 - 240) * 262144 + (bs ! 0 - 128) * 4096 + (bs ! 1 - 128) * 64 + (bs ! 2 - 128), 3))"

fun utf8_replace_nat :: "nat list \<Rightarrow> pystr" where
  "utf8_replace_nat [] = []"
| "utf8_replace_nat (b0 # bs) =
     (case utf8_step b0 bs of (c, k) \<Rightarrow> c # utf8_replace_nat (drop k bs))"

definition utf8_replace :: "byte list \<Rightarrow> pystr" where
  "utf8_replace bs = utf8_replace_nat (map unat bs)"

lemma utf8_step_ascii: "b0 < 128 \<Longrightarrow> utf8_step b0 bs = (b0, 0)"
  by (simp add: utf8_step_def)

lemma utf8_step_length: "utf8_step b0 bs = (c, k) \<Longrightarrow> k \<le> length bs"
  by (auto simp: utf8_step_def Suc_le_eq split: if_splits)

lemma utf8_step_high:
  assumes "utf8_step b0 bs = (c, k)" and "c < 128" shows "c = b0 \<and> k = 0"
proof -
  have big: "utf8_second b0 b1 \<Longrightarrow> b0 < 224 \<Longrightarrow> 128 \<le> (b0 - 192) * 64 + (b1 - 128)" for b1
    by (auto simp: utf8_second_def split: if_splits)
  have big3: "utf8_second b0 b1 \<Longrightarrow> \<not> b0 < 224 \<Longrightarrow> 128 \<le> (b0 - 224) * 4096 + (b1 - 128) * 64 + x" for b1 x
    by (cases "b0 = 224") (auto simp: utf8_second_def)
  have big4: "utf8_second b0 b1 \<Longrightarrow> \<not> b0 < 240 \<Longrightarrow>
      128 \<le> (b0 - 240) * 262144 + (b1 - 128) * 4096 + x" for b1 x
    by (cases "b0 = 240") (auto simp: utf8_second_def)
  show ?thesis
    using assms big [of "bs ! 0"] big3 [of "bs ! 0" "bs ! 1 - 128"]
      big4 [of "bs ! 0" "(bs ! 1 - 128) * 64 + (bs ! 2 - 128)"]
    unfolding utf8_step_def by (simp split: if_split_asm)
qed

lemma utf8_step_append:
  "c < 128 \<Longrightarrow> utf8_step b0 (a @ c # b) = utf8_step b0 a"
proof -
  assume c: "c < 128"
  then have n: "\<not> utf8_cont c" "128 \<le> b0 \<Longrightarrow> \<not> utf8_second b0 c"
    by (auto simp: utf8_cont_def utf8_second_def)
  consider "a = []" | x where "a = [x]" | x y where "a = [x, y]"
    | x y z as where "a = x # y # z # as"
    by (metis neq_Nil_conv)
  then show ?thesis
    using n by cases (simp_all add: utf8_step_def)
qed

lemma length_utf8_replace_nat: "length (utf8_replace_nat bs) \<le> length bs"
proof (induction bs rule: utf8_replace_nat.induct)
  case (2 b0 bs)
  obtain c k where s: "utf8_step b0 bs = (c, k)" by fastforce
  with 2 [OF s [symmetric]] show ?case by simp
qed simp

lemma length_utf8_replace: "length (utf8_replace bs) \<le> length bs"
  using length_utf8_replace_nat [of "map unat bs"] by (simp add: utf8_replace_def)

lemma utf8_replace_nat_ascii:
  "c < 128 \<Longrightarrow> utf8_replace_nat (a @ c # b) = utf8_replace_nat a @ c # utf8_replace_nat b"
proof (induction a rule: utf8_replace_nat.induct)
  case 1
  then show ?case by (simp add: utf8_step_ascii)
next
  case (2 b0 bs)
  obtain d k where s: "utf8_step b0 bs = (d, k)" by fastforce
  with "2.IH" [OF s [symmetric]] "2.prems" utf8_step_append [of c b0 bs b] utf8_step_length [OF s]
  show ?case by simp
qed

lemma utf8_replace_ascii:
  "unat c < 128 \<Longrightarrow> utf8_replace (a @ c # b) = utf8_replace a @ unat c # utf8_replace b"
  by (simp add: utf8_replace_def utf8_replace_nat_ascii)

lemma utf8_replace_Nil [simp]: "utf8_replace [] = []"
  by (simp add: utf8_replace_def)

lemma utf8_replace_Cons_ascii [simp]:
  "unat c < 128 \<Longrightarrow> utf8_replace (c # b) = unat c # utf8_replace b"
  using utf8_replace_ascii [of c "[]" b] by simp

lemma utf8_replace_low: "c \<in> set (utf8_replace_nat bs) \<Longrightarrow> c < 128 \<Longrightarrow> c \<in> set bs"
proof (induction bs rule: utf8_replace_nat.induct)
  case (2 b0 bs)
  obtain d k where s: "utf8_step b0 bs = (d, k)" by fastforce
  with "2.IH" [OF s [symmetric]] "2.prems" utf8_step_high [OF s] show ?case
    by (auto dest: in_set_dropD)
qed simp

text \<open>Decoding inverts \<open>str.encode\<close>.\<close>

lemma unat_small_byte [simp]: "n < 256 \<Longrightarrow> unat (of_nat n :: byte) = n"
  by (simp add: unat_of_nat)

lemma map_unat_utf8_cp:
  "cp_valid c \<Longrightarrow> map unat (utf8_cp c) =
     (if c < 128 then [c]
      else if c < 2048 then [192 + c div 64, 128 + c mod 64]
      else if c < 65536 then [224 + c div 4096, 128 + c div 64 mod 64, 128 + c mod 64]
      else [240 + c div 262144, 128 + c div 4096 mod 64, 128 + c div 64 mod 64, 128 + c mod 64])"
proof -
  assume "cp_valid c"
  then have "c div 262144 < 16"
    by (intro less_mult_imp_div_less) (simp add: cp_valid_def)
  then show ?thesis
    by (simp add: utf8_cp_def less_mult_imp_div_less del: of_nat_add)
qed

lemma utf8_step_cp:
  assumes "cp_valid c"
  shows "\<exists>b0 bs. map unat (utf8_cp c) = b0 # bs \<and> utf8_step b0 (bs @ rest) = (c, length bs)"
proof -
  define l m q p where "l = c mod 64" and "m = c div 64 mod 64" and "q = c div 4096 mod 64"
    and "p = c div 262144"
  have q': "c div 4096 = p * 64 + q"
    using div_mult_mod_eq [of "c div 4096" 64] by (simp add: q_def p_def div_mult2_eq [symmetric])
  have "c div 64 = c div 4096 * 64 + m"
    using div_mult_mod_eq [of "c div 64" 64] by (simp add: m_def div_mult2_eq [symmetric])
  then have c: "c = p * 262144 + q * 4096 + m * 64 + l"
    using q' div_mult_mod_eq [of c 64] by (simp add: l_def)
  have b: "l < 64" "m < 64" "q < 64"
    by (simp_all add: l_def m_def q_def)
  consider "c < 128" | "128 \<le> c" "c < 2048" | "2048 \<le> c" "c < 65536" | "65536 \<le> c" "c < 1114112"
    using assms unfolding cp_valid_def by linarith
  then show ?thesis
  proof cases
    case 1
    then show ?thesis using assms by (simp add: map_unat_utf8_cp utf8_step_ascii)
  next
    case 2
    define h where "h = c div 64"
    have h: "c = h * 64 + l" by (simp add: h_def l_def)
    with 2 b have "2 \<le> h" "h < 32" by auto
    then show ?thesis
      using 2 h b unfolding map_unat_utf8_cp [OF assms] h_def [symmetric] l_def [symmetric]
      by (simp add: utf8_step_def utf8_second_def utf8_cont_def)
  next
    case 3
    with c b have p: "p = 0" "q < 16" by auto
    have "utf8_second (224 + q) (128 + m)"
      using c b p 3 assms by (auto simp: utf8_second_def utf8_cont_def cp_valid_def)
    then show ?thesis
      using c b p 3 q' unfolding map_unat_utf8_cp [OF assms] m_def [symmetric] l_def [symmetric]
      by (simp add: utf8_step_def utf8_cont_def)
  next
    case 4
    with c b have p: "p \<le> 4" by auto
    have "utf8_second (240 + p) (128 + q)"
      using c b p 4 by (auto simp: utf8_second_def utf8_cont_def)
    then show ?thesis
      using c b p 4 unfolding map_unat_utf8_cp [OF assms] m_def [symmetric] l_def [symmetric] p_def [symmetric]
        q_def [symmetric]
      by (simp add: utf8_step_def utf8_cont_def)
  qed
qed

lemma utf8_replace_encode: "utf8_encode s = Some bs \<Longrightarrow> utf8_replace bs = s"
proof (induction s arbitrary: bs)
  case Nil
  then show ?case by (simp add: utf8_encode_def)
next
  case (Cons c s)
  then have v: "cp_valid c" and bs: "bs = utf8_cp c @ concat (map utf8_cp s)"
    and s: "utf8_encode s = Some (concat (map utf8_cp s))"
    by (auto simp: utf8_encode_def split: if_splits)
  let ?rest = "map unat (concat (map utf8_cp s))"
  obtain b0 cs where "map unat (utf8_cp c) = b0 # cs" "utf8_step b0 (cs @ ?rest) = (c, length cs)"
    using utf8_step_cp [OF v, of ?rest] by (elim exE conjE)
  then show ?case
    using Cons.IH [OF s] by (simp add: bs utf8_replace_def)
qed

section \<open>\<open>parse_reply\<close>\<close>

record reply =
  rp_kind :: pystr
  rp_attrs :: "(pystr, pystr) dict"

definition reply_dead :: "reply \<Rightarrow> bool" where
  "reply_dead r \<longleftrightarrow> casefold (dget_or (rp_attrs r) (lit ''.dead'') []) = lit ''yes''"

text \<open>\<open>partition\<close> of \<open>bytes\<close> and \<open>str\<close> at a one-character separator.\<close>

definition py_partition :: "'a \<Rightarrow> 'a list \<Rightarrow> 'a list \<times> bool \<times> 'a list" where
  "py_partition c xs =
     (takeWhile (\<lambda>x. x \<noteq> c) xs, c \<in> set xs, drop 1 (dropWhile (\<lambda>x. x \<noteq> c) xs))"

fun parse_fields :: "nat \<Rightarrow> byte list list \<Rightarrow> (pystr, pystr) dict \<Rightarrow> rb_error + (pystr, pystr) dict"
where
  "parse_fields word_count [] attributes = Inr attributes"
| "parse_fields word_count (raw # iterator) attributes =
     (if max_reply_words < word_count then Inl ReplyTooManyWords
      else if max_word_size < int (length raw) then Inl WordTooLarge
      else case py_partition 61 (if take 1 raw = [61] then drop 1 raw else raw) of
        (key_bytes, separator, value_bytes) \<Rightarrow>
          if max_reply_field_name_bytes < length (if separator then key_bytes else raw)
          then Inl FieldNameTooLong
          else if separator \<and> max_reply_field_value_bytes < length value_bytes
          then Inl FieldValueTooLong
          else
            let text = utf8_replace raw;
                (key, found, val) =
                  (if take 1 text = [61] then py_partition 61 (drop 1 text)
                   else if take 1 text = [46] then py_partition 61 text
                   else py_partition 61 text);
                attributes' = (if found then dset key val attributes else dset text [] attributes)
            in if max_reply_words - 1 < length attributes' then Inl TooManyAttributes
               else parse_fields (word_count + 1) iterator attributes')"

definition parse_reply :: "byte list list \<Rightarrow> rb_error + reply" where
  "parse_reply ws =
     (case ws of
        [] \<Rightarrow> Inl NoReplyKind
      | first # iterator \<Rightarrow>
          if take 1 first \<noteq> [33] then Inl NoReplyKind
          else if max_reply_kind_bytes < length first then Inl KindTooLong
          else ebind (parse_fields 2 iterator [])
            (\<lambda>attributes. Inr \<lparr>rp_kind = drop 1 (utf8_replace first), rp_attrs = attributes\<rparr>))"

section \<open>Decoding and splitting commute\<close>

lemma py_partition_split:
  "c \<notin> set a \<Longrightarrow> py_partition c (a @ c # b) = (a, True, b)"
  by (induction a) (auto simp: py_partition_def)

lemma py_partition_none: "c \<notin> set a \<Longrightarrow> py_partition c a = (a, False, [])"
  by (induction a) (auto simp: py_partition_def)

lemma utf8_replace_no_ascii:
  "unat c < 128 \<Longrightarrow> c \<notin> set bs \<Longrightarrow> unat c \<notin> set (utf8_replace bs)"
  using utf8_replace_low [of "unat c" "map unat bs"]
  by (auto simp: utf8_replace_def word_unat_eq_iff [symmetric])

lemma utf8_replace_partition:
  assumes "unat c < 128"
  shows "py_partition (unat c) (utf8_replace bs) =
    (case py_partition c bs of (k, found, v) \<Rightarrow> (utf8_replace k, found, utf8_replace v))"
proof (cases "c \<in> set bs")
  case True
  then obtain a b where bs: "bs = a @ c # b" and "c \<notin> set a"
    by (meson split_list_first)
  then show ?thesis
    using utf8_replace_no_ascii [OF assms] assms
    by (simp add: utf8_replace_ascii py_partition_split)
next
  case False
  then show ?thesis
    using utf8_replace_no_ascii [OF assms] by (simp add: py_partition_none)
qed

lemma utf8_replace_take1:
  assumes "unat c < 128"
  shows "take 1 (utf8_replace bs) = [unat c] \<longleftrightarrow> take 1 bs = [c]"
proof (cases bs)
  case (Cons b bs')
  obtain d k where s: "utf8_step (unat b) (map unat bs') = (d, k)" by fastforce
  then have "utf8_replace bs = d # utf8_replace_nat (drop k (map unat bs'))"
    by (simp add: utf8_replace_def Cons)
  with s Cons assms show ?thesis
    using utf8_step_high [OF s] utf8_step_ascii [of "unat c" "map unat bs'"]
    by (auto simp: word_unat_eq_iff [symmetric])
qed simp

lemma utf8_replace_drop1:
  assumes "unat c < 128" and "take 1 bs = [c]"
  shows "drop 1 (utf8_replace bs) = utf8_replace (drop 1 bs)"
  using assms by (cases bs) auto

text \<open>One attribute word, decoded: the limits checked on its bytes hold for the entry.\<close>

definition field_entry :: "byte list \<Rightarrow> pystr \<times> pystr" where
  "field_entry raw =
     (case py_partition 61 (if take 1 raw = [61] then drop 1 raw else raw) of
        (k, found, v) \<Rightarrow> if found then (utf8_replace k, utf8_replace v) else (utf8_replace raw, []))"

lemma unat_eq_sign [simp]: "unat (61 :: byte) = 61" "unat (46 :: byte) = 46" "unat (33 :: byte) = 33"
  by simp_all

lemma parse_fields_Cons:
  "parse_fields n (raw # ws) attrs =
     (case py_partition 61 (if take 1 raw = [61] then drop 1 raw else raw) of
        (k, found, v) \<Rightarrow>
     if max_reply_words < n then Inl ReplyTooManyWords
     else if max_word_size < int (length raw) then Inl WordTooLarge
     else if max_reply_field_name_bytes < length (if found then k else raw) then Inl FieldNameTooLong
     else if found \<and> max_reply_field_value_bytes < length v then Inl FieldValueTooLong
     else let attrs' = dset (fst (field_entry raw)) (snd (field_entry raw)) attrs in
       if max_reply_words - 1 < length attrs' then Inl TooManyAttributes
       else parse_fields (n + 1) ws attrs')"
proof -
  have "py_partition 61 (if take 1 (utf8_replace raw) = [61] then drop 1 (utf8_replace raw) else utf8_replace raw)
    = (case py_partition 61 (if take 1 raw = [61] then drop 1 raw else raw) of
        (k, found, v) \<Rightarrow> (utf8_replace k, found, utf8_replace v))"
    using utf8_replace_partition [of 61] utf8_replace_take1 [of 61 raw]
      utf8_replace_drop1 [of 61 raw] by simp
  moreover obtain k found v
    where p: "py_partition 61 (if take 1 raw = [61] then drop 1 raw else raw) = (k, found, v)"
    by (metis prod_cases3)
  ultimately have t: "(if take 1 (utf8_replace raw) = [61] then py_partition 61 (drop 1 (utf8_replace raw))
      else if take 1 (utf8_replace raw) = [46] then py_partition 61 (utf8_replace raw)
      else py_partition 61 (utf8_replace raw)) = (utf8_replace k, found, utf8_replace v)"
    by (simp split: if_split_asm)
  show ?thesis
    unfolding parse_fields.simps Let_def t p field_entry_def by simp
qed


section \<open>What the limits guarantee\<close>

definition reply_bounded :: "reply \<Rightarrow> bool" where
  "reply_bounded r \<longleftrightarrow>
     dict_ok (rp_attrs r) \<and> length (rp_attrs r) < max_reply_words \<and>
     length (rp_kind r) < max_reply_kind_bytes \<and>
     (\<forall>(k, v)\<in>set (rp_attrs r). length k \<le> max_reply_field_name_bytes \<and>
        length v \<le> max_reply_field_value_bytes)"

lemma field_entry_bounds:
  assumes "py_partition 61 (if take 1 raw = [61] then drop 1 raw else raw) = (k, found, v)"
    and "length (if found then k else raw) \<le> max_reply_field_name_bytes"
    and "found \<longrightarrow> length v \<le> max_reply_field_value_bytes"
  shows "length (fst (field_entry raw)) \<le> max_reply_field_name_bytes"
    "length (snd (field_entry raw)) \<le> max_reply_field_value_bytes"
  using assms length_utf8_replace [of k] length_utf8_replace [of v] length_utf8_replace [of raw]
  by (auto simp: field_entry_def split: if_splits)

lemma parse_fields_bounded:
  assumes "parse_fields n ws attrs = Inr attrs'"
    and "dict_ok attrs" and "length attrs < max_reply_words"
    and "\<forall>(k, v)\<in>set attrs. length k \<le> max_reply_field_name_bytes \<and>
        length v \<le> max_reply_field_value_bytes"
  shows "dict_ok attrs' \<and> length attrs' < max_reply_words \<and>
    (\<forall>(k, v)\<in>set attrs'. length k \<le> max_reply_field_name_bytes \<and>
        length v \<le> max_reply_field_value_bytes)"
  using assms
proof (induction ws arbitrary: n attrs)
  case (Cons raw ws)
  obtain k found v
    where p: "py_partition 61 (if take 1 raw = [61] then drop 1 raw else raw) = (k, found, v)"
    by (metis prod_cases3)
  let ?new = "dset (fst (field_entry raw)) (snd (field_entry raw)) attrs"
  from Cons.prems(1) have
    b: "length (if found then k else raw) \<le> max_reply_field_name_bytes"
      "found \<longrightarrow> length v \<le> max_reply_field_value_bytes"
    and new: "length ?new < max_reply_words" and rec: "parse_fields (n + 1) ws ?new = Inr attrs'"
    unfolding parse_fields_Cons p Let_def by (auto simp: wire_limits split: if_split_asm)
  show ?case
    using Cons.IH [OF rec] Cons.prems new field_entry_bounds [OF p b]
      set_dset_subset [of "fst (field_entry raw)" "snd (field_entry raw)" attrs]
    by fastforce
qed simp

lemma parse_reply_bounded:
  assumes "parse_reply ws = Inr r"
  shows "reply_bounded r"
proof -
  obtain first rest attrs where ws: "ws = first # rest" "length first \<le> max_reply_kind_bytes"
    "take 1 first = [33]" and attrs: "parse_fields 2 rest [] = Inr attrs"
    and r: "r = \<lparr>rp_kind = drop 1 (utf8_replace first), rp_attrs = attrs\<rparr>"
    using assms by (auto simp: parse_reply_def err_simps split: list.splits if_splits)
  have "length (drop 1 (utf8_replace first)) < max_reply_kind_bytes"
    using ws length_utf8_replace [of first] by (cases first) (auto simp: wire_limits)
  then show ?thesis
    using parse_fields_bounded [OF attrs] by (simp add: reply_bounded_def r wire_limits)
qed

section \<open>Well-formed replies\<close>

text \<open>The words a router sends for a reply with the given attributes.\<close>

definition field_word :: "byte list \<times> byte list \<Rightarrow> byte list" where
  "field_word kv = 61 # fst kv @ 61 # snd kv"

definition field_fits :: "byte list \<times> byte list \<Rightarrow> bool" where
  "field_fits kv \<longleftrightarrow> 61 \<notin> set (fst kv) \<and> length (fst kv) \<le> max_reply_field_name_bytes \<and>
     length (snd kv) \<le> max_reply_field_value_bytes"

definition decoded :: "byte list \<times> byte list \<Rightarrow> pystr \<times> pystr" where
  "decoded kv = (utf8_replace (fst kv), utf8_replace (snd kv))"

lemma parse_fields_words:
  assumes "\<forall>kv\<in>set kvs. field_fits kv" and "n + length kvs \<le> max_reply_words + 1"
    and "dict_ok (attrs @ map decoded kvs)" and "length attrs + 2 = n"
  shows "parse_fields n (map field_word kvs) attrs = Inr (attrs @ map decoded kvs)"
  using assms
proof (induction kvs arbitrary: n attrs)
  case (Cons kv kvs)
  obtain k v where kv: "kv = (k, v)" by fastforce
  have fits: "61 \<notin> set k" "length k \<le> max_reply_field_name_bytes" "length v \<le> max_reply_field_value_bytes"
    using Cons.prems(1) kv by (auto simp: field_fits_def)
  have p: "py_partition 61 (if take 1 (field_word kv) = [61] then drop 1 (field_word kv)
      else field_word kv) = (k, True, v)"
    using fits(1) by (simp add: field_word_def kv py_partition_split)
  have e: "field_entry (field_word kv) = decoded kv"
    unfolding field_entry_def p by (simp add: decoded_def kv)
  have "fst (decoded kv) \<notin> set (dkeys attrs)"
    using Cons.prems(3) by (auto simp: dict_ok_def)
  then have "dset (fst (decoded kv)) (snd (decoded kv)) attrs = attrs @ [decoded kv]"
    by (simp add: dset_fresh)
  moreover have "length (field_word kv) \<le> 4226"
    using fits by (simp add: field_word_def kv wire_limits)
  ultimately show ?case
    using Cons.IH [of "n + 1" "attrs @ [decoded kv]"] Cons.prems fits
    unfolding list.map(2) parse_fields_Cons p prod.case e Let_def
    by (simp add: wire_limits)
qed simp

section \<open>Properties\<close>

text \<open>a reply that \<open>parse_reply\<close> accepts is bounded, whatever bytes the router sent:
  distinct attribute names, fewer of them than \<open>MAX_REPLY_WORDS\<close>, and every decoded kind,
  name and value within its limit, although the limits are checked on the raw bytes and the
  words are decoded with replacement characters.\<close>

theorem parsed_reply_is_bounded:
  assumes "parse_reply ws = Inr r"
  shows "dict_ok (rp_attrs r) \<and> length (rp_attrs r) < max_reply_words \<and>
    length (rp_kind r) < max_reply_kind_bytes \<and>
    (\<forall>(k, v)\<in>set (rp_attrs r). length k \<le> max_reply_field_name_bytes \<and>
       length v \<le> max_reply_field_value_bytes)"
  using parse_reply_bounded [OF assms] by (simp add: reply_bounded_def)

theorem parsed_reply_is_bounded_witness:
  "parse_reply [[33, 114, 101], [61, 97, 61, 255]]
     = Inr \<lparr>rp_kind = lit ''re'', rp_attrs = [(lit ''a'', [65533])]\<rparr> \<and>
   length (lit ''re'') < max_reply_kind_bytes"
proof -
  have "parse_reply [[33, 114, 101], [61, 97, 61, 255]]
      = Inr \<lparr>rp_kind = lit ''re'', rp_attrs = [(lit ''a'', [65533])]\<rparr>"
    by (simp add: parse_reply_def wire_limits py_partition_def utf8_replace_def utf8_step_def
        lit_def of_char_def Let_def)
  with parsed_reply_is_bounded [OF this] show ?thesis by simp
qed

text \<open>a reply sent as \<open>!kind\<close> and words \<open>=name=value\<close> within the limits, with names
  that decode to distinct strings, is read back completely: the kind and every attribute,
  in the order sent.\<close>

theorem parse_reply_reads_fields:
  assumes "length kind < max_reply_kind_bytes" and "length kvs < max_reply_words"
    and "\<forall>kv\<in>set kvs. field_fits kv" and "distinct (map (utf8_replace \<circ> fst) kvs)"
  shows "parse_reply ((33 # kind) # map field_word kvs)
    = Inr \<lparr>rp_kind = utf8_replace kind, rp_attrs = map decoded kvs\<rparr>"
proof -
  have "dict_ok (map decoded kvs)"
    using assms(4) by (simp add: dict_ok_def decoded_def comp_def)
  then have "parse_fields 2 (map field_word kvs) [] = Inr (map decoded kvs)"
    using parse_fields_words [of kvs 2 "[]"] assms(2,3) by simp
  then show ?thesis
    using assms(1) by (simp add: parse_reply_def)
qed

theorem parse_reply_reads_fields_witness:
  "parse_reply [[33, 114, 101], [61, 97, 61, 98, 61, 99], [61, 46, 116, 61]]
     = Inr \<lparr>rp_kind = lit ''re'', rp_attrs = [(lit ''a'', lit ''b=c''), (lit ''.t'', [])]\<rparr>"
  using parse_reply_reads_fields [of "[114, 101]" "[([97], [98, 61, 99]), ([46, 116], [])]"]
  by (simp add: wire_limits field_fits_def field_word_def decoded_def lit_def of_char_def)

end
