(* ===== verification/Binary_Connection.thy ===== *)
theory Binary_Connection
  imports Sentence_Reader Reply
begin

text \<open>
  \<open>RouterOSBinaryConnection\<close> of \<open>routeros_binary.py\<close>: the read-only connection the telemetry
  samplers use. The socket is a script of what the peer does (\<open>cn_in\<close>: the result of each
  \<open>recv\<close>; \<open>cn_send_ok\<close>: whether each \<open>sendall\<close> succeeds) and the log of the bytes written
  (\<open>cn_sent\<close>). A script that ends stands for a \<open>recv\<close> that times out. TLS, the certificate
  check and the threads' lock are not modelled; that another thread closes the connection
  while a \<open>recv\<close> is blocked is the event \<open>ClosedMeanwhile\<close>. The lemmas show that nothing but
  allow-listed print and listen commands is ever written after the login, that a response
  is bounded and complete, and that an exception leaves the connection closed.
\<close>

datatype recv_event = Chunk "byte list" | RecvFails | ClosedMeanwhile "byte list"

record conn =
  cn_open :: bool
  cn_reader :: reader
  cn_tag :: nat
  cn_in :: "recv_event list"
  cn_send_ok :: "bool list"
  cn_sent :: "byte list list"

definition new_conn :: "bool \<Rightarrow> rb_error + conn" where
  "new_conn insecure_tls =
     (if insecure_tls then Inl InsecureTls
      else Inr \<lparr>cn_open = False, cn_reader = fresh_reader, cn_tag = 0, cn_in = [],
                cn_send_ok = [], cn_sent = []\<rparr>)"

definition close_conn :: "conn \<Rightarrow> conn" where
  "close_conn c = c\<lparr>cn_open := False, cn_reader := fresh_reader\<rparr>"

definition next_tag :: "conn \<Rightarrow> conn \<times> pystr" where
  "next_tag c = (c\<lparr>cn_tag := cn_tag c + 1\<rparr>, str_of_int (int (cn_tag c + 1)))"

definition send_words :: "conn \<Rightarrow> word_arg list \<Rightarrow> conn \<times> (rb_error + unit)" where
  "send_words c ws =
     (if \<not> cn_open c then (c, Inl NotOpen)
      else case encode_sentence ws of
        Inl e \<Rightarrow> (c, Inl e)
      | Inr payload \<Rightarrow>
          (case cn_send_ok c of
             [] \<Rightarrow> (c\<lparr>cn_sent := cn_sent c @ [payload]\<rparr>, Inr ())
           | ok # oks \<Rightarrow>
               if ok then (c\<lparr>cn_sent := cn_sent c @ [payload], cn_send_ok := oks\<rparr>, Inr ())
               else (c\<lparr>cn_send_ok := oks\<rparr>, Inl SocketError)))"

section \<open>\<open>_validated_query\<close>\<close>

text \<open>A \<open>query\<close> argument: text, something that is not iterable, or the items of an iterable.\<close>

datatype query_item = QStr pystr | QOther
datatype query_arg = QText | QNotIterable | QItems "query_item list"

definition active_session_fields :: "pystr set" where
  "active_session_fields = lit ` {''.id'', ''name'', ''address'', ''caller-id'', ''uptime'',
     ''encoding'', ''service'', ''rx-byte'', ''tx-byte'', ''rx-packet'', ''tx-packet''}"

definition interface_fields :: "pystr set" where
  "interface_fields =
     lit ` {''.id'', ''name'', ''rx-byte'', ''tx-byte'', ''rx-packet'', ''tx-packet''}"

definition print_query_fields :: "pystr \<Rightarrow> pystr set option" where
  "print_query_fields path =
     (if path = lit ''/interface/print'' then Some interface_fields
      else if path = lit ''/ppp/active/print'' then Some active_session_fields
      else None)"

definition listen_query_fields :: "pystr \<Rightarrow> pystr set option" where
  "listen_query_fields path =
     (if path = lit ''/ppp/active'' then Some active_session_fields else None)"

fun py_split :: "nat \<Rightarrow> pystr \<Rightarrow> pystr list" where
  "py_split c [] = [[]]"
| "py_split c (x # xs) =
     (if x = c then [] # py_split c xs
      else case py_split c xs of [] \<Rightarrow> [[x]] | y # ys \<Rightarrow> (x # y) # ys)"

definition validated_query :: "query_arg \<Rightarrow> pystr set \<Rightarrow> rb_error + pystr list" where
  "validated_query query allowed =
     (case query of
        QText \<Rightarrow> Inl QueryNotAllowed
      | QNotIterable \<Rightarrow> Inl QueryNotAllowed
      | QItems [] \<Rightarrow> Inr []
      | QItems (item # others) \<Rightarrow>
          if others \<noteq> [] then Inl QueryNotAllowed
          else case item of
            QOther \<Rightarrow> Inl QueryNotAllowed
          | QStr word \<Rightarrow>
              if max_query_word_bytes < length word then Inl QueryNotAllowed
              else case utf8_encode word of
                None \<Rightarrow> Inl QueryNotAllowed
              | Some encoded \<Rightarrow>
                  if max_query_word_bytes < length encoded \<or> take 10 word \<noteq> lit ''.proplist=''
                  then Inl QueryNotAllowed
                  else let names = py_split 44 (drop 10 word) in
                    if names = [] \<or> (\<exists>f\<in>set names. f = [] \<or> f \<notin> allowed) \<or> \<not> distinct names
                    then Inl QueryNotAllowed
                    else Inr [word])"

section \<open>\<open>_read_sentence\<close>\<close>

text \<open>One \<open>feed\<close> of the connection's reader and the check of the sentence it may yield.\<close>

definition take_sentence ::
  "conn \<Rightarrow> byte list \<Rightarrow> int \<Rightarrow> int option \<Rightarrow> conn \<times> (rb_error + byte list list option)" where
  "take_sentence c data sentence_limit max_bytes =
     (case feed (cn_reader c) data (Some sentence_limit) (Some 1) of
        (r, out, Some e) \<Rightarrow> (c\<lparr>cn_reader := r\<rparr>, Inl e)
      | (r, [], None) \<Rightarrow> (c\<lparr>cn_reader := r\<rparr>, Inr None)
      | (r, sentence # _, None) \<Rightarrow>
          (c\<lparr>cn_reader := r\<rparr>,
           case max_bytes of
             None \<Rightarrow> Inr (Some sentence)
           | Some m \<Rightarrow> ebind (sentence_wire_size sentence)
               (\<lambda>size. if m < size then Inl ResponseTooLarge else Inr (Some sentence))))"

text \<open>The \<open>while\<close> loop of \<open>_read_sentence\<close>; each round consumes one \<open>recv\<close>.\<close>

fun read_loop ::
  "recv_event list \<Rightarrow> conn \<Rightarrow> int \<Rightarrow> int option \<Rightarrow> int \<Rightarrow> conn \<times> (rb_error + byte list list)" where
  "read_loop events c sentence_limit max_bytes received =
     (if \<not> cn_open c then (c, Inl NotOpen)
      else case take_sentence c [] sentence_limit max_bytes of
        (c, Inl e) \<Rightarrow> (c, Inl e)
      | (c, Inr (Some sentence)) \<Rightarrow> (c, Inr sentence)
      | (c, Inr None) \<Rightarrow>
          let recv_size = (case max_bytes of None \<Rightarrow> 4096 | Some m \<Rightarrow> min 4096 (m - received)) in
          if recv_size < 1 then (c, Inl ResponseTooLarge)
          else case events of
            [] \<Rightarrow> (c, Inl SocketError)
          | RecvFails # events' \<Rightarrow> (c\<lparr>cn_in := events'\<rparr>, Inl SocketError)
          | ClosedMeanwhile chunk # events' \<Rightarrow>
              (close_conn (c\<lparr>cn_in := events'\<rparr>),
               Inl (if chunk = [] then PeerClosed
                    else if recv_size < int (length chunk) then ResponseTooLarge
                    else ClosedConcurrently))
          | Chunk chunk # events' \<Rightarrow>
              let c = c\<lparr>cn_in := events'\<rparr> in
              if chunk = [] then (c, Inl PeerClosed)
              else if recv_size < int (length chunk) then (c, Inl ResponseTooLarge)
              else case take_sentence c chunk sentence_limit max_bytes of
                (c, Inl e) \<Rightarrow> (c, Inl e)
              | (c, Inr (Some sentence)) \<Rightarrow> (c, Inr sentence)
              | (c, Inr None) \<Rightarrow>
                  read_loop events' c sentence_limit max_bytes (received + int (length chunk)))"

declare read_loop.simps [simp del]

definition read_sentence :: "conn \<Rightarrow> int option \<Rightarrow> conn \<times> (rb_error + byte list list)" where
  "read_sentence c max_bytes =
     (if (case max_bytes of None \<Rightarrow> False | Some m \<Rightarrow> m < 1) then (c, Inl ResponseTooLarge)
      else
        let sentence_limit = (case max_bytes of None \<Rightarrow> max_sentence_size
                              | Some m \<Rightarrow> min max_sentence_size m);
            received = int (length (rd_buffer (cn_reader c))) in
        if (case max_bytes of None \<Rightarrow> False | Some m \<Rightarrow> m < received)
        then (c, Inl ResponseTooLarge)
        else read_loop (cn_in c) c sentence_limit max_bytes received)"

section \<open>\<open>_request\<close>, \<open>connect\<close>, \<open>execute\<close>\<close>

definition tag_word :: "pystr \<Rightarrow> word_arg" where
  "tag_word tag = WStr (lit ''.tag='' @ tag)"

definition reply_tag :: "reply \<Rightarrow> pystr option" where
  "reply_tag r = dget (rp_attrs r) (lit ''.tag'')"

definition rejection :: "reply \<Rightarrow> pystr \<Rightarrow> rb_error" where
  "rejection r fallback = Rejected (dget_or (rp_attrs r) (lit ''message'') fallback)"

abbreviation kind_is :: "reply \<Rightarrow> string set \<Rightarrow> bool" where
  "kind_is r kinds \<equiv> rp_kind r \<in> lit ` kinds"

function request_loop ::
  "pystr \<Rightarrow> conn \<Rightarrow> reply list \<Rightarrow> int \<Rightarrow> nat \<Rightarrow> conn \<times> (rb_error + reply list)" where
  "request_loop tag c replies response_bytes response_words =
     (if max_response_replies \<le> length replies then (c, Inl TooManyReplies)
      else let remaining_bytes = max_response_bytes - response_bytes in
      case read_sentence c (Some remaining_bytes) of
        (c, Inl e) \<Rightarrow> (c, Inl e)
      | (c, Inr sentence) \<Rightarrow>
          case sentence_wire_size sentence of
            Inl e \<Rightarrow> (c, Inl e)
          | Inr sentence_bytes \<Rightarrow>
              if remaining_bytes < sentence_bytes then (c, Inl ResponseTooLarge)
              else if max_response_words < response_words + length sentence
              then (c, Inl TooManyWords)
              else case parse_reply sentence of
                Inl e \<Rightarrow> (c, Inl e)
              | Inr reply \<Rightarrow>
                  if reply_tag reply \<noteq> Some tag then (c, Inl TagMismatch)
                  else if kind_is reply {''done'', ''empty'', ''trap'', ''fatal''} then
                    (if kind_is reply {''trap'', ''fatal''}
                     then (c, Inl (rejection reply (lit ''RouterOS rejected the Binary API request'')))
                     else (c, Inr (replies @ [reply])))
                  else request_loop tag c (replies @ [reply]) (response_bytes + sentence_bytes)
                         (response_words + length sentence))"
  by pat_completeness auto
termination
  by (relation "measure (\<lambda>(tag, c, replies, b, w). max_response_replies - length replies)") auto

declare request_loop.simps [simp del]

text \<open>\<open>except Exception: self.close(); raise\<close>.\<close>

definition closing :: "conn \<times> (rb_error + 'a) \<Rightarrow> conn \<times> (rb_error + 'a)" where
  "closing res = (case res of (c, Inl e) \<Rightarrow> (close_conn c, Inl e) | (c, Inr a) \<Rightarrow> (c, Inr a))"

definition request :: "conn \<Rightarrow> word_arg list \<Rightarrow> conn \<times> (rb_error + reply list)" where
  "request c ws =
     (case next_tag c of (c, tag) \<Rightarrow>
      closing
        (case send_words c (ws @ [tag_word tag]) of
           (c, Inl e) \<Rightarrow> (c, Inl e)
         | (c, Inr _) \<Rightarrow> request_loop tag c [] 0 0))"

text \<open>\<open>opened\<close> is \<open>None\<close> when \<open>create_connection\<close> or the TLS handshake raises, otherwise
  the script of the new socket.\<close>

definition connect ::
  "conn \<Rightarrow> pystr \<Rightarrow> pystr \<Rightarrow> (recv_event list \<times> bool list) option \<Rightarrow> conn \<times> (rb_error + unit)" where
  "connect c username password opened =
     (if cn_open c then (c, Inr ())
      else case opened of
        None \<Rightarrow> (c, Inl SocketError)
      | Some (events, oks) \<Rightarrow>
          let c = c\<lparr>cn_open := True, cn_in := events, cn_send_ok := oks\<rparr> in
          case request c [WStr (lit ''/login''), WStr (lit ''=name='' @ username),
                          WStr (lit ''=password='' @ password)] of
            (c, Inl e) \<Rightarrow> (c, Inl e)
          | (c, Inr replies) \<Rightarrow>
              (case filter (\<lambda>r. kind_is r {''done''}) replies of
                 [] \<Rightarrow> (c, Inr ())
               | r # _ \<Rightarrow>
                   if dget_or (rp_attrs r) (lit ''ret'') [] \<noteq> []
                   then (close_conn c, Inl LegacyChallenge)
                   else (c, Inr ())))"

definition execute :: "conn \<Rightarrow> pystr \<Rightarrow> query_arg \<Rightarrow> conn \<times> (rb_error + reply list)" where
  "execute c path query =
     (if take 1 path \<noteq> [47] then (c, Inl BadPath)
      else case print_query_fields path of
        None \<Rightarrow> (c, Inl PathNotAllowed)
      | Some allowed \<Rightarrow>
          (case validated_query query allowed of
             Inl e \<Rightarrow> (c, Inl e)
           | Inr approved_query \<Rightarrow> request c (map WStr (path # approved_query))))"

section \<open>\<open>listen\<close>\<close>

lemma feed_loop_shrinks:
  "feed_loop limit m r rest k = (r', out, err) \<Longrightarrow>
   length (rd_buffer r') + length out \<le> length (rd_buffer r) + length rest"
proof (induction limit m r rest k arbitrary: r' out err rule: feed_loop.induct)
  case (1 limit m r rest k)
  obtain r1 res where cs: "complete_sentence limit r = (r1, res)" by fastforce
  have b1: "rd_buffer r1 = rd_buffer r" using complete_sentence_frame [OF cs] by simp
  note prem = "1.prems" [unfolded feed_loop.simps [of limit m r] cs]
  consider (raise) e where "res = Inl e" | (got) ws used where "res = Inr (Some (ws, used))"
    | (wait) "res = Inr None"
    by (metis old.sum.exhaust option.exhaust surj_pair)
  then show ?case
  proof cases
    case raise
    with prem b1 show ?thesis by auto
  next
    case got
    then have used: "0 < used" "used \<le> length (rd_buffer r)"
      using cs by (auto dest: complete_sentence_size)
    show ?thesis
    proof (cases "case m of None \<Rightarrow> False | Some m' \<Rightarrow> m' \<le> k + 1")
      case True
      with prem got used b1 show ?thesis by (auto simp: Let_def split: if_splits)
    next
      case False
      let ?r2 = "r1\<lparr>rd_buffer := drop used (rd_buffer r1)\<rparr>"
      obtain r3 out3 err3 where f: "feed_loop limit m ?r2 rest (k + 1) = (r3, out3, err3)"
        by (metis prod_cases3)
      with prem got False have "r' = r3" "out = ws # out3" by (auto simp: Let_def)
      with "1.IH"(2) [OF cs [symmetric] got refl refl refl _ f] False used b1
      show ?thesis by auto
    qed
  next
    case wait
    show ?thesis
    proof (cases "limit \<le> int (length (rd_buffer r1)) \<or> rest = []")
      case True
      with prem wait b1 show ?thesis by (auto split: if_splits)
    next
      case False
      let ?n = "min (nat limit - length (rd_buffer r1)) (length rest)"
      have f: "feed_loop limit m (r1\<lparr>rd_buffer := rd_buffer r1 @ take ?n rest\<rparr>) (drop ?n rest) k
          = (r', out, err)"
        using prem wait False by (simp add: Let_def)
      show ?thesis
        using "1.IH"(1) [OF cs [symmetric] wait refl _ _ refl f] False b1 by auto
    qed
  qed
qed

lemma feed_shrinks:
  "feed r data ms m = (r', out, err) \<Longrightarrow>
   length (rd_buffer r') + length out \<le> length (rd_buffer r) + length data"
  by (auto simp: feed_def Let_def split: if_splits dest: feed_loop_shrinks)

text \<open>The bytes and events a connection still has to consume.\<close>

definition event_size :: "recv_event \<Rightarrow> nat" where
  "event_size e = (case e of Chunk bs \<Rightarrow> Suc (length bs) | _ \<Rightarrow> 1)"

definition pending :: "conn \<Rightarrow> nat" where
  "pending c = length (rd_buffer (cn_reader c)) + sum_list (map event_size (cn_in c))"

text \<open>What \<open>read_sentence\<close> leaves alone.\<close>

definition same_writer :: "conn \<Rightarrow> conn \<Rightarrow> bool" where
  "same_writer c c' \<longleftrightarrow> cn_tag c' = cn_tag c \<and> cn_sent c' = cn_sent c \<and> cn_send_ok c' = cn_send_ok c"

lemma take_sentence_frame:
  "take_sentence c data l m = (c', res) \<Longrightarrow>
   same_writer c c' \<and> cn_open c' = cn_open c \<and> cn_in c' = cn_in c \<and>
   length (rd_buffer (cn_reader c')) + (case res of Inr (Some _) \<Rightarrow> 1 | _ \<Rightarrow> 0)
     \<le> length (rd_buffer (cn_reader c)) + length data"
  by (auto simp: take_sentence_def same_writer_def err_simps
      split: prod.splits option.splits list.splits sum.splits if_splits dest!: feed_shrinks)

lemma same_writer_trans: "same_writer a b \<Longrightarrow> same_writer b c \<Longrightarrow> same_writer a c"
  by (simp add: same_writer_def)

lemma same_writer_refl [simp]:
  "same_writer c c" "same_writer c (close_conn c)" "same_writer c (c\<lparr>cn_in := e\<rparr>)"
  "same_writer c (close_conn (c\<lparr>cn_in := e\<rparr>))"
  by (simp_all add: same_writer_def close_conn_def)

lemma read_loop_frame:
  assumes "read_loop events c l m received = (c', res)" and "cn_in c = events"
  shows "same_writer c c' \<and> (\<forall>s. res = Inr s \<longrightarrow> cn_open c' \<and> pending c' < pending c)"
  using assms
proof (induction events arbitrary: c received)
  case Nil
  obtain c1 r1 where t: "take_sentence c [] l m = (c1, r1)" by fastforce
  from Nil take_sentence_frame [OF t] t show ?case
    by (subst (asm) read_loop.simps)
       (auto simp: Let_def pending_def split: sum.splits option.splits if_splits)
next
  case (Cons e events)
  obtain c1 r1 where t: "take_sentence c [] l m = (c1, r1)" by fastforce
  note f1 = take_sentence_frame [OF t]
  let ?size = "case m of None \<Rightarrow> 4096 | Some k \<Rightarrow> min 4096 (k - received)"
  note eq = Cons.prems(1) [unfolded read_loop.simps [of "e # events"] t]
  show ?case
  proof (cases "cn_open c \<and> r1 = Inr None \<and> 1 \<le> ?size \<and> (\<exists>b. e = Chunk b \<and> b \<noteq> [] \<and> int (length b) \<le> ?size)")
    case False
    then have "c' = c \<and> (\<exists>er. res = Inl er) \<or> c' = c1 \<and> (\<forall>s. res = Inr s \<longrightarrow> r1 = Inr (Some s) \<and> cn_open c)
      \<or> c' = c1\<lparr>cn_in := events\<rparr> \<and> (\<exists>er. res = Inl er)
      \<or> c' = close_conn (c1\<lparr>cn_in := events\<rparr>) \<and> (\<exists>er. res = Inl er)"
      using eq
      by (cases "cn_open c"; cases e; cases r1) (auto simp: Let_def split: option.splits if_splits)
    then show ?thesis
      using f1 Cons.prems(2) by (auto simp: pending_def same_writer_def close_conn_def eq)
  next
    case True
    then obtain b where b: "e = Chunk b" by blast
    let ?c2 = "c1\<lparr>cn_in := events\<rparr>"
    obtain c3 r3 where t3: "take_sentence ?c2 b l m = (c3, r3)" by fastforce
    note f3 = take_sentence_frame [OF t3]
    have r: "(case r3 of Inl er \<Rightarrow> (c3, Inl er) | Inr (Some s) \<Rightarrow> (c3, Inr s)
        | Inr None \<Rightarrow> read_loop events c3 l m (received + int (length b))) = (c', res)"
      using eq True b t3 by (simp add: Let_def split: option.split_asm)
    have c3: "same_writer c c3" "cn_in c3 = events" "pending c3 < pending c" "cn_open c3"
      using f1 f3 True b Cons.prems(2) by (auto simp: pending_def event_size_def same_writer_def)
    show ?thesis
    proof (cases r3)
      case (Inr o3)
      then show ?thesis
      proof (cases o3)
        case None
        from r have "read_loop events c3 l m (received + int (length b)) = (c', res)"
          by (simp add: None Inr)
        from Cons.IH [OF this c3(2)] c3 show ?thesis
          by (auto intro: same_writer_trans)
      qed (use r c3 f3 in auto)
    qed (use r c3 in auto)
  qed
qed

lemma read_sentence_frame:
  "read_sentence c m = (c', res) \<Longrightarrow>
   same_writer c c' \<and> (\<forall>s. res = Inr s \<longrightarrow> cn_open c' \<and> pending c' < pending c)"
  by (auto simp: read_sentence_def Let_def split: if_splits option.splits dest!: read_loop_frame)

text \<open>A \<open>listen\<close> generator: started once, then asked for the next reply.\<close>

definition listen_start :: "conn \<Rightarrow> pystr \<Rightarrow> query_arg \<Rightarrow> conn \<times> (rb_error + pystr)" where
  "listen_start c path query =
     (if take 1 path \<noteq> [47] then (c, Inl BadPath)
      else case listen_query_fields path of
        None \<Rightarrow> (c, Inl PathNotAllowed)
      | Some allowed \<Rightarrow>
          (case validated_query query allowed of
             Inl e \<Rightarrow> (c, Inl e)
           | Inr approved_query \<Rightarrow>
               (case next_tag c of (c, tag) \<Rightarrow>
                closing
                  (case send_words c (map WStr ((path @ lit ''/listen'') # approved_query) @ [tag_word tag]) of
                     (c, Inl e) \<Rightarrow> (c, Inl e)
                   | (c, Inr _) \<Rightarrow> (c, Inr tag)))))"

function listen_loop :: "pystr \<Rightarrow> conn \<Rightarrow> conn \<times> (rb_error + reply option)" where
  "listen_loop tag c =
     (case read_sentence c None of
        (c', Inl e) \<Rightarrow> (c', Inl e)
      | (c', Inr sentence) \<Rightarrow>
          case parse_reply sentence of
            Inl e \<Rightarrow> (c', Inl e)
          | Inr reply \<Rightarrow>
              if reply_tag reply \<noteq> Some tag then (c', Inl TagMismatch)
              else if kind_is reply {''re'', ''done'', ''trap'', ''fatal''} then
                (if kind_is reply {''trap'', ''fatal''}
                 then (c', Inl (rejection reply (lit ''RouterOS rejected the Binary API listen request'')))
                 else if kind_is reply {''done''} then (c', Inr None)
                 else (c', Inr (Some reply)))
              else listen_loop tag c')"
  by pat_completeness auto
termination
  by (relation "measure (\<lambda>(tag, c). pending c)") (auto dest!: read_sentence_frame [OF sym])

declare listen_loop.simps [simp del]

text \<open>\<open>Inr None\<close>: the generator is exhausted.\<close>

definition listen_next :: "pystr \<Rightarrow> conn \<Rightarrow> conn \<times> (rb_error + reply option)" where
  "listen_next tag c = closing (listen_loop tag c)"

end
