(* ===== verification/Connection_Safety.thy ===== *)
theory Connection_Safety
  imports Binary_Connection
begin

text \<open>
  What the Binary API connection guarantees its callers, as properties of every run of its
  operations: the bytes written after the login are allow-listed read-only commands, an
  accepted response is complete, tagged and within the limits, and an exception leaves no
  half-read stream behind.
\<close>

section \<open>The allow-list on the wire\<close>

lemma py_split_nonempty [simp]: "py_split c s \<noteq> []"
  by (induction s) (auto split: list.splits)

lemma py_join_split [simp]: "py_join c (py_split c s) = s"
proof (induction s)
  case (Cons x s)
  then show ?case
    by (cases "py_split c s"; cases "tl (py_split c s)") (auto simp: py_join_Cons)
qed simp

definition query_ok :: "pystr list \<Rightarrow> pystr set \<Rightarrow> bool" where
  "query_ok q allowed \<longleftrightarrow>
     q = [] \<or> (\<exists>names. q = [lit ''.proplist='' @ py_join 44 names] \<and> names \<noteq> [] \<and>
                distinct names \<and> set names \<subseteq> allowed)"

lemma validated_query_ok: "validated_query query allowed = Inr q \<Longrightarrow> query_ok q allowed"
proof -
  assume v: "validated_query query allowed = Inr q"
  show ?thesis
  proof (cases "q = []")
    case False
    with v obtain word where q: "q = [word]" and w: "take 10 word = lit ''.proplist=''"
      and n: "distinct (py_split 44 (drop 10 word))" "set (py_split 44 (drop 10 word)) \<subseteq> allowed"
      by (auto simp: validated_query_def Let_def split: query_arg.splits list.splits
          query_item.splits option.splits if_splits)
    have "word = lit ''.proplist='' @ py_join 44 (py_split 44 (drop 10 word))"
      using w append_take_drop_id [of 10 word] by simp
    with q n show ?thesis by (auto simp: query_ok_def intro!: exI [of _ "py_split 44 (drop 10 word)"])
  qed (simp add: query_ok_def)
qed

definition telemetry_command :: "word_arg list \<Rightarrow> bool" where
  "telemetry_command ws \<longleftrightarrow>
     (\<exists>path q tag. ws = map WStr (path # q) @ [tag_word tag] \<and>
        (path = lit ''/interface/print'' \<and> query_ok q interface_fields \<or>
         path = lit ''/ppp/active/print'' \<and> query_ok q active_session_fields \<or>
         path = lit ''/ppp/active/listen'' \<and> query_ok q active_session_fields))"

definition login_command :: "word_arg list \<Rightarrow> bool" where
  "login_command ws \<longleftrightarrow>
     (\<exists>user secret tag. ws = [WStr (lit ''/login''), WStr (lit ''=name='' @ user),
        WStr (lit ''=password='' @ secret), tag_word tag])"

definition only_reads :: "conn \<Rightarrow> bool" where
  "only_reads c \<longleftrightarrow>
     (\<forall>payload\<in>set (cn_sent c).
        \<exists>ws. encode_sentence ws = Inr payload \<and> (telemetry_command ws \<or> login_command ws))"

inductive conn_step :: "conn \<Rightarrow> conn \<Rightarrow> bool" where
  step_connect: "conn_step c (fst (connect c user secret opened))"
| step_execute: "conn_step c (fst (execute c path query))"
| step_listen: "conn_step c (fst (listen_start c path query))"
| step_next: "conn_step c (fst (listen_next tag c))"
| step_close: "conn_step c (close_conn c)"

inductive conn_reachable :: "conn \<Rightarrow> bool" where
  initial: "new_conn False = Inr c \<Longrightarrow> conn_reachable c"
| again: "conn_reachable c \<Longrightarrow> conn_step c c' \<Longrightarrow> conn_reachable c'"

lemma only_reads_cong [simp]:
  "only_reads (close_conn c) = only_reads c"
  "only_reads (c\<lparr>cn_in := e\<rparr>) = only_reads c" "only_reads (c\<lparr>cn_tag := t\<rparr>) = only_reads c"
  by (simp_all add: only_reads_def close_conn_def)

lemma fst_closing_only_reads [simp]: "only_reads (fst (closing res)) = only_reads (fst res)"
  by (cases res; cases "snd res") (auto simp: closing_def)

lemma send_words_only_reads:
  assumes "only_reads c" and "telemetry_command ws \<or> login_command ws"
  shows "only_reads (fst (send_words c ws))"
  using assms
  by (auto simp: only_reads_def send_words_def split: sum.splits list.splits)

lemma same_writer_only_reads: "same_writer c c' \<Longrightarrow> only_reads c' = only_reads c"
  by (simp add: same_writer_def only_reads_def)

lemma request_loop_frame: "same_writer c (fst (request_loop tag c replies b w))"
proof (induction tag c replies b w rule: request_loop.induct)
  case (1 tag c replies b w)
  obtain c1 res where r: "read_sentence c (Some (max_response_bytes - b)) = (c1, res)" by fastforce
  note f = conjunct1 [OF read_sentence_frame [OF r]]
  show ?case
    using "1" [OF _ refl r [symmetric]]
    by (subst request_loop.simps)
       (use f in \<open>auto simp: r Let_def split: sum.splits intro: same_writer_trans\<close>)
qed

lemma listen_loop_frame: "same_writer c (fst (listen_loop tag c))"
proof (induction tag c rule: listen_loop.induct)
  case (1 tag c)
  obtain c1 res where r: "read_sentence c None = (c1, res)" by fastforce
  note f = conjunct1 [OF read_sentence_frame [OF r]]
  show ?case
    using "1" [OF r [symmetric]]
    by (subst listen_loop.simps) (use f in \<open>auto simp: r split: sum.splits intro: same_writer_trans\<close>)
qed

lemma request_only_reads:
  assumes "only_reads c" and "\<And>tag. telemetry_command (ws @ [tag_word tag]) \<or> login_command (ws @ [tag_word tag])"
  shows "only_reads (fst (request c ws))"
proof -
  obtain c0 tag where t: "next_tag c = (c0, tag)" by fastforce
  then have c0: "only_reads c0" using assms(1) by (auto simp: next_tag_def)
  obtain c1 res where s: "send_words c0 (ws @ [tag_word tag]) = (c1, res)" by fastforce
  then have "only_reads c1" using send_words_only_reads [OF c0 assms(2) [of tag]] by simp
  then show ?thesis
    using same_writer_only_reads [OF request_loop_frame [of c1 tag "[]" 0 0]]
    by (cases res) (simp_all add: request_def t s)
qed

lemma connect_only_reads: "only_reads c \<Longrightarrow> only_reads (fst (connect c user secret opened))"
proof -
  assume c: "only_reads c"
  show ?thesis
  proof (cases opened)
    case (Some script)
    let ?c = "c\<lparr>cn_open := True, cn_in := fst script, cn_send_ok := snd script\<rparr>"
    let ?ws = "[WStr (lit ''/login''), WStr (lit ''=name='' @ user), WStr (lit ''=password='' @ secret)]"
    have "only_reads ?c" using c by (simp add: only_reads_def)
    then have "only_reads (fst (request ?c ?ws))"
      by (rule request_only_reads) (auto simp: login_command_def)
    then show ?thesis
      using c Some by (auto simp: connect_def Let_def split: prod.splits sum.splits list.splits)
  qed (use c in \<open>auto simp: connect_def\<close>)
qed

lemma execute_only_reads: "only_reads c \<Longrightarrow> only_reads (fst (execute c path query))"
proof -
  assume c: "only_reads c"
  have t: "telemetry_command (map WStr (path # q) @ [tag_word tag])"
    if "print_query_fields path = Some allowed" "validated_query query allowed = Inr q" for allowed q tag
    using that validated_query_ok [OF that(2)]
    by (auto simp: telemetry_command_def print_query_fields_def split: if_splits)
  show ?thesis
    using c by (auto simp: execute_def split: option.splits sum.splits intro!: request_only_reads t
        simp del: list.map map_append)
qed

lemma listen_start_only_reads: "only_reads c \<Longrightarrow> only_reads (fst (listen_start c path query))"
proof -
  assume c: "only_reads c"
  have t: "telemetry_command (map WStr ((path @ lit ''/listen'') # q) @ [tag_word tag])"
    if "listen_query_fields path = Some allowed" "validated_query query allowed = Inr q" for allowed q tag
    using that validated_query_ok [OF that(2)]
    by (auto simp: telemetry_command_def listen_query_fields_def lit_def split: if_splits)
  have "only_reads (fst (send_words (c\<lparr>cn_tag := n\<rparr>) (map WStr ((path @ lit ''/listen'') # q) @ [tag_word tag])))"
    if "listen_query_fields path = Some allowed" "validated_query query allowed = Inr q" for allowed q tag n
    using c t [OF that] by (intro send_words_only_reads) simp_all
  then show ?thesis
    using c by (auto simp: listen_start_def next_tag_def split: option.splits sum.splits prod.splits
        simp del: list.map map_append) (metis fst_conv)+
qed

lemma conn_step_only_reads: "conn_step c c' \<Longrightarrow> only_reads c \<Longrightarrow> only_reads c'"
proof (induction rule: conn_step.induct)
  case (step_next c tag)
  then show ?case
    using same_writer_only_reads [OF listen_loop_frame] by (simp add: listen_next_def)
qed (simp_all add: connect_only_reads execute_only_reads listen_start_only_reads)

lemma conn_reachable_only_reads: "conn_reachable c \<Longrightarrow> only_reads c"
proof (induction rule: conn_reachable.induct)
  case (initial c)
  then show ?case by (auto simp: new_conn_def only_reads_def)
qed (rule conn_step_only_reads)

lemma request_sends:
  assumes "cn_open c" and "cn_send_ok c = []"
    and "encode_sentence (ws @ [tag_word (str_of_int (int (cn_tag c + 1)))]) = Inr payload"
  shows "cn_sent (fst (request c ws)) = cn_sent c @ [payload]"
proof -
  let ?c = "c\<lparr>cn_tag := cn_tag c + 1, cn_sent := cn_sent c @ [payload]\<rparr>"
  let ?tag = "str_of_int (int (cn_tag c + 1))"
  have "cn_sent (fst (closing res)) = cn_sent (fst res)" for res :: "conn \<times> (rb_error + reply list)"
    by (cases res; cases "snd res") (auto simp: closing_def close_conn_def)
  moreover have "request c ws = closing (request_loop ?tag ?c [] 0 0)"
    using assms by (simp add: request_def next_tag_def send_words_def)
  ultimately show ?thesis
    using request_loop_frame [of ?c ?tag "[]" 0 0] by (simp add: same_writer_def)
qed

section \<open>Errors\<close>

definition conn_closed :: "conn \<Rightarrow> bool" where
  "conn_closed c \<longleftrightarrow> \<not> cn_open c \<and> cn_reader c = fresh_reader"

lemma closing_error: "closing res = (c, Inl e) \<Longrightarrow> conn_closed c"
  by (auto simp: closing_def conn_closed_def close_conn_def split: prod.splits sum.splits)

lemma request_error: "request c ws = (c', Inl e) \<Longrightarrow> conn_closed c'"
  unfolding request_def next_tag_def prod.case by (rule closing_error)

lemma execute_error:
  "execute c path query = (c', Inl e) \<Longrightarrow> c' = c \<and> e \<in> {BadPath, PathNotAllowed, QueryNotAllowed} \<or> conn_closed c'"
  by (auto simp: execute_def validated_query_def Let_def split: if_splits option.splits sum.splits
      query_arg.splits list.splits query_item.splits dest!: request_error)

section \<open>Responses\<close>

text \<open>What the loop has accumulated when it returns.\<close>

definition response_from :: "pystr \<Rightarrow> reply list \<Rightarrow> byte list list list \<Rightarrow> bool" where
  "response_from tag replies sentences \<longleftrightarrow>
     list_all2 (\<lambda>s r. parse_reply s = Inr r \<and> reply_tag r = Some tag) sentences replies"

definition cost_of :: "byte list list \<Rightarrow> int" where
  "cost_of s = (case sentence_wire_size s of Inr n \<Rightarrow> n | Inl _ \<Rightarrow> 0)"

lemma request_loop_response:
  assumes "request_loop tag c replies b w = (c', Inr replies')"
    and "length replies \<le> max_response_replies" and "b \<le> max_response_bytes" and "w \<le> max_response_words"
  shows "\<exists>more sentences. replies' = replies @ more \<and> more \<noteq> [] \<and>
    length replies' \<le> max_response_replies \<and> response_from tag more sentences \<and>
    b + sum_list (map cost_of sentences) \<le> max_response_bytes \<and>
    w + sum_list (map length sentences) \<le> max_response_words \<and>
    kind_is (last more) {''done'', ''empty''} \<and>
    (\<forall>r\<in>set (butlast more). \<not> kind_is r {''done'', ''empty'', ''trap'', ''fatal''})"
  using assms
proof (induction tag c replies b w rule: request_loop.induct)
  case (1 tag c replies b w)
  obtain c1 res where r: "read_sentence c (Some (max_response_bytes - b)) = (c1, res)" by fastforce
  note eq = "1.prems"(1) [unfolded request_loop.simps [of tag c] r Let_def prod.case]
  from eq obtain s size reply where
    lt: "\<not> max_response_replies \<le> length replies" and res: "res = Inr s" and size: "sentence_wire_size s = Inr size"
    and fits: "\<not> max_response_bytes - b < size" "\<not> max_response_words < w + length s"
    and reply: "parse_reply s = Inr reply" and tag: "reply_tag reply = Some tag"
    and rest: "(if kind_is reply {''done'', ''empty'', ''trap'', ''fatal''} then
          (if kind_is reply {''trap'', ''fatal''}
           then (c1, Inl (rejection reply (lit ''RouterOS rejected the Binary API request'')))
           else (c1, Inr (replies @ [reply])))
        else request_loop tag c1 (replies @ [reply]) (b + size) (w + length s)) = (c', Inr replies')"
    by (simp split: if_split_asm sum.split_asm del: image_insert)
  have cost: "cost_of s = size" by (simp add: cost_of_def size)
  show ?case
  proof (cases "kind_is reply {''done'', ''empty'', ''trap'', ''fatal''}")
    case True
    with rest have r': "replies' = replies @ [reply]" "kind_is reply {''done'', ''empty''}"
      by (auto split: if_splits)
    show ?thesis
      using r' lt fits reply tag cost
      by (intro exI [of _ "[reply]"] exI [of _ "[s]"]) (simp add: response_from_def)
  next
    case False
    with rest have "request_loop tag c1 (replies @ [reply]) (b + size) (w + length s) = (c', Inr replies')"
      by simp
    from "1.IH" [OF lt refl r [symmetric] res size fits reply _ False this] tag lt fits
    obtain more sentences where m: "replies' = (replies @ [reply]) @ more" "more \<noteq> []"
      "length replies' \<le> max_response_replies" "response_from tag more sentences"
      "b + size + sum_list (map cost_of sentences) \<le> max_response_bytes"
      "w + length s + sum_list (map length sentences) \<le> max_response_words"
      "kind_is (last more) {''done'', ''empty''}"
      "\<forall>r\<in>set (butlast more). \<not> kind_is r {''done'', ''empty'', ''trap'', ''fatal''}"
      by auto
    then show ?thesis
      using False reply tag cost
      by (intro exI [of _ "reply # more"] exI [of _ "s # sentences"]) (simp add: response_from_def)
  qed
qed

lemma execute_response:
  assumes "execute c path query = (c', Inr replies)"
  shows "\<exists>sentences. replies \<noteq> [] \<and> length replies \<le> max_response_replies \<and>
    response_from (str_of_int (int (cn_tag c + 1))) replies sentences \<and>
    sum_list (map cost_of sentences) \<le> max_response_bytes \<and>
    sum_list (map length sentences) \<le> max_response_words \<and>
    kind_is (last replies) {''done'', ''empty''} \<and>
    (\<forall>r\<in>set (butlast replies). \<not> kind_is r {''done'', ''empty'', ''trap'', ''fatal''})"
proof -
  from assms obtain ws where "request c ws = (c', Inr replies)"
    by (auto simp: execute_def split: if_splits option.splits sum.splits)
  then obtain c1 where "request_loop (str_of_int (int (cn_tag c + 1))) c1 [] 0 0 = (c', Inr replies)"
    by (auto simp: request_def next_tag_def closing_def split: prod.splits sum.splits)
  from request_loop_response [OF this] show ?thesis
    by (auto simp: wire_limits)
qed

section \<open>Properties\<close>

text \<open>C1: the connection is read-only. After any sequence of \<open>connect\<close>, \<open>execute\<close>, \<open>listen\<close>,
  generator steps and \<open>close\<close>, with any arguments and any behaviour of the peer, every
  sentence written is a login or one of three allow-listed telemetry commands with at most
  one \<open>.proplist\<close> of distinct allow-listed fields.\<close>

theorem connection_is_read_only:
  assumes "conn_reachable c" and "payload \<in> set (cn_sent c)"
  shows "\<exists>ws. encode_sentence ws = Inr payload \<and> (telemetry_command ws \<or> login_command ws)"
  using conn_reachable_only_reads [OF assms(1)] assms(2) by (simp add: only_reads_def)

theorem connection_is_read_only_witness:
  "\<exists>payload\<in>set (cn_sent (fst (connect
       \<lparr>cn_open = False, cn_reader = fresh_reader, cn_tag = 0, cn_in = [], cn_send_ok = [], cn_sent = []\<rparr>
       [97] [98] (Some ([], []))))).
     \<exists>ws. encode_sentence ws = Inr payload \<and> (telemetry_command ws \<or> login_command ws)"
proof -
  let ?start = "\<lparr>cn_open = False, cn_reader = fresh_reader, cn_tag = 0, cn_in = [], cn_send_ok = [], cn_sent = []\<rparr>"
  let ?c = "fst (connect ?start [97] [98] (Some ([], [])))"
  have "conn_reachable ?start" by (rule conn_reachable.initial) (simp add: new_conn_def)
  then have r: "conn_reachable ?c" by (rule conn_reachable.again) (rule step_connect)
  have tag: "str_of_int 1 = lit ''1''" by (simp add: str_of_int_def dec_of_nat.simps lit_def of_char_def)
  let ?ws = "[WStr (lit ''/login''), WStr (lit ''=name='' @ [97]), WStr (lit ''=password='' @ [98])]"
  obtain p where p: "encode_sentence (?ws @ [tag_word (lit ''1'')]) = Inr p"
    by (simp add: encode_sentence_def tag_word_def encode_word_def word_payload_def encode_length_def
        utf8_encode_lit lit_def of_char_def)
  have "cn_sent (fst (request (?start\<lparr>cn_open := True\<rparr>) ?ws)) = [p]"
    using p tag by (subst request_sends [where payload = p]) simp_all
  then have "cn_sent ?c = [p]"
    by (auto simp: connect_def Let_def close_conn_def split: prod.splits sum.splits list.splits)
  with connection_is_read_only [OF r, of p] show ?thesis by simp
qed

text \<open>no exception leaves a half-read stream in use. When \<open>execute\<close> raises, either the
  arguments were refused and the connection is untouched, or the connection is closed with
  a fresh reader.\<close>

theorem execute_error_closes:
  assumes "execute c path query = (c', Inl e)"
  shows "c' = c \<and> e \<in> {BadPath, PathNotAllowed, QueryNotAllowed} \<or>
    \<not> cn_open c' \<and> cn_reader c' = fresh_reader"
  using execute_error [OF assms] by (auto simp: conn_closed_def)

theorem execute_error_closes_witness:
  "execute \<lparr>cn_open = True, cn_reader = fresh_reader, cn_tag = 0, cn_in = [], cn_send_ok = [False], cn_sent = []\<rparr>
     (lit ''/ip/firewall'') QText
   = (\<lparr>cn_open = True, cn_reader = fresh_reader, cn_tag = 0, cn_in = [], cn_send_ok = [False], cn_sent = []\<rparr>,
      Inl PathNotAllowed) \<and> PathNotAllowed \<in> {BadPath, PathNotAllowed, QueryNotAllowed}"
proof -
  let ?c = "\<lparr>cn_open = True, cn_reader = fresh_reader, cn_tag = 0, cn_in = [], cn_send_ok = [False], cn_sent = []\<rparr>"
  have "execute ?c (lit ''/ip/firewall'') QText = (?c, Inl PathNotAllowed)"
    by (simp add: execute_def print_query_fields_def) (simp add: lit_def of_char_def)
  with execute_error_closes [OF this] show ?thesis by simp
qed

end
