(* ===== verification/Connection_Replies.thy ===== *)
theory Connection_Replies
  imports Connection_Safety
begin

text \<open>
  The functional behaviour of \<open>execute\<close> against a well-behaved router: when the response is a
  sequence of encoded replies that carry the request's tag, fit the limits and end with
  \<open>!done\<close>, then \<open>execute\<close> returns exactly these replies, however TCP cuts the stream into
  chunks of at most 4096 bytes.
\<close>

definition idle_with :: "byte list \<Rightarrow> reader" where
  "idle_with b = fresh_reader\<lparr>rd_buffer := b\<rparr>"

definition scanned :: "int \<Rightarrow> byte list \<Rightarrow> reader \<Rightarrow> bool" where
  "scanned l b r \<longleftrightarrow> r = idle_with b \<or> complete_sentence l (idle_with b) = (r, Inr None)"

definition wire_of :: "byte list list \<Rightarrow> byte list \<Rightarrow> bool" where
  "wire_of s wire \<longleftrightarrow> encode_sentence (map WBytes s) = Inr wire \<and> sentence_fits fresh_reader s wire"

lemma idle_with_simps [simp]:
  "rd_buffer (idle_with b) = b" "rd_scan (idle_with b) = 0" "rd_words (idle_with b) = []"
  "rd_max_sentence (idle_with b) = max_sentence_size" "rd_max_word (idle_with b) = max_word_size"
  "rd_max_words (idle_with b) = int max_reply_words"
  "grow (idle_with b) d = idle_with (b @ d)" "idle_with b\<lparr>rd_buffer := d\<rparr> = idle_with d"
  "idle_with [] = fresh_reader"
  by (simp_all add: idle_with_def grow_def fresh_reader_def)

lemma scanned_frame:
  "scanned l b r \<Longrightarrow> rd_buffer r = b \<and> rd_max_sentence r = max_sentence_size"
  by (auto simp: scanned_def dest: complete_sentence_frame)

lemma scanned_complete:
  "scanned l b r \<Longrightarrow> complete_sentence l (grow r d) = complete_sentence l (idle_with (b @ d))"
  using complete_sentence_grow [of l "idle_with b" d] by (auto simp: scanned_def)

lemma complete_wire:
  assumes "wire_of s wire" and "int (length wire) \<le> l"
  shows "complete_sentence l (idle_with (wire @ rest)) = (idle_with (wire @ rest), Inr (Some (s, length wire)))"
proof -
  obtain parts where parts: "emap encode_word (map WBytes s) = Inr parts" and wire: "wire = concat parts @ [0]"
    using assms(1) by (auto simp: wire_of_def encode_sentence_def err_simps)
  show ?thesis
    using complete_sentence_encoded [OF parts, of "idle_with (wire @ rest)" "[]" rest l] assms
    by (simp add: wire wire_of_def sentence_fits_def fresh_reader_def idle_with_def)
qed

text \<open>A proper prefix of a sentence is neither a sentence nor an error.\<close>

lemma complete_prefix:
  assumes "wire_of s wire" and "int (length wire) \<le> l" and "wire = p @ q" and "q \<noteq> []"
  shows "\<exists>r. complete_sentence l (idle_with p) = (r, Inr None)"
proof -
  obtain r res where c: "complete_sentence l (idle_with p) = (r, res)" by fastforce
  have w: "complete_sentence l (idle_with (p @ q)) = (idle_with wire, Inr (Some (s, length wire)))"
    using complete_wire [OF assms(1,2), of "[]"] assms(3) by simp
  consider (raise) e where "res = Inl e" | (got) ws n where "res = Inr (Some (ws, n))" | "res = Inr None"
    by (metis old.sum.exhaust option.exhaust surj_pair)
  then show ?thesis
  proof cases
    case raise
    with w c complete_sentence_grow [of l "idle_with p" q] show ?thesis by simp
  next
    case got
    with w c complete_sentence_grow [of l "idle_with p" q] have "n = length wire" by simp
    with got c complete_sentence_size [of l "idle_with p" r ws n] assms(3,4) show ?thesis by simp
  qed (use c in blast)
qed

lemma wire_size:
  assumes "wire_of s wire"
  shows "sentence_wire_size s = Inr (int (length wire))" and "0 < length wire"
proof -
  obtain parts where parts: "emap encode_word (map WBytes s) = Inr parts" and wire: "wire = concat parts @ [0]"
    using assms by (auto simp: wire_of_def encode_sentence_def err_simps)
  from parts have "ebind (emap (\<lambda>w. ebind (encode_length (int (length w)))
        (\<lambda>l. Inr (int (length w) + int (length l)))) s) (\<lambda>costs. Inr (k + sum_list costs))
      = (Inr (k + int (length (concat parts))) :: rb_error + int)" for k
  proof (induction s arbitrary: parts k)
    case (Cons w s)
    then obtain bs parts' where p: "parts = bs # parts'" and w: "encode_word (WBytes w) = Inr bs"
      and rest: "emap encode_word (map WBytes s) = Inr parts'"
      by (auto simp: err_simps)
    from w obtain len where len: "encode_length (int (length w)) = Inr len" and bs: "bs = len @ w"
      by (auto simp: err_simps encode_word_def word_payload_def)
    from Cons.IH [OF rest, of "k + int (length bs)"] show ?case
      by (auto simp: len p bs err_simps ebind_def split: sum.splits)
  qed simp
  from this [of 1] show "sentence_wire_size s = Inr (int (length wire))"
    by (simp add: sentence_wire_size_def wire add.commute)
  show "0 < length wire" by (simp add: wire)
qed

section \<open>One sentence from the socket\<close>

lemma feed_one_complete:
  assumes r: "scanned l b r" and s: "wire_of s wire" "int (length wire) \<le> l" and d: "b @ d = wire @ rest"
    and l: "int (length b + length d) \<le> l" "l \<le> max_sentence_size" "0 < l"
  shows "feed r d (Some l) (Some 1) = (idle_with rest, [s], None)"
proof -
  have lim: "min (rd_max_sentence r) l = l" using scanned_frame [OF r] l by simp
  have full: "complete_sentence l (grow r d) = (idle_with (b @ d), Inr (Some (s, length wire)))"
    using scanned_complete [OF r] complete_wire [OF s, of rest] d by simp
  obtain r1 res where c: "complete_sentence l r = (r1, res)" by fastforce
  have b1: "rd_buffer r1 = b" using complete_sentence_frame [OF c] scanned_frame [OF r] by simp
  have now: "complete_sentence l r = complete_sentence l (idle_with b) \<or> complete_sentence l r = (r, Inr None)"
    using r complete_sentence_again by (auto simp: scanned_def)
  consider (raise) e where "res = Inl e" | (got) ws n where "res = Inr (Some (ws, n))" | (wait) "res = Inr None"
    by (metis old.sum.exhaust option.exhaust surj_pair)
  then show ?thesis
  proof cases
    case raise
    with c full complete_sentence_grow [of l r d] show ?thesis by simp
  next
    case got
    with c full complete_sentence_grow [of l r d] have r1: "grow r1 d = idle_with (b @ d)" "ws = s" "n = length wire"
      by auto
    have n: "n \<le> length b" using complete_sentence_size [OF c [unfolded got]] scanned_frame [OF r] by simp
    have dr: "drop n b @ d = rest"
      using d n r1(3) by (metis append_eq_conv_conj drop_append diff_is_0_eq drop0)
    have "r1\<lparr>rd_buffer := rest\<rparr> = grow r1 d\<lparr>rd_buffer := rest\<rparr>"
      by (simp add: grow_def)
    then have left: "r1\<lparr>rd_buffer := rest\<rparr> = idle_with rest"
      using r1(1) by simp
    show ?thesis
      using c got l b1 r1 left n dr
      by (simp add: feed_def lim feed_loop.simps [of l "Some (Suc 0)" r] Let_def)
  next
    case wait
    have "d \<noteq> []"
      using now full c wait by (cases d) (auto simp: scanned_complete [OF r, of "[]", simplified])
    then have room: "\<not> l \<le> int (length (rd_buffer r1))" "min (nat l - length (rd_buffer r1)) (length d) = length d"
      using l b1 by (cases d; simp)+
    have "complete_sentence l (grow r1 d) = (idle_with (b @ d), Inr (Some (s, length wire)))"
      using complete_sentence_grow [of l r d] full c wait by simp
    moreover have "length rest \<le> length b + length d"
      using arg_cong [OF d, of length] by simp
    ultimately have "feed_loop l (Some 1) (grow r1 d) [] 0 = (idle_with rest, [s], None)"
      using d l by (simp add: feed_loop.simps [of l "Some (Suc 0)" "grow r1 d"] Let_def)
    with c wait \<open>d \<noteq> []\<close> room show ?thesis
      using l by (simp add: feed_def lim feed_loop.simps [of l "Some (Suc 0)" r] Let_def grow_def)
  qed
qed

lemma feed_one_partial:
  assumes r: "scanned l b r" and s: "wire_of s wire" "int (length wire) \<le> l" and d: "wire = (b @ d) @ q" "q \<noteq> []"
    and l: "l \<le> max_sentence_size" "0 < l"
  shows "\<exists>r'. scanned l (b @ d) r' \<and> feed r d (Some l) (Some 1) = (r', [], None)"
proof -
  have lim: "min (rd_max_sentence r) l = l" using scanned_frame [OF r] l by simp
  obtain r2 where r2: "complete_sentence l (idle_with (b @ d)) = (r2, Inr None)"
    using complete_prefix [OF s d(1)] d(2) by blast
  obtain r1 where r1: "complete_sentence l r = (r1, Inr None)"
    using r complete_prefix [OF s, of b "d @ q"] d complete_sentence_again by (auto simp: scanned_def)
  have b1: "rd_buffer r1 = b" using complete_sentence_frame [OF r1] scanned_frame [OF r] by simp
  have short: "int (length b + length d) < l"
    using d s(2) by (cases q) auto
  have c2: "complete_sentence l (grow r1 d) = (r2, Inr None)"
    using scanned_complete [OF r, of d] r2 r1 complete_sentence_grow [of l r d] by simp
  have b2: "rd_buffer r2 = b @ d" using complete_sentence_frame [OF r2] by simp
  have sc: "scanned l (b @ d) r2" using r2 by (simp add: scanned_def)
  show ?thesis
  proof (cases "d = []")
    case True
    with c2 r1 r2 b1 short sc l show ?thesis
      using complete_sentence_again [OF r1]
      by (auto simp: feed_def lim feed_loop.simps [of l "Some (Suc 0)" r])
  next
    case False
    then have room: "\<not> l \<le> int (length (rd_buffer r1))" "min (nat l - length (rd_buffer r1)) (length d) = length d"
      using short b1 by (cases d; simp)+
    have "feed_loop l (Some 1) (grow r1 d) [] 0 = (r2, [], None)"
      using c2 b2 short by (simp add: feed_loop.simps [of l "Some (Suc 0)" "grow r1 d"])
    with r1 False room sc show ?thesis
      using l by (auto simp: feed_def lim feed_loop.simps [of l "Some (Suc 0)" r] Let_def grow_def)
  qed
qed

text \<open>The chunks that are still to come; each is what one \<open>recv(4096)\<close> may return.\<close>

definition chunk_ok :: "byte list \<Rightarrow> bool" where
  "chunk_ok c \<longleftrightarrow> c \<noteq> [] \<and> length c \<le> 4096"

definition conn_at :: "conn \<Rightarrow> reader \<Rightarrow> byte list list \<Rightarrow> bool" where
  "conn_at c r chunks \<longleftrightarrow> cn_open c \<and> cn_reader c = r \<and> cn_in c = map Chunk chunks"

lemma take_sentence_complete:
  assumes "conn_at c r chunks" and "scanned l b r" and "wire_of s wire" "int (length wire) \<le> l"
    and "b @ d = wire @ rest" and "int (length b + length d) \<le> l" "l \<le> max_sentence_size" "0 < l"
    and "int (length wire) \<le> m"
  shows "take_sentence c d l (Some m) = (c\<lparr>cn_reader := idle_with rest\<rparr>, Inr (Some s))"
  using feed_one_complete [OF assms(2-8)] assms(1,9) wire_size [OF assms(3)]
  by (simp add: take_sentence_def conn_at_def)

lemma take_sentence_partial:
  assumes "conn_at c r chunks" and "scanned l b r" and "wire_of s wire" "int (length wire) \<le> l"
    and "wire = (b @ d) @ q" "q \<noteq> []" and "l \<le> max_sentence_size" "0 < l"
  shows "\<exists>r'. scanned l (b @ d) r' \<and> take_sentence c d l m = (c\<lparr>cn_reader := r'\<rparr>, Inr None)"
  using feed_one_partial [OF assms(2-8)] assms(1) by (auto simp: take_sentence_def conn_at_def)

lemma append_split_le:
  "a @ b = c @ d \<Longrightarrow> length c \<le> length a \<Longrightarrow> \<exists>e. a = c @ e \<and> e @ b = d"
  by (auto simp: append_eq_append_conv2)

lemma append_split_less:
  "a @ b = c @ d \<Longrightarrow> length a < length c \<Longrightarrow> \<exists>e. c = a @ e \<and> e \<noteq> [] \<and> b = e @ d"
  by (auto simp: append_eq_append_conv2)

lemma read_loop_wire:
  assumes "conn_at c r chunks" and "scanned l b r" and "wire_of s wire" and "int (length wire) + 4096 \<le> l \<or> l = m"
    and "int (length wire) \<le> l" and "b @ concat chunks = wire @ rest" and "list_all chunk_ok chunks"
    and "l = min max_sentence_size m" and "int (length b) \<le> l" and "received = int (length b)"
    and "int (length b + length (concat chunks)) \<le> m"
  shows "\<exists>c' b' chunks'. read_loop (map Chunk chunks) c l (Some m) received = (c', Inr s) \<and>
    conn_at c' (idle_with b') chunks' \<and> b' @ concat chunks' = rest \<and> list_all chunk_ok chunks' \<and>
    length b' \<le> max 4096 (length b - length wire)"
  using assms
proof (induction chunks arbitrary: c r b received)
  case Nil
  then have "0 < l" using wire_size(2) [of s wire] by linarith
  have "take_sentence c [] l (Some m) = (c\<lparr>cn_reader := idle_with rest\<rparr>, Inr (Some s))"
    using Nil \<open>0 < l\<close> by (intro take_sentence_complete [of c r "[]" l b s wire]) auto
  then show ?case
    using Nil.prems arg_cong [OF Nil.prems(6), of length]
    by (intro exI [of _ "c\<lparr>cn_reader := idle_with rest\<rparr>"] exI [of _ rest] exI [of _ "[]"])
       (simp add: read_loop.simps conn_at_def)
next
  case (Cons d chunks)
  note prems = Cons.prems
  have pos: "0 < l" using wire_size(2) [OF prems(3)] prems(5) by linarith
  have op: "cn_open c" "cn_in c = Chunk d # map Chunk chunks" using prems(1) by (auto simp: conn_at_def)
  show ?case
  proof (cases "length wire \<le> length b")
    case True
    then obtain b' where b': "b = wire @ b'" "b' @ concat (d # chunks) = rest"
      using append_split_le [OF prems(6)] by blast
    have "take_sentence c [] l (Some m) = (c\<lparr>cn_reader := idle_with b'\<rparr>, Inr (Some s))"
      using prems pos b' by (intro take_sentence_complete [of c r "d # chunks" l b s wire]) auto
    then show ?thesis
      using prems b' op
      by (intro exI [of _ "c\<lparr>cn_reader := idle_with b'\<rparr>"] exI [of _ b'] exI [of _ "d # chunks"])
         (simp add: read_loop.simps conn_at_def)
  next
    case False
    then obtain q where q: "wire = b @ q" "q \<noteq> []" "d @ concat chunks = q @ rest"
      using append_split_less [OF prems(6)] by auto
    obtain r1 where r1: "scanned l b r1" "take_sentence c [] l (Some m) = (c\<lparr>cn_reader := r1\<rparr>, Inr None)"
      using take_sentence_partial [OF prems(1-3,5), of "[]" q "Some m"] q prems(8) pos by auto
    have d: "d \<noteq> []" "length d \<le> 4096" "list_all chunk_ok chunks"
      using prems(7) by (simp_all add: chunk_ok_def [of d])
    have size: "(min 4096 (m - received) < 1) = False" "(min 4096 (m - received) < int (length d)) = False"
      using d prems(10,11) by (cases d; simp)+
    let ?c1 = "c\<lparr>cn_reader := r1, cn_in := map Chunk chunks\<rparr>"
    have at1: "conn_at ?c1 r1 chunks" using op by (simp add: conn_at_def)
    have step: "read_loop (map Chunk (d # chunks)) c l (Some m) received =
      (case take_sentence ?c1 d l (Some m) of
         (c, Inl e) \<Rightarrow> (c, Inl e)
       | (c, Inr (Some sentence)) \<Rightarrow> (c, Inr sentence)
       | (c, Inr None) \<Rightarrow> read_loop (map Chunk chunks) c l (Some m) (received + int (length d)))"
      using op r1(2) d(1) size by (simp add: read_loop.simps [of "Chunk d # map Chunk chunks"] Let_def)
    show ?thesis
    proof (cases "length q \<le> length d")
      case True
      then obtain b' where b': "d = q @ b'" "b' @ concat chunks = rest"
        using append_split_le [OF q(3)] by blast
      have "int (length b + length d) \<le> l"
        using prems(4,8,11) d(2) q(1,2) by (cases q) (auto simp: min_def)
      then have "take_sentence ?c1 d l (Some m) = (?c1\<lparr>cn_reader := idle_with b'\<rparr>, Inr (Some s))"
        using prems pos b' q by (intro take_sentence_complete [OF at1 r1(1)]) auto
      then show ?thesis
        using step b' op d
        by (intro exI [of _ "?c1\<lparr>cn_reader := idle_with b'\<rparr>"] exI [of _ b'] exI [of _ chunks])
           (simp add: conn_at_def)
    next
      case False
      then obtain q' where q': "q = d @ q'" "q' \<noteq> []" "concat chunks = q' @ rest"
        using append_split_less [OF q(3)] by auto
      obtain r2 where r2: "scanned l (b @ d) r2" "take_sentence ?c1 d l (Some m) = (?c1\<lparr>cn_reader := r2\<rparr>, Inr None)"
        using take_sentence_partial [OF at1 r1(1) prems(3,5), of d q' "Some m"] q q' prems(8) pos by auto
      have at2: "conn_at (?c1\<lparr>cn_reader := r2\<rparr>) r2 chunks" using at1 by (simp add: conn_at_def)
      have "int (length (b @ d)) \<le> l" using prems(5) q q' by simp
      obtain c' b' chunks' where IH: "read_loop (map Chunk chunks) (?c1\<lparr>cn_reader := r2\<rparr>) l (Some m) (received + int (length d)) = (c', Inr s)"
        "conn_at c' (idle_with b') chunks'" "b' @ concat chunks' = rest" "list_all chunk_ok chunks'"
        "length b' \<le> max 4096 (length (b @ d) - length wire)"
        using Cons.IH [OF at2 r2(1) prems(3-5) _ d(3) prems(8) \<open>int (length (b @ d)) \<le> l\<close>, of "received + int (length d)"]
          prems(6,10,11) by auto
      moreover have "length (b @ d) - length wire = 0" using q q' by simp
      ultimately show ?thesis using step r2(2) by auto
    qed
  qed
qed

lemma read_sentence_wire:
  assumes "conn_at c (idle_with b) chunks" and "wire_of s wire"
    and "int (length wire) + 4096 \<le> max_sentence_size" and "int (length wire) \<le> m"
    and "b @ concat chunks = wire @ rest" and "list_all chunk_ok chunks" and "length b \<le> 4096"
    and "int (length b + length (concat chunks)) \<le> m"
  shows "\<exists>c' b' chunks'. read_sentence c (Some m) = (c', Inr s) \<and>
    conn_at c' (idle_with b') chunks' \<and> b' @ concat chunks' = rest \<and> list_all chunk_ok chunks' \<and>
    length b' \<le> 4096"
proof -
  let ?l = "min max_sentence_size m"
  have l: "int (length wire) + 4096 \<le> ?l \<or> ?l = m" "int (length wire) \<le> ?l" "int (length b) \<le> ?l"
    using assms(3,4,7,8) by (auto simp: min_def max_sentence_size_def)
  have m: "\<not> m < 1" using assms(4) wire_size(2) [OF assms(2)] by linarith
  have b: "\<not> m < int (length b)" using assms(8) by simp
  obtain c' b' chunks' where r: "read_loop (map Chunk chunks) c ?l (Some m) (int (length b)) = (c', Inr s)"
    "conn_at c' (idle_with b') chunks'" "b' @ concat chunks' = rest" "list_all chunk_ok chunks'"
    "length b' \<le> max 4096 (length b - length wire)"
    using read_loop_wire [OF assms(1) _ assms(2) l(1,2) assms(5,6) refl l(3) refl assms(8)]
    by (auto simp: scanned_def)
  have "read_sentence c (Some m) = (c', Inr s)"
    using r(1) m b assms(1) by (simp add: read_sentence_def Let_def conn_at_def)
  with r assms(7) show ?thesis by auto
qed

section \<open>A whole response\<close>

definition response_kinds :: "reply list \<Rightarrow> bool" where
  "response_kinds rs \<longleftrightarrow> rs \<noteq> [] \<and> kind_is (last rs) {''done'', ''empty''} \<and>
     (\<forall>r\<in>set (butlast rs). \<not> kind_is r {''done'', ''empty'', ''trap'', ''fatal''})"

definition wires_ok :: "byte list list list \<Rightarrow> byte list list \<Rightarrow> bool" where
  "wires_ok sentences wires \<longleftrightarrow>
     list_all2 (\<lambda>s wire. wire_of s wire \<and> int (length wire) + 4096 \<le> max_sentence_size) sentences wires"

lemma request_loop_wire:
  assumes "conn_at c (idle_with b) chunks" and "b @ concat chunks = concat wires"
    and "list_all chunk_ok chunks" and "length b \<le> 4096" and "wires_ok sentences wires"
    and "response_from tag rs sentences" and "response_kinds rs"
    and "length replies + length rs \<le> max_response_replies"
    and "w + sum_list (map length sentences) \<le> max_response_words"
    and "n + int (length (concat wires)) \<le> max_response_bytes"
  shows "\<exists>c'. request_loop tag c replies n w = (c', Inr (replies @ rs))"
  using assms
proof (induction rs arbitrary: c b chunks wires sentences replies w n)
  case Nil
  then show ?case by (simp add: response_kinds_def)
next
  case (Cons r rs)
  note prems = Cons.prems
  from prems(6) obtain s sentences' where s: "sentences = s # sentences'" "parse_reply s = Inr r"
    "reply_tag r = Some tag" "response_from tag rs sentences'"
    by (auto simp: response_from_def list_all2_Cons2)
  from prems(5) s(1) obtain wire wires' where wire: "wires = wire # wires'" "wire_of s wire"
    "int (length wire) + 4096 \<le> max_sentence_size" "wires_ok sentences' wires'"
    by (auto simp: wires_ok_def list_all2_Cons1)
  let ?m = "max_response_bytes - n"
  have "int (length b + length (concat chunks)) \<le> ?m"
    using prems(10) arg_cong [OF prems(2), of length] by simp
  then obtain c' b' chunks' where rd: "read_sentence c (Some ?m) = (c', Inr s)"
    "conn_at c' (idle_with b') chunks'" "b' @ concat chunks' = concat wires'"
    "list_all chunk_ok chunks'" "length b' \<le> 4096"
    using read_sentence_wire [OF prems(1) wire(2,3) _ _ prems(3,4), of ?m "concat wires'"] prems(2,10) wire(1)
    by auto
  have step: "request_loop tag c replies n w =
    (if kind_is r {''done'', ''empty'', ''trap'', ''fatal''} then
       (if kind_is r {''trap'', ''fatal''}
        then (c', Inl (rejection r (lit ''RouterOS rejected the Binary API request'')))
        else (c', Inr (replies @ [r])))
     else request_loop tag c' (replies @ [r]) (n + int (length wire)) (w + length s))"
    using prems(8-10) s wire(1) wire_size [OF wire(2)] rd(1)
    by (subst request_loop.simps) (simp add: Let_def del: image_insert)
  show ?case
  proof (cases "rs = []")
    case True
    with prems(7) have "kind_is r {''done'', ''empty''}" by (simp add: response_kinds_def)
    with True step show ?thesis by auto
  next
    case False
    with prems(7) have k: "\<not> kind_is r {''done'', ''empty'', ''trap'', ''fatal''}" "response_kinds rs"
      by (auto simp: response_kinds_def)
    obtain c'' where "request_loop tag c' (replies @ [r]) (n + int (length wire)) (w + length s)
        = (c'', Inr ((replies @ [r]) @ rs))"
      using Cons.IH [OF rd(2,3,4,5) wire(4) s(4) k(2), of "replies @ [r]" "w + length s" "n + int (length wire)"]
        prems(8-10) s(1) wire(1) by auto
    with step k(1) show ?thesis by auto
  qed
qed

lemma execute_delivers:
  assumes "cn_open c" and "cn_reader c = fresh_reader" and "cn_in c = map Chunk chunks"
    and "cn_send_ok c = []" and "print_query_fields path = Some allowed"
    and "validated_query query allowed = Inr q"
    and "encode_sentence (map WStr (path # q) @ [tag_word tag]) = Inr payload"
    and "tag = str_of_int (int (cn_tag c + 1))"
    and "concat chunks = concat wires" and "\<forall>ch\<in>set chunks. chunk_ok ch"
    and "wires_ok sentences wires" and "response_from tag rs sentences" and "response_kinds rs"
    and "length rs \<le> max_response_replies" and "sum_list (map length sentences) \<le> max_response_words"
    and "int (length (concat wires)) \<le> max_response_bytes"
  shows "\<exists>c'. execute c path query = (c', Inr rs)"
proof -
  have slash: "take 1 path = [47]"
    using assms(5) by (auto simp: print_query_fields_def lit_def of_char_def split: if_splits)
  let ?c = "c\<lparr>cn_tag := cn_tag c + 1, cn_sent := cn_sent c @ [payload]\<rparr>"
  have "conn_at ?c (idle_with []) chunks" using assms(1-3) by (simp add: conn_at_def)
  then obtain c' where "request_loop tag ?c [] 0 0 = (c', Inr ([] @ rs))"
    using request_loop_wire [of ?c "[]" chunks wires sentences tag rs "[]" 0 0] assms(9-16)
    by (auto simp: list_all_iff)
  then show ?thesis
    using assms(1,4-8) slash
    by (simp add: execute_def request_def next_tag_def send_words_def closing_def)
qed

definition demo_conn :: conn where
  "demo_conn = \<lparr>cn_open = True, cn_reader = fresh_reader, cn_tag = 0,
     cn_in = map Chunk [[5, 33, 100], [111, 110, 101, 6, 46, 116, 97, 103, 61, 49, 0]],
     cn_send_ok = [], cn_sent = []\<rparr>"

definition demo_sentence :: "byte list list" where
  "demo_sentence = [[33, 100, 111, 110, 101], [46, 116, 97, 103, 61, 49]]"

definition demo_wire :: "byte list" where
  "demo_wire = [5, 33, 100, 111, 110, 101, 6, 46, 116, 97, 103, 61, 49, 0]"

definition demo_reply :: reply where
  "demo_reply = \<lparr>rp_kind = lit ''done'', rp_attrs = [(lit ''.tag'', lit ''1'')]\<rparr>"

lemma demo_parse: "parse_reply demo_sentence = Inr demo_reply"
  by (simp add: demo_sentence_def demo_reply_def parse_reply_def py_partition_def utf8_replace_def utf8_step_def
      lit_def of_char_def wire_limits Let_def)

lemma demo_tag: "reply_tag demo_reply = Some (lit ''1'')" "str_of_int 1 = lit ''1''"
  by (simp_all add: demo_reply_def reply_tag_def str_of_int_def dec_of_nat.simps lit_def of_char_def)

lemma demo_wire_of: "wire_of demo_sentence demo_wire"
  by (simp add: demo_sentence_def demo_wire_def wire_of_def sentence_fits_def fresh_reader_def wire_limits
      encode_sentence_def encode_word_def word_payload_def encode_length_def)

lemma demo_request: "encode_sentence (map WStr (lit ''/ppp/active/print'' # []) @ [tag_word (lit ''1'')])
    = Inr (17 # map of_nat (lit ''/ppp/active/print'') @ 6 # map of_nat (lit ''.tag=1'') @ [0])"
  by (simp add: encode_sentence_def tag_word_def encode_word_def word_payload_def encode_length_def
      utf8_encode_lit lit_def of_char_def)

lemmas demo_response =
  demo_parse demo_tag demo_wire_of demo_conn_def print_query_fields_def validated_query_def
  chunk_ok_def wires_ok_def response_from_def response_kinds_def wire_limits

lemma demo_execute:
  "\<exists>c'. execute demo_conn (lit ''/ppp/active/print'') (QItems []) = (c', Inr [demo_reply])"
proof (rule execute_delivers [where sentences = "[demo_sentence]" and wires = "[demo_wire]" and q = "[]"
      and chunks = "[[5, 33, 100], [111, 110, 101, 6, 46, 116, 97, 103, 61, 49, 0]]"
      and tag = "lit ''1''" and allowed = active_session_fields])
  show "encode_sentence (map WStr (lit ''/ppp/active/print'' # []) @ [tag_word (lit ''1'')])
    = Inr (17 # map of_nat (lit ''/ppp/active/print'') @ 6 # map of_nat (lit ''.tag=1'') @ [0])"
    by (rule demo_request)
qed (simp_all add: demo_response, simp_all add: demo_wire_def demo_sentence_def demo_reply_def)

section \<open>Properties\<close>

text \<open>C18: a response is returned whole. On an open, idle connection, for an allow-listed path
  and query: if the router answers with encoded replies that carry the request's tag, end
  with \<open>!done\<close> or \<open>!empty\<close> and fit the limits, then \<open>execute\<close> returns exactly these replies
  in order, however the stream is cut into chunks of at most 4096 bytes.\<close>

theorem execute_returns_the_response:
  assumes "cn_open c" and "cn_reader c = fresh_reader" and "cn_in c = map Chunk chunks"
    and "cn_send_ok c = []" and "print_query_fields path = Some allowed"
    and "validated_query query allowed = Inr q"
    and "encode_sentence (map WStr (path # q) @ [tag_word tag]) = Inr payload"
    and "tag = str_of_int (int (cn_tag c + 1))"
    and "concat chunks = concat wires" and "\<forall>ch\<in>set chunks. chunk_ok ch"
    and "wires_ok sentences wires" and "response_from tag rs sentences" and "response_kinds rs"
    and "length rs \<le> max_response_replies" and "sum_list (map length sentences) \<le> max_response_words"
    and "int (length (concat wires)) \<le> max_response_bytes"
  shows "\<exists>c'. execute c path query = (c', Inr rs)"
  by (rule execute_delivers [OF assms])

theorem execute_returns_the_response_witness:
  "\<exists>c'. execute demo_conn (lit ''/ppp/active/print'') (QItems []) = (c', Inr [demo_reply])"
proof (rule execute_returns_the_response [where sentences = "[demo_sentence]" and wires = "[demo_wire]" and q = "[]"
      and chunks = "[[5, 33, 100], [111, 110, 101, 6, 46, 116, 97, 103, 61, 49, 0]]"
      and tag = "lit ''1''" and allowed = active_session_fields])
  show "encode_sentence (map WStr (lit ''/ppp/active/print'' # []) @ [tag_word (lit ''1'')])
    = Inr (17 # map of_nat (lit ''/ppp/active/print'') @ 6 # map of_nat (lit ''.tag=1'') @ [0])"
    by (rule demo_request)
qed (simp_all add: demo_response, simp_all add: demo_wire_def demo_sentence_def demo_reply_def)

text \<open>a response that \<open>execute\<close> returns is complete and bounded: it ends with the first
  \<open>!done\<close> or \<open>!empty\<close>, every reply parses from a sentence read for this request and carries
  its tag, and the number of replies, of words and of bytes is within the limits.\<close>

theorem execute_response_is_bounded:
  assumes "execute c path query = (c', Inr replies)"
  shows "\<exists>sentences. replies \<noteq> [] \<and> length replies \<le> max_response_replies \<and>
    response_from (str_of_int (int (cn_tag c + 1))) replies sentences \<and>
    sum_list (map cost_of sentences) \<le> max_response_bytes \<and>
    sum_list (map length sentences) \<le> max_response_words \<and>
    kind_is (last replies) {''done'', ''empty''} \<and>
    (\<forall>r\<in>set (butlast replies). \<not> kind_is r {''done'', ''empty'', ''trap'', ''fatal''})"
  by (rule execute_response [OF assms])

theorem execute_response_is_bounded_witness:
  "\<exists>sentences. response_from (lit ''1'') [demo_reply] sentences \<and>
     sum_list (map cost_of sentences) \<le> max_response_bytes"
proof -
  obtain c' where e: "execute demo_conn (lit ''/ppp/active/print'') (QItems []) = (c', Inr [demo_reply])"
    using demo_execute by blast
  have "cn_tag demo_conn = 0" by (simp add: demo_conn_def)
  with execute_response_is_bounded [OF e] show ?thesis by (auto simp: demo_tag)
qed

end
