(* ===== verification/Roles.thy ===== *)
theory Roles
  imports Prelude
begin

text \<open>
  The capability matrix of \<open>security.py\<close>: the five dashboard roles, the aliases of RouterOS
  group names, \<open>normalize_role\<close>, \<open>role_capabilities\<close> and \<open>has_capability\<close>. The lemmas show
  that an unknown group never gains more than read access and that no alias leads to the
  owner role.
\<close>

definition role_labels :: "(pystr, pystr) dict" where
  "role_labels = map (\<lambda>(k, v). (lit k, lit v))
     [(''owner'', ''Owner''), (''security_operator'', ''Security operator''),
      (''administrator'', ''Administrator''), (''auditor'', ''Auditor''), (''read_only'', ''Read-only'')]"

definition role_aliases :: "(pystr, pystr) dict" where
  "role_aliases = map (\<lambda>(k, v). (lit k, lit v))
     [(''operator'', ''administrator''), (''viewer'', ''read_only''), (''read'', ''read_only''),
      (''readonly'', ''read_only''), (''read-only'', ''read_only''),
      (''security-operator'', ''security_operator''), (''security'', ''security_operator''),
      (''audit'', ''auditor'')]"

definition role_capability_table :: "(pystr, pystr list) dict" where
  "role_capability_table = map (\<lambda>(k, v). (lit k, map lit v))
     [(''owner'', [''*'']),
      (''security_operator'',
        [''health.read'', ''users.read'', ''profiles.read'', ''sessions.read'', ''audit.read'', ''policies.read'',
         ''security.manage'', ''device.manage'', ''profiles.manage'', ''session.manage'']),
      (''administrator'',
        [''health.read'', ''users.read'', ''profiles.read'', ''sessions.read'', ''audit.read'', ''policies.read'',
         ''users.manage'', ''profiles.manage'', ''policies.manage'', ''backup.manage'', ''session.manage'',
         ''alert.manage'']),
      (''auditor'',
        [''health.read'', ''users.read'', ''profiles.read'', ''sessions.read'', ''audit.read'', ''policies.read'']),
      (''read_only'',
        [''health.read'', ''users.read'', ''profiles.read'', ''sessions.read'', ''policies.read''])]"

definition role_candidate :: "pystr \<Rightarrow> pystr" where
  "role_candidate role = map (\<lambda>c. if c = 32 then 95 else c) (casefold (py_strip role))"

definition normalize_role :: "pystr \<Rightarrow> pystr" where
  "normalize_role role =
     (let candidate = role_candidate role;
          candidate = dget_or role_aliases candidate candidate in
      if candidate \<in> set (dkeys role_capability_table) then candidate else lit ''read_only'')"

definition role_label :: "pystr \<Rightarrow> pystr" where
  "role_label role = dget_or role_labels (normalize_role role) []"

definition role_capabilities :: "pystr \<Rightarrow> pystr list" where
  "role_capabilities role = dget_or role_capability_table (normalize_role role) []"

definition has_capability :: "pystr \<Rightarrow> pystr \<Rightarrow> bool" where
  "has_capability role capability \<longleftrightarrow>
     lit ''*'' \<in> set (role_capabilities role) \<or> capability \<in> set (role_capabilities role)"

definition dashboard_roles :: "pystr list" where
  "dashboard_roles = map lit [''owner'', ''security_operator'', ''administrator'', ''auditor'', ''read_only'']"

lemma role_table_keys: "dkeys role_capability_table = dashboard_roles"
  by (simp add: role_capability_table_def dashboard_roles_def)

lemma normalize_role_known: "normalize_role role \<in> set dashboard_roles"
  by (simp add: normalize_role_def Let_def role_table_keys del: set_map) (simp add: dashboard_roles_def)

lemma normalize_role_idem [simp]: "normalize_role (normalize_role role) = normalize_role role"
proof -
  have "\<forall>r\<in>set dashboard_roles. normalize_role r = r"
    by (simp add: dashboard_roles_def normalize_role_def Let_def role_table_keys role_candidate_def lit_def of_char_def
        py_strip_def py_space_def casefold_def fold_cp_def dget_or_def role_aliases_def del: set_map)
  with normalize_role_known [of role] show ?thesis by blast
qed

lemma role_capabilities_normalize [simp]: "role_capabilities (normalize_role role) = role_capabilities role"
  by (simp add: role_capabilities_def)

lemma has_capability_normalize [simp]: "has_capability (normalize_role role) c = has_capability role c"
  by (simp add: has_capability_def)

lemma role_aliases_range: "dget role_aliases k = Some v \<Longrightarrow> v \<in> set dashboard_roles \<and> v \<noteq> lit ''owner''"
  by (auto simp: role_aliases_def dashboard_roles_def split: if_splits)

lemma normalize_role_owner_iff:
  "normalize_role role = lit ''owner'' \<longleftrightarrow> role_candidate role = lit ''owner''"
proof
  assume o: "normalize_role role = lit ''owner''"
  then have "dget_or role_aliases (role_candidate role) (role_candidate role) = lit ''owner''"
    by (auto simp: normalize_role_def Let_def split: if_splits)
  then show "role_candidate role = lit ''owner''"
    using role_aliases_range [of "role_candidate role"] by (auto simp: dget_or_def split: option.splits)
next
  assume "role_candidate role = lit ''owner''"
  then show "normalize_role role = lit ''owner''"
    by (simp add: normalize_role_def Let_def role_table_keys dget_or_def role_aliases_def dashboard_roles_def
        del: set_map list.map) (simp add: dget_or_def)
qed

lemma role_capabilities_cases:
  "normalize_role role = lit ''owner'' \<and> role_capabilities role = [lit ''*''] \<or>
   normalize_role role \<noteq> lit ''owner'' \<and> lit ''*'' \<notin> set (role_capabilities role) \<and>
     lit ''sessions.read'' \<in> set (role_capabilities role)"
  using normalize_role_known [of role]
  by (auto simp: dashboard_roles_def role_capabilities_def dget_or_def role_capability_table_def)

section \<open>Properties\<close>

text \<open>the role lookup fails closed: every capability is granted to exactly the accounts
  whose group is literally the owner group (up to case, outer space and blanks for
  underscores); no alias and no unknown group leads there.\<close>

theorem everything_is_for_the_owner_only:
  "(\<forall>capability. has_capability role capability) \<longleftrightarrow> role_candidate role = lit ''owner''"
proof
  assume all: "\<forall>capability. has_capability role capability"
  show "role_candidate role = lit ''owner''"
  proof (rule ccontr)
    assume "role_candidate role \<noteq> lit ''owner''"
    then have "lit ''*'' \<notin> set (role_capabilities role)"
      using role_capabilities_cases [of role] normalize_role_owner_iff [of role] by auto
    moreover from this have "\<forall>capability. capability \<in> set (role_capabilities role)"
      using all by (simp add: has_capability_def)
    ultimately show False by blast
  qed
next
  assume "role_candidate role = lit ''owner''"
  then show "\<forall>capability. has_capability role capability"
    using role_capabilities_cases [of role] normalize_role_owner_iff [of role]
    by (auto simp: has_capability_def)
qed

end
