(* ===== verification/Session_Store.thy ===== *)
theory Session_Store
  imports Roles "HOL-Library.List_Lexorder"
begin

text \<open>
  \<open>SessionStore\<close> of \<open>security.py\<close>: the in-memory sessions of the dashboard with their two
  lifetimes, the role cache, the revocation index and the invalidation marks. Each
  \<open>with self._lock:\<close> section of a method is a definition on the record \<open>session_store\<close>, and each method is
  the sequence of its sections as one thread runs it while no other thread changes the store;
  the theory \<open>Session_Races\<close> interleaves the same sections of several threads.

  \<open>st_locked\<close> holds the locks that are taken: a call that has to wait for a lock raises
  \<open>LockUnavailable\<close> inside an event loop and is \<open>Waits\<close> (it does not return) outside. The lock
  of a session is named by the session's identifier. Clock readings, random tokens, the
  outcome of the \<open>before_commit\<close> callback and the answer of the role resolver are arguments.
  \<open>st_dropped\<close> keeps the objects that left the store as their other holders see them.
\<close>

section \<open>Sessions and the store\<close>

record account_session =
  as_id :: pystr
  as_username :: pystr
  as_password :: pystr
  as_csrf :: pystr
  as_created_at :: rat
  as_last_seen :: rat
  as_revocation_ref :: pystr
  as_authorization_ref :: pystr
  as_created_mono :: rat
  as_last_seen_mono :: rat
  as_role :: pystr
  as_source :: pystr
  as_agent :: pystr
  as_auth_method :: pystr
  as_token_id :: pystr
  as_capabilities :: "pystr list option"
  as_reauthenticated_at :: rat

datatype lock = SetLock | CheckLock pystr

datatype store_error = LockUnavailable | Waits | AuthorizationChanged | LimitReached | CallbackRaised

record session_store =
  st_idle :: int
  st_absolute :: int
  st_max :: nat
  st_sessions :: "(pystr, account_session) dict"
  st_revocation :: "(pystr, pystr) dict"
  st_checked :: "(pystr, rat) dict"
  st_lock_keys :: "pystr list"
  st_locked :: "lock list"
  st_invalidating :: "(pystr, nat) dict"
  st_denied :: "(pystr, nat) dict"
  st_pending :: "(pystr, nat) dict"
  st_running :: "pystr list"
  st_generations :: "(pystr, nat) dict"
  st_dropped :: "account_session list"

definition session_idle_seconds :: int where "session_idle_seconds = 30 * 60"
definition session_absolute_seconds :: int where "session_absolute_seconds = 8 * 60 * 60"
definition role_revalidation_seconds :: int where "role_revalidation_seconds = 15"
definition max_sessions_per_account :: nat where "max_sessions_per_account = 8"

text \<open>\<open>None\<close> is the \<open>ValueError\<close> of a limit below one.\<close>

definition new_store :: "int \<Rightarrow> int \<Rightarrow> int \<Rightarrow> session_store option" where
  "new_store idle absolute limit =
     (if limit < 1 then None
      else Some \<lparr>st_idle = idle, st_absolute = absolute, st_max = nat limit, st_sessions = [],
        st_revocation = [], st_checked = [], st_lock_keys = [], st_locked = [], st_invalidating = [],
        st_denied = [], st_pending = [], st_running = [], st_generations = [], st_dropped = []\<rparr>)"

text \<open>The two clock readings of one place in the code: \<open>time.time()\<close> and \<open>time.monotonic()\<close>.\<close>

record reading =
  wall :: rat
  mono_clock :: rat

definition current_of :: "rat option \<Rightarrow> reading \<Rightarrow> rat" where
  "current_of now r = (case now of None \<Rightarrow> wall r | Some t \<Rightarrow> t)"

definition is_expired :: "session_store \<Rightarrow> account_session \<Rightarrow> rat \<Rightarrow> rat \<Rightarrow> bool" where
  "is_expired st s current monotonic \<longleftrightarrow>
     of_int (st_idle st) \<le> current - as_last_seen s \<or>
     of_int (st_absolute st) \<le> current - as_created_at s \<or>
     of_int (st_idle st) \<le> monotonic - as_last_seen_mono s \<or>
     of_int (st_absolute st) \<le> monotonic - as_created_mono s"

section \<open>Invalidation marks\<close>

abbreviation count_of :: "(pystr, nat) dict \<Rightarrow> pystr \<Rightarrow> nat" where
  "count_of d k \<equiv> dget_or d k 0"

definition count_up :: "pystr \<Rightarrow> (pystr, nat) dict \<Rightarrow> (pystr, nat) dict" where
  "count_up k d = dset k (count_of d k + 1) d"

definition count_down :: "pystr \<Rightarrow> (pystr, nat) dict \<Rightarrow> (pystr, nat) dict" where
  "count_down k d = (if count_of d k \<le> 1 then ddel k d else dset k (count_of d k - 1) d)"

definition mark_invalidating :: "pystr list \<Rightarrow> session_store \<Rightarrow> session_store" where
  "mark_invalidating sids st = st\<lparr>st_invalidating := fold count_up sids (st_invalidating st)\<rparr>"

definition clear_invalidating :: "pystr list \<Rightarrow> session_store \<Rightarrow> session_store" where
  "clear_invalidating sids st = st\<lparr>st_invalidating := fold count_down sids (st_invalidating st)\<rparr>"

definition clear_session_secrets :: "account_session \<Rightarrow> account_session" where
  "clear_session_secrets s =
     s\<lparr>as_password := [], as_csrf := [], as_authorization_ref := [], as_revocation_ref := []\<rparr>"

definition drop_session :: "pystr \<Rightarrow> session_store \<Rightarrow> session_store" where
  "drop_session sid st =
     (case dget (st_sessions st) sid of
        None \<Rightarrow> st\<lparr>st_checked := ddel sid (st_checked st),
                     st_lock_keys := filter (\<lambda>k. k \<noteq> sid) (st_lock_keys st)\<rparr>
      | Some s \<Rightarrow> st\<lparr>st_sessions := ddel sid (st_sessions st),
                       st_revocation := ddel (as_revocation_ref s) (st_revocation st),
                       st_dropped := st_dropped st @ [clear_session_secrets s],
                       st_checked := ddel sid (st_checked st),
                       st_lock_keys := filter (\<lambda>k. k \<noteq> sid) (st_lock_keys st)\<rparr>)"

definition session_is_invalidating :: "session_store \<Rightarrow> pystr \<Rightarrow> account_session \<Rightarrow> bool" where
  "session_is_invalidating st sid s \<longleftrightarrow>
     sid \<in> set (dkeys (st_invalidating st)) \<or> 0 < count_of (st_denied st) (casefold (as_username s))"

definition mark_account :: "pystr \<Rightarrow> session_store \<Rightarrow> session_store" where
  "mark_account key st =
     (if count_of (st_denied st) key = 0
      then st\<lparr>st_generations := count_up key (st_generations st), st_denied := count_up key (st_denied st)\<rparr>
      else st\<lparr>st_denied := count_up key (st_denied st)\<rparr>)"

definition clear_account :: "pystr \<Rightarrow> session_store \<Rightarrow> session_store" where
  "clear_account key st = st\<lparr>st_denied := count_down key (st_denied st)\<rparr>"

definition account_key :: "pystr \<Rightarrow> pystr" where
  "account_key username = casefold (py_strip username)"

definition account_revocation_generation :: "session_store \<Rightarrow> pystr \<Rightarrow> nat" where
  "account_revocation_generation st username = count_of (st_generations st) (account_key username)"

section \<open>Locks\<close>

definition take_locks :: "lock list \<Rightarrow> session_store \<Rightarrow> session_store" where
  "take_locks ls st = st\<lparr>st_locked := ls @ st_locked st\<rparr>"

definition release_locks :: "lock list \<Rightarrow> session_store \<Rightarrow> session_store" where
  "release_locks ls st = st\<lparr>st_locked := filter (\<lambda>l. l \<notin> set ls) (st_locked st)\<rparr>"

text \<open>\<open>self._role_check_locks.setdefault(session_id, threading.Lock())\<close>.\<close>

definition add_lock_key :: "pystr \<Rightarrow> session_store \<Rightarrow> session_store" where
  "add_lock_key sid st =
     (if sid \<in> set (st_lock_keys st) then st else st\<lparr>st_lock_keys := st_lock_keys st @ [sid]\<rparr>)"

text \<open>\<open>_acquire_sync_lock\<close>; \<open>Inr False\<close> is its answer \<open>False\<close>.\<close>

definition acquire_sync_lock :: "bool \<Rightarrow> bool \<Rightarrow> lock \<Rightarrow> session_store \<Rightarrow> session_store \<times> (store_error + bool)" where
  "acquire_sync_lock in_loop blocking l st =
     (if l \<notin> set (st_locked st) then (take_locks [l] st, Inr True)
      else if \<not> blocking then (st, Inr False)
      else if in_loop then (st, Inl LockUnavailable)
      else (st, Inl Waits))"

text \<open>The session locks of a bulk operation: all of them or, in an event loop, an exception.\<close>

definition acquire_check_locks :: "bool \<Rightarrow> pystr list \<Rightarrow> session_store \<Rightarrow> session_store \<times> (store_error + unit)" where
  "acquire_check_locks in_loop sids st =
     (if \<exists>sid\<in>set sids. CheckLock sid \<in> set (st_locked st)
      then (st, Inl (if in_loop then LockUnavailable else Waits))
      else (take_locks (map CheckLock sids) st, Inr ()))"

text \<open>A method body under the session-set lock, released in a \<open>finally\<close>.\<close>

definition with_set_lock ::
  "bool \<Rightarrow> (session_store \<Rightarrow> session_store \<times> (store_error + 'a)) \<Rightarrow> session_store \<Rightarrow> session_store \<times> (store_error + 'a)" where
  "with_set_lock in_loop body st =
     (case acquire_sync_lock in_loop True SetLock st of
        (st, Inl e) \<Rightarrow> (st, Inl e)
      | (st, Inr _) \<Rightarrow> (case body st of (st, r) \<Rightarrow> (release_locks [SetLock] st, r)))"

section \<open>\<open>purge\<close> and \<open>active\<close>\<close>

definition expired_ids :: "session_store \<Rightarrow> rat \<Rightarrow> rat \<Rightarrow> pystr list" where
  "expired_ids st current monotonic =
     sort (map fst (filter (\<lambda>(k, s). is_expired st s current monotonic) (st_sessions st)))"

text \<open>The sections of every bulk removal: \<open>gone\<close> counts the candidates that are still there.\<close>

definition drop_all :: "pystr list \<Rightarrow> session_store \<Rightarrow> session_store" where
  "drop_all sids st = fold drop_session sids st"

definition still_there :: "session_store \<Rightarrow> pystr list \<Rightarrow> pystr list" where
  "still_there st sids = filter (\<lambda>sid. sid \<in> set (dkeys (st_sessions st))) sids"

definition bulk_removal :: "bool \<Rightarrow> pystr list \<Rightarrow> session_store \<Rightarrow> session_store \<times> (store_error + nat)" where
  "bulk_removal in_loop sids st =
     (let st = fold add_lock_key sids st in
      if in_loop then
        (case acquire_check_locks True sids st of
           (st, Inl e) \<Rightarrow> (st, Inl e)
         | (st, Inr _) \<Rightarrow>
             let st = mark_invalidating sids st; n = length (still_there st sids);
                 st = clear_invalidating sids (drop_all sids st) in
             (release_locks (map CheckLock sids) st, Inr n))
      else
        (case acquire_check_locks False sids (mark_invalidating sids st) of
           (st, Inl e) \<Rightarrow> (st, Inl e)
         | (st, Inr _) \<Rightarrow>
             let gone = still_there st sids; st = clear_invalidating sids (drop_all gone st) in
             (release_locks (map CheckLock sids) st, Inr (length gone))))"

definition purge :: "bool \<Rightarrow> rat option \<Rightarrow> reading \<Rightarrow> session_store \<Rightarrow> session_store \<times> (store_error + nat)" where
  "purge in_loop now r st = bulk_removal in_loop (expired_ids st (current_of now r) (mono_clock r)) st"

definition active :: "bool \<Rightarrow> rat option \<Rightarrow> reading \<Rightarrow> session_store
    \<Rightarrow> session_store \<times> (store_error + account_session list)" where
  "active in_loop now r st =
     (case purge in_loop (Some (current_of now r)) r st of
        (st, Inl e) \<Rightarrow> (st, Inl e)
      | (st, Inr _) \<Rightarrow>
          (st, Inr (map snd (filter (\<lambda>(k, s). \<not> session_is_invalidating st k s) (st_sessions st)))))"
section \<open>\<open>create\<close>\<close>

text \<open>The random tokens of a new session.\<close>

record tokens =
  tk_id :: pystr
  tk_csrf :: pystr
  tk_revocation :: pystr
  tk_authorization :: pystr

definition new_session :: "tokens \<Rightarrow> pystr \<Rightarrow> pystr \<Rightarrow> rat \<Rightarrow> rat \<Rightarrow> pystr \<Rightarrow> pystr \<Rightarrow> pystr \<Rightarrow> account_session" where
  "new_session tk username password current monotonic role source_address user_agent =
     \<lparr>as_id = tk_id tk, as_username = username, as_password = password, as_csrf = tk_csrf tk,
      as_created_at = current, as_last_seen = current, as_revocation_ref = tk_revocation tk,
      as_authorization_ref = tk_authorization tk, as_created_mono = monotonic,
      as_last_seen_mono = monotonic, as_role = normalize_role role, as_source = source_address,
      as_agent = user_agent, as_auth_method = lit ''routeros'', as_token_id = [], as_capabilities = None,
      as_reauthenticated_at = current\<rparr>"

definition account_count :: "session_store \<Rightarrow> pystr \<Rightarrow> nat" where
  "account_count st username =
     length (filter (\<lambda>s. casefold (as_username s) = casefold username) (map snd (st_sessions st)))"

text \<open>The two checks that precede and that accompany the commit of a new session.\<close>

definition create_check :: "session_store \<Rightarrow> pystr \<Rightarrow> nat option \<Rightarrow> store_error option" where
  "create_check st username expected =
     (let key = account_key username in
      if 0 < count_of (st_denied st) key \<or>
         (case expected of None \<Rightarrow> False | Some g \<Rightarrow> count_of (st_generations st) key \<noteq> g)
      then Some AuthorizationChanged
      else if st_max st \<le> account_count st username then Some LimitReached
      else None)"

definition install_session :: "account_session \<Rightarrow> rat \<Rightarrow> session_store \<Rightarrow> session_store" where
  "install_session s monotonic st =
     st\<lparr>st_sessions := dset (as_id s) s (st_sessions st),
        st_revocation := dset (as_revocation_ref s) (as_id s) (st_revocation st),
        st_checked := dset (as_id s) monotonic (st_checked st)\<rparr>"

definition create_commit :: "account_session \<Rightarrow> nat option \<Rightarrow> session_store
    \<Rightarrow> session_store \<times> (store_error + account_session)" where
  "create_commit s expected st =
     (case create_check st (as_username s) expected of
        Some e \<Rightarrow> (st\<lparr>st_dropped := st_dropped st @ [clear_session_secrets s]\<rparr>, Inl e)
      | None \<Rightarrow> (install_session s (as_created_mono s) st, Inr s))"

text \<open>\<open>before\<close> says whether the \<open>before_commit\<close> callback returns; \<open>r\<close> is read by
  \<open>create\<close>, \<open>r'\<close> by \<open>purge\<close>.\<close>

definition create_locked :: "bool \<Rightarrow> tokens \<Rightarrow> pystr \<Rightarrow> pystr \<Rightarrow> rat option \<Rightarrow> pystr \<Rightarrow> pystr \<Rightarrow> pystr
    \<Rightarrow> nat option \<Rightarrow> bool \<Rightarrow> reading \<Rightarrow> reading \<Rightarrow> session_store \<Rightarrow> session_store \<times> (store_error + account_session)" where
  "create_locked in_loop tk username password now role source_address user_agent expected before r r' st =
     (let current = current_of now r;
          s = new_session tk username password current (mono_clock r) role source_address (take 256 user_agent) in
      case purge in_loop (Some current) r' st of
        (st, Inl e) \<Rightarrow> (st, Inl e)
      | (st, Inr _) \<Rightarrow>
          (case create_check st username expected of
             Some e \<Rightarrow> (st, Inl e)
           | None \<Rightarrow>
               if \<not> before
               then (st\<lparr>st_dropped := st_dropped st @ [clear_session_secrets s]\<rparr>, Inl CallbackRaised)
               else create_commit s expected st))"

definition create :: "bool \<Rightarrow> tokens \<Rightarrow> pystr \<Rightarrow> pystr \<Rightarrow> rat option \<Rightarrow> pystr \<Rightarrow> pystr \<Rightarrow> pystr
    \<Rightarrow> nat option \<Rightarrow> bool \<Rightarrow> reading \<Rightarrow> reading \<Rightarrow> session_store \<Rightarrow> session_store \<times> (store_error + account_session)" where
  "create in_loop tk username password now role source_address user_agent expected before r r' =
     with_set_lock in_loop
       (create_locked in_loop tk username password now role source_address user_agent expected before r r')"

section \<open>\<open>get\<close> and the checks of one session\<close>

definition touch_session :: "bool \<Rightarrow> rat \<Rightarrow> rat \<Rightarrow> account_session \<Rightarrow> account_session" where
  "touch_session touch current monotonic s =
     (if touch then s\<lparr>as_last_seen := current, as_last_seen_mono := monotonic\<rparr> else s)"

definition replace_session :: "account_session \<Rightarrow> session_store \<Rightarrow> session_store" where
  "replace_session s st = st\<lparr>st_sessions := dset (as_id s) s (st_sessions st)\<rparr>"

text \<open>The section that decides under the session's lock: look up, expire or touch.\<close>

definition get_decide :: "pystr \<Rightarrow> bool \<Rightarrow> rat option \<Rightarrow> reading \<Rightarrow> session_store \<Rightarrow> session_store \<times> account_session option" where
  "get_decide sid touch now r st =
     (case dget (st_sessions st) sid of
        None \<Rightarrow> (st, None)
      | Some s \<Rightarrow>
          if session_is_invalidating st sid s then (st, None)
          else let current = current_of now r in
            if is_expired st s current (mono_clock r) then (drop_session sid st, None)
            else let s' = touch_session touch current (mono_clock r) s in
              (if touch then replace_session s' st else st, Some s'))"

definition get :: "bool \<Rightarrow> pystr \<Rightarrow> rat option \<Rightarrow> bool \<Rightarrow> bool \<Rightarrow> bool \<Rightarrow> reading \<Rightarrow> reading
    \<Rightarrow> session_store \<Rightarrow> session_store \<times> (store_error + account_session option)" where
  "get in_loop sid now touch lock_held wait r r' st =
     (if sid = [] then (st, Inr None)
      else case dget (st_sessions st) sid of
        None \<Rightarrow> (st, Inr None)
      | Some s \<Rightarrow>
          if session_is_invalidating st sid s then (st, Inr None)
          else if \<not> is_expired st s (current_of now r) (mono_clock r) then
            (case get_decide sid touch now r st of (st, res) \<Rightarrow> (st, Inr res))
          else let st = add_lock_key sid st in
            if lock_held then (case get_decide sid touch now r' st of (st, res) \<Rightarrow> (st, Inr res))
            else (case acquire_sync_lock in_loop wait (CheckLock sid) st of
                (st, Inl e) \<Rightarrow> (st, Inl e)
              | (st, Inr False) \<Rightarrow> (st, Inr None)
              | (st, Inr True) \<Rightarrow>
                  (case get_decide sid touch now r' st of
                     (st, res) \<Rightarrow> (release_locks [CheckLock sid] st, Inr res))))"

text \<open>\<open>get(..., touch=False, role_check_lock_held=True)\<close>, which takes no lock.\<close>

definition get_held :: "pystr \<Rightarrow> rat option \<Rightarrow> reading \<Rightarrow> reading \<Rightarrow> session_store
    \<Rightarrow> session_store \<times> account_session option" where
  "get_held sid now r r' st =
     (case dget (st_sessions st) sid of
        None \<Rightarrow> (st, None)
      | Some s \<Rightarrow>
          if session_is_invalidating st sid s then (st, None)
          else if \<not> is_expired st s (current_of now r) (mono_clock r) then (st, Some s)
          else get_decide sid False now r' (add_lock_key sid st))"

lemma get_lock_held:
  "sid \<noteq> [] \<Longrightarrow> get in_loop sid now False True wait r r' st
     = (case get_held sid now r r' st of (st', res) \<Rightarrow> (st', Inr res))"
  by (auto simp: get_def get_held_def get_decide_def touch_session_def Let_def split: option.splits prod.splits)

text \<open>\<open>contended\<close>: the store lock was not free.\<close>

definition is_active_nonblocking :: "bool \<Rightarrow> pystr \<Rightarrow> reading \<Rightarrow> session_store \<Rightarrow> bool" where
  "is_active_nonblocking contended sid r st \<longleftrightarrow>
     sid \<noteq> [] \<and> \<not> contended \<and>
     (case dget (st_sessions st) sid of
        None \<Rightarrow> False
      | Some s \<Rightarrow> \<not> session_is_invalidating st sid s \<and> \<not> is_expired st s (wall r) (mono_clock r))"

definition role_is_fresh :: "session_store \<Rightarrow> pystr \<Rightarrow> account_session \<Rightarrow> rat \<Rightarrow> int \<Rightarrow> bool" where
  "role_is_fresh st sid s monotonic interval \<longleftrightarrow>
     (let elapsed = monotonic - dget_or (st_checked st) sid (as_created_mono s) in
      0 \<le> elapsed \<and> elapsed < of_int (max 0 interval))"

definition cached_role_session :: "pystr \<Rightarrow> rat option \<Rightarrow> int \<Rightarrow> bool \<Rightarrow> reading \<Rightarrow> session_store
    \<Rightarrow> session_store \<times> bool \<times> account_session option" where
  "cached_role_session sid now interval lock_held r st =
     (case dget (st_sessions st) sid of
        None \<Rightarrow> (st, True, None)
      | Some s \<Rightarrow>
          if session_is_invalidating st sid s then (st, True, None)
          else if sid \<in> set (st_lock_keys st) \<and> CheckLock sid \<in> set (st_locked st) \<and> \<not> lock_held
          then (st, False, None)
          else if is_expired st s (current_of now r) (mono_clock r) then (drop_session sid st, True, None)
          else if as_auth_method s \<noteq> lit ''routeros'' then (st, True, Some s)
          else if role_is_fresh st sid s (mono_clock r) interval then (st, True, Some s)
          else (st, False, None))"

section \<open>\<open>destroy\<close>, \<open>revoke\<close> and \<open>rotate\<close>\<close>

text \<open>\<open>_role_lock_for_mutation\<close>: \<open>None\<close> without such a session, otherwise whether the lock was
  taken; the session is marked.\<close>

definition role_lock_for_mutation :: "bool \<Rightarrow> pystr \<Rightarrow> bool \<Rightarrow> session_store
    \<Rightarrow> session_store \<times> (store_error + bool option)" where
  "role_lock_for_mutation in_loop sid routeros_only st =
     (case dget (st_sessions st) sid of
        None \<Rightarrow> (st, Inr None)
      | Some s \<Rightarrow>
          if routeros_only \<and> as_auth_method s \<noteq> lit ''routeros'' then (st, Inr None)
          else let st = add_lock_key sid st in
            if in_loop then
              if CheckLock sid \<in> set (st_locked st) then (st, Inl LockUnavailable)
              else (mark_invalidating [sid] (take_locks [CheckLock sid] st), Inr (Some True))
            else (mark_invalidating [sid] st, Inr (Some False)))"

text \<open>Its callers then wait for the lock; \<open>Inr False\<close>: there is no such session.\<close>

definition lock_for_mutation :: "bool \<Rightarrow> pystr \<Rightarrow> bool \<Rightarrow> session_store \<Rightarrow> session_store \<times> (store_error + bool)" where
  "lock_for_mutation in_loop sid routeros_only st =
     (case role_lock_for_mutation in_loop sid routeros_only st of
        (st, Inl e) \<Rightarrow> (st, Inl e)
      | (st, Inr None) \<Rightarrow> (st, Inr False)
      | (st, Inr (Some True)) \<Rightarrow> (st, Inr True)
      | (st, Inr (Some False)) \<Rightarrow> acquire_sync_lock in_loop True (CheckLock sid) st)"

definition finish_mutation :: "pystr \<Rightarrow> session_store \<Rightarrow> session_store" where
  "finish_mutation sid st = release_locks [CheckLock sid] (clear_invalidating [sid] st)"

definition destroy :: "bool \<Rightarrow> pystr \<Rightarrow> bool \<Rightarrow> session_store \<Rightarrow> session_store \<times> (store_error + unit)" where
  "destroy in_loop sid lock_held st =
     (if lock_held then (drop_session sid st, Inr ())
      else case lock_for_mutation in_loop sid False st of
        (st, Inl e) \<Rightarrow> (st, Inl e)
      | (st, Inr False) \<Rightarrow> (st, Inr ())
      | (st, Inr True) \<Rightarrow> (finish_mutation sid (drop_session sid st), Inr ()))"

definition revoke :: "bool \<Rightarrow> pystr \<Rightarrow> session_store \<Rightarrow> session_store \<times> (store_error + bool)" where
  "revoke in_loop sid st =
     (case lock_for_mutation in_loop sid False st of
        (st, Inl e) \<Rightarrow> (st, Inl e)
      | (st, Inr False) \<Rightarrow> (st, Inr False)
      | (st, Inr True) \<Rightarrow>
          (finish_mutation sid (drop_session sid st), Inr (sid \<in> set (dkeys (st_sessions st)))))"

definition revoke_by_reference :: "bool \<Rightarrow> pystr \<Rightarrow> session_store \<Rightarrow> session_store \<times> (store_error + bool)" where
  "revoke_by_reference in_loop ref st =
     (if ref = [] then (st, Inr False)
      else case dget (st_revocation st) ref of
        None \<Rightarrow> (st, Inr False)
      | Some sid \<Rightarrow> if sid = [] then (st, Inr False) else revoke in_loop sid st)"

text \<open>The section of \<open>rotate\<close> that builds the replacement.\<close>

definition rotate_prepare :: "pystr \<Rightarrow> tokens \<Rightarrow> pystr \<Rightarrow> pystr \<Rightarrow> rat option \<Rightarrow> reading \<Rightarrow> session_store
    \<Rightarrow> session_store \<times> account_session option" where
  "rotate_prepare sid tk password role now r st =
     (case dget (st_sessions st) sid of
        None \<Rightarrow> (st, None)
      | Some existing \<Rightarrow>
          if 0 < count_of (st_denied st) (account_key (as_username existing)) then (st, None)
          else if is_expired st existing (current_of now r) (mono_clock r) then (drop_session sid st, None)
          else (st, Some (new_session tk (as_username existing) password (current_of now r) (mono_clock r)
                            role (as_source existing) (as_agent existing))))"

text \<open>The committing section. \<open>self._sessions.get(session_id) is existing\<close> is presence of the
  identifier: identifiers are random and never return.\<close>

definition rotate_commit :: "pystr \<Rightarrow> account_session \<Rightarrow> session_store \<Rightarrow> session_store \<times> bool" where
  "rotate_commit sid replacement st =
     (if sid \<notin> set (dkeys (st_sessions st)) \<or> 1 < count_of (st_invalidating st) sid \<or>
         0 < count_of (st_denied st) (account_key (as_username replacement))
      then (st\<lparr>st_dropped := st_dropped st @ [clear_session_secrets replacement]\<rparr>, False)
      else (install_session replacement (as_created_mono replacement) (drop_session sid st), True))"

definition rotate_locked :: "bool \<Rightarrow> pystr \<Rightarrow> tokens \<Rightarrow> pystr \<Rightarrow> pystr \<Rightarrow> rat option \<Rightarrow> bool \<Rightarrow> reading
    \<Rightarrow> session_store \<Rightarrow> session_store \<times> (store_error + account_session option)" where
  "rotate_locked in_loop sid tk password role now before r st =
     (if sid = [] then (st, Inr None)
      else case lock_for_mutation in_loop sid True st of
        (st, Inl e) \<Rightarrow> (st, Inl e)
      | (st, Inr False) \<Rightarrow> (st, Inr None)
      | (st, Inr True) \<Rightarrow>
          (case rotate_prepare sid tk password role now r st of
             (st, None) \<Rightarrow> (finish_mutation sid st, Inr None)
           | (st, Some replacement) \<Rightarrow>
               if \<not> before then
                 (finish_mutation sid
                    (st\<lparr>st_dropped := st_dropped st @ [clear_session_secrets replacement]\<rparr>), Inl CallbackRaised)
               else (case rotate_commit sid replacement st of
                   (st, committed) \<Rightarrow>
                     (finish_mutation sid st, Inr (if committed then Some replacement else None)))))"

definition rotate :: "bool \<Rightarrow> pystr \<Rightarrow> tokens \<Rightarrow> pystr \<Rightarrow> pystr \<Rightarrow> rat option \<Rightarrow> bool \<Rightarrow> reading
    \<Rightarrow> session_store \<Rightarrow> session_store \<times> (store_error + account_session option)" where
  "rotate in_loop sid tk password role now before r =
     with_set_lock in_loop (rotate_locked in_loop sid tk password role now before r)"

section \<open>Revoking an account\<close>

text \<open>\<open>started\<close>: the worker thread could be started; otherwise \<open>_start_account_revocation_retry\<close>
  is called again later.\<close>

definition start_retry :: "pystr \<Rightarrow> bool \<Rightarrow> session_store \<Rightarrow> session_store" where
  "start_retry key started st =
     (if key \<in> set (st_running st) \<or> count_of (st_pending st) key = 0 then st
      else if started then st\<lparr>st_running := st_running st @ [key]\<rparr>
      else st)"

definition schedule_retry :: "pystr \<Rightarrow> bool \<Rightarrow> session_store \<Rightarrow> session_store" where
  "schedule_retry key started st = start_retry key started (st\<lparr>st_pending := count_up key (st_pending st)\<rparr>)"

definition account_sessions :: "session_store \<Rightarrow> pystr \<Rightarrow> pystr list" where
  "account_sessions st key =
     map fst (filter (\<lambda>(k, s). as_auth_method s = lit ''routeros'' \<and> casefold (as_username s) = key) (st_sessions st))"

text \<open>The section that marks the candidates and names their locks.\<close>

definition revoke_candidates :: "pystr \<Rightarrow> session_store \<Rightarrow> session_store \<times> pystr list" where
  "revoke_candidates key st =
     (let candidates = sort (account_sessions st key) in
      (fold add_lock_key candidates (mark_invalidating candidates st), candidates))"

text \<open>The sweep of \<open>revoke_account_sessions\<close>, from the session-set lock on.\<close>

definition revoke_sweep :: "bool \<Rightarrow> pystr \<Rightarrow> bool \<Rightarrow> session_store \<Rightarrow> session_store \<times> (store_error + nat option)" where
  "revoke_sweep in_loop key started st =
     (case acquire_sync_lock in_loop True SetLock st of
        (st, Inl e) \<Rightarrow> if in_loop then (schedule_retry key started st, Inr None) else (st, Inl e)
      | (st, Inr _) \<Rightarrow>
          (case revoke_candidates key st of
             (st, candidates) \<Rightarrow>
               (case acquire_check_locks in_loop candidates st of
                  (st, Inl e) \<Rightarrow>
                    if in_loop
                    then (release_locks [SetLock] (clear_invalidating candidates (schedule_retry key started st)), Inr None)
                    else (st, Inl e)
                | (st, Inr _) \<Rightarrow>
                    let current = account_sessions st key;
                        st = clear_account key (clear_invalidating candidates (drop_all current st)) in
                    (release_locks (SetLock # map CheckLock candidates) st, Inr (Some (length current))))))"

definition revoke_account_sessions :: "bool \<Rightarrow> pystr \<Rightarrow> bool \<Rightarrow> bool \<Rightarrow> session_store
    \<Rightarrow> session_store \<times> (store_error + nat option)" where
  "revoke_account_sessions in_loop username already_invalidating started st =
     (let key = account_key username in
      if key = [] then (st, Inr (Some 0))
      else revoke_sweep in_loop key started (if already_invalidating then st else mark_account key st))"

text \<open>One round of the retry worker, which runs outside the event loop; \<open>Inr False\<close>: it ends.\<close>

definition retry_round :: "pystr \<Rightarrow> session_store \<Rightarrow> session_store \<times> (store_error + bool)" where
  "retry_round key st =
     (if count_of (st_pending st) key = 0
      then (st\<lparr>st_running := filter (\<lambda>k. k \<noteq> key) (st_running st)\<rparr>, Inr False)
      else case revoke_account_sessions False key True False st of
        (st, Inl e) \<Rightarrow> (st, Inl e)
      | (st, Inr _) \<Rightarrow> (st\<lparr>st_pending := count_down key (st_pending st)\<rparr>, Inr True))"

text \<open>The body of \<open>revoke_account_sessions_except\<close> under the session-set lock.\<close>

definition revoke_others :: "bool \<Rightarrow> pystr \<Rightarrow> pystr \<Rightarrow> session_store \<Rightarrow> session_store \<times> (store_error + nat option)" where
  "revoke_others in_loop key keep st =
     (case dget (st_sessions st) keep of
        None \<Rightarrow> (st, Inr None)
      | Some caller \<Rightarrow>
          if as_auth_method caller \<noteq> lit ''routeros'' \<or> casefold (as_username caller) \<noteq> key \<or>
             session_is_invalidating st keep caller
          then (st, Inr None)
          else case bulk_removal in_loop (sort (filter (\<lambda>k. k \<noteq> keep) (account_sessions st key))) st of
            (st, Inl e) \<Rightarrow> (st, Inl e)
          | (st, Inr n) \<Rightarrow> (st, Inr (Some n)))"

definition revoke_account_sessions_except :: "bool \<Rightarrow> pystr \<Rightarrow> pystr \<Rightarrow> session_store
    \<Rightarrow> session_store \<times> (store_error + nat option)" where
  "revoke_account_sessions_except in_loop username keep st =
     (let key = account_key username in
      if key = [] \<or> keep = [] then (st, Inr (Some 0))
      else with_set_lock in_loop (revoke_others in_loop key keep) st)"

definition revoke_all_except :: "bool \<Rightarrow> pystr \<Rightarrow> session_store \<Rightarrow> session_store \<times> (store_error + nat)" where
  "revoke_all_except in_loop keep =
     with_set_lock in_loop (\<lambda>st. bulk_removal in_loop (sort (filter (\<lambda>k. k \<noteq> keep) (dkeys (st_sessions st)))) st)"

section \<open>\<open>revalidate_role\<close>\<close>

definition role_is_subset :: "pystr \<Rightarrow> pystr \<Rightarrow> bool" where
  "role_is_subset left right \<longleftrightarrow>
     (let l = role_capabilities left; r = role_capabilities right in
      lit ''*'' \<in> set r \<or> (lit ''*'' \<notin> set l \<and> set l \<subseteq> set r))"

text \<open>What \<open>role_resolver(session)\<close> does: raise, or return a group name or \<open>None\<close>.\<close>

datatype resolver_answer = ResolverRaises | ResolverSays "pystr option"

text \<open>The end of the body: how the answer changes the session.\<close>

definition apply_role :: "pystr \<Rightarrow> account_session \<Rightarrow> pystr \<Rightarrow> reading \<Rightarrow> session_store
    \<Rightarrow> session_store \<times> account_session option" where
  "apply_role sid s resolved r st =
     (let current_role = normalize_role (as_role s); resolved_role = normalize_role resolved;
          lowered = role_is_subset resolved_role current_role in
      if \<not> lowered \<and> \<not> role_is_subset current_role resolved_role then (drop_session sid st, None)
      else let s' = (if lowered then s\<lparr>as_role := resolved_role\<rparr> else s);
               st = (if lowered then replace_session s' st else st) in
        if sid \<notin> set (dkeys (st_sessions st)) \<or> session_is_invalidating st sid s' then (st, None)
        else (st\<lparr>st_checked := dset sid (mono_clock r) (st_checked st)\<rparr>, Some s'))"

text \<open>The body under the session's lock: the result and the account to revoke afterwards. The
  \<open>n\<close>-th place that reads the clocks reads \<open>clk n\<close>.\<close>

definition revalidate_body :: "pystr \<Rightarrow> (account_session \<Rightarrow> resolver_answer) \<Rightarrow> rat option \<Rightarrow> int \<Rightarrow> (nat \<Rightarrow> reading)
    \<Rightarrow> session_store \<Rightarrow> session_store \<times> account_session option \<times> pystr" where
  "revalidate_body sid resolver now interval clk st =
     (case get_held sid now (clk 3) (clk 4) st of
        (st, None) \<Rightarrow> (st, None, [])
      | (st, Some s) \<Rightarrow>
          if as_auth_method s \<noteq> lit ''routeros'' then (st, Some s, [])
          else if session_is_invalidating st sid s then (st, None, [])
          else if role_is_fresh st sid s (mono_clock (clk 5)) interval then (st, Some s, [])
          else case resolver s of
            ResolverRaises \<Rightarrow> (drop_session sid st, None, [])
          | ResolverSays answer \<Rightarrow>
              (case get_held sid now (clk 6) (clk 7) st of
                 (st, None) \<Rightarrow> (st, None, [])
               | (st, Some s) \<Rightarrow>
                   (case answer of
                      None \<Rightarrow> (mark_account (casefold (as_username s)) st, None, casefold (as_username s))
                    | Some resolved \<Rightarrow>
                        (case apply_role sid s resolved (clk 8) st of (st, res) \<Rightarrow> (st, res, [])))))"

definition revalidate_role :: "bool \<Rightarrow> pystr \<Rightarrow> (account_session \<Rightarrow> resolver_answer) \<Rightarrow> rat option \<Rightarrow> int
    \<Rightarrow> (nat \<Rightarrow> reading) \<Rightarrow> bool \<Rightarrow> session_store \<Rightarrow> session_store \<times> (store_error + account_session option)" where
  "revalidate_role in_loop sid resolver now interval clk started st =
     (case get in_loop sid now False False True (clk 0) (clk 1) st of
        (st, Inl e) \<Rightarrow> (st, Inl e)
      | (st, Inr None) \<Rightarrow> (st, Inr None)
      | (st, Inr (Some s)) \<Rightarrow>
          if as_auth_method s \<noteq> lit ''routeros'' then (st, Inr (Some s))
          else if sid \<notin> set (dkeys (st_sessions st)) \<or> session_is_invalidating st sid s then (st, Inr None)
          else let fresh = role_is_fresh st sid s (mono_clock (clk 2)) interval; st = add_lock_key sid st in
            if fresh \<and> CheckLock sid \<notin> set (st_locked st) then (st, Inr (Some s))
            else (case acquire_sync_lock in_loop True (CheckLock sid) st of
                (st, Inl e) \<Rightarrow> (st, Inl e)
              | (st, Inr _) \<Rightarrow>
                  (case revalidate_body sid resolver now interval clk st of
                     (st, res, denied) \<Rightarrow>
                       let st = release_locks [CheckLock sid] st in
                       if denied = [] then (st, Inr res)
                       else (case revoke_account_sessions in_loop denied True started st of
                           (st, Inl e) \<Rightarrow> (st, Inl e)
                         | (st, Inr _) \<Rightarrow> (st, Inr None)))))"

section \<open>\<open>dispatch_if_active_authorization_ref\<close> and \<open>snapshot\<close>\<close>

text \<open>The result says whether \<open>dispatch\<close> was called, under the store lock.\<close>

definition dispatch_if_active :: "pystr \<Rightarrow> reading \<Rightarrow> session_store \<Rightarrow> session_store \<times> bool" where
  "dispatch_if_active ref r st =
     (if ref = [] then (st, False)
      else case List.find (\<lambda>(k, s). as_auth_method s = lit ''routeros'' \<and> as_authorization_ref s = ref) (st_sessions st) of
        None \<Rightarrow> (st, False)
      | Some (sid, s) \<Rightarrow>
          if session_is_invalidating st sid s then (st, False)
          else if is_expired st s (wall r) (mono_clock r) then (drop_session sid st, False)
          else (st, True))"

record session_row =
  sr_id :: pystr
  sr_id_hash :: pystr
  sr_username :: pystr
  sr_role :: pystr
  sr_created_at :: int
  sr_last_seen :: int
  sr_idle_seconds :: int
  sr_idle_remaining :: int
  sr_absolute_remaining :: int
  sr_source :: pystr
  sr_agent :: pystr
  sr_auth_method :: pystr
  sr_current :: bool

text \<open>\<open>digest\<close> is the hexadecimal SHA-256 of the encoded reference.\<close>

definition snapshot_row :: "(pystr \<Rightarrow> pystr) \<Rightarrow> session_store \<Rightarrow> pystr \<Rightarrow> rat option \<Rightarrow> bool \<Rightarrow> rat \<Rightarrow> rat
    \<Rightarrow> account_session \<Rightarrow> session_row" where
  "snapshot_row digest st current_id now include_refs current monotonic s =
     (let idle = (if now = None then monotonic - as_last_seen_mono s else current - as_last_seen s);
          age = (if now = None then monotonic - as_created_mono s else current - as_created_at s) in
      \<lparr>sr_id = (if include_refs then as_revocation_ref s else []),
       sr_id_hash = take 16 (digest (as_revocation_ref s)),
       sr_username = as_username s, sr_role = normalize_role (as_role s),
       sr_created_at = py_trunc (as_created_at s), sr_last_seen = py_trunc (as_last_seen s),
       sr_idle_seconds = max 0 (py_trunc idle),
       sr_idle_remaining = max 0 (py_trunc (of_int (st_idle st) - idle)),
       sr_absolute_remaining = max 0 (py_trunc (of_int (st_absolute st) - age)),
       sr_source = (if as_source s = [] then lit ''unknown'' else as_source s),
       sr_agent = (if as_agent s = [] then lit ''unknown'' else as_agent s),
       sr_auth_method = as_auth_method s,
       sr_current = (as_id s \<noteq> [] \<and> as_id s = current_id)\<rparr>)"

definition session_snapshot :: "(pystr \<Rightarrow> pystr) \<Rightarrow> bool \<Rightarrow> pystr \<Rightarrow> rat option \<Rightarrow> bool \<Rightarrow> reading \<Rightarrow> reading
    \<Rightarrow> session_store \<Rightarrow> session_store \<times> (store_error + session_row list)" where
  "session_snapshot digest in_loop current_id now include_refs r r' st =
     (case active in_loop (Some (current_of now r)) r st of
        (st, Inl e) \<Rightarrow> (st, Inl e)
      | (st, Inr sessions) \<Rightarrow>
          (st, Inr (map (snapshot_row digest st current_id now include_refs (current_of now r) (mono_clock r'))
             (filter (\<lambda>s. as_id s \<in> set (dkeys (st_sessions st)) \<and> \<not> session_is_invalidating st (as_id s) s)
                sessions))))"

end
