(* ===== verification/Session_Props.thy ===== *)
theory Session_Props
  imports Session_Store
begin

text \<open>
  The sequential contract of \<open>SessionStore\<close>: what every operation keeps (\<open>store_ok\<close>, and that a
  session only ages: \<open>moves\<close>), runs of the operations, and the properties of the lifetimes, the
  privileges and the revocation of sessions.
\<close>

section \<open>What every operation keeps\<close>

definition refs_ok :: "session_store \<Rightarrow> bool" where
  "refs_ok st \<longleftrightarrow> (\<forall>ref sid. dget (st_revocation st) ref = Some sid \<longleftrightarrow>
     (\<exists>s. dget (st_sessions st) sid = Some s \<and> as_revocation_ref s = ref))"

definition store_ok :: "session_store \<Rightarrow> bool" where
  "store_ok st \<longleftrightarrow>
     dict_ok (st_sessions st) \<and> dict_ok (st_revocation st) \<and>
     (\<forall>sid s. dget (st_sessions st) sid = Some s \<longrightarrow> as_id s = sid) \<and> refs_ok st \<and>
     dom (dget (st_checked st)) = dom (dget (st_sessions st)) \<and>
     set (st_lock_keys st) \<subseteq> dom (dget (st_sessions st)) \<and>
     (\<forall>u. account_count st u \<le> st_max st)"

lemma refs_ok_session: "refs_ok st \<Longrightarrow> dget (st_sessions st) k = Some s \<Longrightarrow> dget (st_revocation st) (as_revocation_ref s) = Some k"
  unfolding refs_ok_def by blast

lemma refs_ok_ref:
  "refs_ok st \<Longrightarrow> dget (st_revocation st) ref = Some k \<Longrightarrow> \<exists>s. dget (st_sessions st) k = Some s \<and> as_revocation_ref s = ref"
  unfolding refs_ok_def by blast

lemma refs_ok_inject:
  "refs_ok st \<Longrightarrow> dget (st_sessions st) a = Some s \<Longrightarrow> dget (st_sessions st) b = Some t \<Longrightarrow>
   as_revocation_ref s = as_revocation_ref t \<Longrightarrow> a = b"
  unfolding refs_ok_def by (metis option.inject)

text \<open>A session ages: it is touched, and its role may lose capabilities.\<close>

definition aged :: "account_session \<Rightarrow> account_session \<Rightarrow> bool" where
  "aged s s' \<longleftrightarrow> (\<exists>t m r. s' = s\<lparr>as_last_seen := t, as_last_seen_mono := m, as_role := r\<rparr> \<and>
     (\<forall>c. has_capability r c \<longrightarrow> has_capability (as_role s) c))"

lemma agedI:
  "(\<And>c. has_capability r c \<Longrightarrow> has_capability (as_role s) c) \<Longrightarrow>
   aged s (s\<lparr>as_last_seen := t, as_last_seen_mono := m, as_role := r\<rparr>)"
  unfolding aged_def by blast

lemma aged_refl [simp, intro]: "aged s s"
  using agedI [where r = "as_role s" and s = s and t = "as_last_seen s" and m = "as_last_seen_mono s"] by simp

lemma aged_trans: "aged a b \<Longrightarrow> aged b c \<Longrightarrow> aged a c"
  unfolding aged_def by (elim exE conjE) (rule exI, rule exI, rule exI, auto)

lemma aged_fields:
  "aged s s' \<Longrightarrow> as_id s' = as_id s \<and> as_username s' = as_username s \<and> as_revocation_ref s' = as_revocation_ref s \<and>
     as_created_at s' = as_created_at s \<and> as_created_mono s' = as_created_mono s \<and>
     as_auth_method s' = as_auth_method s \<and> as_authorization_ref s' = as_authorization_ref s \<and>
     as_password s' = as_password s \<and> as_csrf s' = as_csrf s"
  by (auto simp: aged_def)

lemma aged_capability: "aged s s' \<Longrightarrow> has_capability (as_role s') c \<Longrightarrow> has_capability (as_role s) c"
  by (auto simp: aged_def)

definition same_config :: "session_store \<Rightarrow> session_store \<Rightarrow> bool" where
  "same_config st st' \<longleftrightarrow> st_idle st' = st_idle st \<and> st_absolute st' = st_absolute st \<and> st_max st' = st_max st"

text \<open>No session appears, and those that stay have aged.\<close>

definition moves :: "session_store \<Rightarrow> session_store \<Rightarrow> bool" where
  "moves st st' \<longleftrightarrow> same_config st st' \<and> (store_ok st \<longrightarrow> store_ok st') \<and>
     (\<forall>k s'. dget (st_sessions st') k = Some s' \<longrightarrow> (\<exists>s. dget (st_sessions st) k = Some s \<and> aged s s'))"

lemma moves_session:
  "moves a b \<Longrightarrow> dget (st_sessions b) k = Some s' \<Longrightarrow> \<exists>s. dget (st_sessions a) k = Some s \<and> aged s s'"
  unfolding moves_def by blast

lemma store_ok_refs: "store_ok st \<Longrightarrow> refs_ok st"
  unfolding store_ok_def by blast

lemma moves_refl [simp, intro]: "moves st st"
  by (auto simp: moves_def same_config_def)

lemma moves_trans [trans]:
  assumes "moves a b" and "moves b c"
  shows "moves a c"
proof -
  have "\<exists>s. dget (st_sessions a) k = Some s \<and> aged s s'" if c: "dget (st_sessions c) k = Some s'" for k s'
  proof -
    obtain s1 where "dget (st_sessions b) k = Some s1" "aged s1 s'"
      using assms(2) c by (auto simp: moves_def)
    moreover from this(1) obtain s where "dget (st_sessions a) k = Some s" "aged s s1"
      using assms(1) by (auto simp: moves_def)
    ultimately show ?thesis by (auto intro: aged_trans)
  qed
  with assms show ?thesis by (auto simp: moves_def same_config_def)
qed

text \<open>What \<open>store_ok\<close> and \<open>moves\<close> look at.\<close>

definition core :: "session_store \<Rightarrow> (pystr, account_session) dict \<times> (pystr, pystr) dict \<times> (pystr, rat) dict \<times>
    pystr list \<times> int \<times> int \<times> nat" where
  "core st = (st_sessions st, st_revocation st, st_checked st, st_lock_keys st, st_idle st, st_absolute st, st_max st)"

lemma moves_core: "core st' = core st \<Longrightarrow> moves st st'"
  by (auto simp: core_def moves_def same_config_def store_ok_def refs_ok_def account_count_def)

lemma core_marks [simp]:
  "core (mark_invalidating sids st) = core st" "core (clear_invalidating sids st) = core st"
  "core (mark_account key st) = core st" "core (clear_account key st) = core st"
  "core (take_locks ls st) = core st" "core (release_locks ls st) = core st"
  "core (schedule_retry key started st) = core st" "core (start_retry key started st) = core st"
  "core (st\<lparr>st_dropped := d\<rparr>) = core st" "core (st\<lparr>st_pending := p\<rparr>) = core st"
  "core (st\<lparr>st_running := rn\<rparr>) = core st"
  "core (st\<lparr>st_locked := l, st_invalidating := m\<rparr>) = core st"
  by (simp_all add: core_def mark_invalidating_def clear_invalidating_def mark_account_def clear_account_def
      take_locks_def release_locks_def schedule_retry_def start_retry_def)

lemma sessions_marks [simp]:
  "st_sessions (mark_invalidating sids st) = st_sessions st" "st_sessions (clear_invalidating sids st) = st_sessions st"
  "st_sessions (mark_account key st) = st_sessions st" "st_sessions (clear_account key st) = st_sessions st"
  "st_sessions (take_locks ls st) = st_sessions st" "st_sessions (release_locks ls st) = st_sessions st"
  "st_sessions (schedule_retry key started st) = st_sessions st" "st_sessions (start_retry key started st) = st_sessions st"
  "st_sessions (add_lock_key sid st) = st_sessions st"
  by (simp_all add: mark_invalidating_def clear_invalidating_def mark_account_def clear_account_def
      take_locks_def release_locks_def schedule_retry_def start_retry_def add_lock_key_def)

lemma sessions_fold_add_lock_key [simp]: "st_sessions (fold add_lock_key sids st) = st_sessions st"
  by (induction sids arbitrary: st) simp_all

lemma moves_add_lock_key: "sid \<in> dom (dget (st_sessions st)) \<Longrightarrow> moves st (add_lock_key sid st)"
  by (auto simp: moves_def same_config_def store_ok_def refs_ok_def account_count_def add_lock_key_def)

lemma moves_fold_add_lock_key: "set sids \<subseteq> dom (dget (st_sessions st)) \<Longrightarrow> moves st (fold add_lock_key sids st)"
proof (induction sids arbitrary: st)
  case (Cons sid sids)
  then have "moves st (add_lock_key sid st)" by (intro moves_add_lock_key) simp
  moreover have "moves (add_lock_key sid st) (fold add_lock_key sids (add_lock_key sid st))"
    using Cons by (intro Cons.IH) simp
  ultimately show ?case by (simp add: moves_trans)
qed simp

subsection \<open>Removing sessions\<close>

lemma sessions_drop: "st_sessions (drop_session sid st) = ddel sid (st_sessions st)"
  by (auto simp: drop_session_def dget_None_iff ddel_fresh simp del: set_map split: option.split)

lemma sessions_drop_all: "dget (st_sessions (drop_all sids st)) k = (if k \<in> set sids then None else dget (st_sessions st) k)"
  by (induction sids arbitrary: st) (auto simp: drop_all_def sessions_drop dget_ddel)

lemma sessions_drop_all_list: "st_sessions (drop_all sids st) = filter (\<lambda>p. fst p \<notin> set sids) (st_sessions st)"
proof (induction sids arbitrary: st)
  case (Cons sid sids)
  have "drop_all (sid # sids) st = drop_all sids (drop_session sid st)" by (simp add: drop_all_def)
  then have "st_sessions (drop_all (sid # sids) st) = filter (\<lambda>p. fst p \<notin> set sids) (ddel sid (st_sessions st))"
    by (simp add: Cons.IH sessions_drop)
  then show ?case by (simp add: AList.delete_eq) (rule filter_cong, auto)
qed (simp add: drop_all_def)

lemma account_count_ddel:
  "st_sessions st' = ddel sid (st_sessions st) \<Longrightarrow> account_count st' u \<le> account_count st u"
proof -
  assume "st_sessions st' = ddel sid (st_sessions st)"
  moreover have "length (filter P (map snd (ddel sid d))) \<le> length (filter P (map snd d))" for P and d :: "(pystr, account_session) dict"
    by (induction d) (auto simp: AList.delete_eq)
  ultimately show ?thesis by (simp add: account_count_def)
qed

lemma moves_drop: "moves st (drop_session sid st)"
proof -
  let ?t = "drop_session sid st"
  have fields: "dget (st_checked ?t) = (dget (st_checked st))(sid := None)"
    "set (st_lock_keys ?t) = set (st_lock_keys st) - {sid}" "st_max ?t = st_max st" "same_config st ?t"
    by (auto simp: drop_session_def delete_conv' same_config_def split: option.split)
  have ok: "store_ok ?t" if ok: "store_ok st"
  proof -
    have "refs_ok ?t"
    proof (cases "dget (st_sessions st) sid")
      case None
      then have "st_sessions ?t = st_sessions st" "st_revocation ?t = st_revocation st"
        by (simp_all add: drop_session_def)
      with ok show ?thesis by (simp add: store_ok_def refs_ok_def)
    next
      case (Some s)
      then have rev: "st_revocation ?t = ddel (as_revocation_ref s) (st_revocation st)"
        by (simp add: drop_session_def)
      have rf: "refs_ok st" using ok by (simp add: store_ok_def)
      show ?thesis
        unfolding refs_ok_def sessions_drop rev
      proof (intro allI)
        fix ref k
        show "(dget (ddel (as_revocation_ref s) (st_revocation st)) ref = Some k) =
            (\<exists>t. dget (ddel sid (st_sessions st)) k = Some t \<and> as_revocation_ref t = ref)"
        proof (cases "ref = as_revocation_ref s")
          case True
          have "k = sid" if "dget (st_sessions st) k = Some t" "as_revocation_ref t = ref" for t
            using refs_ok_inject [OF rf that(1) Some] that(2) True by simp
          with True show ?thesis by (auto simp: dget_ddel)
        next
          case False
          have "dget (st_revocation st) ref \<noteq> Some sid"
            using rf Some False unfolding refs_ok_def by simp
          with False rf show ?thesis by (simp add: dget_ddel refs_ok_def)
        qed
      qed
    qed
    moreover have "dict_ok (st_revocation ?t)"
      using ok by (auto simp: store_ok_def drop_session_def split: option.split)
    moreover have "account_count ?t u \<le> st_max st" for u
      using account_count_ddel [OF sessions_drop, of sid st u] ok
      by (meson le_trans store_ok_def)
    ultimately show ?thesis
      using ok unfolding store_ok_def fields sessions_drop
      by (auto simp: dget_ddel dom_def fun_upd_def split: if_splits)
  qed
  then show ?thesis using fields(4) by (auto simp: moves_def sessions_drop dget_ddel)
qed

lemma moves_drop_all: "moves st (drop_all sids st)"
  unfolding drop_all_def by (induction sids arbitrary: st) (auto intro: moves_trans moves_drop)

subsection \<open>Changing and adding a session\<close>

lemma map_dset_same:
  "dget d k = Some v \<Longrightarrow> f v = f w \<Longrightarrow> map (\<lambda>p. f (snd p)) (dset k w d) = map (\<lambda>p. f (snd p)) d"
  by (induction d) auto

lemma account_count_map:
  "account_count st u = length (filter (\<lambda>c. c = casefold u) (map (\<lambda>p. casefold (as_username (snd p))) (st_sessions st)))"
  unfolding account_count_def by (simp add: filter_map o_def)

lemma moves_replace:
  assumes "dget (st_sessions st) (as_id s') = Some s" and "aged s s'"
  shows "moves st (replace_session s' st)"
proof -
  let ?t = "replace_session s' st"
  have sess: "dget (st_sessions ?t) k = (if k = as_id s' then Some s' else dget (st_sessions st) k)" for k
    by (simp add: replace_session_def dget_dset)
  have "account_count ?t u = account_count st u" for u
    unfolding account_count_map
    using map_dset_same [OF assms(1), of "\<lambda>s. casefold (as_username s)" s'] aged_fields [OF assms(2)]
    by (simp add: replace_session_def)
  moreover have "refs_ok ?t" if "refs_ok st"
    using that assms(1) aged_fields [OF assms(2)] unfolding refs_ok_def sess
    by (auto simp: replace_session_def)
  moreover have "dom (dget (st_sessions ?t)) = dom (dget (st_sessions st))"
    using assms(1) by (auto simp: sess dom_def)
  moreover have "dict_ok (st_sessions ?t)" if "dict_ok (st_sessions st)"
    using that by (simp add: replace_session_def)
  moreover have "\<forall>sid s. dget (st_sessions ?t) sid = Some s \<longrightarrow> as_id s = sid"
    if "\<forall>sid s. dget (st_sessions st) sid = Some s \<longrightarrow> as_id s = sid"
    using that by (auto simp: sess)
  moreover have "st_revocation ?t = st_revocation st" "st_checked ?t = st_checked st"
    "st_lock_keys ?t = st_lock_keys st" "st_max ?t = st_max st"
    by (simp_all add: replace_session_def)
  ultimately have "store_ok ?t" if "store_ok st"
    using that unfolding store_ok_def by simp
  then show ?thesis using assms by (auto simp: moves_def same_config_def sess) (simp_all add: replace_session_def)
qed

text \<open>A new session with unused tokens.\<close>

definition unused :: "account_session \<Rightarrow> session_store \<Rightarrow> bool" where
  "unused s st \<longleftrightarrow> dget (st_sessions st) (as_id s) = None \<and> dget (st_revocation st) (as_revocation_ref s) = None"

lemma install_ok:
  assumes "store_ok st" and "unused s st" and "account_count st (as_username s) < st_max st"
  shows "store_ok (install_session s m st)"
proof -
  let ?t = "install_session s m st"
  have sess: "dget (st_sessions ?t) k = (if k = as_id s then Some s else dget (st_sessions st) k)" for k
    by (simp add: install_session_def dget_dset)
  have rev: "dget (st_revocation ?t) k = (if k = as_revocation_ref s then Some (as_id s) else dget (st_revocation st) k)" for k
    by (simp add: install_session_def dget_dset)
  have "st_sessions ?t = st_sessions st @ [(as_id s, s)]"
    using assms(2) by (simp add: install_session_def unused_def dset_fresh dget_None_iff del: set_map)
  then have count: "account_count ?t u = account_count st u + (if casefold (as_username s) = casefold u then 1 else 0)" for u
    by (simp add: account_count_def)
  have "account_count ?t u \<le> st_max st" for u
  proof (cases "casefold (as_username s) = casefold u")
    case True
    then have "account_count st u = account_count st (as_username s)" by (simp add: account_count_def)
    with True count assms(3) show ?thesis by simp
  next
    case False
    with count assms(1) show ?thesis by (simp add: store_ok_def)
  qed
  moreover have "refs_ok ?t"
    unfolding refs_ok_def sess rev
  proof (intro allI)
    fix ref k
    have rf: "refs_ok st" using assms(1) by (simp add: store_ok_def)
    have 1: "dget (st_revocation st) r \<noteq> Some (as_id s)" for r
      using refs_ok_ref [OF rf, of r "as_id s"] assms(2) unfolding unused_def by auto
    have 2: "as_revocation_ref t \<noteq> as_revocation_ref s" if "dget (st_sessions st) j = Some t" for j t
      using refs_ok_session [OF rf that] assms(2) unfolding unused_def by auto
    show "((if ref = as_revocation_ref s then Some (as_id s) else dget (st_revocation st) ref) = Some k) =
        (\<exists>t. (if k = as_id s then Some s else dget (st_sessions st) k) = Some t \<and> as_revocation_ref t = ref)"
    proof (cases "ref = as_revocation_ref s")
      case True
      with 2 show ?thesis by auto
    next
      case False
      show ?thesis
      proof (cases "k = as_id s")
        case True
        with False 1 show ?thesis by simp
      next
        case k: False
        have "dget (st_revocation st) ref = Some k \<longleftrightarrow> (\<exists>t. dget (st_sessions st) k = Some t \<and> as_revocation_ref t = ref)"
          using rf by (simp only: refs_ok_def)
        with False k show ?thesis by simp
      qed
    qed
  qed
  moreover have "st_max ?t = st_max st" "st_lock_keys ?t = st_lock_keys st"
    "dom (dget (st_checked ?t)) = insert (as_id s) (dom (dget (st_checked st)))"
    by (auto simp: install_session_def dget_dset)
  ultimately show ?thesis
    using assms(1) unfolding store_ok_def sess
    by (auto simp: install_session_def dom_def)
qed

section \<open>The operations\<close>

lemma acquire_sync_lock_core:
  "acquire_sync_lock in_loop blocking l st = (st', r) \<Longrightarrow> core st' = core st \<and> st_sessions st' = st_sessions st"
  by (auto simp: acquire_sync_lock_def split: if_splits)

lemma acquire_check_locks_core:
  "acquire_check_locks in_loop sids st = (st', r) \<Longrightarrow> core st' = core st \<and> st_sessions st' = st_sessions st"
  by (auto simp: acquire_check_locks_def split: if_splits)

text \<open>Chaining steps that leave the core alone.\<close>

lemma moves_then_core: "moves a b \<Longrightarrow> core c = core b \<Longrightarrow> moves a c"
  by (rule moves_trans [OF _ moves_core])

lemma moves_after_core: "core b = core a \<Longrightarrow> moves b c \<Longrightarrow> moves a c"
  by (rule moves_trans [OF moves_core])

lemma moves_with_set_lock:
  assumes "with_set_lock in_loop body st = (st', r)"
    and "\<And>a b r'. core a = core st \<Longrightarrow> body a = (b, r') \<Longrightarrow> moves a b"
  shows "moves st st'"
proof -
  obtain a x where a: "acquire_sync_lock in_loop True SetLock st = (a, x)" by fastforce
  show ?thesis
  proof (cases x)
    case (Inl e)
    with a assms(1) acquire_sync_lock_core [OF a] show ?thesis
      by (auto simp: with_set_lock_def intro: moves_core)
  next
    case (Inr y)
    obtain b r' where b: "body a = (b, r')" by fastforce
    then have "moves a b" using assms(2) acquire_sync_lock_core [OF a] by blast
    moreover have "st' = release_locks [SetLock] b" using assms(1) a Inr b by (simp add: with_set_lock_def)
    ultimately show ?thesis
      using acquire_sync_lock_core [OF a] by (auto intro: moves_after_core moves_then_core)
  qed
qed

lemma bulk_removal_moves:
  assumes "bulk_removal in_loop sids st = (st', r)" and "set sids \<subseteq> dom (dget (st_sessions st))"
  shows "moves st st'"
proof -
  let ?a = "fold add_lock_key sids st"
  have a: "moves st ?a" by (rule moves_fold_add_lock_key [OF assms(2)])
  have "moves ?a st'"
  proof (cases in_loop)
    case True
    obtain b x where b: "acquire_check_locks True sids ?a = (b, x)" by fastforce
    have "core b = core ?a" using acquire_check_locks_core [OF b] by simp
    moreover have "moves b (drop_all sids (mark_invalidating sids b))"
      by (rule moves_after_core [OF _ moves_drop_all]) simp
    ultimately show ?thesis
      using assms(1) True b
      by (cases x) (auto simp: bulk_removal_def Let_def intro: moves_core moves_then_core moves_after_core)
  next
    case False
    obtain b x where b: "acquire_check_locks False sids (mark_invalidating sids ?a) = (b, x)" by fastforce
    have "core b = core ?a" using acquire_check_locks_core [OF b] by simp
    then show ?thesis
      using assms(1) False b moves_drop_all [of b "still_there b sids"]
      by (cases x) (auto simp: bulk_removal_def Let_def intro: moves_core moves_then_core moves_after_core)
  qed
  with a show ?thesis by (rule moves_trans)
qed

lemma purge_moves: "purge in_loop now r st = (st', x) \<Longrightarrow> moves st st'"
  unfolding purge_def
  by (erule bulk_removal_moves) (auto simp: expired_ids_def dom_map_of_conv_image_fst simp flip: set_dkeys)

lemma active_moves: "active in_loop now r st = (st', x) \<Longrightarrow> moves st st'"
  by (auto simp: active_def split: prod.splits sum.splits dest: purge_moves)

lemma snapshot_moves: "session_snapshot digest in_loop sid now refs r r' st = (st', x) \<Longrightarrow> moves st st'"
  by (auto simp: session_snapshot_def split: prod.splits sum.splits dest: active_moves)

lemma touch_aged: "aged s (touch_session touch c m s)"
  using agedI [where r = "as_role s" and s = s and t = c and m = m] by (simp add: touch_session_def)

lemma touch_simps [simp]: "as_id (touch_session touch c m s) = as_id s" "touch_session False c m s = s"
  by (simp_all add: touch_session_def)

text \<open>\<open>get_decide\<close> answers only with a session that is stored, unmarked and within its
  lifetimes; what it returns is what is stored afterwards.\<close>

lemma get_decide_spec:
  assumes "get_decide sid touch now r st = (st', res)" and "store_ok st"
  shows "moves st st' \<and> (\<forall>s'. res = Some s' \<longrightarrow>
    (\<exists>s. dget (st_sessions st) sid = Some s \<and> aged s s' \<and> \<not> session_is_invalidating st sid s \<and>
       \<not> is_expired st s (current_of now r) (mono_clock r)) \<and> dget (st_sessions st') sid = Some s')"
proof (cases "dget (st_sessions st) sid")
  case None
  with assms(1) show ?thesis by (auto simp: get_decide_def)
next
  case (Some s)
  then have id: "as_id s = sid" using assms(2) by (simp add: store_ok_def)
  let ?s' = "touch_session touch (current_of now r) (mono_clock r) s"
  have "moves st (replace_session ?s' st)"
    using Some id by (intro moves_replace [of _ _ s]) (simp_all add: touch_aged)
  moreover have "dget (st_sessions (replace_session ?s' st)) sid = Some ?s'"
    using id by (simp add: replace_session_def dget_dset)
  ultimately show ?thesis
    using assms(1) Some touch_aged [of s touch]
    by (auto simp: get_decide_def Let_def moves_drop split: if_splits)
qed

lemma moves_add_present: "dget (st_sessions st) sid = Some s \<Longrightarrow> moves st (add_lock_key sid st)"
  by (intro moves_add_lock_key) auto

lemma moves_store_ok: "moves a b \<Longrightarrow> store_ok a \<Longrightarrow> store_ok b"
  by (simp add: moves_def)

lemma core_store_ok: "core b = core a \<Longrightarrow> store_ok a \<Longrightarrow> store_ok b"
  by (erule moves_store_ok [OF moves_core])

lemma get_expired:
  "sid \<noteq> [] \<Longrightarrow> dget (st_sessions st) sid = Some s \<Longrightarrow> \<not> session_is_invalidating st sid s \<Longrightarrow>
   is_expired st s (current_of now r) (mono_clock r) \<Longrightarrow>
   get in_loop sid now touch held wait r r' st =
     (let a = add_lock_key sid st in
      if held then (case get_decide sid touch now r' a of (b, x) \<Rightarrow> (b, Inr x))
      else if CheckLock sid \<notin> set (st_locked a)
      then (case get_decide sid touch now r' (take_locks [CheckLock sid] a) of
              (b, x) \<Rightarrow> (release_locks [CheckLock sid] b, Inr x))
      else (a, if \<not> wait then Inr None else Inl (if in_loop then LockUnavailable else Waits)))"
  by (simp add: get_def acquire_sync_lock_def Let_def)

lemma get_spec:
  assumes "get in_loop sid now touch held wait r r' st = (st', res)" and "store_ok st"
  shows "moves st st' \<and> (\<forall>s'. res = Inr (Some s') \<longrightarrow>
    (\<exists>s q. dget (st_sessions st) sid = Some s \<and> aged s s' \<and> \<not> session_is_invalidating st sid s \<and>
       q \<in> {r, r'} \<and> \<not> is_expired st s (current_of now q) (mono_clock q)) \<and> dget (st_sessions st') sid = Some s')"
proof (cases "sid = [] \<or> dget (st_sessions st) sid = None")
  case True
  with assms(1) have "st' = st \<and> res = Inr None" by (cases "sid = []") (simp_all add: get_def)
  then show ?thesis by simp
next
  case False
  then obtain s where s: "dget (st_sessions st) sid = Some s" by auto
  let ?a = "add_lock_key sid st"
  have a: "moves st ?a" by (rule moves_add_present [OF s])
  have same: "st_sessions ?a = st_sessions st" "session_is_invalidating ?a = session_is_invalidating st"
    "is_expired ?a = is_expired st"
    by (auto simp: add_lock_key_def session_is_invalidating_def is_expired_def fun_eq_iff)
  show ?thesis
  proof (cases "session_is_invalidating st sid s")
    case True
    with False s assms(1) show ?thesis by (auto simp: get_def)
  next
    case valid: False
    show ?thesis
    proof (cases "is_expired st s (current_of now r) (mono_clock r)")
      case False
      obtain b x where b: "get_decide sid touch now r st = (b, x)" by fastforce
      then have "st' = b" "res = Inr x"
        using assms(1) s valid False \<open>\<not> (sid = [] \<or> _)\<close> by (auto simp: get_def)
      with get_decide_spec [OF b assms(2)] show ?thesis by blast
    next
      case expired: True
      define c where "c = (if held then ?a else take_locks [CheckLock sid] ?a)"
      have c: "core c = core ?a" "st_sessions c = st_sessions st" "is_expired c = is_expired st"
        "session_is_invalidating c = session_is_invalidating st"
        using same by (auto simp: c_def take_locks_def is_expired_def session_is_invalidating_def fun_eq_iff core_def)
      obtain b x where b: "get_decide sid touch now r' c = (b, x)" by fastforce
      have "moves st c" by (rule moves_then_core [OF a c(1)])
      then have "store_ok c" using assms(2) by (rule moves_store_ok)
      note spec = get_decide_spec [OF b this]
      have cases: "core st' = core ?a \<and> (\<forall>s'. res \<noteq> Inr (Some s')) \<or>
          core st' = core b \<and> st_sessions st' = st_sessions b \<and> res = Inr x"
        using assms(1) b get_expired [OF _ s valid expired, of in_loop touch held wait r'] False
        by (simp add: c_def Let_def split: if_split_asm)
      then show ?thesis
      proof
        assume "core st' = core ?a \<and> (\<forall>s'. res \<noteq> Inr (Some s'))"
        with moves_then_core [OF a] show ?thesis by simp
      next
        assume st': "core st' = core b \<and> st_sessions st' = st_sessions b \<and> res = Inr x"
        then have "moves st st'"
          using \<open>moves st c\<close> spec moves_then_core moves_trans by blast
        moreover {
          fix s' assume "res = Inr (Some s')"
          with st' have "x = Some s'" by simp
          with spec obtain s0 where s0: "dget (st_sessions c) sid = Some s0" "aged s0 s'"
            "\<not> session_is_invalidating c sid s0" "\<not> is_expired c s0 (current_of now r') (mono_clock r')"
            "dget (st_sessions b) sid = Some s'" by blast
          with c st' have "(\<exists>s q. dget (st_sessions st) sid = Some s \<and> aged s s' \<and> \<not> session_is_invalidating st sid s \<and>
             q \<in> {r, r'} \<and> \<not> is_expired st s (current_of now q) (mono_clock q)) \<and> dget (st_sessions st') sid = Some s'"
            by (intro conjI exI [of _ s0] exI [of _ r']) simp_all
        }
        ultimately show ?thesis by blast
      qed
    qed
  qed
qed

lemma cached_role_session_moves: "cached_role_session sid now interval held r st = (st', x) \<Longrightarrow> moves st st'"
  by (auto simp: cached_role_session_def moves_drop split: option.splits if_splits)

lemma dispatch_moves: "dispatch_if_active ref r st = (st', x) \<Longrightarrow> moves st st'"
  by (auto simp: dispatch_if_active_def moves_drop split: option.splits if_splits prod.splits)

lemma sessions_finish [simp]:
  "st_sessions (finish_mutation sid st) = st_sessions st" "core (finish_mutation sid st) = core st"
  by (simp_all add: finish_mutation_def)

lemma moves_finish_drop: "moves st a \<Longrightarrow> moves st (finish_mutation sid (drop_session sid a))"
  by (rule moves_then_core [OF moves_trans [OF _ moves_drop]]) simp_all

lemma moves_from_marked: "moves (mark_account key st) st' \<Longrightarrow> moves st st'"
  by (rule moves_after_core [OF core_marks(3)])

lemma moves_from_invalidating: "moves (mark_invalidating sids st) st' \<Longrightarrow> moves st st'"
  by (rule moves_after_core [OF core_marks(1)])

text \<open>The lock of a mutation: the sessions stay, and the answer \<open>True\<close> means there is one.\<close>

lemma lock_for_mutation_spec:
  assumes "lock_for_mutation in_loop sid routeros_only st = (st', r)"
  shows "moves st st' \<and> st_sessions st' = st_sessions st \<and>
    (r = Inr True \<longrightarrow> dget (st_sessions st) sid \<noteq> None) \<and>
    (r = Inr False \<longrightarrow> (dget (st_sessions st) sid = None \<or> routeros_only))"
proof (cases "dget (st_sessions st) sid")
  case None
  with assms show ?thesis by (auto simp: lock_for_mutation_def role_lock_for_mutation_def)
next
  case (Some s)
  have "moves st (add_lock_key sid st)" by (rule moves_add_present [OF Some])
  moreover have "core st' = core st \<and> st_sessions st' = st_sessions st \<or>
      core st' = core (add_lock_key sid st) \<and> st_sessions st' = st_sessions st"
    using assms Some
    by (auto simp: lock_for_mutation_def role_lock_for_mutation_def acquire_sync_lock_def Let_def split: if_splits)
  ultimately show ?thesis
    using assms Some moves_core [of st' st] moves_then_core [of st "add_lock_key sid st" st']
    by (auto simp: lock_for_mutation_def role_lock_for_mutation_def acquire_sync_lock_def Let_def split: if_splits)
qed

lemma destroy_moves: "destroy in_loop sid held st = (st', r) \<Longrightarrow> moves st st'"
  by (auto simp: destroy_def moves_drop split: if_splits prod.splits sum.splits bool.splits
      dest!: lock_for_mutation_spec intro: moves_finish_drop)

lemma revoke_moves: "revoke in_loop sid st = (st', r) \<Longrightarrow> moves st st'"
  by (auto simp: revoke_def split: if_splits prod.splits sum.splits bool.splits
      dest!: lock_for_mutation_spec intro: moves_finish_drop)

lemma revoke_by_reference_moves: "revoke_by_reference in_loop ref st = (st', r) \<Longrightarrow> moves st st'"
  by (auto simp: revoke_by_reference_def split: if_splits option.splits dest: revoke_moves)

lemma account_sessions_subset: "set (account_sessions st key) \<subseteq> dom (dget (st_sessions st))"
  by (auto simp: account_sessions_def dom_map_of_conv_image_fst)

lemma revoke_candidates_spec:
  assumes "revoke_candidates key st = (st', candidates)"
  shows "moves st st' \<and> st_sessions st' = st_sessions st \<and> candidates = sort (account_sessions st key)"
proof -
  have "moves (mark_invalidating candidates st) (fold add_lock_key candidates (mark_invalidating candidates st))"
    using assms account_sessions_subset [of st key]
    by (intro moves_fold_add_lock_key) (auto simp: revoke_candidates_def Let_def)
  then show ?thesis
    using assms by (auto simp: revoke_candidates_def Let_def intro: moves_from_invalidating)
qed

lemma account_sessions_cong: "st_sessions st' = st_sessions st \<Longrightarrow> account_sessions st' = account_sessions st"
  by (simp add: account_sessions_def fun_eq_iff)

text \<open>The sweep removes exactly the RouterOS sessions of the account.\<close>

lemma revoke_sweep_spec:
  assumes "revoke_sweep in_loop key started st = (st', r)"
  shows "moves st st' \<and> (\<forall>n. r = Inr (Some n) \<longrightarrow> n = length (account_sessions st key) \<and>
    (\<forall>k. dget (st_sessions st') k = (if k \<in> set (account_sessions st key) then None else dget (st_sessions st) k)) \<and>
    st_sessions st' = filter (\<lambda>p. fst p \<notin> set (account_sessions st key)) (st_sessions st))"
proof -
  obtain a x where a: "acquire_sync_lock in_loop True SetLock st = (a, x)" by fastforce
  note ac = acquire_sync_lock_core [OF a]
  obtain b candidates where b: "revoke_candidates key a = (b, candidates)" by fastforce
  note bc = revoke_candidates_spec [OF b]
  obtain c y where c: "acquire_check_locks in_loop candidates b = (c, y)" by fastforce
  note cc = acquire_check_locks_core [OF c]
  have m: "moves st c" using ac bc cc by (auto intro: moves_after_core moves_then_core)
  have same: "st_sessions c = st_sessions st" using ac bc cc by simp
  show ?thesis
  proof (cases x)
    case (Inl e)
    with assms a ac show ?thesis
      by (auto simp: revoke_sweep_def split: if_splits intro!: moves_core)
  next
    case x: (Inr ok)
    show ?thesis
    proof (cases y)
      case (Inl e)
      with assms a b c x m show ?thesis
        by (auto simp: revoke_sweep_def intro: moves_then_core split: if_splits)
    next
      case (Inr ok')
      have "moves c (drop_all (account_sessions c key) c)" by (rule moves_drop_all)
      with m have "moves st (drop_all (account_sessions c key) c)" by (rule moves_trans)
      moreover have "r = Inr (Some (length (account_sessions st key)))"
        "core st' = core (drop_all (account_sessions c key) c)" "st_sessions st' = st_sessions (drop_all (account_sessions st key) c)"
        using assms a b c x Inr account_sessions_cong [OF same] by (auto simp: revoke_sweep_def Let_def)
      ultimately show ?thesis
        using sessions_drop_all [of "account_sessions st key" c] sessions_drop_all_list [of "account_sessions st key" c] same
        by (auto intro: moves_then_core)
    qed
  qed
qed

lemma revoke_account_moves:
  "revoke_account_sessions in_loop username already started st = (st', r) \<Longrightarrow> moves st st'"
  by (auto simp: revoke_account_sessions_def Let_def split: if_splits
      dest!: revoke_sweep_spec intro: moves_from_marked)

lemma retry_round_moves: "retry_round key st = (st', r) \<Longrightarrow> moves st st'"
  by (auto simp: retry_round_def split: if_splits prod.splits sum.splits
      dest!: revoke_account_moves intro: moves_core moves_then_core)

lemma revoke_others_moves: "revoke_others in_loop key keep st = (st', r) \<Longrightarrow> moves st st'"
  using account_sessions_subset [of st key]
  by (auto simp: revoke_others_def split: option.splits if_splits prod.splits sum.splits dest!: bulk_removal_moves)

lemma revoke_except_moves: "revoke_account_sessions_except in_loop username keep st = (st', r) \<Longrightarrow> moves st st'"
  by (auto simp: revoke_account_sessions_except_def Let_def split: if_splits
      elim!: moves_with_set_lock dest: revoke_others_moves)

lemma other_keys_subset: "set (sort (filter P (dkeys d))) \<subseteq> dom (dget d)"
  by (auto simp: dom_map_of_conv_image_fst image_iff)

lemma revoke_all_except_moves: "revoke_all_except in_loop keep st = (st', r) \<Longrightarrow> moves st st'"
  unfolding revoke_all_except_def
  by (erule moves_with_set_lock) (erule bulk_removal_moves, rule other_keys_subset)

subsection \<open>\<open>create\<close> and \<open>rotate\<close>\<close>

text \<open>One session is added, the others age or go.\<close>

definition adds :: "account_session \<Rightarrow> session_store \<Rightarrow> session_store \<Rightarrow> bool" where
  "adds s st st' \<longleftrightarrow> same_config st st' \<and> (store_ok st \<and> unused s st \<longrightarrow> store_ok st') \<and>
     (\<forall>k s'. dget (st_sessions st') k = Some s' \<longrightarrow>
        k = as_id s \<and> s' = s \<or> (\<exists>s0. dget (st_sessions st) k = Some s0 \<and> aged s0 s'))"

lemma moves_unused:
  assumes "moves a b" and "store_ok a" and "unused s a"
  shows "unused s b"
proof -
  have "dget (st_sessions b) (as_id s) = None"
  proof (rule ccontr)
    assume "dget (st_sessions b) (as_id s) \<noteq> None"
    then obtain t where "dget (st_sessions b) (as_id s) = Some t" by blast
    then obtain t0 where "dget (st_sessions a) (as_id s) = Some t0" using moves_session [OF assms(1)] by blast
    with assms(3) show False by (simp add: unused_def)
  qed
  moreover have "dget (st_revocation b) (as_revocation_ref s) = None"
  proof (cases "dget (st_revocation b) (as_revocation_ref s)")
    case (Some k)
    have rb: "refs_ok b" and ra: "refs_ok a"
      using moves_store_ok [OF assms(1,2)] assms(2) by (simp_all add: store_ok_refs)
    obtain t where t: "dget (st_sessions b) k = Some t" "as_revocation_ref t = as_revocation_ref s"
      using refs_ok_ref [OF rb Some] by blast
    then obtain t0 where t0: "dget (st_sessions a) k = Some t0" "aged t0 t"
      using moves_session [OF assms(1)] by blast
    then have "dget (st_revocation a) (as_revocation_ref s) = Some k"
      using refs_ok_session [OF ra t0(1)] aged_fields [OF t0(2)] t(2) by simp
    with assms(3) show ?thesis by (simp add: unused_def)
  qed
  ultimately show ?thesis by (simp add: unused_def)
qed

lemma moves_adds:
  assumes "moves a b" and "adds s b c"
  shows "adds s a c"
proof -
  have "store_ok c" if "store_ok a" "unused s a"
    using moves_unused [OF assms(1) that] moves_store_ok [OF assms(1) that(1)] assms(2) by (simp add: adds_def)
  moreover have "k = as_id s \<and> s' = s \<or> (\<exists>s0. dget (st_sessions a) k = Some s0 \<and> aged s0 s')"
    if c: "dget (st_sessions c) k = Some s'" for k s'
  proof -
    from assms(2) c have "k = as_id s \<and> s' = s \<or> (\<exists>s1. dget (st_sessions b) k = Some s1 \<and> aged s1 s')"
      unfolding adds_def by blast
    then show ?thesis
    proof
      assume "\<exists>s1. dget (st_sessions b) k = Some s1 \<and> aged s1 s'"
      then obtain s1 where s1: "dget (st_sessions b) k = Some s1" "aged s1 s'" by blast
      then obtain s0 where "dget (st_sessions a) k = Some s0" "aged s0 s1"
        using moves_session [OF assms(1)] by blast
      with s1(2) show ?thesis using aged_trans by blast
    qed simp
  qed
  moreover have "same_config a c" using assms by (simp add: adds_def moves_def same_config_def)
  ultimately show ?thesis by (simp add: adds_def)
qed

lemma adds_moves_core: "adds s a b \<Longrightarrow> core c = core b \<Longrightarrow> adds s a c"
  using moves_core [of c b]
  by (auto simp: adds_def moves_def same_config_def core_def)

lemma adds_after_core: "core b = core a \<Longrightarrow> adds s b c \<Longrightarrow> adds s a c"
  by (rule moves_adds [OF moves_core])

lemma install_adds:
  assumes "account_count st (as_username s) < st_max st"
  shows "adds s st (install_session s m st)"
  using install_ok [OF _ _ assms, of m]
  by (auto simp: adds_def same_config_def install_session_def dget_dset)

lemma create_check_None:
  "create_check st username expected = None \<longleftrightarrow>
     count_of (st_denied st) (account_key username) = 0 \<and>
     (\<forall>g. expected = Some g \<longrightarrow> count_of (st_generations st) (account_key username) = g) \<and>
     account_count st username < st_max st"
  by (auto simp: create_check_def Let_def split: option.splits)

lemma with_set_lock_cases:
  assumes "with_set_lock in_loop body st = (st', r)"
  shows "(core st' = core st \<and> (\<exists>e. r = Inl e)) \<or>
    (\<exists>b. body (take_locks [SetLock] st) = (b, r) \<and> st' = release_locks [SetLock] b)"
  using assms by (auto simp: with_set_lock_def acquire_sync_lock_def split: if_splits prod.splits)

text \<open>A new session starts its lifetimes now, with the role that was resolved.\<close>

definition granted :: "account_session \<Rightarrow> pystr \<Rightarrow> reading \<Rightarrow> rat option \<Rightarrow> pystr \<Rightarrow> bool" where
  "granted s username r now role \<longleftrightarrow> as_username s = username \<and> as_created_at s = current_of now r \<and>
     as_last_seen s = current_of now r \<and> as_created_mono s = mono_clock r \<and> as_last_seen_mono s = mono_clock r \<and>
     as_role s = normalize_role role \<and> as_auth_method s = lit ''routeros''"

lemma create_spec:
  assumes "create in_loop tk username password now role source_address user_agent expected before r r' st = (st', res)"
  shows "(\<forall>e. res = Inl e \<longrightarrow> moves st st') \<and>
    (\<forall>s. res = Inr s \<longrightarrow> adds s st st' \<and> as_id s = tk_id tk \<and> as_revocation_ref s = tk_revocation tk \<and>
       granted s username r now role \<and> count_of (st_denied st') (account_key username) = 0 \<and>
       (\<forall>g. expected = Some g \<longrightarrow> count_of (st_generations st') (account_key username) = g))"
proof -
  let ?s = "new_session tk username password (current_of now r) (mono_clock r) role source_address (take 256 user_agent)"
  let ?a = "take_locks [SetLock] st"
  have "(core st' = core st \<and> (\<exists>e. res = Inl e)) \<or>
    (\<exists>b. create_locked in_loop tk username password now role source_address user_agent expected before r r' ?a = (b, res)
       \<and> st' = release_locks [SetLock] b)"
    using assms unfolding create_def by (rule with_set_lock_cases)
  then show ?thesis
  proof
    assume "core st' = core st \<and> (\<exists>e. res = Inl e)"
    then show ?thesis by (auto intro: moves_core)
  next
    assume "\<exists>b. create_locked in_loop tk username password now role source_address user_agent expected before r r' ?a
      = (b, res) \<and> st' = release_locks [SetLock] b"
    then obtain b where b: "create_locked in_loop tk username password now role source_address user_agent expected before r r' ?a
      = (b, res)" "st' = release_locks [SetLock] b" by blast
    obtain c x where c: "purge in_loop (Some (current_of now r)) r' ?a = (c, x)" by fastforce
    have m: "moves st c" by (rule moves_after_core [OF _ purge_moves [OF c]]) simp
    have s: "as_username ?s = username" "as_id ?s = tk_id tk" "as_revocation_ref ?s = tk_revocation tk"
      "granted ?s username r now role"
      by (simp_all add: new_session_def granted_def)
    show ?thesis
    proof (cases "(\<exists>n. x = Inr n) \<and> create_check c username expected = None \<and> before")
      case True
      then have ok: "account_count c username < st_max c" "count_of (st_denied c) (account_key username) = 0"
        "\<forall>g. expected = Some g \<longrightarrow> count_of (st_generations c) (account_key username) = g"
        by (auto simp: create_check_None)
      let ?i = "install_session ?s (as_created_mono ?s) c"
      have i: "b = ?i \<and> res = Inr ?s"
        using b(1) c True s(1) by (auto simp: create_locked_def create_commit_def Let_def)
      have "adds ?s c ?i" using ok(1) s(1) by (intro install_adds) simp
      then have "adds ?s st ?i" by (rule moves_adds [OF m])
      then have "adds ?s st st'" using b(2) i by (auto elim: adds_moves_core)
      moreover have "st_denied st' = st_denied c \<and> st_generations st' = st_generations c"
        using b(2) i by (simp add: install_session_def release_locks_def)
      ultimately show ?thesis using i s ok by simp
    next
      case False
      then have "core b = core c \<and> (\<exists>e. res = Inl e)"
        using b(1) c by (cases x) (auto simp: create_locked_def Let_def split: if_splits option.splits)
      then show ?thesis using b(2) m by (auto intro: moves_then_core)
    qed
  qed
qed

lemma length_filter_ddel:
  "dict_ok d \<Longrightarrow> dget d k = Some v \<Longrightarrow> P v \<Longrightarrow>
   Suc (length (filter P (map snd (ddel k d)))) = length (filter P (map snd d))"
proof (induction d)
  case (Cons x d)
  obtain k0 v0 where x: "x = (k0, v0)" by fastforce
  show ?case
  proof (cases "k0 = k")
    case True
    with Cons.prems x have "k \<notin> set (dkeys d)" by (simp add: dict_ok_def)
    then have "ddel k d = d" by (rule ddel_fresh)
    with True Cons.prems x show ?thesis by (simp add: AList.delete_eq)
  next
    case False
    with Cons x show ?thesis by (auto simp: dict_ok_def AList.delete_eq)
  qed
qed simp

lemma account_count_drop:
  assumes "store_ok st" and "dget (st_sessions st) sid = Some e" and "casefold (as_username e) = casefold u"
  shows "Suc (account_count (drop_session sid st) u) = account_count st u"
  using length_filter_ddel [of "st_sessions st" sid e "\<lambda>s. casefold (as_username s) = casefold u"] assms
  by (simp add: account_count_def sessions_drop store_ok_def)

lemma rotate_commit_spec:
  assumes "rotate_commit sid s st = (st', committed)" and "store_ok st"
    and "\<And>e. dget (st_sessions st) sid = Some e \<Longrightarrow> as_username e = as_username s"
  shows "(\<not> committed \<longrightarrow> core st' = core st) \<and> (committed \<longrightarrow> adds s st st')"
proof (cases "sid \<notin> set (dkeys (st_sessions st)) \<or> 1 < count_of (st_invalidating st) sid \<or>
         0 < count_of (st_denied st) (account_key (as_username s))")
  case True
  with assms(1) have "\<not> committed \<and> core st' = core st"
    unfolding rotate_commit_def if_P [OF True] by auto
  then show ?thesis by simp
next
  case False
  then have "dget (st_sessions st) sid \<noteq> None" by (simp add: dget_None_iff)
  then obtain e where e: "dget (st_sessions st) sid = Some e" by blast
  let ?d = "drop_session sid st"
  have "Suc (account_count ?d (as_username s)) = account_count st (as_username s)"
    using assms(3) [OF e] by (intro account_count_drop [OF assms(2) e]) simp
  moreover have "account_count st (as_username s) \<le> st_max st" using assms(2) by (simp add: store_ok_def)
  moreover have d: "moves st ?d" by (rule moves_drop)
  moreover from d have "st_max ?d = st_max st" by (simp add: moves_def same_config_def)
  ultimately have "adds s st (install_session s (as_created_mono s) ?d)"
    by (intro moves_adds [OF d] install_adds) simp
  with assms(1) show ?thesis unfolding rotate_commit_def if_not_P [OF False] by simp
qed

lemma rotate_prepare_spec:
  assumes "rotate_prepare sid tk password role now r st = (st', res)"
  shows "moves st st' \<and> (\<forall>s. res = Some s \<longrightarrow> st' = st \<and> as_id s = tk_id tk \<and> as_revocation_ref s = tk_revocation tk \<and>
    (\<exists>e. dget (st_sessions st) sid = Some e \<and> granted s (as_username e) r now role))"
  using assms
  by (auto simp: rotate_prepare_def granted_def new_session_def moves_drop split: option.splits if_splits)

lemma rotate_spec:
  assumes "rotate in_loop sid tk password role now before r st = (st', res)" and ok: "store_ok st"
  shows "(\<forall>s. res \<noteq> Inr (Some s)) \<and> moves st st' \<or>
    (\<exists>s e. res = Inr (Some s) \<and> adds s st st' \<and> as_id s = tk_id tk \<and> as_revocation_ref s = tk_revocation tk \<and>
       dget (st_sessions st) sid = Some e \<and> granted s (as_username e) r now role)"
proof -
  let ?a = "take_locks [SetLock] st"
  have "(core st' = core st \<and> (\<exists>e. res = Inl e)) \<or>
    (\<exists>b. rotate_locked in_loop sid tk password role now before r ?a = (b, res) \<and> st' = release_locks [SetLock] b)"
    using assms(1) unfolding rotate_def by (rule with_set_lock_cases)
  then show ?thesis
  proof
    assume "core st' = core st \<and> (\<exists>e. res = Inl e)"
    then show ?thesis by (auto intro: moves_core)
  next
    assume "\<exists>b. rotate_locked in_loop sid tk password role now before r ?a = (b, res) \<and> st' = release_locks [SetLock] b"
    then obtain b where b: "rotate_locked in_loop sid tk password role now before r ?a = (b, res)"
      "st' = release_locks [SetLock] b" by blast
    obtain c x where c: "lock_for_mutation in_loop sid True ?a = (c, x)" by fastforce
    note cs = lock_for_mutation_spec [OF c]
    have m: "moves st c" using cs by (intro moves_after_core [of ?a st]) simp_all
    obtain d y where d: "rotate_prepare sid tk password role now r c = (d, y)" by fastforce
    note ds = rotate_prepare_spec [OF d]
    have md: "moves st d" using m ds by (blast intro: moves_trans)
    show ?thesis
    proof (cases "sid = [] \<or> x \<noteq> Inr True \<or> y = None \<or> \<not> before")
      case True
      have "core b \<in> {core st, core c, core d} \<and> (\<forall>s. res \<noteq> Inr (Some s))"
      proof (cases "sid = [] \<or> x \<noteq> Inr True")
        case True
        then show ?thesis
          using b(1) c by (cases "sid = []"; cases x) (auto simp: rotate_locked_def)
      next
        case False
        with True b(1) c d show ?thesis by (cases y) (auto simp: rotate_locked_def)
      qed
      then have "core st' \<in> {core st, core c, core d} \<and> (\<forall>s. res \<noteq> Inr (Some s))" using b(2) by simp
      then show ?thesis using moves_core [of st' st] moves_then_core [OF m] moves_then_core [OF md] by auto
    next
      case False
      then obtain s where y: "y = Some s" by auto
      obtain e' committed where e: "rotate_commit sid s d = (e', committed)" by fastforce
      have dc: "d = c" using ds y by simp
      have res: "b = finish_mutation sid e' \<and> res = Inr (if committed then Some s else None)"
        using b(1) c d e False y by (auto simp: rotate_locked_def)
      obtain e0 where e0: "dget (st_sessions c) sid = Some e0" "granted s (as_username e0) r now role"
        using ds y by blast
      have "store_ok c" using m ok by (rule moves_store_ok)
      then have commit: "(\<not> committed \<longrightarrow> core e' = core c) \<and> (committed \<longrightarrow> adds s c e')"
        using e e0 dc by (intro rotate_commit_spec) (auto simp: granted_def)
      have orig: "dget (st_sessions st) sid = Some e0" using e0 cs by simp
      show ?thesis
      proof (cases committed)
        case True
        with commit m have "adds s st e'" by (blast intro: moves_adds)
        then have "adds s st st'" using res b(2) by (auto elim: adds_moves_core)
        with True res ds y orig e0(2) show ?thesis by auto
      next
        case False
        with commit res b(2) have "core st' = core c" by simp
        with False res m show ?thesis by (auto intro: moves_then_core)
      qed
    qed
  qed
qed

subsection \<open>\<open>revalidate_role\<close>\<close>

lemma role_is_subset_capability: "role_is_subset l r \<Longrightarrow> has_capability l c \<Longrightarrow> has_capability r c"
  by (auto simp: role_is_subset_def has_capability_def Let_def)

lemma get_held_spec:
  assumes "get_held sid now r r' st = (st', res)" and "store_ok st"
  shows "moves st st' \<and> (\<forall>s'. res = Some s' \<longrightarrow> dget (st_sessions st') sid = Some s')"
proof (cases "dget (st_sessions st) sid")
  case None
  with assms(1) show ?thesis by (auto simp: get_held_def)
next
  case (Some s)
  have a: "moves st (add_lock_key sid st)" by (rule moves_add_present [OF Some])
  obtain b x where b: "get_decide sid False now r' (add_lock_key sid st) = (b, x)" by fastforce
  have "st' = st \<and> (\<forall>s'. res = Some s' \<longrightarrow> s' = s) \<or> st' = b \<and> res = x"
    using assms(1) Some b by (auto simp: get_held_def split: if_splits)
  then show ?thesis
    using get_decide_spec [OF b moves_store_ok [OF a assms(2)]] a Some by (auto intro: moves_trans)
qed

lemma moves_checked:
  assumes "sid \<in> dom (dget (st_sessions st))"
  shows "moves st (st\<lparr>st_checked := dset sid m (st_checked st)\<rparr>)"
proof -
  let ?t = "st\<lparr>st_checked := dset sid m (st_checked st)\<rparr>"
  have "dom (dget (st_checked ?t)) = insert sid (dom (dget (st_checked st)))"
    by (auto simp: dget_dset)
  with assms have "store_ok ?t" if "store_ok st"
    using that by (simp add: store_ok_def refs_ok_def account_count_def insert_absorb)
  then show ?thesis by (auto simp: moves_def same_config_def)
qed

lemma apply_role_moves:
  assumes "apply_role sid s resolved r st = (st', res)" and "store_ok st" and s: "dget (st_sessions st) sid = Some s"
  shows "moves st st'"
proof -
  let ?new = "normalize_role resolved"
  have id: "as_id s = sid" using assms(2) s by (simp add: store_ok_def)
  show ?thesis
  proof (cases "role_is_subset ?new (normalize_role (as_role s))")
    case True
    let ?s = "s\<lparr>as_role := ?new\<rparr>"
    have "aged s ?s"
      using agedI [where r = ?new and s = s and t = "as_last_seen s" and m = "as_last_seen_mono s"]
        role_is_subset_capability [OF True] by simp
    then have m: "moves st (replace_session ?s st)" using s id by (intro moves_replace [of _ _ s]) simp_all
    have "sid \<in> dom (dget (st_sessions (replace_session ?s st)))"
      using id by (simp add: replace_session_def dget_dset dom_def)
    from moves_trans [OF m moves_checked [OF this]] m show ?thesis
      using assms(1) True by (auto simp: apply_role_def Let_def split: if_splits)
  next
    case False
    have "sid \<in> dom (dget (st_sessions st))" using s by auto
    from moves_checked [OF this] False assms(1) show ?thesis
      by (auto simp: apply_role_def Let_def moves_drop split: if_splits)
  qed
qed

lemma revalidate_body_moves:
  assumes "revalidate_body sid resolver now interval clk st = (st', res, denied)" and ok: "store_ok st"
  shows "moves st st'"
proof -
  obtain a x where a: "get_held sid now (clk 3) (clk 4) st = (a, x)" by fastforce
  obtain b y where b: "get_held sid now (clk 6) (clk 7) a = (b, y)" by fastforce
  note as = get_held_spec [OF a ok]
  have oka: "store_ok a" using as ok moves_store_ok by blast
  note bs = get_held_spec [OF b oka]
  have okb: "store_ok b" using bs oka moves_store_ok by blast
  have mb: "moves st b" using as bs by (blast intro: moves_trans)
  have mc: "moves st c" if "y = Some s" "apply_role sid s resolved (clk 8) b = (c, z)" for s resolved c z
    using apply_role_moves [OF that(2) okb] bs that(1) mb by (blast intro: moves_trans)
  have md: "moves st (drop_session sid a)" using as by (blast intro: moves_trans moves_drop)
  have mm: "moves st (mark_account k b)" for k using mb by (rule moves_then_core) simp
  show ?thesis
    using assms(1) a b as mb mc md mm
    by (auto simp: revalidate_body_def split: option.splits if_splits resolver_answer.splits prod.splits)
qed

lemma revalidate_role_moves:
  assumes "revalidate_role in_loop sid resolver now interval clk started st = (st', res)" and ok: "store_ok st"
  shows "moves st st'"
proof -
  obtain a x where a: "get in_loop sid now False False True (clk 0) (clk 1) st = (a, x)" by fastforce
  note as = get_spec [OF a ok]
  show ?thesis
  proof (cases "\<exists>s. x = Inr (Some s)")
    case False
    then have "st' = a"
      using assms(1) a by (cases x) (auto simp: revalidate_role_def split: option.splits)
    with as show ?thesis by blast
  next
    case True
    then obtain s where x: "x = Inr (Some s)" by blast
    let ?b = "add_lock_key sid a"
    have b: "moves st ?b" using as x by (blast intro: moves_trans moves_add_present)
    obtain c y where c: "acquire_sync_lock in_loop True (CheckLock sid) ?b = (c, y)" by fastforce
    have mc: "moves st c" using acquire_sync_lock_core [OF c] b by (blast intro: moves_then_core)
    obtain d z denied where d: "revalidate_body sid resolver now interval clk c = (d, z, denied)"
      by (cases "revalidate_body sid resolver now interval clk c") auto
    have "moves c d" by (rule revalidate_body_moves [OF d moves_store_ok [OF mc ok]])
    with mc have md: "moves st d" by (rule moves_trans)
    let ?d = "release_locks [CheckLock sid] d"
    have mr: "moves st ?d" using md by (rule moves_then_core) simp
    obtain e w where e: "revoke_account_sessions in_loop denied True started ?d = (e, w)" by fastforce
    have me: "moves st e" using mr revoke_account_moves [OF e] by (rule moves_trans)
    have "st' \<in> {a, ?b, c, ?d, e}"
      using assms(1) a x c d e by (auto simp: revalidate_role_def Let_def split: if_splits sum.splits prod.splits)
    with as b mc mr me show ?thesis by blast
  qed
qed

subsection \<open>Denied accounts and pending retries\<close>

definition ledger :: "session_store \<Rightarrow> (pystr, nat) dict \<times> (pystr, nat) dict" where
  "ledger st = (st_denied st, st_pending st)"

lemma ledger_simps [simp]:
  "ledger (mark_invalidating sids st) = ledger st" "ledger (clear_invalidating sids st) = ledger st"
  "ledger (take_locks ls st) = ledger st" "ledger (release_locks ls st) = ledger st"
  "ledger (add_lock_key sid st) = ledger st" "ledger (drop_session sid st) = ledger st"
  "ledger (replace_session s st) = ledger st" "ledger (install_session s m st) = ledger st"
  "ledger (start_retry key started st) = ledger st" "ledger (finish_mutation sid st) = ledger st"
  "ledger (st\<lparr>st_dropped := d\<rparr>) = ledger st" "ledger (st\<lparr>st_checked := c\<rparr>) = ledger st"
  "ledger (st\<lparr>st_running := rn\<rparr>) = ledger st" "ledger (st\<lparr>st_locked := l, st_invalidating := iv\<rparr>) = ledger st"
  by (simp_all add: ledger_def mark_invalidating_def clear_invalidating_def take_locks_def release_locks_def
      add_lock_key_def drop_session_def replace_session_def install_session_def start_retry_def finish_mutation_def
      split: option.split)

lemma ledger_folds [simp]: "ledger (fold add_lock_key sids st) = ledger st" "ledger (drop_all sids st) = ledger st"
  by (induction sids arbitrary: st) (simp_all add: drop_all_def)

lemma ledger_acquire:
  "acquire_sync_lock in_loop blocking l st = (st', r) \<Longrightarrow> ledger st' = ledger st"
  "acquire_check_locks in_loop sids st = (st', r') \<Longrightarrow> ledger st' = ledger st"
  by (auto simp: acquire_sync_lock_def acquire_check_locks_def split: if_splits)

lemma ledger_bulk: "bulk_removal in_loop sids st = (st', r) \<Longrightarrow> ledger st' = ledger st"
  by (auto simp: bulk_removal_def Let_def acquire_check_locks_def split: if_splits)

lemma ledger_with_set_lock:
  "with_set_lock in_loop body st = (st', r) \<Longrightarrow> (\<And>a b r. body a = (b, r) \<Longrightarrow> ledger b = ledger a) \<Longrightarrow> ledger st' = ledger st"
  by (fastforce simp: with_set_lock_def acquire_sync_lock_def split: if_splits prod.splits)

lemma ledger_lock_for_mutation: "lock_for_mutation in_loop sid ro st = (st', r) \<Longrightarrow> ledger st' = ledger st"
  by (auto simp: lock_for_mutation_def role_lock_for_mutation_def acquire_sync_lock_def Let_def
      split: option.splits if_splits)

lemma ledger_get_decide: "get_decide sid touch now r st = (st', res) \<Longrightarrow> ledger st' = ledger st"
  by (auto simp: get_decide_def Let_def split: option.splits if_splits)

lemma ledger_get_held: "get_held sid now r r' st = (st', res) \<Longrightarrow> ledger st' = ledger st"
  by (auto simp: get_held_def split: option.splits if_splits dest: ledger_get_decide)

lemma ledger_get: "get in_loop sid now touch held wait r r' st = (st', res) \<Longrightarrow> ledger st' = ledger st"
  by (auto simp: get_def acquire_sync_lock_def Let_def split: option.splits if_splits prod.splits dest!: ledger_get_decide)

lemma ledger_purge: "purge in_loop now r st = (st', x) \<Longrightarrow> ledger st' = ledger st"
  by (auto simp: purge_def dest: ledger_bulk)

lemma ledger_active: "active in_loop now r st = (st', x) \<Longrightarrow> ledger st' = ledger st"
  by (auto simp: active_def split: prod.splits sum.splits dest: ledger_purge)

lemma ledger_snapshot: "session_snapshot digest in_loop sid now refs r r' st = (st', x) \<Longrightarrow> ledger st' = ledger st"
  by (auto simp: session_snapshot_def split: prod.splits sum.splits dest: ledger_active)

lemma ledger_create:
  "create in_loop tk username password now role source_address user_agent expected before r r' st = (st', res) \<Longrightarrow>
   ledger st' = ledger st"
  unfolding create_def
  by (erule ledger_with_set_lock)
     (auto simp: create_locked_def create_commit_def Let_def split: prod.splits sum.splits option.splits if_splits
       dest!: ledger_purge)

lemma ledger_rotate: "rotate in_loop sid tk password role now before r st = (st', res) \<Longrightarrow> ledger st' = ledger st"
  unfolding rotate_def
  by (erule ledger_with_set_lock)
     (auto simp: rotate_locked_def rotate_prepare_def rotate_commit_def
       split: prod.splits sum.splits option.splits if_splits bool.splits dest!: ledger_lock_for_mutation)

lemma ledger_revoke_ops:
  "destroy in_loop sid held st = (st', r1) \<Longrightarrow> ledger st' = ledger st"
  "revoke in_loop sid st = (st', r2) \<Longrightarrow> ledger st' = ledger st"
  by (auto simp: destroy_def revoke_def split: if_splits prod.splits sum.splits bool.splits
      dest!: ledger_lock_for_mutation)

lemma ledger_revoke_more:
  "revoke_by_reference in_loop ref st = (st', r1) \<Longrightarrow> ledger st' = ledger st"
  "revoke_account_sessions_except in_loop username keep st = (st', r2) \<Longrightarrow> ledger st' = ledger st"
  "revoke_all_except in_loop keep st = (st', r3) \<Longrightarrow> ledger st' = ledger st"
  by (auto simp: revoke_by_reference_def revoke_account_sessions_except_def revoke_all_except_def revoke_others_def Let_def
      split: if_splits option.splits sum.splits prod.splits dest: ledger_revoke_ops ledger_bulk elim!: ledger_with_set_lock)

lemma ledger_reads:
  "cached_role_session sid now interval held r st = (st', x) \<Longrightarrow> ledger st' = ledger st"
  "dispatch_if_active ref r st = (st', y) \<Longrightarrow> ledger st' = ledger st"
  by (auto simp: cached_role_session_def dispatch_if_active_def split: option.splits if_splits prod.splits)

lemma count_of_up: "count_of (count_up k d) k' = (if k' = k then count_of d k + 1 else count_of d k')"
  by (simp add: count_up_def dict_simps)

lemma count_of_down: "count_of (count_down k d) k' = (if k' = k then count_of d k - 1 else count_of d k')"
  by (auto simp: count_down_def dict_simps)

lemma fold_cp_no_space: "\<not> py_space c \<Longrightarrow> \<not> py_space (hd (fold_cp c)) \<and> \<not> py_space (last (fold_cp c))"
  by (auto simp: fold_cp_def py_space_def)

lemma py_strip_casefold: "py_strip u = u \<Longrightarrow> py_strip (casefold u) = casefold u"
proof (cases "u = []")
  case False
  assume u: "py_strip u = u"
  obtain c v where cv: "u = c # v" using False by (cases u) auto
  obtain w d where wd: "u = w @ [d]" using False by (cases u rule: rev_cases) auto
  have "\<not> py_space c" using hd_py_strip [of u] u cv by simp
  moreover have "hd (casefold u) = hd (fold_cp c)" using cv by (simp add: casefold_def)
  moreover have "\<not> py_space d" using last_py_strip [of u] u wd by simp
  moreover have "last (casefold u) = last (fold_cp d)" using wd by (simp add: casefold_def)
  ultimately show ?thesis using False fold_cp_no_space by (intro py_strip_no_space) simp_all
qed (simp add: casefold_def)

lemma account_key_casefold: "py_strip u = u \<Longrightarrow> account_key (casefold u) = casefold u"
  by (simp add: account_key_def py_strip_casefold)

lemma account_key_idem [simp]: "account_key (account_key u) = account_key u"
  by (simp add: account_key_def py_strip_casefold)

lemma account_key_stripped: "py_strip u = u \<Longrightarrow> account_key u = casefold u"
  by (simp add: account_key_def)

text \<open>Every pending retry is covered by a denial of its account.\<close>

definition covered :: "session_store \<Rightarrow> bool" where
  "covered st \<longleftrightarrow> (\<forall>k. count_of (st_pending st) k \<le> count_of (st_denied st) k)"

lemma covered_cong: "ledger st' = ledger st \<Longrightarrow> covered st \<Longrightarrow> covered st'"
  by (simp add: ledger_def covered_def)

text \<open>What the sweep does to the ledger.\<close>

lemma revoke_sweep_ledger:
  assumes "revoke_sweep in_loop key started st = (st', r)"
  shows "((\<exists>e. r = Inl e) \<and> \<not> in_loop \<and> ledger st' = ledger st) \<or>
    (r = Inr None \<and> in_loop \<and> ledger st' = (st_denied st, count_up key (st_pending st))) \<or>
    (\<exists>n. r = Inr (Some n) \<and> ledger st' = (count_down key (st_denied st), st_pending st))"
proof -
  obtain a x where a: "acquire_sync_lock in_loop True SetLock st = (a, x)" by fastforce
  obtain b candidates where b: "revoke_candidates key a = (b, candidates)" by fastforce
  obtain c y where c: "acquire_check_locks in_loop candidates b = (c, y)" by fastforce
  have la: "ledger a = ledger st" by (rule ledger_acquire(1) [OF a])
  have lb: "ledger b = ledger a" using b by (auto simp: revoke_candidates_def Let_def)
  have lc: "ledger c = ledger st" using ledger_acquire(2) [OF c] la lb by simp
  have up: "ledger (schedule_retry key started s) = (st_denied s, count_up key (st_pending s))" for s
    by (simp add: schedule_retry_def ledger_def start_retry_def)
  have dn: "ledger (clear_account key s) = (count_down key (fst (ledger s)), snd (ledger s))" for s
    by (simp add: clear_account_def ledger_def)
  have f: "st_denied s = fst (ledger s)" "st_pending s = snd (ledger s)" for s by (simp_all add: ledger_def)
  show ?thesis
  proof (cases x)
    case (Inl e)
    with assms a la show ?thesis by (auto simp: revoke_sweep_def up f split: if_splits)
  next
    case x: (Inr ok)
    show ?thesis
    proof (cases y)
      case (Inl e)
      with assms a b c x lc show ?thesis
        by (auto simp: revoke_sweep_def up f split: if_splits)
    next
      case (Inr ok')
      with assms a b c x lc show ?thesis
        by (auto simp: revoke_sweep_def Let_def dn f)
    qed
  qed
qed

lemma revoke_account_covered:
  assumes "revoke_account_sessions in_loop username already started st = (st', r)" and "covered st"
    and "already \<Longrightarrow> count_of (st_pending st) (account_key username) < count_of (st_denied st) (account_key username)"
  shows "covered st'"
proof (cases "account_key username = []")
  case True
  with assms show ?thesis by (simp add: revoke_account_sessions_def)
next
  case False
  let ?k = "account_key username" and ?a = "if already then st else mark_account (account_key username) st"
  have s: "revoke_sweep in_loop ?k started ?a = (st', r)"
    using assms(1) False by (simp add: revoke_account_sessions_def Let_def)
  have "count_of (st_pending st) ?k \<le> count_of (st_denied st) ?k" using assms(2) by (simp add: covered_def)
  then have a: "st_pending ?a = st_pending st" "count_of (st_denied st) k \<le> count_of (st_denied ?a) k"
    "count_of (st_pending st) ?k < count_of (st_denied ?a) ?k" for k
    using assms(3) by (auto simp: mark_account_def count_of_up less_Suc_eq_le)
  have "count_of (st_pending st') k \<le> count_of (st_denied st') k" for k
  proof (cases "k = ?k")
    case True
    with revoke_sweep_ledger [OF s] a show ?thesis
      by (auto simp: ledger_def count_of_up count_of_down)
  next
    case False
    have "count_of (st_pending st) k \<le> count_of (st_denied st) k" using assms(2) by (simp add: covered_def)
    then have "count_of (st_pending st) k \<le> count_of (st_denied ?a) k" using a(2) by (rule le_trans)
    with False revoke_sweep_ledger [OF s] a(1) show ?thesis
      by (auto simp: ledger_def count_of_up count_of_down)
  qed
  then show ?thesis by (simp add: covered_def)
qed

lemma retry_round_covered:
  assumes "retry_round key st = (st', r)" and "account_key key = key" and "covered st"
  shows "covered st'"
proof (cases "count_of (st_pending st) key = 0 \<or> key = []")
  case True
  have "st_denied st' = st_denied st \<and> count_of (st_pending st') k \<le> count_of (st_pending st) k" for k
    using assms(1,2) True by (auto simp: retry_round_def revoke_account_sessions_def count_of_down split: if_splits)
  with assms(3) show ?thesis unfolding covered_def by (metis le_trans)
next
  case False
  obtain a x where a: "revoke_sweep False key False st = (a, x)" by fastforce
  have le: "count_of (st_pending st) k \<le> count_of (st_denied st) k" for k using assms(3) by (simp add: covered_def)
  have "ledger a = ledger st \<and> (\<exists>e. x = Inl e) \<or>
      ledger a = (count_down key (st_denied st), st_pending st) \<and> (\<exists>n. x = Inr n)"
    using revoke_sweep_ledger [OF a] by auto
  then show ?thesis
    using assms(1,2) a False le
    by (auto simp: retry_round_def revoke_account_sessions_def covered_def ledger_def count_of_down diff_le_mono
        split: if_splits)
qed

text \<open>The application admits only such names (\<open>USERNAME_PATTERN\<close>): not empty, no outer space.\<close>

definition well_named :: "pystr \<Rightarrow> bool" where
  "well_named u \<longleftrightarrow> u \<noteq> [] \<and> py_strip u = u"

definition all_well_named :: "session_store \<Rightarrow> bool" where
  "all_well_named st \<longleftrightarrow> (\<forall>sid s. dget (st_sessions st) sid = Some s \<longrightarrow> well_named (as_username s))"

lemma moves_well_named: "moves st st' \<Longrightarrow> all_well_named st \<Longrightarrow> all_well_named st'"
  unfolding all_well_named_def by (auto dest!: moves_session aged_fields)

lemma revalidate_body_ledger:
  assumes "revalidate_body sid resolver now interval clk st = (st', res, denied)" and ok: "store_ok st"
    and names: "all_well_named st"
  shows "(denied = [] \<longrightarrow> ledger st' = ledger st) \<and>
    (denied \<noteq> [] \<longrightarrow> res = None \<and> (\<exists>s. dget (st_sessions st) sid = Some s \<and> denied = casefold (as_username s)) \<and>
       st_denied st' = count_up denied (st_denied st) \<and> st_pending st' = st_pending st)"
proof -
  obtain a x where a: "get_held sid now (clk 3) (clk 4) st = (a, x)" by fastforce
  obtain b y where b: "get_held sid now (clk 6) (clk 7) a = (b, y)" by fastforce
  note as = get_held_spec [OF a ok]
  have oka: "store_ok a" using as ok moves_store_ok by blast
  note bs = get_held_spec [OF b oka]
  have la: "ledger a = ledger st" by (rule ledger_get_held [OF a])
  have lb: "ledger b = ledger st" using ledger_get_held [OF b] la by simp
  have ar: "ledger c = ledger b" if "apply_role sid s resolved (clk 8) b = (c, z)" for s resolved c z
    using that by (auto simp: apply_role_def Let_def split: if_splits)
  have name: "as_username s \<noteq> [] \<and> (\<exists>s0. dget (st_sessions st) sid = Some s0 \<and> casefold (as_username s) = casefold (as_username s0))"
    if "y = Some s" for s
  proof -
    have "dget (st_sessions b) sid = Some s" using bs that by blast
    moreover have "moves st b" using as bs by (blast intro: moves_trans)
    ultimately obtain s0 where "dget (st_sessions st) sid = Some s0" "aged s0 s" using moves_session by blast
    moreover from this(1) have "as_username s0 \<noteq> []" using names by (simp add: all_well_named_def well_named_def)
    ultimately show ?thesis by (auto dest: aged_fields)
  qed
  have mk: "st_denied (mark_account k b) = count_up k (st_denied st) \<and> st_pending (mark_account k b) = st_pending st" for k
    using lb by (simp add: mark_account_def ledger_def)
  show ?thesis
    using assms(1) a b la lb name mk
    by (auto simp: revalidate_body_def split: option.splits if_splits resolver_answer.splits prod.splits dest: ar)
qed

lemma revalidate_covered:
  assumes "revalidate_role in_loop sid resolver now interval clk started st = (st', res)" and ok: "store_ok st"
    and names: "all_well_named st"
    and cov: "covered st"
  shows "covered st'"
proof -
  obtain a x where a: "get in_loop sid now False False True (clk 0) (clk 1) st = (a, x)" by fastforce
  note as = get_spec [OF a ok]
  have la: "ledger a = ledger st" by (rule ledger_get [OF a])
  show ?thesis
  proof (cases "\<exists>s. x = Inr (Some s)")
    case False
    then have "st' = a"
      using assms(1) a by (cases x) (auto simp: revalidate_role_def split: option.splits)
    with la cov show ?thesis by (auto intro: covered_cong)
  next
    case True
    then obtain s where x: "x = Inr (Some s)" by blast
    let ?b = "add_lock_key sid a"
    have mb: "moves st ?b" using as x by (blast intro: moves_trans moves_add_present)
    obtain c y where c: "acquire_sync_lock in_loop True (CheckLock sid) ?b = (c, y)" by fastforce
    have mc: "moves st c" using acquire_sync_lock_core [OF c] mb by (blast intro: moves_then_core)
    have lc: "ledger c = ledger st" using ledger_acquire(1) [OF c] la by simp
    obtain d z denied where d: "revalidate_body sid resolver now interval clk c = (d, z, denied)"
      by (cases "revalidate_body sid resolver now interval clk c") auto
    have nc: "all_well_named c" using mc names by (rule moves_well_named)
    note ld = revalidate_body_ledger [OF d moves_store_ok [OF mc ok] nc]
    let ?d = "release_locks [CheckLock sid] d"
    obtain e w where e: "revoke_account_sessions in_loop denied True started ?d = (e, w)" by fastforce
    have cc: "covered c" using cov lc by (rule covered_cong [rotated])
    have "covered e" if "denied \<noteq> []"
    proof (rule revoke_account_covered [OF e])
      obtain t where t: "dget (st_sessions c) sid = Some t" "denied = casefold (as_username t)"
        using ld \<open>denied \<noteq> []\<close> by blast
      with nc have "py_strip (as_username t) = as_username t" by (simp add: all_well_named_def well_named_def)
      with t have key: "account_key denied = denied" by (simp add: account_key_casefold)
      have f: "st_denied ?d = count_up denied (st_denied c)" "st_pending ?d = st_pending c"
        using ld \<open>denied \<noteq> []\<close> by (simp_all add: release_locks_def)
      have le: "count_of (st_pending c) k \<le> count_of (st_denied c) k" for k using cc by (simp add: covered_def)
      show "covered ?d" using le by (auto simp: covered_def f count_of_up intro: le_SucI)
      show "count_of (st_pending ?d) (account_key denied) < count_of (st_denied ?d) (account_key denied)"
        using le [of denied] by (simp add: key f count_of_up)
    qed
    moreover have "covered ?d" if "denied = []" using ld that cc by (auto intro: covered_cong)
    moreover have "covered a" "covered ?b" using cov la by (auto intro: covered_cong)
    moreover have "denied \<noteq> [] \<and> st' = e \<or> denied = [] \<and> st' = ?d \<or> st' \<in> {a, ?b, c}"
      using assms(1) a x c d e by (auto simp: revalidate_role_def Let_def split: if_splits sum.splits prod.splits)
    ultimately show ?thesis using cc by blast
  qed
qed

end
