(* ===== verification/Session_Runs.thy ===== *)
theory Session_Runs
  imports Session_Props
begin

text \<open>
  Runs of \<open>SessionStore\<close>: any sequence of its operations, with any clock readings, any answers of
  the role resolver and any locks and marks of other callers in between, from an empty store.
  Names are well formed as the application's \<open>USERNAME_PATTERN\<close> makes them, and new tokens are
  not in use. A run records the sessions it granted.
\<close>

definition fresh_tokens :: "tokens \<Rightarrow> session_store \<Rightarrow> bool" where
  "fresh_tokens tk st \<longleftrightarrow>
     dget (st_sessions st) (tk_id tk) = None \<and> dget (st_revocation st) (tk_revocation tk) = None"

definition grants_of :: "store_error + account_session option \<Rightarrow> account_session list" where
  "grants_of r = (case r of Inr (Some s) \<Rightarrow> [s] | _ \<Rightarrow> [])"

inductive session_step :: "session_store \<Rightarrow> account_session list \<Rightarrow> session_store \<Rightarrow> bool" where
  step_create: "fresh_tokens tk st \<Longrightarrow> well_named username \<Longrightarrow>
    create in_loop tk username password now role source_address user_agent expected before r r' st = (st', res) \<Longrightarrow>
    session_step st (grants_of (map_sum id Some res)) st'"
| step_rotate: "fresh_tokens tk st \<Longrightarrow>
    rotate in_loop sid tk password role now before r st = (st', res) \<Longrightarrow> session_step st (grants_of res) st'"
| step_get: "get in_loop sid now touch held wait r r' st = (st', res) \<Longrightarrow> session_step st [] st'"
| step_cached: "cached_role_session sid now interval held r st = (st', x) \<Longrightarrow> session_step st [] st'"
| step_revalidate: "revalidate_role in_loop sid resolver now interval clk started st = (st', res) \<Longrightarrow>
    session_step st [] st'"
| step_destroy: "destroy in_loop sid held st = (st', d) \<Longrightarrow> session_step st [] st'"
| step_revoke: "revoke in_loop sid st = (st', v) \<Longrightarrow> session_step st [] st'"
| step_revoke_ref: "revoke_by_reference in_loop ref st = (st', v) \<Longrightarrow> session_step st [] st'"
| step_revoke_account: "revoke_account_sessions in_loop username False started st = (st', n) \<Longrightarrow>
    session_step st [] st'"
| step_retry: "retry_round (account_key username) st = (st', v) \<Longrightarrow> session_step st [] st'"
| step_start_retry: "session_step st [] (start_retry key started st)"
| step_revoke_except: "revoke_account_sessions_except in_loop username keep st = (st', n) \<Longrightarrow>
    session_step st [] st'"
| step_revoke_all: "revoke_all_except in_loop keep st = (st', m) \<Longrightarrow> session_step st [] st'"
| step_purge: "purge in_loop now r st = (st', m) \<Longrightarrow> session_step st [] st'"
| step_snapshot: "session_snapshot digest in_loop sid now refs r r' st = (st', rows) \<Longrightarrow> session_step st [] st'"
| step_dispatch: "dispatch_if_active ref r st = (st', b) \<Longrightarrow> session_step st [] st'"
| step_others: "session_step st [] (st\<lparr>st_locked := locks, st_invalidating := marks\<rparr>)"

inductive store_run :: "session_store \<Rightarrow> account_session list \<Rightarrow> bool" where
  start: "new_store idle absolute limit = Some st \<Longrightarrow> store_run st []"
| next_step: "store_run st gs \<Longrightarrow> session_step st new st' \<Longrightarrow> store_run st' (gs @ new)"

definition run_ok :: "session_store \<Rightarrow> account_session list \<Rightarrow> bool" where
  "run_ok st gs \<longleftrightarrow> store_ok st \<and> all_well_named st \<and> covered st \<and>
     (\<forall>sid s. dget (st_sessions st) sid = Some s \<longrightarrow> (\<exists>g\<in>set gs. as_id g = sid \<and> aged g s))"

lemma run_ok_moves:
  assumes "run_ok st gs" and "moves st st'" and "covered st'"
  shows "run_ok st' gs"
proof -
  have "\<exists>g\<in>set gs. as_id g = sid \<and> aged g s'" if s': "dget (st_sessions st') sid = Some s'" for sid s'
  proof -
    obtain s where s: "dget (st_sessions st) sid = Some s" "aged s s'" using moves_session [OF assms(2) s'] by blast
    then obtain g where "g \<in> set gs" "as_id g = sid" "aged g s" using assms(1) unfolding run_ok_def by blast
    with s(2) show ?thesis by (blast intro: aged_trans)
  qed
  with assms show ?thesis
    unfolding run_ok_def by (blast intro: moves_store_ok moves_well_named)
qed

lemma run_ok_adds:
  assumes "run_ok st gs" and "adds s st st'" and "unused s st" and "covered st'" and "well_named (as_username s)"
  shows "run_ok st' (gs @ [s])"
proof -
  have *: "k = as_id s \<and> s' = s \<or> (\<exists>s0. dget (st_sessions st) k = Some s0 \<and> aged s0 s')"
    if "dget (st_sessions st') k = Some s'" for k s'
    using assms(2) that unfolding adds_def by blast
  have "\<exists>g\<in>set (gs @ [s]). as_id g = sid \<and> aged g s'" if s': "dget (st_sessions st') sid = Some s'" for sid s'
    using * [OF s']
  proof
    assume "\<exists>s0. dget (st_sessions st) sid = Some s0 \<and> aged s0 s'"
    then obtain s0 where s0: "dget (st_sessions st) sid = Some s0" "aged s0 s'" by blast
    then obtain g where "g \<in> set gs" "as_id g = sid" "aged g s0" using assms(1) unfolding run_ok_def by blast
    with s0(2) show ?thesis by (auto intro: aged_trans)
  qed auto
  moreover have "all_well_named st'"
    unfolding all_well_named_def
  proof (intro allI impI)
    fix sid s' assume "dget (st_sessions st') sid = Some s'"
    from * [OF this] show "well_named (as_username s')"
      using assms(1,5) unfolding run_ok_def all_well_named_def by (auto dest: aged_fields)
  qed
  moreover have "store_ok st'" using assms(1-3) by (simp add: adds_def run_ok_def)
  ultimately show ?thesis using assms(4) by (simp add: run_ok_def)
qed

lemma run_ok_quiet:
  "run_ok st gs \<Longrightarrow> new = [] \<Longrightarrow> moves st st' \<Longrightarrow> ledger st' = ledger st \<Longrightarrow> run_ok st' (gs @ new)"
  using run_ok_moves [of st gs st'] covered_cong [of st' st] by (simp add: run_ok_def)

lemma run_ok_quiet_core:
  "run_ok st gs \<Longrightarrow> new = [] \<Longrightarrow> core st' = core st \<Longrightarrow> ledger st' = ledger st \<Longrightarrow> run_ok st' (gs @ new)"
  by (rule run_ok_quiet) (simp_all add: moves_core)

lemma run_ok_stores: "run_ok st gs \<Longrightarrow> store_ok st" "run_ok st gs \<Longrightarrow> all_well_named st" "run_ok st gs \<Longrightarrow> covered st"
  by (simp_all add: run_ok_def)

lemma new_store_run_ok: "new_store idle absolute limit = Some st \<Longrightarrow> run_ok st []"
  by (auto simp: new_store_def run_ok_def store_ok_def refs_ok_def account_count_def all_well_named_def covered_def
      split: if_splits)

lemma session_step_ok:
  assumes "session_step st new st'" and ok: "run_ok st gs"
  shows "run_ok st' (gs @ new)"
  using assms(1)
proof cases
  case (step_create tk username in_loop password now role source_address user_agent expected before r r' res)
  note spec = create_spec [OF step_create(4)]
  have cov: "covered st'" using ok ledger_create [OF step_create(4)] by (auto simp: run_ok_def intro: covered_cong)
  show ?thesis
  proof (cases res)
    case (Inl e)
    with spec cov ok step_create(1) show ?thesis by (auto simp: grants_of_def intro: run_ok_moves)
  next
    case (Inr s)
    with spec have s: "adds s st st'" "as_id s = tk_id tk" "as_revocation_ref s = tk_revocation tk" "as_username s = username"
      by (simp_all add: granted_def)
    then have "unused s st" using step_create(2) by (simp add: unused_def fresh_tokens_def)
    with s ok cov step_create(3) have "run_ok st' (gs @ [s])" by (intro run_ok_adds) simp_all
    with Inr step_create(1) show ?thesis by (simp add: grants_of_def)
  qed
next
  case (step_rotate tk in_loop sid password role now before r res)
  have cov: "covered st'" using ok ledger_rotate [OF step_rotate(3)] by (auto simp: run_ok_def intro: covered_cong)
  have "store_ok st" using ok by (simp add: run_ok_def)
  from rotate_spec [OF step_rotate(3) this] show ?thesis
  proof
    assume m: "(\<forall>s. res \<noteq> Inr (Some s)) \<and> moves st st'"
    then have "new = []" using step_rotate(1) by (auto simp: grants_of_def split: sum.splits option.splits)
    with m cov ok show ?thesis by (auto intro: run_ok_moves)
  next
    assume "\<exists>s e. res = Inr (Some s) \<and> adds s st st' \<and> as_id s = tk_id tk \<and> as_revocation_ref s = tk_revocation tk \<and>
       dget (st_sessions st) sid = Some e \<and> granted s (as_username e) r now role"
    then obtain s e where s: "res = Inr (Some s)" "adds s st st'" "as_id s = tk_id tk"
      "as_revocation_ref s = tk_revocation tk" "dget (st_sessions st) sid = Some e" "as_username s = as_username e"
      by (auto simp: granted_def)
    then have "unused s st" using step_rotate(2) by (simp add: unused_def fresh_tokens_def)
    moreover have "well_named (as_username s)" using s(5,6) ok by (simp add: run_ok_def all_well_named_def)
    ultimately have "run_ok st' (gs @ [s])" using s ok cov by (intro run_ok_adds) simp_all
    with s(1) step_rotate(1) show ?thesis by (simp add: grants_of_def)
  qed
next
  case (step_get in_loop sid now touch held wait r r' res)
  have "moves st st'" using get_spec [OF step_get(2) run_ok_stores(1) [OF ok]] by blast
  then show ?thesis by (rule run_ok_quiet [OF ok step_get(1) _ ledger_get [OF step_get(2)]])
next
  case (step_cached sid now interval held r x)
  show ?thesis by (rule run_ok_quiet [OF ok step_cached(1) cached_role_session_moves [OF step_cached(2)] ledger_reads(1) [OF step_cached(2)]])
next
  case (step_revalidate in_loop sid resolver now interval clk started res)
  note stores = run_ok_stores [OF ok]
  have "moves st st'" by (rule revalidate_role_moves [OF step_revalidate(2) stores(1)])
  moreover have "covered st'" by (rule revalidate_covered [OF step_revalidate(2) stores])
  ultimately show ?thesis using ok step_revalidate(1) by (simp add: run_ok_moves)
next
  case (step_destroy in_loop sid held d)
  show ?thesis by (rule run_ok_quiet [OF ok step_destroy(1) destroy_moves [OF step_destroy(2)] ledger_revoke_ops(1) [OF step_destroy(2)]])
next
  case (step_revoke in_loop sid v)
  show ?thesis by (rule run_ok_quiet [OF ok step_revoke(1) revoke_moves [OF step_revoke(2)] ledger_revoke_ops(2) [OF step_revoke(2)]])
next
  case (step_revoke_ref in_loop ref v)
  show ?thesis by (rule run_ok_quiet [OF ok step_revoke_ref(1) revoke_by_reference_moves [OF step_revoke_ref(2)] ledger_revoke_more(1) [OF step_revoke_ref(2)]])
next
  case (step_revoke_account in_loop username started n)
  have "covered st'"
    by (rule revoke_account_covered [OF step_revoke_account(2) run_ok_stores(3) [OF ok]]) simp
  with ok revoke_account_moves [OF step_revoke_account(2)] step_revoke_account(1) show ?thesis
    by (simp add: run_ok_moves)
next
  case (step_retry username v)
  have "covered st'"
    by (rule retry_round_covered [OF step_retry(2) _ run_ok_stores(3) [OF ok]]) simp
  with ok retry_round_moves [OF step_retry(2)] step_retry(1) show ?thesis by (simp add: run_ok_moves)
next
  case (step_start_retry key started)
  then show ?thesis by (intro run_ok_quiet_core [OF ok]) simp_all
next
  case (step_revoke_except in_loop username keep n)
  show ?thesis by (rule run_ok_quiet [OF ok step_revoke_except(1) revoke_except_moves [OF step_revoke_except(2)] ledger_revoke_more(2) [OF step_revoke_except(2)]])
next
  case (step_revoke_all in_loop keep m)
  show ?thesis by (rule run_ok_quiet [OF ok step_revoke_all(1) revoke_all_except_moves [OF step_revoke_all(2)] ledger_revoke_more(3) [OF step_revoke_all(2)]])
next
  case (step_purge in_loop now r m)
  show ?thesis by (rule run_ok_quiet [OF ok step_purge(1) purge_moves [OF step_purge(2)] ledger_purge [OF step_purge(2)]])
next
  case (step_snapshot digest in_loop sid now refs r r' rows)
  show ?thesis by (rule run_ok_quiet [OF ok step_snapshot(1) snapshot_moves [OF step_snapshot(2)] ledger_snapshot [OF step_snapshot(2)]])
next
  case (step_dispatch ref r b)
  show ?thesis by (rule run_ok_quiet [OF ok step_dispatch(1) dispatch_moves [OF step_dispatch(2)] ledger_reads(2) [OF step_dispatch(2)]])
next
  case (step_others locks marks)
  then show ?thesis by (intro run_ok_quiet_core [OF ok]) simp_all
qed

lemma store_run_ok: "store_run st gs \<Longrightarrow> run_ok st gs"
  by (induction rule: store_run.induct) (auto intro: new_store_run_ok session_step_ok)

section \<open>A small run\<close>

definition demo_empty :: session_store where
  "demo_empty = \<lparr>st_idle = 1800, st_absolute = 28800, st_max = 8, st_sessions = [], st_revocation = [],
     st_checked = [], st_lock_keys = [], st_locked = [], st_invalidating = [], st_denied = [],
     st_pending = [], st_running = [], st_generations = [], st_dropped = []\<rparr>"

definition demo_tokens :: tokens where
  "demo_tokens = \<lparr>tk_id = [11], tk_csrf = [12], tk_revocation = [13], tk_authorization = [14]\<rparr>"

definition demo_user :: pystr where "demo_user = lit ''bob''"

definition demo_clock :: "rat \<Rightarrow> reading" where
  "demo_clock t = \<lparr>wall = 100 + t, mono_clock = t\<rparr>"

definition demo_login :: account_session where
  "demo_login = new_session demo_tokens demo_user [9] 100 0 (lit ''auditor'') [] []"

definition demo_store :: session_store where
  "demo_store = install_session demo_login 0 demo_empty"

lemma demo_user_facts: "well_named demo_user" "account_key demo_user = demo_user" "casefold demo_user = demo_user" "demo_user \<noteq> []"
  by (simp_all add: demo_user_def well_named_def account_key_def lit_def of_char_def py_strip_def py_space_def
      casefold_def fold_cp_def)

lemma demo_create:
  "create False demo_tokens demo_user [9] None (lit ''auditor'') [] [] None True (demo_clock 0) (demo_clock 0) demo_empty
   = (demo_store, Inr demo_login)"
  by (simp add: create_def with_set_lock_def acquire_sync_lock_def create_locked_def purge_def expired_ids_def
      bulk_removal_def acquire_check_locks_def mark_invalidating_def clear_invalidating_def drop_all_def still_there_def
      take_locks_def release_locks_def create_check_def account_count_def create_commit_def install_session_def
      demo_empty_def demo_store_def demo_login_def new_session_def demo_clock_def current_of_def demo_tokens_def Let_def)

lemma demo_new: "new_store 1800 28800 8 = Some demo_empty"
  by (simp add: new_store_def demo_empty_def)

lemma demo_store_run: "store_run demo_store [demo_login]"
proof -
  have "fresh_tokens demo_tokens demo_empty" by (simp add: fresh_tokens_def demo_empty_def)
  from step_create [OF this demo_user_facts(1) demo_create]
  have "session_step demo_empty [demo_login] demo_store" by (simp add: grants_of_def)
  from next_step [OF start [OF demo_new] this] show ?thesis by simp
qed

lemma demo_stored:
  "dget (st_sessions demo_store) [11] = Some demo_login" "as_username demo_login = demo_user"
  "as_auth_method demo_login = lit ''routeros''" "as_id demo_login = [11]" "as_created_at demo_login = 100"
  "as_created_mono demo_login = 0"
  by (simp_all add: demo_store_def install_session_def demo_login_def new_session_def demo_tokens_def demo_empty_def)

section \<open>Properties\<close>

text \<open>in every run the store's indices agree: identifiers are unique, the revocation index
  leads from exactly the live references to their sessions, the role cache knows exactly the live
  sessions, and no account exceeds its number of concurrent sessions.\<close>

theorem session_store_is_consistent:
  assumes "store_run st gs"
  shows "distinct (dkeys (st_sessions st)) \<and>
    (\<forall>ref sid. dget (st_revocation st) ref = Some sid \<longleftrightarrow>
       (\<exists>s. dget (st_sessions st) sid = Some s \<and> as_revocation_ref s = ref)) \<and>
    set (dkeys (st_checked st)) = set (dkeys (st_sessions st)) \<and>
    account_count st username \<le> st_max st"
proof -
  have "store_ok st" using store_run_ok [OF assms] by (rule run_ok_stores)
  then show ?thesis by (simp add: store_ok_def refs_ok_def dict_ok_def set_dkeys del: set_map)
qed

theorem session_store_is_consistent_witness: "account_count demo_store demo_user \<le> st_max demo_store"
  using session_store_is_consistent [OF demo_store_run] by simp

text \<open>C8: a session never gains privileges. In every run each stored session was granted by a
  sign-in or a re-authentication under its own identifier and for its own account, and whatever the
  role resolver answered since, every capability it has was already granted then.\<close>

theorem sessions_never_gain_privileges:
  assumes "store_run st gs" and "dget (st_sessions st) sid = Some s"
  shows "\<exists>g\<in>set gs. as_id g = sid \<and> as_username g = as_username s \<and>
    (has_capability (as_role s) capability \<longrightarrow> has_capability (as_role g) capability)"
proof -
  obtain g where "g \<in> set gs" "as_id g = sid" "aged g s"
    using store_run_ok [OF assms(1)] assms(2) unfolding run_ok_def by blast
  then show ?thesis using aged_fields [of g s] aged_capability [of g s] by (intro bexI [of _ g]) simp_all
qed

theorem sessions_never_gain_privileges_witness:
  "\<exists>g\<in>set [demo_login]. as_id g = [11] \<and> as_username g = as_username demo_login"
  using sessions_never_gain_privileges [OF demo_store_run demo_stored(1)] by blast

text \<open>C29: both lifetimes hold on both clocks. When \<open>get\<close> answers with a session, then at one of
  the two moments it looked at the clocks the session was younger than the absolute lifetime since
  its grant, on the wall clock and on the monotonic clock, and it had been idle for less than the
  idle lifetime; touching never prolongs the absolute lifetime.\<close>

theorem sessions_answer_within_their_lifetime:
  assumes "store_run st gs" and "get in_loop sid now touch held wait r r' st = (st', Inr (Some s))"
  shows "\<exists>g\<in>set gs. \<exists>q\<in>{r, r'}. as_id g = sid \<and> as_username g = as_username s \<and>
    current_of now q - as_created_at g < of_int (st_absolute st) \<and>
    mono_clock q - as_created_mono g < of_int (st_absolute st) \<and>
    (\<exists>s0. dget (st_sessions st) sid = Some s0 \<and> current_of now q - as_last_seen s0 < of_int (st_idle st) \<and>
       mono_clock q - as_last_seen_mono s0 < of_int (st_idle st))"
proof -
  note run = store_run_ok [OF assms(1)]
  obtain s0 q where s0: "dget (st_sessions st) sid = Some s0" "aged s0 s" "q \<in> {r, r'}"
    "\<not> is_expired st s0 (current_of now q) (mono_clock q)"
    using get_spec [OF assms(2) run_ok_stores(1) [OF run]] by blast
  obtain g where g: "g \<in> set gs" "as_id g = sid" "aged g s0"
    using run s0(1) unfolding run_ok_def by blast
  have "as_created_at g = as_created_at s0" "as_created_mono g = as_created_mono s0" "as_username g = as_username s"
    using aged_fields [OF g(3)] aged_fields [OF s0(2)] by simp_all
  with g s0 show ?thesis by (intro bexI [of _ g] bexI [of _ q]) (auto simp: is_expired_def)
qed

theorem sessions_answer_within_their_lifetime_witness:
  "\<exists>g\<in>set [demo_login]. as_id g = [11] \<and> 105 - as_created_at g < of_int (st_absolute demo_store)"
proof -
  have "get False [11] None False False True (demo_clock 5) (demo_clock 5) demo_store = (demo_store, Inr (Some demo_login))"
    by (simp add: get_def get_decide_def demo_stored session_is_invalidating_def is_expired_def demo_clock_def current_of_def)
       (simp add: demo_store_def install_session_def demo_empty_def demo_login_def new_session_def demo_tokens_def)
  from sessions_answer_within_their_lifetime [OF demo_store_run this]
  show ?thesis by (auto simp: demo_clock_def current_of_def)
qed

text \<open>C30: revoking an account removes exactly its RouterOS sessions, and says how many: none of
  them is left, every other session is untouched.\<close>

theorem revoking_an_account_is_complete:
  assumes "revoke_account_sessions in_loop username already started st = (st', Inr (Some n))"
    and "account_key username \<noteq> []"
  shows "n = length (account_sessions st (account_key username)) \<and>
    (\<forall>sid. dget (st_sessions st') sid =
       (if sid \<in> set (account_sessions st (account_key username)) then None else dget (st_sessions st) sid))"
  using assms account_sessions_cong [of "mark_account (account_key username) st" st]
  by (auto simp: revoke_account_sessions_def Let_def split: if_splits dest!: revoke_sweep_spec)

theorem revoking_an_account_is_complete_witness:
  "snd (revoke_account_sessions False demo_user False False demo_store) = Inr (Some 1) \<and>
   dget (st_sessions (fst (revoke_account_sessions False demo_user False False demo_store))) [11] = None"
proof -
  have n: "snd (revoke_account_sessions False demo_user False False demo_store) = Inr (Some 1)"
    by (simp add: revoke_account_sessions_def demo_user_facts revoke_sweep_def acquire_sync_lock_def
        acquire_check_locks_def revoke_candidates_def account_sessions_def demo_store_def install_session_def
        demo_empty_def demo_login_def new_session_def Let_def mark_account_def take_locks_def mark_invalidating_def
        add_lock_key_def)
  obtain st' where r: "revoke_account_sessions False demo_user False False demo_store = (st', Inr (Some 1))"
    using n by (cases "revoke_account_sessions False demo_user False False demo_store") auto
  have "[11] \<in> set (account_sessions demo_store (account_key demo_user))"
    by (simp add: account_sessions_def demo_user_facts demo_store_def install_session_def demo_empty_def demo_login_def
        new_session_def demo_tokens_def)
  with revoking_an_account_is_complete [OF r] n r show ?thesis by (simp add: demo_user_facts)
qed

text \<open>a revocation that an event loop could not finish fails closed. In every run, while a
  retry is pending for an account, \<open>get\<close> answers with none of its sessions, and no sign-in to the
  account is admitted.\<close>

theorem pending_revocation_denies:
  assumes "store_run st gs" and "0 < count_of (st_pending st) key"
  shows "(get in_loop sid now touch held wait r r' st = (st', Inr (Some s)) \<longrightarrow> casefold (as_username s) \<noteq> key) \<and>
    (account_key username = key \<longrightarrow> create_check st username expected = Some AuthorizationChanged)"
proof -
  note run = store_run_ok [OF assms(1)]
  have "count_of (st_pending st) key \<le> count_of (st_denied st) key"
    using run_ok_stores(3) [OF run] by (simp add: covered_def)
  with assms(2) have denied: "0 < count_of (st_denied st) key" by simp
  have "casefold (as_username s) \<noteq> key" if g: "get in_loop sid now touch held wait r r' st = (st', Inr (Some s))"
  proof -
    obtain s0 where "aged s0 s" "\<not> session_is_invalidating st sid s0"
      using get_spec [OF g run_ok_stores(1) [OF run]] by blast
    with denied aged_fields [of s0 s] show ?thesis by (auto simp: session_is_invalidating_def)
  qed
  with denied show ?thesis by (auto simp: create_check_def)
qed

text \<open>the deferred revocation finishes. When an event loop got no answer, the account is
  denied and a retry is pending; the next round of the worker that finds the locks free removes every
  RouterOS session of the account, whatever happened to the store in between.\<close>

theorem deferred_revocation_finishes:
  assumes "0 < count_of (st_pending st) key" and "account_key key = key" and "key \<noteq> []" and "st_locked st = []"
  shows "\<exists>st'. retry_round key st = (st', Inr True) \<and> account_sessions st' key = [] \<and>
    count_of (st_pending st') key = count_of (st_pending st) key - 1 \<and>
    count_of (st_denied st') key = count_of (st_denied st) key - 1"
proof -
  let ?a = "take_locks [SetLock] st"
  obtain b cs where b: "revoke_candidates key ?a = (b, cs)" by fastforce
  have locked: "st_locked b = [SetLock]"
  proof -
    have "st_locked (fold add_lock_key sids x) = st_locked x" for sids x
      by (induction sids arbitrary: x) (simp_all add: add_lock_key_def)
    then show ?thesis using b assms(4)
      by (auto simp: revoke_candidates_def Let_def mark_invalidating_def take_locks_def)
  qed
  obtain c n where c: "revoke_sweep False key False st = (c, Inr (Some n))"
    using assms(4) b locked
    by (simp add: revoke_sweep_def acquire_sync_lock_def acquire_check_locks_def Let_def)
  have "st_sessions c = filter (\<lambda>p. fst p \<notin> set (account_sessions st key)) (st_sessions st)"
    using revoke_sweep_spec [OF c] by simp
  then have "account_sessions (c\<lparr>st_pending := p\<rparr>) key = []" for p
    by (auto simp: account_sessions_def filter_empty_conv image_iff)
  then show ?thesis
    using c assms(1-3) revoke_sweep_ledger [OF c]
    by (auto simp: retry_round_def revoke_account_sessions_def Let_def ledger_def count_of_down) 
qed

text \<open>The demo store after an event loop failed to revoke the account because another call held
  the session-set lock.\<close>

definition demo_pending :: session_store where
  "demo_pending = (fst (revoke_account_sessions True demo_user False True
     (demo_store\<lparr>st_locked := [SetLock], st_invalidating := []\<rparr>)))\<lparr>st_locked := [], st_invalidating := []\<rparr>"

lemma demo_pending_run: "store_run demo_pending [demo_login]"
proof -
  let ?a = "demo_store\<lparr>st_locked := [SetLock], st_invalidating := []\<rparr>"
  obtain b n where b: "revoke_account_sessions True demo_user False True ?a = (b, n)" by fastforce
  have "store_run (?a) ([demo_login] @ [])" by (rule next_step [OF demo_store_run step_others])
  then have "store_run b ([demo_login] @ [])" using next_step [OF _ step_revoke_account [OF b]] by auto
  then have "store_run (b\<lparr>st_locked := [], st_invalidating := []\<rparr>) ([demo_login] @ [])"
    using next_step [OF _ step_others] by auto
  with b show ?thesis by (simp add: demo_pending_def)
qed

lemma demo_pending_counts:
  "count_of (st_pending demo_pending) demo_user = 1" "st_locked demo_pending = []"
  by (simp_all add: demo_pending_def revoke_account_sessions_def revoke_sweep_def acquire_sync_lock_def demo_user_facts
      schedule_retry_def start_retry_def mark_account_def count_up_def demo_store_def install_session_def
      demo_empty_def Let_def dget_or_def)

theorem pending_revocation_denies_witness:
  "create_check demo_pending demo_user None = Some AuthorizationChanged"
  using pending_revocation_denies [OF demo_pending_run, of demo_user] demo_pending_counts demo_user_facts by simp

theorem deferred_revocation_finishes_witness:
  "\<exists>st'. retry_round demo_user demo_pending = (st', Inr True) \<and> account_sessions st' demo_user = []"
  using deferred_revocation_finishes [of demo_pending demo_user] demo_pending_counts demo_user_facts by auto

end
