(* ===== verification/Session_Races.thy ===== *)
theory Session_Races
  imports Session_Runs
begin

text \<open>
  \<open>SessionStore\<close> under concurrency. Threads outside the event loop run sign-ins, rotations,
  account revocations and bulk removals; a step is one \<open>with self._lock:\<close> section of a method (the
  definitions of \<open>Session_Store\<close>) or the acquisition of a lock, and any thread may move next.
  \<open>others\<close> stands for the remaining methods, which only age or remove sessions; their own locks are not modelled.

  A sign-in first reads the revocation generation of its account, then verifies the password
  with the router (any number of steps of other threads) and then calls \<open>create\<close>. Its ticket
  records the generation, how many revocations of the account had begun and whether none was
  running.
\<close>

section \<open>An order on locks\<close>

text \<open>The order in which every method acquires its locks.\<close>

instantiation lock :: linorder
begin

fun less_eq_lock :: "lock \<Rightarrow> lock \<Rightarrow> bool" where
  "less_eq_lock SetLock l = True"
| "less_eq_lock (CheckLock a) SetLock = False"
| "less_eq_lock (CheckLock a) (CheckLock b) = (a \<le> b)"

definition less_lock :: "lock \<Rightarrow> lock \<Rightarrow> bool" where
  "less_lock a b \<longleftrightarrow> a \<le> b \<and> \<not> b \<le> (a :: lock)"

instance
proof
  fix x y z :: lock
  show "x < y \<longleftrightarrow> x \<le> y \<and> \<not> y \<le> x" by (rule less_lock_def)
  show "x \<le> x" by (cases x) simp_all
  show "x \<le> z" if "x \<le> y" "y \<le> z" using that by (cases x; cases y; cases z) simp_all
  show "x = y" if "x \<le> y" "y \<le> x" using that by (cases x; cases y) simp_all
  show "x \<le> y \<or> y \<le> x" by (cases x; cases y) auto
qed

end

lemma less_lock_simps [simp]: "SetLock < CheckLock a" "\<not> CheckLock a < SetLock" "CheckLock a < CheckLock b \<longleftrightarrow> a < b"
  by (auto simp: less_lock_def)

section \<open>Threads\<close>

record ticket =
  ti_generation :: nat
  ti_begun :: nat
  ti_quiet :: bool

text \<open>Who runs a bulk removal: \<open>purge\<close> alone, a method that holds the session-set lock
  (\<open>revoke_all_except\<close>, \<open>revoke_account_sessions_except\<close>), or the purge inside \<open>create\<close>.\<close>

datatype purpose = Alone | UnderSetLock | InCreate account_session ticket

datatype pc =
    Idle
  | Verifying pystr ticket
  | CreateWait account_session ticket
  | CreateHeld account_session ticket
  | CreatePurged account_session ticket
  | CreateCallback account_session ticket
  | RotateWait pystr
  | RotateHeld pystr
  | RotateBlocked pystr
  | RotateReady pystr
  | RotateCallback pystr account_session
  | RotateClear pystr
  | RevokeWait pystr
  | RevokeHeld pystr
  | RevokeLocking pystr "pystr list" "pystr list"
  | RevokeClear pystr "pystr list"
  | BulkWait
  | BulkHeld
  | BulkLocking purpose "pystr list" "pystr list"
  | BulkClear purpose "pystr list"

text \<open>The locks a thread holds and the lock it waits for.\<close>

fun held_by :: "pc \<Rightarrow> lock set" where
  "held_by (CreateHeld s t) = {SetLock}"
| "held_by (CreatePurged s t) = {SetLock}"
| "held_by (CreateCallback s t) = {SetLock}"
| "held_by (RotateHeld sid) = {SetLock}"
| "held_by (RotateBlocked sid) = {SetLock}"
| "held_by (RotateReady sid) = {SetLock, CheckLock sid}"
| "held_by (RotateCallback sid s) = {SetLock, CheckLock sid}"
| "held_by (RotateClear sid) = {SetLock, CheckLock sid}"
| "held_by (RevokeHeld key) = {SetLock}"
| "held_by (RevokeLocking key got rest) = insert SetLock (CheckLock ` set got)"
| "held_by (RevokeClear key got) = insert SetLock (CheckLock ` set got)"
| "held_by BulkHeld = {SetLock}"
| "held_by (BulkLocking u got rest) = (if u = Alone then {} else {SetLock}) \<union> CheckLock ` set got"
| "held_by (BulkClear u got) = (if u = Alone then {} else {SetLock}) \<union> CheckLock ` set got"
| "held_by p = {}"

fun waits_for :: "pc \<Rightarrow> lock option" where
  "waits_for (CreateWait s t) = Some SetLock"
| "waits_for (RotateWait sid) = Some SetLock"
| "waits_for (RotateBlocked sid) = Some (CheckLock sid)"
| "waits_for (RevokeWait key) = Some SetLock"
| "waits_for (RevokeLocking key got (sid # rest)) = Some (CheckLock sid)"
| "waits_for BulkWait = Some SetLock"
| "waits_for (BulkLocking u got (sid # rest)) = Some (CheckLock sid)"
| "waits_for p = None"

text \<open>Where a thread is once it has the lock it waited for.\<close>

fun with_lock :: "pc \<Rightarrow> pc" where
  "with_lock (CreateWait s t) = CreateHeld s t"
| "with_lock (RotateWait sid) = RotateHeld sid"
| "with_lock (RotateBlocked sid) = RotateReady sid"
| "with_lock (RevokeWait key) = RevokeHeld key"
| "with_lock (RevokeLocking key got (sid # rest)) = RevokeLocking key (got @ [sid]) rest"
| "with_lock BulkWait = BulkHeld"
| "with_lock (BulkLocking u got (sid # rest)) = BulkLocking u (got @ [sid]) rest"
| "with_lock p = p"

fun after_purge :: "purpose \<Rightarrow> pc" where
  "after_purge (InCreate s t) = CreatePurged s t"
| "after_purge u = Idle"

record world =
  wo_store :: session_store
  wo_pcs :: "pc list"
  wo_holder :: "lock \<Rightarrow> nat option"
  wo_begun :: "pystr \<Rightarrow> nat"

text \<open>Thread \<open>i\<close> moves to \<open>p\<close> with the store \<open>st\<close>; locks it no longer holds are released.\<close>

definition goes :: "world \<Rightarrow> nat \<Rightarrow> pc \<Rightarrow> session_store \<Rightarrow> world" where
  "goes w i p st = w\<lparr>wo_store := st, wo_pcs := (wo_pcs w)[i := p],
     wo_holder := (\<lambda>l. if wo_holder w l = Some i \<and> l \<notin> held_by p then None else wo_holder w l)\<rparr>"

definition read_ticket :: "world \<Rightarrow> pystr \<Rightarrow> ticket" where
  "read_ticket w username =
     \<lparr>ti_generation = account_revocation_generation (wo_store w) username,
      ti_begun = wo_begun w (account_key username),
      ti_quiet = (count_of (st_denied (wo_store w)) (account_key username) = 0)\<rparr>"

text \<open>What a thread may do next; a new session has tokens that are not in use.\<close>

inductive thread_step :: "world \<Rightarrow> nat \<Rightarrow> world \<Rightarrow> bool" where
  read: "wo_pcs w ! i = Idle \<Longrightarrow> thread_step w i (goes w i (Verifying username (read_ticket w username)) (wo_store w))"
| verified: "wo_pcs w ! i = Verifying username t \<Longrightarrow> as_username s = username \<Longrightarrow>
    thread_step w i (goes w i (CreateWait s t) (wo_store w))"
| rejected: "wo_pcs w ! i = Verifying username t \<Longrightarrow> thread_step w i (goes w i Idle (wo_store w))"
| acquire: "waits_for (wo_pcs w ! i) = Some l \<Longrightarrow> wo_holder w l = None \<Longrightarrow>
    thread_step w i ((goes w i (with_lock (wo_pcs w ! i)) (wo_store w))\<lparr>wo_holder := (wo_holder w)(l := Some i)\<rparr>)"
| create_refused: "wo_pcs w ! i = CreatePurged s t \<Longrightarrow>
    create_check (wo_store w) (as_username s) (Some (ti_generation t)) = Some e \<Longrightarrow>
    thread_step w i (goes w i Idle (wo_store w))"
| create_checked: "wo_pcs w ! i = CreatePurged s t \<Longrightarrow>
    create_check (wo_store w) (as_username s) (Some (ti_generation t)) = None \<Longrightarrow>
    thread_step w i (goes w i (CreateCallback s t) (wo_store w))"
| create_raised: "wo_pcs w ! i = CreateCallback s t \<Longrightarrow> thread_step w i (goes w i Idle (wo_store w))"
| create_committed: "wo_pcs w ! i = CreateCallback s t \<Longrightarrow> unused s (wo_store w) \<Longrightarrow>
    create_commit s (Some (ti_generation t)) (wo_store w) = (st', res) \<Longrightarrow>
    thread_step w i (goes w i Idle st')"
| rotate_begin: "wo_pcs w ! i = Idle \<Longrightarrow> thread_step w i (goes w i (RotateWait sid) (wo_store w))"
| rotate_missing: "wo_pcs w ! i = RotateHeld sid \<Longrightarrow>
    role_lock_for_mutation False sid True (wo_store w) = (st', Inr None) \<Longrightarrow> thread_step w i (goes w i Idle st')"
| rotate_marked: "wo_pcs w ! i = RotateHeld sid \<Longrightarrow>
    role_lock_for_mutation False sid True (wo_store w) = (st', Inr (Some False)) \<Longrightarrow>
    thread_step w i (goes w i (RotateBlocked sid) st')"
| rotate_prepared: "wo_pcs w ! i = RotateReady sid \<Longrightarrow>
    rotate_prepare sid tk password role now r (wo_store w) = (st', Some s) \<Longrightarrow>
    thread_step w i (goes w i (RotateCallback sid s) st')"
| rotate_refused: "wo_pcs w ! i = RotateReady sid \<Longrightarrow>
    rotate_prepare sid tk password role now r (wo_store w) = (st', None) \<Longrightarrow>
    thread_step w i (goes w i (RotateClear sid) st')"
| rotate_raised: "wo_pcs w ! i = RotateCallback sid s \<Longrightarrow> thread_step w i (goes w i (RotateClear sid) (wo_store w))"
| rotate_committed: "wo_pcs w ! i = RotateCallback sid s \<Longrightarrow> unused s (wo_store w) \<Longrightarrow>
    rotate_commit sid s (wo_store w) = (st', c) \<Longrightarrow> thread_step w i (goes w i (RotateClear sid) st')"
| rotate_cleared: "wo_pcs w ! i = RotateClear sid \<Longrightarrow>
    thread_step w i (goes w i Idle (clear_invalidating [sid] (wo_store w)))"
| revoke_begin: "wo_pcs w ! i = Idle \<Longrightarrow>
    thread_step w i ((goes w i (RevokeWait key) (mark_account key (wo_store w)))
      \<lparr>wo_begun := (wo_begun w)(key := wo_begun w key + 1)\<rparr>)"
| revoke_marked: "wo_pcs w ! i = RevokeHeld key \<Longrightarrow> revoke_candidates key (wo_store w) = (st', candidates) \<Longrightarrow>
    thread_step w i (goes w i (RevokeLocking key [] candidates) st')"
| revoke_dropped: "wo_pcs w ! i = RevokeLocking key got [] \<Longrightarrow>
    thread_step w i (goes w i (RevokeClear key got) (drop_all (account_sessions (wo_store w) key) (wo_store w)))"
| revoke_cleared: "wo_pcs w ! i = RevokeClear key got \<Longrightarrow>
    thread_step w i (goes w i Idle (clear_account key (clear_invalidating got (wo_store w))))"
| bulk_begin: "wo_pcs w ! i = Idle \<Longrightarrow> thread_step w i (goes w i BulkWait (wo_store w))"
| bulk_chosen: "(wo_pcs w ! i = Idle \<and> u = Alone) \<or> (wo_pcs w ! i = BulkHeld \<and> u = UnderSetLock) \<or>
      (wo_pcs w ! i = CreateHeld s t \<and> u = InCreate s t) \<Longrightarrow>
    set sids \<subseteq> dom (dget (st_sessions (wo_store w))) \<Longrightarrow> distinct sids \<Longrightarrow>
    thread_step w i (goes w i (BulkLocking u [] (sort sids))
      (mark_invalidating (sort sids) (fold add_lock_key (sort sids) (wo_store w))))"
| bulk_dropped: "wo_pcs w ! i = BulkLocking u got [] \<Longrightarrow>
    thread_step w i (goes w i (BulkClear u got) (drop_all (still_there (wo_store w) got) (wo_store w)))"
| bulk_cleared: "wo_pcs w ! i = BulkClear u got \<Longrightarrow>
    thread_step w i (goes w i (after_purge u) (clear_invalidating got (wo_store w)))"

inductive world_step :: "world \<Rightarrow> world \<Rightarrow> bool" where
  thread: "i < length (wo_pcs w) \<Longrightarrow> thread_step w i w' \<Longrightarrow> world_step w w'"
| others: "moves (wo_store w) st' \<Longrightarrow> st_denied st' = st_denied (wo_store w) \<Longrightarrow>
    st_generations st' = st_generations (wo_store w) \<Longrightarrow> world_step w (w\<lparr>wo_store := st'\<rparr>)"

inductive reachable_world :: "world \<Rightarrow> bool" where
  begins: "new_store idle absolute limit = Some st \<Longrightarrow>
    reachable_world \<lparr>wo_store = st, wo_pcs = replicate n Idle, wo_holder = (\<lambda>l. None), wo_begun = (\<lambda>k. 0)\<rparr>"
| continues: "reachable_world w \<Longrightarrow> world_step w w' \<Longrightarrow> reachable_world w'"

section \<open>Locks\<close>

text \<open>A thread holds the locks its position says, and waits only for a lock above them.\<close>

definition locks_ok :: "world \<Rightarrow> bool" where
  "locks_ok w \<longleftrightarrow> (\<forall>l i. wo_holder w l = Some i \<longleftrightarrow> i < length (wo_pcs w) \<and> l \<in> held_by (wo_pcs w ! i))"

fun ordered :: "pc \<Rightarrow> bool" where
  "ordered (RevokeLocking key got rest) = sorted_wrt (<) (got @ rest)"
| "ordered (BulkLocking u got rest) = sorted_wrt (<) (got @ rest)"
| "ordered p = True"

lemma ordered_waits: "ordered p \<Longrightarrow> waits_for p = Some l \<Longrightarrow> h \<in> held_by p \<Longrightarrow> h < l"
  by (induction p rule: waits_for.induct) (auto simp: sorted_wrt_append split: if_splits)

lemma ordered_with_lock: "ordered p \<Longrightarrow> ordered (with_lock p)"
  by (induction p rule: with_lock.induct) auto

lemma held_with_lock: "waits_for p = Some l \<Longrightarrow> held_by (with_lock p) = insert l (held_by p)"
  by (induction p rule: waits_for.induct) auto

lemma waits_not_held: "ordered p \<Longrightarrow> waits_for p = Some l \<Longrightarrow> l \<notin> held_by p"
  using ordered_waits by blast

text \<open>A step of a thread moves it and keeps or releases its locks, or takes the one it waits for.\<close>

definition moved :: "world \<Rightarrow> nat \<Rightarrow> world \<Rightarrow> bool" where
  "moved w i w' \<longleftrightarrow> (\<exists>p st bg. w' = (goes w i p st)\<lparr>wo_begun := bg\<rparr> \<and> held_by p \<subseteq> held_by (wo_pcs w ! i) \<and>
     (store_ok (wo_store w) \<longrightarrow> ordered (wo_pcs w ! i) \<longrightarrow> ordered p))"

definition acquired :: "world \<Rightarrow> nat \<Rightarrow> world \<Rightarrow> bool" where
  "acquired w i w' \<longleftrightarrow> (\<exists>l. waits_for (wo_pcs w ! i) = Some l \<and> wo_holder w l = None \<and>
     w' = (goes w i (with_lock (wo_pcs w ! i)) (wo_store w))\<lparr>wo_holder := (wo_holder w)(l := Some i)\<rparr>)"

lemma moved_goes:
  "w' = goes w i p st \<Longrightarrow> held_by p \<subseteq> held_by (wo_pcs w ! i) \<Longrightarrow>
   (store_ok (wo_store w) \<Longrightarrow> ordered (wo_pcs w ! i) \<Longrightarrow> ordered p) \<Longrightarrow> moved w i w'"
  unfolding moved_def
  by (intro exI [of _ p] exI [of _ st] exI [of _ "wo_begun w"]) (simp add: goes_def)

lemma thread_step_cases:
  assumes "thread_step w i w'"
  shows "moved w i w' \<or> acquired w i w'"
  using assms
proof cases
  case (acquire l)
  then show ?thesis unfolding acquired_def by blast
next
  case (revoke_begin key)
  then show ?thesis
    unfolding moved_def
    by (intro disjI1 exI [of _ "RevokeWait key"] exI [of _ "mark_account key (wo_store w)"] exI conjI)
       (rule revoke_begin(1), simp_all)
next
  case (revoke_marked key st' candidates)
  have "sorted_wrt (<) candidates" if "store_ok (wo_store w)"
  proof -
    have "distinct (account_sessions (wo_store w) key)"
      using that by (auto simp: account_sessions_def store_ok_def dict_ok_def intro: distinct_map_filter)
    then show ?thesis
      using revoke_candidates_spec [OF revoke_marked(3)] by (simp add: strict_sorted_iff)
  qed
  with revoke_marked show ?thesis by (intro disjI1) (erule moved_goes, simp_all)
next
  case (bulk_chosen u s t sids)
  then show ?thesis by (intro disjI1) (erule moved_goes, auto simp: strict_sorted_iff)
next
  case (bulk_cleared u got)
  then show ?thesis by (intro disjI1) (erule moved_goes, (cases u, auto)+)
qed (rule disjI1, erule moved_goes, fastforce, fastforce)+

lemma held_unique:
  "locks_ok w \<Longrightarrow> i < length (wo_pcs w) \<Longrightarrow> j < length (wo_pcs w) \<Longrightarrow>
   l \<in> held_by (wo_pcs w ! i) \<Longrightarrow> l \<in> held_by (wo_pcs w ! j) \<Longrightarrow> i = j"
  unfolding locks_ok_def by (metis option.inject)

lemma moved_locks_ok:
  assumes "moved w i w'" and "i < length (wo_pcs w)" and "locks_ok w"
  shows "locks_ok w'"
proof -
  obtain p st bg where w': "w' = (goes w i p st)\<lparr>wo_begun := bg\<rparr>" and held: "held_by p \<subseteq> held_by (wo_pcs w ! i)"
    using assms(1) unfolding moved_def by blast
  have "wo_holder w' l = Some j \<longleftrightarrow> j < length (wo_pcs w') \<and> l \<in> held_by (wo_pcs w' ! j)" for l j
  proof (cases "j = i")
    case True
    have "wo_holder w l = Some i \<longleftrightarrow> l \<in> held_by (wo_pcs w ! i)" using assms(2,3) by (simp add: locks_ok_def)
    with True held assms(2) show ?thesis by (auto simp: w' goes_def)
  next
    case False
    have "wo_holder w l = Some j \<longleftrightarrow> j < length (wo_pcs w) \<and> l \<in> held_by (wo_pcs w ! j)"
      using assms(3) by (simp add: locks_ok_def)
    moreover have "wo_holder w' l = Some j \<longleftrightarrow> wo_holder w l = Some j" using False by (auto simp: w' goes_def)
    ultimately show ?thesis using False by (simp add: w' goes_def nth_list_update)
  qed
  then show ?thesis by (simp add: locks_ok_def)
qed

lemma acquired_locks_ok:
  assumes "acquired w i w'" and "i < length (wo_pcs w)" and "locks_ok w"
  shows "locks_ok w'"
proof -
  obtain l0 where l0: "waits_for (wo_pcs w ! i) = Some l0" "wo_holder w l0 = None"
    and w': "w' = (goes w i (with_lock (wo_pcs w ! i)) (wo_store w))\<lparr>wo_holder := (wo_holder w)(l0 := Some i)\<rparr>"
    using assms(1) unfolding acquired_def by blast
  have "wo_holder w' l = Some j \<longleftrightarrow> j < length (wo_pcs w') \<and> l \<in> held_by (wo_pcs w' ! j)" for l j
  proof (cases "j = i")
    case True
    have "wo_holder w l = Some i \<longleftrightarrow> l \<in> held_by (wo_pcs w ! i)" using assms(2,3) by (simp add: locks_ok_def)
    with True assms(2) show ?thesis by (auto simp: w' goes_def held_with_lock [OF l0(1)])
  next
    case False
    have "wo_holder w l = Some j \<longleftrightarrow> j < length (wo_pcs w) \<and> l \<in> held_by (wo_pcs w ! j)"
      using assms(3) by (simp add: locks_ok_def)
    with False l0(2) assms(2) show ?thesis by (auto simp: w' goes_def nth_list_update)
  qed
  then show ?thesis by (simp add: locks_ok_def)
qed

lemma thread_step_locks_ok: "thread_step w i w' \<Longrightarrow> i < length (wo_pcs w) \<Longrightarrow> locks_ok w \<Longrightarrow> locks_ok w'"
  using thread_step_cases moved_locks_ok acquired_locks_ok by blast

lemma thread_step_ordered:
  assumes "thread_step w i w'" and "i < length (wo_pcs w)" and "store_ok (wo_store w)" and "list_all ordered (wo_pcs w)"
  shows "list_all ordered (wo_pcs w')"
proof -
  have i: "ordered (wo_pcs w ! i)" using assms(2,4) by (simp add: list_all_length)
  have "\<exists>p. wo_pcs w' = (wo_pcs w)[i := p] \<and> ordered p"
    using thread_step_cases [OF assms(1)] i assms(3) ordered_with_lock
    by (auto simp: moved_def acquired_def goes_def)
  with assms(2,4) show ?thesis by (auto simp: list_all_length nth_list_update)
qed

subsection \<open>No deadlock\<close>

text \<open>A thread that neither idles nor waits can move.\<close>

lemma role_lock_in_thread:
  "\<exists>st'. role_lock_for_mutation False sid True st = (st', Inr None) \<or>
     role_lock_for_mutation False sid True st = (st', Inr (Some False))"
  by (auto simp: role_lock_for_mutation_def Let_def split: option.split)

lemma not_waiting_moves:
  assumes "wo_pcs w ! i \<noteq> Idle" and "waits_for (wo_pcs w ! i) = None"
  shows "\<exists>w'. thread_step w i w'"
proof (cases "wo_pcs w ! i")
  case (CreateHeld s t)
  then show ?thesis using bulk_chosen [of w i "InCreate s t" s t "[]"] by auto
next
  case (CreatePurged s t)
  then show ?thesis
    using create_refused [of w i s t] create_checked [of w i s t]
    by (cases "create_check (wo_store w) (as_username s) (Some (ti_generation t))") blast+
next
  case (RotateHeld sid)
  then show ?thesis using role_lock_in_thread [of sid "wo_store w"] rotate_missing rotate_marked by blast
next
  case (RotateReady sid)
  obtain st' x where "rotate_prepare sid undefined undefined undefined undefined undefined (wo_store w) = (st', x)" by fastforce
  with RotateReady show ?thesis using rotate_prepared rotate_refused by (cases x) blast+
next
  case (RevokeHeld key)
  obtain st' cs where "revoke_candidates key (wo_store w) = (st', cs)" by fastforce
  with RevokeHeld show ?thesis using revoke_marked by blast
next
  case (RevokeLocking key got rest)
  with assms(2) have "rest = []" by (cases rest) auto
  with RevokeLocking show ?thesis using revoke_dropped by blast
next
  case BulkHeld
  then show ?thesis using bulk_chosen [of w i UnderSetLock undefined undefined "[]"] by auto
next
  case (BulkLocking u got rest)
  with assms(2) have "rest = []" by (cases rest) auto
  with BulkLocking show ?thesis using bulk_dropped by blast
qed (use assms in \<open>auto intro: thread_step.intros\<close>)

lemma some_thread_moves:
  assumes "locks_ok w" and "list_all ordered (wo_pcs w)" and "i < length (wo_pcs w)" and "wo_pcs w ! i \<noteq> Idle"
  shows "\<exists>j < length (wo_pcs w). wo_pcs w ! j \<noteq> Idle \<and> (\<exists>w'. thread_step w j w')"
proof (rule ccontr)
  assume stuck: "\<not> ?thesis"
  let ?n = "length (wo_pcs w)"
  have ord: "ordered (wo_pcs w ! j)" if "j < ?n" for j using assms(2) that by (simp add: list_all_length)
  have wait: "\<exists>l k. waits_for (wo_pcs w ! j) = Some l \<and> wo_holder w l = Some k" if j: "j < ?n" "wo_pcs w ! j \<noteq> Idle" for j
  proof -
    have no: "\<not> (\<exists>w'. thread_step w j w')" using stuck j by blast
    then obtain l where l: "waits_for (wo_pcs w ! j) = Some l" using not_waiting_moves [of w j] j(2) by auto
    moreover have "wo_holder w l \<noteq> None" using no acquire [OF l] by blast
    ultimately show ?thesis by blast
  qed
  define waited where "waited = {l. \<exists>j < ?n. waits_for (wo_pcs w ! j) = Some l}"
  have "finite ((\<lambda>j. the (waits_for (wo_pcs w ! j))) ` {..<?n})" by simp
  moreover have "waited \<subseteq> (\<lambda>j. the (waits_for (wo_pcs w ! j))) ` {..<?n}" by (force simp: waited_def)
  ultimately have fin: "finite waited" by (rule finite_subset [rotated])
  obtain l0 where "waits_for (wo_pcs w ! i) = Some l0" using wait assms(3,4) by blast
  then have ne: "waited \<noteq> {}" using assms(3) by (auto simp: waited_def)
  let ?l = "Max waited"
  have "?l \<in> waited" using fin ne by (rule Max_in)
  then obtain j where j: "j < ?n" "waits_for (wo_pcs w ! j) = Some ?l" by (auto simp: waited_def)
  then have "wo_pcs w ! j \<noteq> Idle" by auto
  then obtain k where k: "wo_holder w ?l = Some k" using wait j by force
  then have held: "k < ?n" "?l \<in> held_by (wo_pcs w ! k)" using assms(1) by (auto simp: locks_ok_def)
  then have "wo_pcs w ! k \<noteq> Idle" by auto
  then obtain l' where l': "waits_for (wo_pcs w ! k) = Some l'" using wait held(1) by blast
  have "?l < l'" by (rule ordered_waits [OF ord [OF held(1)] l' held(2)])
  moreover have "l' \<le> ?l" using fin l' held(1) by (intro Max_ge) (auto simp: waited_def)
  ultimately show False by simp
qed

section \<open>Safety\<close>

lemma generations_simps [simp]:
  "st_generations (mark_invalidating sids st) = st_generations st" "st_generations (clear_invalidating sids st) = st_generations st"
  "st_generations (add_lock_key sid st) = st_generations st" "st_generations (drop_session sid st) = st_generations st"
  "st_generations (install_session s m st) = st_generations st" "st_generations (clear_account key st) = st_generations st"
  "st_denied (mark_invalidating sids st) = st_denied st" "st_denied (clear_invalidating sids st) = st_denied st"
  "st_denied (add_lock_key sid st) = st_denied st" "st_denied (drop_session sid st) = st_denied st"
  "st_denied (install_session s m st) = st_denied st" "st_denied (clear_account key st) = count_down key (st_denied st)"
  by (simp_all add: mark_invalidating_def clear_invalidating_def add_lock_key_def drop_session_def install_session_def
      clear_account_def split: option.split)

lemma generations_folds [simp]:
  "st_generations (fold add_lock_key sids st) = st_generations st" "st_generations (drop_all sids st) = st_generations st"
  "st_denied (fold add_lock_key sids st) = st_denied st" "st_denied (drop_all sids st) = st_denied st"
  by (induction sids arbitrary: st) (simp_all add: drop_all_def)

text \<open>The sections leave denials and generations alone.\<close>

lemma section_denials:
  "create_commit s g st = (st', r1) \<Longrightarrow> st_denied st' = st_denied st \<and> st_generations st' = st_generations st"
  "rotate_prepare sid tk password role now r st = (st', r2) \<Longrightarrow> st_denied st' = st_denied st \<and> st_generations st' = st_generations st"
  "rotate_commit sid s st = (st', r3) \<Longrightarrow> st_denied st' = st_denied st \<and> st_generations st' = st_generations st"
  "role_lock_for_mutation False sid ro st = (st', r4) \<Longrightarrow> st_denied st' = st_denied st \<and> st_generations st' = st_generations st"
  "revoke_candidates key st = (st', r5) \<Longrightarrow> st_denied st' = st_denied st \<and> st_generations st' = st_generations st"
  by (auto simp: create_commit_def rotate_prepare_def rotate_commit_def role_lock_for_mutation_def revoke_candidates_def Let_def
      split: option.splits if_splits)

fun revoking :: "pystr \<Rightarrow> pc \<Rightarrow> bool" where
  "revoking k (RevokeWait key) = (key = k)"
| "revoking k (RevokeHeld key) = (key = k)"
| "revoking k (RevokeLocking key got rest) = (key = k)"
| "revoking k (RevokeClear key got) = (key = k)"
| "revoking k p = False"

fun signing :: "pc \<Rightarrow> (pystr \<times> ticket) option" where
  "signing (Verifying u t) = Some (u, t)"
| "signing (CreateWait s t) = Some (as_username s, t)"
| "signing (CreateHeld s t) = Some (as_username s, t)"
| "signing (CreatePurged s t) = Some (as_username s, t)"
| "signing (CreateCallback s t) = Some (as_username s, t)"
| "signing (BulkLocking (InCreate s t) got rest) = Some (as_username s, t)"
| "signing (BulkClear (InCreate s t) got) = Some (as_username s, t)"
| "signing p = None"

lemma with_lock_kind:
  "revoking k (with_lock p) = revoking k p" "waits_for p = Some l \<Longrightarrow> signing (with_lock p) = signing p"
  "with_lock p = RevokeClear key got \<Longrightarrow> p = RevokeClear key got"
  "with_lock p = RotateCallback sid s \<Longrightarrow> p = RotateCallback sid s"
  by (induction p rule: waits_for.induct) (auto split: purpose.split, (case_tac u, auto)?)

definition quiet_step :: "world \<Rightarrow> nat \<Rightarrow> world \<Rightarrow> bool" where
  "quiet_step w i w' \<longleftrightarrow> (\<exists>p. wo_pcs w' = (wo_pcs w)[i := p] \<and> wo_begun w' = wo_begun w \<and>
     st_denied (wo_store w') = st_denied (wo_store w) \<and> st_generations (wo_store w') = st_generations (wo_store w) \<and>
     (\<forall>key. revoking key p = revoking key (wo_pcs w ! i)) \<and>
     (signing p = None \<or> signing p = signing (wo_pcs w ! i) \<or> (\<exists>u. p = Verifying u (read_ticket w u))) \<and>
     (\<forall>key got. p = RevokeClear key got \<longrightarrow> wo_store w' = drop_all (account_sessions (wo_store w) key) (wo_store w)) \<and>
     (\<forall>sid s. p = RotateCallback sid s \<longrightarrow> st_sessions (wo_store w') = st_sessions (wo_store w) \<and>
        (\<exists>e. dget (st_sessions (wo_store w)) sid = Some e \<and> as_username e = as_username s)))"

lemma quiet_goes:
  assumes "w' = goes w i p st" and "st_denied st = st_denied (wo_store w)" and "st_generations st = st_generations (wo_store w)"
    and "\<And>key. revoking key p = revoking key (wo_pcs w ! i)"
    and "signing p = None \<or> signing p = signing (wo_pcs w ! i) \<or> (\<exists>u. p = Verifying u (read_ticket w u))"
    and "\<And>key got. p = RevokeClear key got \<Longrightarrow> st = drop_all (account_sessions (wo_store w) key) (wo_store w)"
    and "\<And>sid s. p = RotateCallback sid s \<Longrightarrow> st_sessions st = st_sessions (wo_store w) \<and>
        (\<exists>e. dget (st_sessions (wo_store w)) sid = Some e \<and> as_username e = as_username s)"
  shows "quiet_step w i w'"
  using assms unfolding quiet_step_def by (intro exI [of _ p]) (simp add: goes_def)

lemma thread_step_kind:
  assumes "thread_step w i w'"
  shows "(\<exists>key. wo_pcs w ! i = Idle \<and> w' = (goes w i (RevokeWait key) (mark_account key (wo_store w)))
       \<lparr>wo_begun := (wo_begun w)(key := wo_begun w key + 1)\<rparr>) \<or>
    (\<exists>key got. wo_pcs w ! i = RevokeClear key got \<and>
       w' = goes w i Idle (clear_account key (clear_invalidating got (wo_store w)))) \<or>
    quiet_step w i w'"
  using assms
proof cases
  case (revoke_begin key)
  then show ?thesis by blast
next
  case (revoke_cleared key got)
  then show ?thesis by blast
next
  case (acquire l)
  have "quiet_step w i (goes w i (with_lock (wo_pcs w ! i)) (wo_store w))"
    using acquire(2) with_lock_kind
    by (intro quiet_goes [OF refl]) (auto dest: with_lock_kind(3,4))
  then show ?thesis using acquire(1) by (simp add: quiet_step_def goes_def)
next
  case (bulk_cleared u got)
  then show ?thesis by (intro disjI2) (erule quiet_goes, (cases u, auto)+)
next
  case (bulk_dropped u got)
  then show ?thesis by (intro disjI2) (erule quiet_goes, (cases u, auto)+)
next
  case (bulk_chosen u s t sids)
  then show ?thesis by (intro disjI2) (erule quiet_goes, (cases u, auto)+)
next
  case (rotate_prepared sid tk password role now r st' s)
  from rotate_prepare_spec [OF rotate_prepared(3)] rotate_prepared show ?thesis
    by (intro disjI2) (erule quiet_goes, auto simp: granted_def)
qed (rule disjI2, rule disjI2, erule quiet_goes, force dest: section_denials, force dest: section_denials, force dest: section_denials, force dest: section_denials, force dest: section_denials, force dest: section_denials)+

text \<open>What a step does to the sessions: nothing appears, or the holder of the session-set lock
  installs one session.\<close>

lemma create_commit_store:
  assumes "create_commit s g st = (st', r)"
  shows "moves st st' \<or> adds s st st'"
  using assms install_adds [of st s "as_created_mono s"] moves_core [of st' st]
  by (auto simp: create_commit_def create_check_None split: option.splits)

lemma thread_step_store:
  assumes "thread_step w i w'" and ok: "store_ok (wo_store w)"
    and rot: "\<And>sid s e. wo_pcs w ! i = RotateCallback sid s \<Longrightarrow> dget (st_sessions (wo_store w)) sid = Some e \<Longrightarrow>
      as_username e = as_username s"
  shows "moves (wo_store w) (wo_store w') \<or>
    (\<exists>s. adds s (wo_store w) (wo_store w') \<and> unused s (wo_store w) \<and> SetLock \<in> held_by (wo_pcs w ! i))"
  using assms(1)
proof cases
  case (create_committed s t st' res)
  with create_commit_store [OF create_committed(4)] show ?thesis by (auto simp: goes_def)
next
  case (rotate_committed sid s st' c)
  from rotate_commit_spec [OF rotate_committed(4) ok rot [OF rotate_committed(2)]] rotate_committed show ?thesis
    by (cases c) (auto simp: goes_def intro: moves_core)
next
  case (rotate_missing sid st')
  then have "st' = wo_store w"
    by (auto simp: role_lock_for_mutation_def Let_def split: option.splits if_splits)
  with rotate_missing show ?thesis by (simp add: goes_def)
next
  case (rotate_marked sid st')
  then obtain s where s: "dget (st_sessions (wo_store w)) sid = Some s"
      and st': "st' = mark_invalidating [sid] (add_lock_key sid (wo_store w))"
    by (auto simp: role_lock_for_mutation_def Let_def split: option.splits if_splits)
  have "moves (wo_store w) st'" using st' by (auto intro: moves_then_core [OF moves_add_present [OF s]])
  with rotate_marked show ?thesis by (simp add: goes_def)
next
  case (rotate_prepared sid tk password role now r st' s)
  with rotate_prepare_spec [OF rotate_prepared(3)] show ?thesis by (simp add: goes_def)
next
  case (rotate_refused sid tk password role now r st')
  with rotate_prepare_spec [OF rotate_refused(3)] show ?thesis by (simp add: goes_def)
next
  case (revoke_marked key st' candidates)
  with revoke_candidates_spec [OF revoke_marked(3)] show ?thesis by (simp add: goes_def)
next
  case (bulk_chosen u s t sids)
  have "moves (wo_store w) (fold add_lock_key (sort sids) (wo_store w))"
    using bulk_chosen(3) by (intro moves_fold_add_lock_key) simp
  with bulk_chosen(1) show ?thesis by (auto simp: goes_def intro: moves_then_core)
qed (auto simp: goes_def moves_drop_all intro!: moves_core)

lemma no_sessions_moves:
  assumes "moves st st'" and "store_ok st" and "account_sessions st key = []"
  shows "account_sessions st' key = []"
proof -
  have "False" if in': "(k, s') \<in> set (st_sessions st')" "as_auth_method s' = lit ''routeros''" "casefold (as_username s') = key" for k s'
  proof -
    have "dict_ok (st_sessions st')" using moves_store_ok [OF assms(1,2)] by (simp add: store_ok_def)
    then have "dget (st_sessions st') k = Some s'" using in'(1) by (simp add: dget_in_iff)
    then obtain s where s: "dget (st_sessions st) k = Some s" "aged s s'" using moves_session [OF assms(1)] by blast
    then have "(k, s) \<in> set (st_sessions st)" by (auto dest: dget_Some_in)
    moreover have "as_auth_method s = lit ''routeros''" "casefold (as_username s) = key"
      using aged_fields [OF s(2)] in'(2,3) by simp_all
    ultimately show False using assms(3) by (auto simp: account_sessions_def filter_empty_conv)
  qed
  then show ?thesis by (auto simp: account_sessions_def filter_empty_conv)
qed

definition drained :: "world \<Rightarrow> bool" where
  "drained w \<longleftrightarrow> (\<forall>i key got. i < length (wo_pcs w) \<longrightarrow> wo_pcs w ! i = RevokeClear key got \<longrightarrow>
     account_sessions (wo_store w) key = [])"

definition rotations_ok :: "world \<Rightarrow> bool" where
  "rotations_ok w \<longleftrightarrow> (\<forall>i sid s e. i < length (wo_pcs w) \<longrightarrow> wo_pcs w ! i = RotateCallback sid s \<longrightarrow>
     dget (st_sessions (wo_store w)) sid = Some e \<longrightarrow> as_username e = as_username s)"

definition counted :: "world \<Rightarrow> bool" where
  "counted w \<longleftrightarrow> (\<forall>key. length (filter (revoking key) (wo_pcs w)) \<le> count_of (st_denied (wo_store w)) key)"

definition ticket_ok :: "world \<Rightarrow> pystr \<Rightarrow> ticket \<Rightarrow> bool" where
  "ticket_ok w u t \<longleftrightarrow> (ti_quiet t \<longrightarrow>
     ti_generation t < count_of (st_generations (wo_store w)) (account_key u) \<or>
     (ti_generation t = count_of (st_generations (wo_store w)) (account_key u) \<and>
      ti_begun t = wo_begun w (account_key u) \<and> count_of (st_denied (wo_store w)) (account_key u) = 0))"

definition tickets_ok :: "world \<Rightarrow> bool" where
  "tickets_ok w \<longleftrightarrow> (\<forall>i u t. i < length (wo_pcs w) \<longrightarrow> signing (wo_pcs w ! i) = Some (u, t) \<longrightarrow> ticket_ok w u t)"

definition safe :: "world \<Rightarrow> bool" where
  "safe w \<longleftrightarrow> store_ok (wo_store w) \<and> locks_ok w \<and> list_all ordered (wo_pcs w) \<and> drained w \<and> rotations_ok w \<and>
     counted w \<and> tickets_ok w"

lemma length_filter_update:
  "i < length xs \<Longrightarrow> length (filter P (xs[i := y])) + (if P (xs ! i) then 1 else 0)
     = length (filter P xs) + (if P y then 1 else 0)"
proof -
  assume i: "i < length xs"
  have "xs = take i xs @ xs ! i # drop (Suc i) xs" using i by (rule id_take_nth_drop)
  then have "length (filter P xs) = length (filter P (take i xs @ xs ! i # drop (Suc i) xs))" by simp
  then show ?thesis using i by (simp add: upd_conv_take_nth_drop)
qed

lemma denied_mark [simp]: "st_denied (mark_account key st) = count_up key (st_denied st)"
  by (simp add: mark_account_def)

text \<open>Thread \<open>i\<close> is at \<open>p\<close> after a step; the other threads stay where they are.\<close>

lemma thread_step_pcs: "thread_step w i w' \<Longrightarrow> \<exists>p. wo_pcs w' = (wo_pcs w)[i := p]"
  using thread_step_cases [of w i w'] by (auto simp: moved_def acquired_def goes_def)

lemma thread_step_counted:
  assumes "thread_step w i w'" and i: "i < length (wo_pcs w)" and "counted w"
  shows "counted w'"
  unfolding counted_def
proof
  fix k
  have old: "length (filter (revoking k) (wo_pcs w)) \<le> count_of (st_denied (wo_store w)) k"
    using assms(3) by (simp add: counted_def)
  note upd = length_filter_update [OF i, of "revoking k"]
  from thread_step_kind [OF assms(1)]
  show "length (filter (revoking k) (wo_pcs w')) \<le> count_of (st_denied (wo_store w')) k"
  proof (elim disjE exE conjE)
    fix key assume *: "wo_pcs w ! i = Idle"
      "w' = (goes w i (RevokeWait key) (mark_account key (wo_store w)))\<lparr>wo_begun := (wo_begun w)(key := wo_begun w key + 1)\<rparr>"
    with upd [of "RevokeWait key"] old show ?thesis by (auto simp: goes_def count_of_up)
  next
    fix key got assume *: "wo_pcs w ! i = RevokeClear key got"
      "w' = goes w i Idle (clear_account key (clear_invalidating got (wo_store w)))"
    with upd [of Idle] old show ?thesis by (auto simp: goes_def count_of_down)
  next
    assume "quiet_step w i w'"
    then obtain p where "wo_pcs w' = (wo_pcs w)[i := p]" "st_denied (wo_store w') = st_denied (wo_store w)"
      "revoking k p = revoking k (wo_pcs w ! i)"
      unfolding quiet_step_def by blast
    with upd [of p] old show ?thesis by auto
  qed
qed

lemma safe_step_store:
  assumes "thread_step w i w'" and "i < length (wo_pcs w)" and "safe w"
  shows "moves (wo_store w) (wo_store w') \<or>
    (\<exists>s. adds s (wo_store w) (wo_store w') \<and> unused s (wo_store w) \<and> SetLock \<in> held_by (wo_pcs w ! i))"
proof (rule thread_step_store [OF assms(1)])
  show "store_ok (wo_store w)" using assms(3) by (simp add: safe_def)
  show "as_username e = as_username s"
    if "wo_pcs w ! i = RotateCallback sid s" "dget (st_sessions (wo_store w)) sid = Some e" for sid s e
    using assms(2,3) that unfolding safe_def rotations_ok_def by blast
qed

lemma thread_step_drained:
  assumes step: "thread_step w i w'" and i: "i < length (wo_pcs w)" and safe: "safe w"
  shows "drained w'"
  unfolding drained_def
proof (intro allI impI)
  fix j key got assume j: "j < length (wo_pcs w')" "wo_pcs w' ! j = RevokeClear key got"
  obtain p where p: "wo_pcs w' = (wo_pcs w)[i := p]" using thread_step_pcs [OF step] by blast
  have ok: "store_ok (wo_store w)" and locks: "locks_ok w" using safe by (simp_all add: safe_def)
  show "account_sessions (wo_store w') key = []"
  proof (cases "j = i")
    case True
    with j p i have pj: "p = RevokeClear key got" by simp
    from thread_step_kind [OF step] pj p i have "quiet_step w i w'"
      by (auto simp: goes_def dest!: arg_cong [where f = "\<lambda>xs. xs ! i"])
    with pj p i have "wo_store w' = drop_all (account_sessions (wo_store w) key) (wo_store w)"
      unfolding quiet_step_def by (metis nth_list_update_eq)
    then show ?thesis
      by (auto simp: account_sessions_def sessions_drop_all_list filter_empty_conv image_iff)
  next
    case False
    with j p have at: "j < length (wo_pcs w)" "wo_pcs w ! j = RevokeClear key got" by simp_all
    then have none: "account_sessions (wo_store w) key = []" using safe by (simp add: safe_def drained_def)
    have "\<not> SetLock \<in> held_by (wo_pcs w ! i)"
      using held_unique [OF locks i at(1), of SetLock] at(2) False by auto
    then have "moves (wo_store w) (wo_store w')" using safe_step_store [OF step i safe] by blast
    then show ?thesis using ok none by (rule no_sessions_moves)
  qed
qed

lemma thread_step_rotations:
  assumes step: "thread_step w i w'" and i: "i < length (wo_pcs w)" and safe: "safe w"
  shows "rotations_ok w'"
  unfolding rotations_ok_def
proof (intro allI impI)
  fix j sid s e
  assume j: "j < length (wo_pcs w')" "wo_pcs w' ! j = RotateCallback sid s" "dget (st_sessions (wo_store w')) sid = Some e"
  obtain p where p: "wo_pcs w' = (wo_pcs w)[i := p]" using thread_step_pcs [OF step] by blast
  have ok: "store_ok (wo_store w)" and locks: "locks_ok w" using safe by (simp_all add: safe_def)
  show "as_username e = as_username s"
  proof (cases "j = i")
    case True
    with j p i have pj: "p = RotateCallback sid s" by simp
    from thread_step_kind [OF step] pj p i have "quiet_step w i w'"
      by (auto simp: goes_def dest!: arg_cong [where f = "\<lambda>xs. xs ! i"])
    with pj p i have "st_sessions (wo_store w') = st_sessions (wo_store w) \<and>
        (\<exists>e. dget (st_sessions (wo_store w)) sid = Some e \<and> as_username e = as_username s)"
      unfolding quiet_step_def by (metis nth_list_update_eq)
    with j(3) show ?thesis by auto
  next
    case False
    with j p have at: "j < length (wo_pcs w)" "wo_pcs w ! j = RotateCallback sid s" by simp_all
    have "\<not> SetLock \<in> held_by (wo_pcs w ! i)"
      using held_unique [OF locks i at(1), of SetLock] at(2) False by auto
    then have "moves (wo_store w) (wo_store w')" using safe_step_store [OF step i safe] by blast
    then obtain e0 where "dget (st_sessions (wo_store w)) sid = Some e0" "aged e0 e" using moves_session j(3) by blast
    moreover from this at safe have "as_username e0 = as_username s" unfolding safe_def rotations_ok_def by blast
    ultimately show ?thesis by (auto dest: aged_fields)
  qed
qed

lemma ticket_ok_quiet:
  "ticket_ok w u t \<Longrightarrow> wo_begun w' = wo_begun w \<Longrightarrow> st_denied (wo_store w') = st_denied (wo_store w) \<Longrightarrow>
   st_generations (wo_store w') = st_generations (wo_store w) \<Longrightarrow> ticket_ok w' u t"
  by (simp add: ticket_ok_def)

lemma read_ticket_ok: "ticket_ok w u (read_ticket w u)"
  by (simp add: ticket_ok_def read_ticket_def account_revocation_generation_def)

lemma thread_step_tickets:
  assumes step: "thread_step w i w'" and i: "i < length (wo_pcs w)" and ok: "tickets_ok w"
  shows "tickets_ok w'"
  unfolding tickets_ok_def
proof (intro allI impI)
  fix j u t assume j: "j < length (wo_pcs w')" "signing (wo_pcs w' ! j) = Some (u, t)"
  have old: "ticket_ok w v t" if "k < length (wo_pcs w)" "signing (wo_pcs w ! k) = Some (v, t)" for k v
    using ok that unfolding tickets_ok_def by blast
  from thread_step_kind [OF step] show "ticket_ok w' u t"
  proof (elim disjE exE conjE)
    fix key assume *: "wo_pcs w ! i = Idle"
      "w' = (goes w i (RevokeWait key) (mark_account key (wo_store w)))\<lparr>wo_begun := (wo_begun w)(key := wo_begun w key + 1)\<rparr>"
    with j i have "j < length (wo_pcs w) \<and> signing (wo_pcs w ! j) = Some (u, t)"
      by (cases "j = i") (auto simp: goes_def)
    then have "ticket_ok w u t" using old by blast
    with *(2) show ?thesis
      by (auto simp: ticket_ok_def goes_def mark_account_def count_of_up)
  next
    fix key got assume *: "wo_pcs w ! i = RevokeClear key got"
      "w' = goes w i Idle (clear_account key (clear_invalidating got (wo_store w)))"
    with j i have "j < length (wo_pcs w) \<and> signing (wo_pcs w ! j) = Some (u, t)"
      by (cases "j = i") (auto simp: goes_def)
    then have "ticket_ok w u t" using old by blast
    moreover have "st_generations (wo_store w') = st_generations (wo_store w)" using *(2)
      by (simp add: goes_def clear_account_def clear_invalidating_def)
    ultimately show ?thesis using *(2) by (auto simp: ticket_ok_def goes_def count_of_down)
  next
    assume "quiet_step w i w'"
    then obtain p where p: "wo_pcs w' = (wo_pcs w)[i := p]" and same: "wo_begun w' = wo_begun w"
      "st_denied (wo_store w') = st_denied (wo_store w)" "st_generations (wo_store w') = st_generations (wo_store w)"
      and sign: "signing p = None \<or> signing p = signing (wo_pcs w ! i) \<or> (\<exists>u. p = Verifying u (read_ticket w u))"
      unfolding quiet_step_def by blast
    have "ticket_ok w u t"
    proof (cases "j = i")
      case True
      with j p i have pj: "signing p = Some (u, t)" by simp
      with sign show ?thesis
      proof (elim disjE exE)
        assume "signing p = signing (wo_pcs w ! i)"
        with pj old [OF i] show ?thesis by simp
      next
        fix v assume "p = Verifying v (read_ticket w v)"
        with pj show ?thesis using read_ticket_ok by auto
      qed simp
    next
      case False
      with j p old show ?thesis by auto
    qed
    then show ?thesis using same by (rule ticket_ok_quiet)
  qed
qed

lemma thread_step_safe:
  assumes step: "thread_step w i w'" and i: "i < length (wo_pcs w)" and safe: "safe w"
  shows "safe w'"
proof -
  have ok: "store_ok (wo_store w)" using safe by (simp add: safe_def)
  have "store_ok (wo_store w')"
    using safe_step_store [OF step i safe]
  proof (elim disjE exE conjE)
    assume "moves (wo_store w) (wo_store w')"
    then show ?thesis using ok by (rule moves_store_ok)
  next
    fix s assume "adds s (wo_store w) (wo_store w')" "unused s (wo_store w)"
    then show ?thesis using ok by (simp add: adds_def)
  qed
  then show ?thesis
    using safe thread_step_locks_ok [OF step i] thread_step_ordered [OF step i ok] thread_step_drained [OF step i safe]
      thread_step_rotations [OF step i safe] thread_step_counted [OF step i] thread_step_tickets [OF step i]
    by (simp add: safe_def)
qed

lemma others_safe:
  assumes "moves (wo_store w) st'" and "st_denied st' = st_denied (wo_store w)"
    and "st_generations st' = st_generations (wo_store w)" and safe: "safe w"
  shows "safe (w\<lparr>wo_store := st'\<rparr>)"
proof -
  have ok: "store_ok (wo_store w)" using safe by (simp add: safe_def)
  let ?w = "w\<lparr>wo_store := st'\<rparr>"
  have "drained ?w"
    unfolding drained_def
  proof (intro allI impI)
    fix i key got assume "i < length (wo_pcs ?w)" "wo_pcs ?w ! i = RevokeClear key got"
    then have "account_sessions (wo_store w) key = []" using safe by (simp add: safe_def drained_def)
    from no_sessions_moves [OF assms(1) ok this] show "account_sessions (wo_store ?w) key = []" by simp
  qed
  moreover have "rotations_ok ?w"
    unfolding rotations_ok_def
  proof (intro allI impI)
    fix i sid s e
    assume at: "i < length (wo_pcs ?w)" "wo_pcs ?w ! i = RotateCallback sid s" "dget (st_sessions (wo_store ?w)) sid = Some e"
    then obtain e0 where e0: "dget (st_sessions (wo_store w)) sid = Some e0" "aged e0 e"
      using moves_session [OF assms(1), of sid e] by auto
    have "rotations_ok w" using safe by (simp add: safe_def)
    moreover have "i < length (wo_pcs w)" "wo_pcs w ! i = RotateCallback sid s" using at by simp_all
    ultimately have "as_username e0 = as_username s" using e0(1) unfolding rotations_ok_def by blast
    with e0(2) show "as_username e = as_username s" by (auto dest: aged_fields)
  qed
  moreover have "counted ?w" "tickets_ok ?w" "locks_ok ?w"
    using safe assms(2,3) by (simp_all add: safe_def counted_def tickets_ok_def ticket_ok_def locks_ok_def)
  ultimately show ?thesis
    using safe moves_store_ok [OF assms(1) ok] by (simp add: safe_def)
qed

lemma reachable_safe: "reachable_world w \<Longrightarrow> safe w"
proof (induction rule: reachable_world.induct)
  case (begins idle absolute limit st n)
  then show ?case
    by (auto simp: safe_def locks_ok_def drained_def rotations_ok_def counted_def tickets_ok_def list_all_length
        new_store_def store_ok_def refs_ok_def account_count_def split: if_splits)
next
  case (continues w w')
  from continues.hyps(2) continues.IH show ?case
    by cases (simp_all add: thread_step_safe others_safe)
qed

section \<open>Small worlds\<close>

definition demo_world :: world where
  "demo_world = \<lparr>wo_store = demo_empty, wo_pcs = [Idle], wo_holder = (\<lambda>l. None), wo_begun = (\<lambda>k. 0)\<rparr>"

lemma demo_world_reachable: "reachable_world demo_world"
  using begins [OF demo_new, of 1] by (simp add: demo_world_def)

lemma alone_step: "reachable_world w \<Longrightarrow> wo_pcs w = [p] \<Longrightarrow> thread_step w 0 w' \<Longrightarrow> reachable_world w'"
  by (rule continues, assumption, rule thread [of 0]) simp_all

lemma goes_simps [simp]:
  "wo_pcs (goes w i p st) = (wo_pcs w)[i := p]" "wo_store (goes w i p st) = st" "wo_begun (goes w i p st) = wo_begun w"
  "wo_holder (goes w i p st) SetLock = (if wo_holder w SetLock = Some i \<and> SetLock \<notin> held_by p then None else wo_holder w SetLock)"
  by (simp_all add: goes_def)

definition demo_ticket :: ticket where
  "demo_ticket = \<lparr>ti_generation = 0, ti_begun = 0, ti_quiet = True\<rparr>"

text \<open>A sign-in that has reached its audit callback.\<close>

lemma demo_sign_in:
  "\<exists>w. reachable_world w \<and> wo_pcs w = [CreateCallback demo_login demo_ticket] \<and> wo_store w = demo_empty"
proof -
  let ?c = "\<lambda>u w. \<lambda>p. reachable_world w \<and> wo_pcs w = [p] \<and> wo_store w = demo_empty \<and> wo_holder w SetLock = u"
  have t: "read_ticket demo_world demo_user = demo_ticket"
    by (simp add: read_ticket_def demo_world_def demo_ticket_def demo_empty_def account_revocation_generation_def)
  have "thread_step demo_world 0 (goes demo_world 0 (Verifying demo_user (read_ticket demo_world demo_user)) demo_empty)"
    using read [of demo_world 0 demo_user] by (simp add: demo_world_def)
  then obtain w1 where 1: "?c None w1 (Verifying demo_user demo_ticket)"
    using alone_step [OF demo_world_reachable, of Idle] t by (fastforce simp: demo_world_def)
  then have "thread_step w1 0 (goes w1 0 (CreateWait demo_login demo_ticket) demo_empty)"
    using verified [of w1 0 demo_user demo_ticket demo_login] demo_stored(2) by simp
  then obtain w2 where 2: "?c None w2 (CreateWait demo_login demo_ticket)"
    using alone_step 1 by fastforce
  then have "thread_step w2 0 ((goes w2 0 (CreateHeld demo_login demo_ticket) demo_empty)\<lparr>wo_holder := (wo_holder w2)(SetLock := Some 0)\<rparr>)"
    using acquire [of w2 0 SetLock] by simp
  then obtain w3 where 3: "?c (Some 0) w3 (CreateHeld demo_login demo_ticket)"
    using alone_step 2 by fastforce
  let ?u = "InCreate demo_login demo_ticket"
  have "thread_step w3 0 (goes w3 0 (BulkLocking ?u [] []) demo_empty)"
    using bulk_chosen [of w3 0 ?u demo_login demo_ticket "[]"] 3 by (simp add: mark_invalidating_def)
  then obtain w4 where 4: "?c (Some 0) w4 (BulkLocking ?u [] [])"
    using alone_step 3 by fastforce
  then have "thread_step w4 0 (goes w4 0 (BulkClear ?u []) demo_empty)"
    using bulk_dropped [of w4 0 ?u "[]"] by (simp add: still_there_def drop_all_def)
  then obtain w5 where 5: "?c (Some 0) w5 (BulkClear ?u [])"
    using alone_step 4 by fastforce
  then have "thread_step w5 0 (goes w5 0 (CreatePurged demo_login demo_ticket) demo_empty)"
    using bulk_cleared [of w5 0 ?u "[]"] by (simp add: clear_invalidating_def)
  then obtain w6 where 6: "?c (Some 0) w6 (CreatePurged demo_login demo_ticket)"
    using alone_step 5 by fastforce
  then have "thread_step w6 0 (goes w6 0 (CreateCallback demo_login demo_ticket) demo_empty)"
    using create_checked [of w6 0 demo_login demo_ticket]
    by (simp add: create_check_None demo_empty_def demo_ticket_def account_count_def)
  then show ?thesis using alone_step 6 by fastforce
qed

text \<open>A revocation that has denied its account.\<close>

lemma demo_revocation: "\<exists>w. reachable_world w \<and> wo_pcs w = [RevokeWait demo_user]"
  using alone_step [OF demo_world_reachable, of Idle] revoke_begin [of demo_world 0 demo_user]
  by (fastforce simp: demo_world_def)

text \<open>A revocation that begins while another one of the account is running leaves the generation
  alone, so a sign-in that read it in between does not notice.\<close>

lemma nested_revocation_is_not_noticed:
  "0 < count_of (st_denied st) (account_key username) \<Longrightarrow>
   account_revocation_generation (mark_account (account_key username) st) username = account_revocation_generation st username"
  by (simp add: account_revocation_generation_def mark_account_def)

section \<open>Properties\<close>

text \<open>C4: the sweep is complete under concurrency. In every reachable world, at the moment a
  revocation has dropped the sessions of an account and until it ends, no RouterOS session of the account is in
  the store, and as long as any revocation of the account runs, none can be committed.\<close>

theorem no_session_survives_a_revocation:
  assumes "reachable_world w" and "i < length (wo_pcs w)" and "revoking key (wo_pcs w ! i)"
  shows "(\<forall>got. wo_pcs w ! i = RevokeClear key got \<longrightarrow> account_sessions (wo_store w) key = []) \<and>
    (account_key (as_username s) = key \<longrightarrow> (\<exists>st'. create_commit s expected (wo_store w) = (st', Inl AuthorizationChanged)) \<and>
       snd (rotate_commit sid s (wo_store w)) = False)"
proof -
  have safe: "safe w" by (rule reachable_safe [OF assms(1)])
  have "wo_pcs w ! i \<in> set (filter (revoking key) (wo_pcs w))" using assms(2,3) by simp
  then have 1: "0 < length (filter (revoking key) (wo_pcs w))" by (simp add: filter_empty_conv) blast
  have 2: "length (filter (revoking key) (wo_pcs w)) \<le> count_of (st_denied (wo_store w)) key"
    using safe by (simp add: safe_def counted_def)
  from less_le_trans [OF 1 2] have "0 < count_of (st_denied (wo_store w)) key" .
  then show ?thesis
    using safe assms(2) by (auto simp: safe_def drained_def create_commit_def create_check_def rotate_commit_def)
qed

theorem no_session_survives_a_revocation_witness:
  "\<exists>w st'. reachable_world w \<and> create_commit demo_login None (wo_store w) = (st', Inl AuthorizationChanged)"
proof -
  obtain w where w: "reachable_world w" "wo_pcs w = [RevokeWait demo_user]" using demo_revocation by blast
  then have "\<exists>st'. create_commit demo_login None (wo_store w) = (st', Inl AuthorizationChanged)"
    using no_session_survives_a_revocation [OF w(1), of 0 demo_user demo_login None] demo_stored(2) demo_user_facts by simp
  with w(1) show ?thesis by blast
qed

text \<open>C7: a sign-in does not outlive a revocation. If no revocation of the account was running
  when a sign-in read the generation, then its session is committed only if no revocation of the account has
  begun since, however the threads were interleaved.\<close>

theorem sign_in_commits_only_without_revocation:
  assumes "reachable_world w" and "i < length (wo_pcs w)" and "wo_pcs w ! i = CreateCallback s t" and "ti_quiet t"
    and "create_commit s (Some (ti_generation t)) (wo_store w) = (st', Inr s')"
  shows "wo_begun w (account_key (as_username s)) = ti_begun t \<and>
    (\<forall>j < length (wo_pcs w). \<not> revoking (account_key (as_username s)) (wo_pcs w ! j))"
proof -
  have safe: "safe w" by (rule reachable_safe [OF assms(1)])
  have "ticket_ok w (as_username s) t"
    using safe assms(2,3) unfolding safe_def tickets_ok_def by (metis signing.simps(5))
  moreover have ok: "count_of (st_denied (wo_store w)) (account_key (as_username s)) = 0"
    "count_of (st_generations (wo_store w)) (account_key (as_username s)) = ti_generation t"
    using assms(5) by (auto simp: create_commit_def create_check_None split: option.splits)
  moreover have "length (filter (revoking (account_key (as_username s))) (wo_pcs w)) = 0"
    using safe ok(1) unfolding safe_def counted_def by (metis le_zero_eq)
  ultimately show ?thesis using assms(4) by (auto simp: ticket_ok_def filter_empty_conv)
qed

theorem sign_in_commits_only_without_revocation_witness:
  "\<exists>w st'. reachable_world w \<and> create_commit demo_login (Some 0) (wo_store w) = (st', Inr demo_login) \<and>
     wo_begun w demo_user = 0"
proof -
  obtain w where w: "reachable_world w" "wo_pcs w = [CreateCallback demo_login demo_ticket]" "wo_store w = demo_empty"
    using demo_sign_in by blast
  have "create_check demo_empty (as_username demo_login) (Some 0) = None"
    by (simp add: create_check_None demo_empty_def account_count_def)
  then obtain st' where c: "create_commit demo_login (Some (ti_generation demo_ticket)) (wo_store w) = (st', Inr demo_login)"
    by (simp add: create_commit_def w(3) demo_ticket_def)
  have "wo_begun w (account_key (as_username demo_login)) = ti_begun demo_ticket"
    using sign_in_commits_only_without_revocation [OF w(1) _ _ _ c] w(2) by (simp add: demo_ticket_def)
  with w(1) c show ?thesis by (auto simp: demo_ticket_def demo_stored demo_user_facts)
qed

text \<open>Sign-ins, rotations, account revocations and bulk removals that run at the same time never wait for each other in a circle: whenever one
  of them is under way, one that is under way can make a step. The calls behind \<open>others\<close> (single removals, role checks), which hold one
  delivery lock at a time, are not threads here.\<close>

lemma sweeps_never_deadlock:
  assumes "reachable_world w" and "i < length (wo_pcs w)" and "wo_pcs w ! i \<noteq> Idle"
  shows "\<exists>j < length (wo_pcs w). wo_pcs w ! j \<noteq> Idle \<and> (\<exists>w'. thread_step w j w')"
  using reachable_safe [OF assms(1)] some_thread_moves [OF _ _ assms(2,3)] by (simp add: safe_def)

text \<open>the limits hold under concurrency too: although the audit callback runs between the check
  and the commit of a sign-in without the store lock, no account ever exceeds its number of sessions.\<close>

theorem concurrent_sign_ins_respect_the_limit:
  assumes "reachable_world w"
  shows "account_count (wo_store w) username \<le> st_max (wo_store w)"
  using reachable_safe [OF assms] by (simp add: safe_def store_ok_def)

theorem concurrent_sign_ins_respect_the_limit_witness: "account_count (wo_store demo_world) demo_user \<le> 8"
  using concurrent_sign_ins_respect_the_limit [OF demo_world_reachable, of demo_user]
  by (simp add: demo_world_def demo_empty_def)

end
