(* ===== verification/Login_Limiter.thy ===== *)
theory Login_Limiter
  imports Prelude
begin

text \<open>
  \<open>LoginRateLimiter\<close> of \<open>security.py\<close>: reservations of login attempts per client identity, the
  failures inside the window, and the two audit coalescers. The clock readings and the random name of
  a reservation are arguments. Each method is one atomic operation, as it runs under the lock.
\<close>

section \<open>State\<close>

record limiter =
  li_limit :: int
  li_window :: rat
  li_max_tracked :: nat
  li_max_in_flight :: nat
  li_audit_interval :: rat
  li_attempts :: "(pystr, rat list) dict"
  li_reservations :: "(pystr, pystr) dict"
  li_last_audit :: "rat option"
  li_suppressed :: nat
  li_audit_in_flight :: bool
  li_reserved_count :: nat
  li_during :: nat
  li_last_admin :: "rat option"
  li_admin_in_flight :: bool

definition admin_audit_interval :: rat where "admin_audit_interval = 60"
definition max_suppressed :: nat where "max_suppressed = 1000000000"

definition new_limiter :: "int \<Rightarrow> rat \<Rightarrow> int \<Rightarrow> int \<Rightarrow> rat \<Rightarrow> limiter" where
  "new_limiter limit window tracked in_flight interval =
     \<lparr>li_limit = limit, li_window = window, li_max_tracked = nat (max 1 tracked),
      li_max_in_flight = nat (max 1 in_flight), li_audit_interval = max 1 interval,
      li_attempts = [], li_reservations = [], li_last_audit = None, li_suppressed = 0,
      li_audit_in_flight = False, li_reserved_count = 0, li_during = 0, li_last_admin = None,
      li_admin_in_flight = False\<rparr>"

section \<open>The audit coalescers\<close>

definition reserve_admin_audit :: "limiter \<Rightarrow> rat \<Rightarrow> limiter \<times> bool" where
  "reserve_admin_audit m current =
     (if li_admin_in_flight m then (m, False)
      else case li_last_admin m of
        Some previous \<Rightarrow>
          if current - previous < admin_audit_interval then (m, False)
          else (m\<lparr>li_last_admin := Some current, li_admin_in_flight := True\<rparr>, True)
      | None \<Rightarrow> (m\<lparr>li_last_admin := Some current, li_admin_in_flight := True\<rparr>, True))"

definition complete_admin_audit :: "limiter \<Rightarrow> bool \<Rightarrow> limiter" where
  "complete_admin_audit m succeeded =
     (if \<not> li_admin_in_flight m then m
      else let m = m\<lparr>li_admin_in_flight := False\<rparr> in
        if succeeded then m else m\<lparr>li_last_admin := None\<rparr>)"

definition reserve_login_audit :: "limiter \<Rightarrow> rat \<Rightarrow> limiter \<times> nat option" where
  "reserve_login_audit m current =
     (if li_audit_in_flight m
      then (m\<lparr>li_during := min (li_during m + 1) max_suppressed\<rparr>, None)
      else if (case li_last_audit m of None \<Rightarrow> False | Some previous \<Rightarrow> current - previous < li_audit_interval m)
      then (m\<lparr>li_suppressed := min (li_suppressed m + 1) max_suppressed\<rparr>, None)
      else (m\<lparr>li_suppressed := 0, li_last_audit := Some current, li_audit_in_flight := True,
              li_reserved_count := li_suppressed m, li_during := 0\<rparr>, Some (li_suppressed m)))"

definition complete_login_audit :: "limiter \<Rightarrow> bool \<Rightarrow> limiter" where
  "complete_login_audit m succeeded =
     (if \<not> li_audit_in_flight m then m
      else m\<lparr>li_suppressed := (if succeeded then li_during m
                               else min (li_reserved_count m + li_during m + 1) max_suppressed),
             li_audit_in_flight := False, li_reserved_count := 0, li_during := 0\<rparr>)"

section \<open>Attempts\<close>

text \<open>The loop over \<open>tuple(self._attempts.items())\<close>: old failures are forgotten.\<close>

definition prune :: "rat \<Rightarrow> (pystr, rat list) dict \<Rightarrow> (pystr, rat list) dict" where
  "prune threshold attempts =
     filter (\<lambda>(k, h). h \<noteq> []) (map (\<lambda>(k, h). (k, filter (\<lambda>t. threshold < t) h)) attempts)"

definition owned_by :: "(pystr, pystr) dict \<Rightarrow> pystr \<Rightarrow> nat" where
  "owned_by reservations identity = length (filter (\<lambda>(r, owner). owner = identity) reservations)"

definition tracked :: "limiter \<Rightarrow> pystr set" where
  "tracked m = set (map snd (li_reservations m)) \<union> set (dkeys (li_attempts m))"

definition reserve :: "limiter \<Rightarrow> pystr \<Rightarrow> rat \<Rightarrow> pystr \<Rightarrow> limiter \<times> pystr option" where
  "reserve m identity current token =
     (let threshold = current - li_window m;
          m = m\<lparr>li_attempts := prune threshold (li_attempts m)\<rparr> in
      if li_max_in_flight m \<le> length (li_reservations m) then (m, None)
      else if identity \<notin> tracked m \<and> li_max_tracked m \<le> card (tracked m) then (m, None)
      else
        let attempts = filter (\<lambda>t. threshold < t) (dget_or (li_attempts m) identity []) in
        if li_limit m \<le> int (length attempts + owned_by (li_reservations m) identity) then (m, None)
        else (m\<lparr>li_reservations := dset token identity (li_reservations m)\<rparr>, Some token))"

definition finish :: "limiter \<Rightarrow> pystr \<Rightarrow> bool option \<Rightarrow> rat \<Rightarrow> limiter" where
  "finish m reservation failed current =
     (case dget (li_reservations m) reservation of
        None \<Rightarrow> m
      | Some identity \<Rightarrow>
          let m = m\<lparr>li_reservations := ddel reservation (li_reservations m)\<rparr> in
          case failed of
            Some True \<Rightarrow> m\<lparr>li_attempts := dset identity (dget_or (li_attempts m) identity [] @ [current]) (li_attempts m)\<rparr>
          | Some False \<Rightarrow> m\<lparr>li_attempts := ddel identity (li_attempts m)\<rparr>
          | None \<Rightarrow> m)"

section \<open>Counting\<close>

lemma dget_prune:
  "dict_ok d \<Longrightarrow> dget (prune threshold d) k =
     (case dget d k of None \<Rightarrow> None
      | Some h \<Rightarrow> if filter (\<lambda>t. threshold < t) h = [] then None else Some (filter (\<lambda>t. threshold < t) h))"
proof (induction d)
  case (Cons x d)
  obtain k0 h0 where x: "x = (k0, h0)" by fastforce
  have IH: "dget (prune threshold d) k = (case dget d k of None \<Rightarrow> None
      | Some h \<Rightarrow> if filter (\<lambda>t. threshold < t) h = [] then None else Some (filter (\<lambda>t. threshold < t) h))"
    using Cons by (simp add: dict_ok_def)
  have fresh: "dget d k0 = None" using Cons.prems x by (simp add: dict_ok_def map_of_eq_None_iff)
  have step: "prune threshold (x # d) = (if filter (\<lambda>t. threshold < t) h0 = [] then prune threshold d
      else (k0, filter (\<lambda>t. threshold < t) h0) # prune threshold d)"
    by (simp add: prune_def x)
  show ?case
  proof (cases "k = k0")
    case True
    then show ?thesis using IH fresh by (simp only: step) (simp add: x)
  next
    case False
    then show ?thesis using IH by (simp only: step) (simp add: x)
  qed
qed (simp add: prune_def)

lemma dget_or_prune:
  "dict_ok d \<Longrightarrow> dget_or (prune threshold d) k [] = filter (\<lambda>t. threshold < t) (dget_or d k [])"
  by (simp add: dget_or_def dget_prune split: option.split)

lemma dkeys_prune: "set (dkeys (prune threshold d)) \<subseteq> set (dkeys d)"
  by (force simp: prune_def)

lemma dict_ok_prune: "dict_ok d \<Longrightarrow> dict_ok (prune threshold d)"
proof -
  assume ok: "dict_ok d"
  have eq: "map fst (map (\<lambda>(k, h). (k, filter (\<lambda>t. threshold < t) h)) d) = map fst d"
    by (induction d) auto
  have "dict_ok (map (\<lambda>(k, h). (k, filter (\<lambda>t. threshold < t) h)) d)"
    using ok unfolding dict_ok_def eq .
  then show ?thesis unfolding prune_def by (rule dict_ok_filter)
qed

lemma owned_by_dset: "token \<notin> set (dkeys r) \<Longrightarrow>
   owned_by (dset token identity r) k = owned_by r k + (if k = identity then 1 else 0)"
  by (simp add: owned_by_def dset_fresh)

lemma owned_by_ddel:
  "dict_ok r \<Longrightarrow> dget r token = Some identity \<Longrightarrow>
   owned_by r k = owned_by (ddel token r) k + (if k = identity then 1 else 0)"
proof (induction r)
  case (Cons x r)
  obtain t o' where x: "x = (t, o')" by fastforce
  show ?case
  proof (cases "t = token")
    case True
    then have "token \<notin> set (dkeys r)" using Cons.prems x by (simp add: dict_ok_def)
    then have "ddel token r = r" by (rule ddel_fresh)
    with True Cons.prems x show ?thesis by (auto simp: owned_by_def AList.delete_eq)
  next
    case False
    with Cons x show ?thesis by (auto simp: owned_by_def dict_ok_def AList.delete_eq)
  qed
qed simp

section \<open>Runs\<close>

text \<open>A run with its ghost record: the failures of each identity since its last success, the time
  of the last call, and the audit account (rate-limited requests, and those persisted audits report).
  The clock of the attempts does not run backwards; reservations have names that are not in use.\<close>

record history =
  hi_failures :: "pystr \<Rightarrow> rat list"
  hi_time :: rat
  hi_limited :: nat
  hi_reported :: nat

definition no_history :: "rat \<Rightarrow> history" where
  "no_history t = \<lparr>hi_failures = (\<lambda>k. []), hi_time = t, hi_limited = 0, hi_reported = 0\<rparr>"

definition after_finish :: "limiter \<Rightarrow> pystr \<Rightarrow> bool option \<Rightarrow> rat \<Rightarrow> history \<Rightarrow> history" where
  "after_finish m reservation failed current h =
     (case dget (li_reservations m) reservation of
        None \<Rightarrow> h\<lparr>hi_time := current\<rparr>
      | Some identity \<Rightarrow> h\<lparr>hi_time := current, hi_failures := (hi_failures h)(identity :=
          (case failed of Some True \<Rightarrow> hi_failures h identity @ [current]
           | Some False \<Rightarrow> [] | None \<Rightarrow> hi_failures h identity))\<rparr>)"

inductive limiter_run :: "limiter \<Rightarrow> history \<Rightarrow> bool" where
  fresh: "limiter_run (new_limiter limit window identities in_flight interval) (no_history t)"
| reserving: "limiter_run m h \<Longrightarrow> hi_time h \<le> current \<Longrightarrow> token \<notin> set (dkeys (li_reservations m)) \<Longrightarrow>
    limiter_run (fst (reserve m identity current token)) (h\<lparr>hi_time := current\<rparr>)"
| finishing: "limiter_run m h \<Longrightarrow> hi_time h \<le> current \<Longrightarrow>
    limiter_run (finish m reservation failed current) (after_finish m reservation failed current h)"
| limiting: "limiter_run m h \<Longrightarrow>
    limiter_run (fst (reserve_login_audit m clock)) (h\<lparr>hi_limited := hi_limited h + 1\<rparr>)"
| auditing: "limiter_run m h \<Longrightarrow>
    limiter_run (complete_login_audit m succeeded)
      (if li_audit_in_flight m \<and> succeeded
       then h\<lparr>hi_reported := hi_reported h + li_reserved_count m + 1\<rparr> else h)"
| admin_limiting: "limiter_run m h \<Longrightarrow> limiter_run (fst (reserve_admin_audit m clock)) h"
| admin_auditing: "limiter_run m h \<Longrightarrow> limiter_run (complete_admin_audit m succeeded) h"

definition attempts_of :: "limiter \<Rightarrow> pystr \<Rightarrow> rat list" where
  "attempts_of m k = dget_or (li_attempts m) k []"

text \<open>Attempts and reservations: dictionaries, the two budgets, and the tracked identities.\<close>

definition limiter_ok :: "limiter \<Rightarrow> bool" where
  "limiter_ok m \<longleftrightarrow> dict_ok (li_attempts m) \<and> dict_ok (li_reservations m) \<and>
     (\<forall>k. int (length (attempts_of m k) + owned_by (li_reservations m) k) \<le> max 0 (li_limit m)) \<and>
     length (li_reservations m) \<le> li_max_in_flight m \<and> card (tracked m) \<le> li_max_tracked m"

text \<open>The stored failures include every failure that still counts.\<close>

definition remembers :: "limiter \<Rightarrow> history \<Rightarrow> bool" where
  "remembers m h \<longleftrightarrow> (\<forall>k t. hi_time h \<le> t \<longrightarrow>
     filter (\<lambda>s. t - li_window m < s) (attempts_of m k) = filter (\<lambda>s. t - li_window m < s) (hi_failures h k))"

definition audit_pending :: "limiter \<Rightarrow> nat" where
  "audit_pending m = li_suppressed m + (if li_audit_in_flight m then li_reserved_count m + 1 + li_during m else 0)"

definition accounted :: "limiter \<Rightarrow> history \<Rightarrow> bool" where
  "accounted m h \<longleftrightarrow> (li_audit_in_flight m \<longrightarrow> li_suppressed m = 0) \<and>
     (hi_limited h \<le> max_suppressed \<longrightarrow> hi_limited h = hi_reported h + audit_pending m)"

lemma card_tracked_mono: "tracked m' \<subseteq> tracked m \<Longrightarrow> card (tracked m') \<le> card (tracked m)"
  by (intro card_mono) (simp_all add: tracked_def)

lemma reserve_ok:
  assumes "limiter_ok m" and "token \<notin> set (dkeys (li_reservations m))"
  shows "limiter_ok (fst (reserve m identity current token))"
proof -
  let ?m = "m\<lparr>li_attempts := prune (current - li_window m) (li_attempts m)\<rparr>"
  have d: "dict_ok (li_attempts m)" using assms(1) by (simp add: limiter_ok_def)
  have att: "attempts_of ?m k = filter (\<lambda>t. current - li_window m < t) (attempts_of m k)" for k
    using d by (simp add: attempts_of_def dget_or_prune)
  have tr: "tracked ?m \<subseteq> tracked m"
    using dkeys_prune [of "current - li_window m" "li_attempts m"] by (auto simp: tracked_def)
  have len: "int (length (attempts_of ?m k) + owned_by (li_reservations m) k) \<le> max 0 (li_limit m)" for k
  proof -
    have "int (length (attempts_of ?m k) + owned_by (li_reservations m) k)
        \<le> int (length (attempts_of m k) + owned_by (li_reservations m) k)"
      by (simp add: att)
    also have "\<dots> \<le> max 0 (li_limit m)" using assms(1) by (simp add: limiter_ok_def)
    finally show ?thesis .
  qed
  have card: "card (tracked ?m) \<le> li_max_tracked m"
    using card_tracked_mono [OF tr] assms(1) by (simp add: limiter_ok_def)
  have ok: "limiter_ok ?m"
    using assms(1) dict_ok_prune [OF d] card len unfolding limiter_ok_def by simp
  show ?thesis
  proof (cases "snd (reserve m identity current token)")
    case None
    then have "fst (reserve m identity current token) = ?m"
      by (auto simp: reserve_def Let_def split: if_splits)
    with ok show ?thesis by simp
  next
    case (Some t)
    let ?r = "?m\<lparr>li_reservations := dset token identity (li_reservations m)\<rparr>"
    have res: "fst (reserve m identity current token) = ?r"
      and room: "length (li_reservations m) < li_max_in_flight m"
      and track: "identity \<in> tracked ?m \<or> card (tracked ?m) < li_max_tracked m"
      and below: "int (length (filter (\<lambda>t. current - li_window m < t) (attempts_of ?m identity))
          + owned_by (li_reservations m) identity) < li_limit m"
      using Some by (auto simp: reserve_def Let_def attempts_of_def split: if_splits)
    have same: "filter (\<lambda>t. current - li_window m < t) (attempts_of ?m identity) = attempts_of ?m identity"
      by (simp add: att)
    have trr: "tracked ?r = insert identity (tracked ?m)"
      using assms(2) by (auto simp: tracked_def dset_fresh)
    have fin: "finite (tracked ?m)" by (simp add: tracked_def)
    have "card (tracked ?r) \<le> li_max_tracked m"
    proof (cases "identity \<in> tracked ?m")
      case True
      with ok show ?thesis by (simp add: trr insert_absorb limiter_ok_def)
    next
      case False
      with track fin show ?thesis by (simp add: trr)
    qed
    moreover have "int (length (attempts_of ?r k) + owned_by (li_reservations ?r) k) \<le> max 0 (li_limit m)" for k
    proof (cases "k = identity")
      case True
      with below same owned_by_dset [OF assms(2)] show ?thesis by (simp add: attempts_of_def)
    next
      case False
      with ok owned_by_dset [OF assms(2)] show ?thesis by (auto simp: limiter_ok_def attempts_of_def)
    qed
    ultimately show ?thesis
      using ok room assms(2) unfolding res by (simp add: limiter_ok_def length_dset del: set_map)
  qed
qed

lemma finish_ok:
  assumes "limiter_ok m"
  shows "limiter_ok (finish m reservation failed current)"
proof (cases "dget (li_reservations m) reservation")
  case None
  with assms show ?thesis by (simp add: finish_def)
next
  case (Some identity)
  let ?res = "ddel reservation (li_reservations m)"
  have ok: "dict_ok (li_attempts m)" "dict_ok (li_reservations m)" using assms by (simp_all add: limiter_ok_def)
  have own: "owned_by (li_reservations m) k = owned_by ?res k + (if k = identity then 1 else 0)" for k
    by (rule owned_by_ddel [OF ok(2) Some])
  have "(reservation, identity) \<in> set (li_reservations m)" using Some by (rule dget_Some_in)
  then have id: "identity \<in> tracked m" by (force simp: tracked_def)
  have vals: "snd ` set ?res \<subseteq> snd ` set (li_reservations m)" by (auto simp: set_ddel)
  let ?m = "finish m reservation failed current"
  have fin: "li_reservations ?m = ?res"
    "li_attempts ?m = (case failed of Some True \<Rightarrow> dset identity (attempts_of m identity @ [current]) (li_attempts m)
       | Some False \<Rightarrow> ddel identity (li_attempts m) | None \<Rightarrow> li_attempts m)"
    "li_limit ?m = li_limit m" "li_max_in_flight ?m = li_max_in_flight m" "li_max_tracked ?m = li_max_tracked m"
    using Some by (auto simp: finish_def attempts_of_def Let_def split: option.split bool.split)
  have att: "length (attempts_of ?m k) + owned_by ?res k \<le> length (attempts_of m k) + owned_by (li_reservations m) k" for k
    using own [of k] unfolding attempts_of_def fin
    by (auto simp: dict_simps attempts_of_def split: option.splits bool.splits)
  have "tracked ?m \<subseteq> tracked m"
  proof -
    have "set (dkeys (li_attempts ?m)) \<subseteq> insert identity (set (dkeys (li_attempts m)))"
      unfolding fin by (auto simp: dkeys_dset dkeys_ddel simp del: set_map split: option.splits bool.splits if_splits)
    then show ?thesis using vals id unfolding tracked_def fin by auto
  qed
  then have "card (tracked ?m) \<le> card (tracked m)" by (rule card_tracked_mono)
  moreover have "dict_ok (li_attempts ?m)" using ok(1) unfolding fin by (auto split: option.splits bool.splits)
  moreover have "length ?res \<le> length (li_reservations m)" by (rule length_ddel_le)
  moreover have "int (length (attempts_of ?m k) + owned_by ?res k) \<le> max 0 (li_limit m)" for k
  proof -
    have "int (length (attempts_of ?m k) + owned_by ?res k) \<le> int (length (attempts_of m k) + owned_by (li_reservations m) k)"
      using att [of k] by simp
    also have "\<dots> \<le> max 0 (li_limit m)" using assms by (simp add: limiter_ok_def)
    finally show ?thesis .
  qed
  ultimately show ?thesis
    using assms ok(2) unfolding limiter_ok_def fin by simp
qed

lemma reserve_frame:
  "li_audit_in_flight (fst (reserve m identity current token)) = li_audit_in_flight m"
  "li_suppressed (fst (reserve m identity current token)) = li_suppressed m"
  "li_window (fst (reserve m identity current token)) = li_window m"
  "audit_pending (fst (reserve m identity current token)) = audit_pending m"
  "li_attempts (fst (reserve m identity current token)) = prune (current - li_window m) (li_attempts m)"
  by (auto simp: reserve_def Let_def audit_pending_def)

lemma finish_frame:
  "li_audit_in_flight (finish m reservation failed current) = li_audit_in_flight m"
  "li_suppressed (finish m reservation failed current) = li_suppressed m"
  "li_window (finish m reservation failed current) = li_window m"
  "audit_pending (finish m reservation failed current) = audit_pending m"
  by (auto simp: finish_def Let_def audit_pending_def split: option.splits bool.splits)

lemma filter_later:
  "(t0 :: rat) \<le> t \<Longrightarrow> filter (\<lambda>s. t - w < s) (filter (\<lambda>s. t0 - w < s) xs) = filter (\<lambda>s. t - w < s) xs"
  by (induction xs) auto

lemma reserve_remembers:
  assumes "remembers m h" and "limiter_ok m" and "hi_time h \<le> current"
  shows "remembers (fst (reserve m identity current token)) (h\<lparr>hi_time := current\<rparr>)"
proof -
  have "dict_ok (li_attempts m)" using assms(2) by (simp add: limiter_ok_def)
  then have att: "attempts_of (fst (reserve m identity current token)) k = filter (\<lambda>s. current - li_window m < s) (attempts_of m k)" for k
    by (simp add: attempts_of_def reserve_frame dget_or_prune)
  show ?thesis
    unfolding remembers_def
  proof (intro allI impI)
    fix k t assume "hi_time (h\<lparr>hi_time := current\<rparr>) \<le> t"
    then have t: "current \<le> t" by simp
    with assms(3) have "hi_time h \<le> t" by simp
    with assms(1) show "filter (\<lambda>s. t - li_window (fst (reserve m identity current token)) < s)
        (attempts_of (fst (reserve m identity current token)) k)
      = filter (\<lambda>s. t - li_window (fst (reserve m identity current token)) < s) (hi_failures (h\<lparr>hi_time := current\<rparr>) k)"
      unfolding att reserve_frame filter_later [OF t] by (simp add: remembers_def)
  qed
qed

lemma finish_remembers:
  assumes "remembers m h" and "hi_time h \<le> current"
  shows "remembers (finish m reservation failed current) (after_finish m reservation failed current h)"
proof (cases "dget (li_reservations m) reservation")
  case None
  with assms show ?thesis by (auto simp: finish_def after_finish_def remembers_def)
next
  case (Some identity)
  let ?m = "finish m reservation failed current"
  have "attempts_of ?m k = (if k = identity then (case failed of Some True \<Rightarrow> attempts_of m k @ [current]
       | Some False \<Rightarrow> [] | None \<Rightarrow> attempts_of m k) else attempts_of m k)" for k
    using Some by (auto simp: finish_def attempts_of_def dict_simps Let_def split: option.split bool.split)
  with Some assms show ?thesis
    by (auto simp: remembers_def after_finish_def finish_frame split: option.splits bool.splits)
qed

text \<open>The audit operations leave the attempts alone, and the other way round.\<close>

definition same_attempts :: "limiter \<Rightarrow> limiter \<Rightarrow> bool" where
  "same_attempts m m' \<longleftrightarrow> li_attempts m' = li_attempts m \<and> li_reservations m' = li_reservations m \<and>
     li_limit m' = li_limit m \<and> li_window m' = li_window m \<and> li_max_in_flight m' = li_max_in_flight m \<and>
     li_max_tracked m' = li_max_tracked m"

lemma audit_same_attempts:
  "same_attempts m (fst (reserve_login_audit m clock))" "same_attempts m (complete_login_audit m succeeded)"
  "same_attempts m (fst (reserve_admin_audit m clock))" "same_attempts m (complete_admin_audit m succeeded)"
  by (auto simp: same_attempts_def reserve_login_audit_def complete_login_audit_def reserve_admin_audit_def
      complete_admin_audit_def Let_def split: option.splits)

lemma same_attempts_ok:
  "same_attempts m m' \<Longrightarrow> limiter_ok m \<Longrightarrow> limiter_ok m'"
  "same_attempts m m' \<Longrightarrow> remembers m h \<Longrightarrow> hi_failures h' = hi_failures h \<Longrightarrow> hi_time h' = hi_time h \<Longrightarrow> remembers m' h'"
  by (auto simp: same_attempts_def limiter_ok_def remembers_def attempts_of_def tracked_def)

lemma limiting_accounted:
  "accounted m h \<Longrightarrow> accounted (fst (reserve_login_audit m clock)) (h\<lparr>hi_limited := hi_limited h + 1\<rparr>)"
  by (auto simp: accounted_def reserve_login_audit_def audit_pending_def split: option.splits)

lemma auditing_accounted:
  "accounted m h \<Longrightarrow> accounted (complete_login_audit m succeeded)
     (if li_audit_in_flight m \<and> succeeded then h\<lparr>hi_reported := hi_reported h + li_reserved_count m + 1\<rparr> else h)"
  by (auto simp: accounted_def complete_login_audit_def audit_pending_def)

lemma admin_accounted:
  "li_audit_in_flight (fst (reserve_admin_audit m clock)) = li_audit_in_flight m"
  "li_suppressed (fst (reserve_admin_audit m clock)) = li_suppressed m"
  "li_audit_in_flight (complete_admin_audit m succeeded) = li_audit_in_flight m"
  "li_suppressed (complete_admin_audit m succeeded) = li_suppressed m"
  "audit_pending (fst (reserve_admin_audit m clock)) = audit_pending m"
  "audit_pending (complete_admin_audit m succeeded) = audit_pending m"
  by (auto simp: reserve_admin_audit_def complete_admin_audit_def audit_pending_def Let_def split: option.split)

lemma limiter_run_ok: "limiter_run m h \<Longrightarrow> limiter_ok m \<and> remembers m h \<and> accounted m h"
proof (induction rule: limiter_run.induct)
  case (fresh limit window identities in_flight interval t)
  show ?case
    by (auto simp: limiter_ok_def remembers_def accounted_def new_limiter_def no_history_def attempts_of_def
        owned_by_def tracked_def audit_pending_def)
next
  case (reserving m h current token identity)
  then show ?case by (simp add: reserve_ok reserve_remembers) (simp add: accounted_def reserve_frame)
next
  case (finishing m h current reservation failed)
  then show ?case
    by (simp add: finish_ok finish_remembers)
       (auto simp: accounted_def finish_frame after_finish_def split: option.splits)
next
  case (limiting m h clock)
  with audit_same_attempts(1) [of m clock] limiting_accounted [of m h clock] show ?case
    by (auto intro: same_attempts_ok)
next
  case (auditing m h succeeded)
  with audit_same_attempts(2) [of m succeeded] show ?case
    using auditing_accounted [of m h succeeded] by (auto intro: same_attempts_ok)
next
  case (admin_limiting m h clock)
  with audit_same_attempts(3) [of m clock] show ?case
    by (auto simp: accounted_def admin_accounted intro: same_attempts_ok)
next
  case (admin_auditing m h succeeded)
  with audit_same_attempts(4) [of m succeeded] show ?case
    by (auto simp: accounted_def admin_accounted intro: same_attempts_ok)
qed

section \<open>Properties\<close>

definition demo_limiter :: limiter where
  "demo_limiter = (new_limiter 1 300 10 10 60)\<lparr>li_attempts := [([7], [5])]\<rparr>"

definition demo_history :: history where
  "demo_history = (no_history 0)\<lparr>hi_time := 5, hi_failures := (\<lambda>k. [])([7] := [5])\<rparr>"

lemma demo_limiter_run: "limiter_run demo_limiter demo_history"
proof -
  let ?m = "new_limiter 1 300 10 10 60" and ?h = "no_history 0"
  let ?r = "?m\<lparr>li_reservations := [([8], [7])]\<rparr>"
  have "fst (reserve ?m [7] 2 [8]) = ?r"
    by (simp add: reserve_def new_limiter_def prune_def tracked_def owned_by_def Let_def)
  then have "limiter_run ?r (?h\<lparr>hi_time := 2\<rparr>)"
    using reserving [OF fresh, of 0 2 "[8]" 1 300 10 10 60 "[7]"] by (simp add: no_history_def new_limiter_def)
  from finishing [OF this, of 5 "[8]" "Some True"]
  show ?thesis
    by (simp add: demo_limiter_def demo_history_def no_history_def finish_def after_finish_def new_limiter_def Let_def)
qed

text \<open>C27: the brute-force bound. In every run whose clock does not go back, for every client
  identity, the failures of the last window since its last success and the attempts under way together
  never exceed the limit, however calls overlap and whatever other identities do.\<close>

theorem login_attempts_are_limited:
  assumes "limiter_run m h" and "hi_time h \<le> t"
  shows "int (length (filter (\<lambda>s. t - li_window m < s) (hi_failures h identity)) + owned_by (li_reservations m) identity)
    \<le> max 0 (li_limit m)"
proof -
  note run = limiter_run_ok [OF assms(1)]
  have "filter (\<lambda>s. t - li_window m < s) (hi_failures h identity) = filter (\<lambda>s. t - li_window m < s) (attempts_of m identity)"
    using run assms(2) by (simp add: remembers_def)
  then have "length (filter (\<lambda>s. t - li_window m < s) (hi_failures h identity)) \<le> length (attempts_of m identity)"
    by (simp add: length_filter_le)
  then have "int (length (filter (\<lambda>s. t - li_window m < s) (hi_failures h identity)) + owned_by (li_reservations m) identity)
      \<le> int (length (attempts_of m identity) + owned_by (li_reservations m) identity)" by simp
  also have "\<dots> \<le> max 0 (li_limit m)" using run by (simp add: limiter_ok_def)
  finally show ?thesis .
qed

theorem login_attempts_are_limited_witness:
  "length (filter (\<lambda>s. 200 - li_window demo_limiter < s) (hi_failures demo_history [7])) = 1 \<and>
   snd (reserve demo_limiter [7] 200 [9]) = None"
proof -
  have "length (filter (\<lambda>s. 200 - li_window demo_limiter < s) (hi_failures demo_history [7])) \<le> 1"
    using login_attempts_are_limited [OF demo_limiter_run, of 200 "[7]"]
    by (simp add: demo_history_def demo_limiter_def new_limiter_def)
  then show ?thesis
    by (simp add: demo_history_def demo_limiter_def new_limiter_def reserve_def prune_def Let_def dget_or_def)
qed

text \<open>an address spray cannot grow the limiter: in every run the attempts under way and the
  identities it remembers stay within their budgets.\<close>

theorem limiter_memory_is_bounded:
  assumes "limiter_run m h"
  shows "length (li_reservations m) \<le> li_max_in_flight m \<and> card (tracked m) \<le> li_max_tracked m \<and>
    length (li_attempts m) \<le> li_max_tracked m"
proof -
  have ok: "limiter_ok m" using limiter_run_ok [OF assms] by blast
  then have "length (li_attempts m) = card (set (dkeys (li_attempts m)))"
    using distinct_card [of "dkeys (li_attempts m)"] by (simp add: limiter_ok_def dict_ok_def del: set_map)
  also have "\<dots> \<le> card (tracked m)" by (intro card_mono) (auto simp: tracked_def)
  finally show ?thesis using ok by (simp add: limiter_ok_def)
qed

theorem limiter_memory_is_bounded_witness: "card (tracked demo_limiter) \<le> 10"
  using limiter_memory_is_bounded [OF demo_limiter_run] by (simp add: demo_limiter_def new_limiter_def)

text \<open>no rate-limited request is lost from the audit: as long as no counter saturates, the
  requests that were limited are exactly those that persisted audit events report together with those that
  wait for the next event, also after failed writes and for requests that arrive during a write.\<close>

theorem limited_logins_are_accounted:
  assumes "limiter_run m h" and "hi_limited h \<le> max_suppressed"
  shows "hi_limited h = hi_reported h + li_suppressed m +
    (if li_audit_in_flight m then li_reserved_count m + 1 + li_during m else 0)"
  using limiter_run_ok [OF assms(1)] assms(2) by (simp add: accounted_def audit_pending_def)

lemma demo_audit_run:
  "limiter_run (fst (reserve_login_audit demo_limiter 0)) (demo_history\<lparr>hi_limited := 1\<rparr>)"
  using limiting [OF demo_limiter_run, of 0] by (simp add: demo_history_def no_history_def)

theorem limited_logins_are_accounted_witness:
  "li_audit_in_flight (fst (reserve_login_audit demo_limiter 0)) \<and>
   li_reserved_count (fst (reserve_login_audit demo_limiter 0)) = 0"
proof -
  have f: "li_audit_in_flight (fst (reserve_login_audit demo_limiter 0))"
    by (simp add: reserve_login_audit_def demo_limiter_def new_limiter_def)
  have "hi_reported (demo_history\<lparr>hi_limited := 1\<rparr>) = 0" by (simp add: demo_history_def no_history_def)
  then show ?thesis
    using limited_logins_are_accounted [OF demo_audit_run] f by (simp add: max_suppressed_def)
qed

end
