(* ===== verification/Broker.thy ===== *)
theory Broker
  imports Reply "HOL-Library.List_Lexorder"
begin

text \<open>
  \<open>telemetry_broker.py\<close>: the in-memory cache of VPN sessions and interface counters, fed by
  Binary API replies (\<open>apply\<close>) and by snapshots (\<open>reconcile\<close>, \<open>reconcile_interfaces\<close>), which
  turns what it sees into numbered events. A record from RouterOS is a dictionary of dynamic
  values; a \<open>float\<close> carries its value (\<open>None\<close> when it is not finite) and the text that
  \<open>str\<close> gives. The clocks are arguments: \<open>clock\<close> and \<open>ticks\<close> are the readings the call makes.
  The lock is not modelled: each method body is one atomic operation.
\<close>

section \<open>Values and text\<close>

datatype pyval = VNone | VBool bool | VInt int | VFloat "rat option" pystr | VStr pystr | VOther

type_synonym record_dict = "(pystr, pyval) dict"

definition max_text_bytes :: nat where "max_text_bytes = 256"
definition max_cached_sessions :: nat where "max_cached_sessions = 4096"
definition max_cached_interfaces :: nat where "max_cached_interfaces = 1024"
definition max_session_records :: nat where "max_session_records = 4096"
definition max_interface_records :: nat where "max_interface_records = 1024"
definition max_routeros_counter :: int where "max_routeros_counter = 2 ^ 64 - 1"

text \<open>The candidate text of one value, \<open>None\<close> where the loop body says \<open>continue\<close>.\<close>

definition value_text :: "pyval \<Rightarrow> pystr option" where
  "value_text v =
     (case v of
        VStr s \<Rightarrow> if max_text_bytes < length s then None else Some (py_strip s)
      | VInt i \<Rightarrow> if 2 ^ (max_text_bytes * 4) \<le> \<bar>i\<bar> then None else Some (str_of_int i)
      | VFloat (Some _) s \<Rightarrow> Some s
      | _ \<Rightarrow> None)"

fun text_of :: "record_dict \<Rightarrow> string list \<Rightarrow> pystr" where
  "text_of r [] = []"
| "text_of r (key # keys) =
     (case dget r (lit key) of
        None \<Rightarrow> text_of r keys
      | Some v \<Rightarrow>
          (case value_text v of
             None \<Rightarrow> text_of r keys
           | Some text \<Rightarrow>
               if max_text_bytes < length text then text_of r keys
               else case utf8_encode text of
                 None \<Rightarrow> text_of r keys
               | Some bs \<Rightarrow> if length bs \<le> max_text_bytes then text else text_of r keys))"

definition counter_of :: "record_dict \<Rightarrow> string list \<Rightarrow> int" where
  "counter_of r keys =
     (let v = text_of r keys in
      if v = [] then 0
      else case py_int v of
        None \<Rightarrow> 0
      | Some n \<Rightarrow> if 0 \<le> n \<and> n \<le> max_routeros_counter then n else 0)"

definition counter_observed :: "record_dict \<Rightarrow> string list \<Rightarrow> bool" where
  "counter_observed r keys =
     (let v = text_of r keys in
      if v = [] \<or> \<not> isdecimal v then False
      else case py_int v of None \<Rightarrow> False | Some n \<Rightarrow> n \<le> max_routeros_counter)"

section \<open>Normalisation\<close>

datatype counter = RxBytes | TxBytes | RxPackets | TxPackets

definition counters :: "counter list" where
  "counters = [RxBytes, TxBytes, RxPackets, TxPackets]"

fun counter_keys :: "counter \<Rightarrow> string list" where
  "counter_keys RxBytes = [''rx-byte'', ''rx_bytes'']"
| "counter_keys TxBytes = [''tx-byte'', ''tx_bytes'']"
| "counter_keys RxPackets = [''rx-packet'', ''rx_packets'']"
| "counter_keys TxPackets = [''tx-packet'', ''tx_packets'']"

text \<open>The allow-listed fields of a session, as \<open>_payload\<close> copies them.\<close>

record session_payload =
  sp_id :: pystr
  sp_name :: pystr
  sp_vpn_address :: pystr
  sp_source_address :: pystr
  sp_uptime :: pystr
  sp_encoding :: pystr
  sp_service :: pystr
  sp_counter :: "counter \<Rightarrow> int"
  sp_complete :: bool

text \<open>A cached session also knows when it was observed.\<close>

record session = session_payload +
  se_observed_at :: int

definition session_payload :: "session \<Rightarrow> session_payload" where
  "session_payload s =
     \<lparr>sp_id = sp_id s, sp_name = sp_name s, sp_vpn_address = sp_vpn_address s,
      sp_source_address = sp_source_address s, sp_uptime = sp_uptime s, sp_encoding = sp_encoding s,
      sp_service = sp_service s, sp_counter = sp_counter s, sp_complete = sp_complete s\<rparr>"

definition normalize_session :: "record_dict \<Rightarrow> int \<Rightarrow> session option" where
  "normalize_session r observed_at =
     (let given = text_of r [''.id'', ''id''];
          username = text_of r [''name'', ''user'', ''username''];
          vpn_address = text_of r [''address'', ''remote-address'', ''vpn-address''];
          source_address = text_of r [''caller-id'', ''source-address'', ''source''];
          session_id = (if given = [] then username @ lit ''|'' @ vpn_address @ lit ''|'' @ source_address
                        else given)
      in if session_id = [] \<or> username = [] then None
         else Some \<lparr>sp_id = session_id, sp_name = username, sp_vpn_address = vpn_address,
           sp_source_address = source_address, sp_uptime = text_of r [''uptime''],
           sp_encoding = text_of r [''encoding'', ''encryption''], sp_service = text_of r [''service''],
           sp_counter = (\<lambda>c. counter_of r (counter_keys c)),
           sp_complete = list_all (\<lambda>c. counter_observed r (counter_keys c)) counters,
           se_observed_at = observed_at\<rparr>)"

definition preserve_unobserved :: "session \<Rightarrow> record_dict \<Rightarrow> session option \<Rightarrow> session" where
  "preserve_unobserved s r previous =
     (case previous of
        None \<Rightarrow> s
      | Some p \<Rightarrow> s\<lparr>sp_counter :=
          (\<lambda>c. if counter_observed r (counter_keys c) then sp_counter s c else sp_counter p c)\<rparr>)"

datatype clock_kind = ExplicitClock | MonotonicClock

record interface =
  if_id :: pystr
  if_name :: pystr
  if_counter :: "counter \<Rightarrow> int"
  if_observed_at :: int
  if_sampled_at :: rat
  if_clock :: clock_kind
  if_delta :: "(counter \<Rightarrow> int) option"

definition normalize_interface :: "record_dict \<Rightarrow> int \<Rightarrow> rat \<Rightarrow> clock_kind \<Rightarrow> interface option" where
  "normalize_interface r observed_at sampled_at kind =
     (let interface_id = text_of r [''.id'', ''id'']; name = text_of r [''name'', ''interface''] in
      if interface_id = [] \<or> name = [] then None
      else Some \<lparr>if_id = interface_id, if_name = name,
             if_counter = (\<lambda>c. counter_of r (counter_keys c)), if_observed_at = observed_at,
             if_sampled_at = sampled_at, if_clock = kind, if_delta = None\<rparr>)"

text \<open>\<open>_interface_payload\<close>: the rates are present when an interval is known and positive.\<close>

record interface_payload =
  ip_id :: pystr
  ip_name :: pystr
  ip_counter :: "counter \<Rightarrow> int"
  ip_rate :: "(counter \<Rightarrow> rat) option"

definition interface_payload :: "interface \<Rightarrow> rat option \<Rightarrow> interface_payload" where
  "interface_payload i elapsed =
     \<lparr>ip_id = if_id i, ip_name = if_name i, ip_counter = if_counter i,
      ip_rate =
        (case elapsed of
           None \<Rightarrow> None
         | Some t \<Rightarrow>
             if 0 < t
             then Some (\<lambda>c. max 0 (of_int (case if_delta i of None \<Rightarrow> 0 | Some d \<Rightarrow> d c) / t))
             else None)\<rparr>"

section \<open>Events and state\<close>

datatype reset_scope = SessionScope | InterfaceScope

datatype event_payload =
    SessionConnected session_payload
  | SessionUpdated session_payload
  | SessionDisconnected session_payload
  | CounterReset reset_scope pystr pystr "counter list"
  | InterfaceCounters interface_payload
  | SnapshotEvent "session_payload list" "interface_payload list"

record event =
  ev_payload :: event_payload
  ev_sequence :: nat
  ev_timestamp :: int

record broker =
  br_max_sessions :: nat
  br_max_interfaces :: nat
  br_sessions :: "(pystr, session) dict"
  br_interfaces :: "(pystr, interface) dict"
  br_sequence :: nat
  br_counter_resets :: nat
  br_interface_counter_resets :: nat

definition new_broker :: "int \<Rightarrow> int \<Rightarrow> broker" where
  "new_broker max_sessions max_interfaces =
     \<lparr>br_max_sessions = min max_cached_sessions (nat (max 1 max_sessions)),
      br_max_interfaces = min max_cached_interfaces (nat (max 1 max_interfaces)),
      br_sessions = [], br_interfaces = [], br_sequence = 0, br_counter_resets = 0,
      br_interface_counter_resets = 0\<rparr>"

definition timestamp :: "rat option \<Rightarrow> rat \<Rightarrow> int" where
  "timestamp now clock = py_trunc (case now of None \<Rightarrow> clock | Some t \<Rightarrow> t)"

definition emit_event :: "broker \<Rightarrow> event_payload \<Rightarrow> int \<Rightarrow> broker \<times> event" where
  "emit_event b p now =
     (b\<lparr>br_sequence := br_sequence b + 1\<rparr>,
      \<lparr>ev_payload = p, ev_sequence = br_sequence b + 1, ev_timestamp = now\<rparr>)"

definition reset_fields :: "(counter \<Rightarrow> int) \<Rightarrow> (counter \<Rightarrow> int) \<Rightarrow> counter list" where
  "reset_fields previous current = filter (\<lambda>c. current c < previous c) counters"

definition counter_reset_event :: "broker \<Rightarrow> session option \<Rightarrow> session \<Rightarrow> int \<Rightarrow> broker \<times> event list" where
  "counter_reset_event b previous current now =
     (case previous of
        None \<Rightarrow> (b, [])
      | Some p \<Rightarrow>
          (let changed = reset_fields (sp_counter p) (sp_counter current) in
           if changed = [] then (b, [])
           else case emit_event (b\<lparr>br_counter_resets := br_counter_resets b + 1\<rparr>)
                  (CounterReset SessionScope (sp_id current) (sp_name current) changed) now of
                (b, e) \<Rightarrow> (b, [e])))"

definition interface_reset_event :: "broker \<Rightarrow> interface option \<Rightarrow> interface \<Rightarrow> int \<Rightarrow> broker \<times> event list" where
  "interface_reset_event b previous current now =
     (case previous of
        None \<Rightarrow> (b, [])
      | Some p \<Rightarrow>
          (let changed = reset_fields (if_counter p) (if_counter current) in
           if changed = [] then (b, [])
           else case emit_event (b\<lparr>br_interface_counter_resets := br_interface_counter_resets b + 1\<rparr>)
                  (CounterReset InterfaceScope (if_id current) (if_name current) changed) now of
                (b, e) \<Rightarrow> (b, [e])))"

section \<open>\<open>apply\<close>\<close>

definition reply_record :: "reply \<Rightarrow> record_dict" where
  "reply_record r = map (\<lambda>(k, v). (k, VStr v)) (rp_attrs r)"

text \<open>\<open>min(sessions, key=observed_at)\<close>: the first key with the least observation time.\<close>

fun oldest_key :: "(pystr, session) dict \<Rightarrow> pystr option" where
  "oldest_key [] = None"
| "oldest_key ((k, s) # rest) =
     (case oldest_key rest of
        None \<Rightarrow> Some k
      | Some k' \<Rightarrow>
          (case dget rest k' of
             None \<Rightarrow> Some k
           | Some s' \<Rightarrow> if se_observed_at s' < se_observed_at s then Some k' else Some k))"

definition evict :: "nat \<Rightarrow> (pystr, session) dict \<Rightarrow> (pystr, session) dict" where
  "evict limit d =
     (if limit < length d then (case oldest_key d of None \<Rightarrow> d | Some k \<Rightarrow> ddel k d) else d)"

definition apply_reply :: "broker \<Rightarrow> reply \<Rightarrow> rat option \<Rightarrow> rat \<Rightarrow> broker \<times> event list" where
  "apply_reply b reply now clock =
     (if rp_kind reply \<noteq> lit ''re'' then (b, [])
      else
        let observed_at = timestamp now clock; r = reply_record reply;
            session_id = text_of r [''.id'', ''id''] in
        if reply_dead reply then
          (case dget (br_sessions b) session_id of
             None \<Rightarrow> (b, [])
           | Some previous \<Rightarrow>
               if session_id = [] then (b, [])
               else case emit_event (b\<lparr>br_sessions := ddel session_id (br_sessions b)\<rparr>)
                      (SessionDisconnected (session_payload previous)) observed_at of
                    (b, e) \<Rightarrow> (b, [e]))
        else
          (case normalize_session r observed_at of
             None \<Rightarrow> (b, [])
           | Some s \<Rightarrow>
               let previous = dget (br_sessions b) (sp_id s);
                   s = preserve_unobserved s r previous;
                   sessions = evict (br_max_sessions b) (dset (sp_id s) s (br_sessions b));
                   name = (if previous = None then SessionConnected else SessionUpdated) in
               (case counter_reset_event (b\<lparr>br_sessions := sessions\<rparr>) previous s observed_at of
                  (b, resets) \<Rightarrow>
                    (case emit_event b (name (session_payload s)) observed_at of
                       (b, e) \<Rightarrow> (b, resets @ [e])))))"

section \<open>\<open>reconcile\<close>\<close>

datatype broker_error = SessionSnapshotTooLarge | InterfaceSnapshotTooLarge

text \<open>The loop over the records, with its 1-based \<open>record_count\<close>.\<close>

fun collect_sessions ::
  "nat \<Rightarrow> int \<Rightarrow> record_dict list \<Rightarrow> (pystr, session \<times> record_dict) dict
     \<Rightarrow> broker_error + (pystr, session \<times> record_dict) dict" where
  "collect_sessions record_count observed_at [] incoming = Inr incoming"
| "collect_sessions record_count observed_at (r # rs) incoming =
     (if max_session_records < record_count then Inl SessionSnapshotTooLarge
      else collect_sessions (record_count + 1) observed_at rs
        (case normalize_session r observed_at of
           None \<Rightarrow> incoming
         | Some s \<Rightarrow> dset (sp_id s) (s, r) incoming))"

fun disconnect_events :: "broker \<Rightarrow> (pystr, session) dict \<Rightarrow> (pystr, session) dict \<Rightarrow> int
    \<Rightarrow> broker \<times> event list" where
  "disconnect_events b [] sessions now = (b, [])"
| "disconnect_events b ((k, previous) # old) sessions now =
     (if k \<in> set (dkeys sessions) then disconnect_events b old sessions now
      else case emit_event b (SessionDisconnected (session_payload previous)) now of
        (b, e) \<Rightarrow> (case disconnect_events b old sessions now of (b, es) \<Rightarrow> (b, e # es)))"

text \<open>\<open>self._sessions\<close> is still the old cache while the loop runs.\<close>

fun upsert_events :: "broker \<Rightarrow> (pystr, session) dict \<Rightarrow> int \<Rightarrow> broker \<times> event list" where
  "upsert_events b [] now = (b, [])"
| "upsert_events b ((k, s) # rest) now =
     (let previous = dget (br_sessions b) k;
          name = (if previous = None then SessionConnected else SessionUpdated) in
      case counter_reset_event b previous s now of (b, resets) \<Rightarrow>
      (case emit_event b (name (session_payload s)) now of (b, e) \<Rightarrow>
       (case upsert_events b rest now of (b, es) \<Rightarrow> (b, resets @ e # es))))"

definition interface_list :: "broker \<Rightarrow> interface_payload list" where
  "interface_list b =
     map (\<lambda>(k, i). interface_payload i None) (sort_key fst (br_interfaces b))"

definition reconcile :: "broker \<Rightarrow> record_dict list \<Rightarrow> rat option \<Rightarrow> rat \<Rightarrow> broker \<times> (broker_error + event list)" where
  "reconcile b records now clock =
     (let observed_at = timestamp now clock in
      case collect_sessions 1 observed_at records [] of
        Inl e \<Rightarrow> (b, Inl e)
      | Inr incoming \<Rightarrow>
          let sessions = map (\<lambda>(k, s, r). (k, preserve_unobserved s r (dget (br_sessions b) k))) incoming in
          (case disconnect_events b (br_sessions b) sessions observed_at of (b, gone) \<Rightarrow>
           (case upsert_events b sessions observed_at of (b, changed) \<Rightarrow>
            let b = b\<lparr>br_sessions := last_n (br_max_sessions b) sessions\<rparr>;
                snapshot = map (\<lambda>(k, s). session_payload s) (br_sessions b) in
            (case emit_event b (SnapshotEvent snapshot (interface_list b)) observed_at of
               (b, e) \<Rightarrow> (b, Inr (gone @ changed @ [e]))))))"

section \<open>\<open>reconcile_interfaces\<close> and the snapshots\<close>

fun collect_interfaces ::
  "nat \<Rightarrow> int \<Rightarrow> rat \<Rightarrow> clock_kind \<Rightarrow> record_dict list \<Rightarrow> (pystr, interface) dict
     \<Rightarrow> broker_error + (pystr, interface) dict" where
  "collect_interfaces record_count observed_at sampled_at kind [] incoming = Inr incoming"
| "collect_interfaces record_count observed_at sampled_at kind (r # rs) incoming =
     (if max_interface_records < record_count then Inl InterfaceSnapshotTooLarge
      else collect_interfaces (record_count + 1) observed_at sampled_at kind rs
        (case normalize_interface r observed_at sampled_at kind of
           None \<Rightarrow> incoming
         | Some i \<Rightarrow> dset (if_id i) i incoming))"

text \<open>One interface against its predecessor: the deltas and the interval, when the two
  samples were taken with the same kind of clock.\<close>

definition sample_interface :: "interface \<Rightarrow> interface option \<Rightarrow> rat \<Rightarrow> clock_kind \<Rightarrow> interface \<times> rat option" where
  "sample_interface i previous sampled_at kind =
     (case previous of
        None \<Rightarrow> (i, None)
      | Some p \<Rightarrow>
          if if_clock p \<noteq> kind then (i, None)
          else (i\<lparr>if_delta := Some (\<lambda>c. if_counter i c - if_counter p c)\<rparr>,
                Some (max 0 (sampled_at - if_sampled_at p))))"

fun interface_events :: "broker \<Rightarrow> (pystr, interface) dict \<Rightarrow> int \<Rightarrow> rat \<Rightarrow> clock_kind
    \<Rightarrow> broker \<times> (pystr, interface) dict \<times> event list" where
  "interface_events b [] now sampled_at kind = (b, [], [])"
| "interface_events b ((k, i) # rest) now sampled_at kind =
     (let previous = dget (br_interfaces b) k in
      case interface_reset_event b previous i now of (b, resets) \<Rightarrow>
      (case sample_interface i previous sampled_at kind of (i, elapsed) \<Rightarrow>
       (case emit_event (b\<lparr>br_interfaces := dset k i (br_interfaces b)\<rparr>)
               (InterfaceCounters (interface_payload i elapsed)) now of (b, e) \<Rightarrow>
        (case interface_events b rest now sampled_at kind of
           (b, incoming, es) \<Rightarrow> (b, (k, i) # incoming, resets @ e # es)))))"

definition reconcile_interfaces ::
  "broker \<Rightarrow> record_dict list \<Rightarrow> rat option \<Rightarrow> rat \<Rightarrow> rat \<Rightarrow> broker \<times> (broker_error + event list)" where
  "reconcile_interfaces b records now clock ticks =
     (let observed_at = timestamp now clock;
          kind = (if now = None then MonotonicClock else ExplicitClock);
          sampled_at = (case now of None \<Rightarrow> ticks | Some t \<Rightarrow> t) in
      case collect_interfaces 1 observed_at sampled_at kind records [] of
        Inl e \<Rightarrow> (b, Inl e)
      | Inr incoming \<Rightarrow>
          (case interface_events b incoming observed_at sampled_at kind of
             (b, incoming, events) \<Rightarrow>
               (b\<lparr>br_interfaces := last_n (br_max_interfaces b) incoming\<rparr>, Inr events)))"

definition interfaces_snapshot :: "broker \<Rightarrow> interface_payload list" where
  "interfaces_snapshot b = interface_list b"

definition snapshot :: "broker \<Rightarrow> session_payload list" where
  "snapshot b = map (\<lambda>(k, s). session_payload s) (sort_key fst (br_sessions b))"

record recovery =
  rec_sequence :: nat
  rec_sessions :: "session_payload list"
  rec_interfaces :: "interface_payload list"

definition recovery_snapshot :: "broker \<Rightarrow> recovery" where
  "recovery_snapshot b =
     \<lparr>rec_sequence = br_sequence b, rec_sessions = snapshot b, rec_interfaces = interface_list b\<rparr>"

section \<open>Numbering\<close>

text \<open>\<open>numbered n es\<close>: the events carry the sequence numbers \<open>n + 1, n + 2, \<dots>\<close>.\<close>

fun numbered :: "nat \<Rightarrow> event list \<Rightarrow> bool" where
  "numbered n [] = True"
| "numbered n (e # es) = (ev_sequence e = Suc n \<and> numbered (Suc n) es)"

lemma numbered_append: "numbered n (xs @ ys) \<longleftrightarrow> numbered n xs \<and> numbered (n + length xs) ys"
  by (induction xs arbitrary: n) auto

lemma numbered_iff: "numbered n es \<longleftrightarrow> map ev_sequence es = [Suc n..<Suc n + length es]"
  by (induction es arbitrary: n) (auto simp: upt_conv_Cons simp del: upt_Suc)

text \<open>An operation is well numbered when its events continue the broker's sequence.\<close>

definition continues :: "broker \<Rightarrow> broker \<Rightarrow> event list \<Rightarrow> bool" where
  "continues b b' es \<longleftrightarrow> numbered (br_sequence b) es \<and> br_sequence b' = br_sequence b + length es"

lemma continues_Nil [simp]: "continues b b []"
  by (simp add: continues_def)

lemma emit_event_continues: "emit_event b p now = (b', e) \<Longrightarrow> continues b b' [e]"
  by (auto simp: emit_event_def continues_def)

lemma continues_append: "continues b b1 xs \<Longrightarrow> continues b1 b2 ys \<Longrightarrow> continues b b2 (xs @ ys)"
  by (simp add: continues_def numbered_append)

lemma continues_Cons: "continues b b1 [x] \<Longrightarrow> continues b1 b2 ys \<Longrightarrow> continues b b2 (x # ys)"
  using continues_append [of b b1 "[x]" b2 ys] by simp

lemma continues_update [simp]:
  "continues (b\<lparr>br_sessions := s\<rparr>) b' es = continues b b' es"
  "continues (b\<lparr>br_interfaces := i\<rparr>) b' es = continues b b' es"
  "continues (b\<lparr>br_counter_resets := n\<rparr>) b' es = continues b b' es"
  "continues (b\<lparr>br_interface_counter_resets := n\<rparr>) b' es = continues b b' es"
  "continues b (b'\<lparr>br_sessions := s\<rparr>) es = continues b b' es"
  "continues b (b'\<lparr>br_interfaces := i\<rparr>) es = continues b b' es"
  by (simp_all add: continues_def)

lemma counter_reset_continues: "counter_reset_event b p s now = (b', es) \<Longrightarrow> continues b b' es"
  by (auto simp: counter_reset_event_def Let_def split: option.splits if_splits prod.splits
      dest!: emit_event_continues)

lemma interface_reset_continues: "interface_reset_event b p s now = (b', es) \<Longrightarrow> continues b b' es"
  by (auto simp: interface_reset_event_def Let_def split: option.splits if_splits prod.splits
      dest!: emit_event_continues)

lemma apply_reply_cases [consumes 1, case_names ignored gone seen]:
  assumes "apply_reply b reply now clock = (b', es)"
  obtains "b' = b" "es = []"
  | previous k e where "rp_kind reply = lit ''re''" "reply_dead reply"
      "k = text_of (reply_record reply) [''.id'', ''id'']" "k \<noteq> []" "dget (br_sessions b) k = Some previous"
      "emit_event (b\<lparr>br_sessions := ddel k (br_sessions b)\<rparr>) (SessionDisconnected (session_payload previous))
         (timestamp now clock) = (b', e)" "es = [e]"
  | s0 s previous b1 resets e where "rp_kind reply = lit ''re''" "\<not> reply_dead reply"
      "normalize_session (reply_record reply) (timestamp now clock) = Some s0"
      "previous = dget (br_sessions b) (sp_id s0)"
      "s = preserve_unobserved s0 (reply_record reply) previous"
      "counter_reset_event (b\<lparr>br_sessions := evict (br_max_sessions b) (dset (sp_id s0) s (br_sessions b))\<rparr>)
         previous s (timestamp now clock) = (b1, resets)"
      "emit_event b1 ((if previous = None then SessionConnected else SessionUpdated) (session_payload s))
         (timestamp now clock) = (b', e)" "es = resets @ [e]"
proof -
  have id: "sp_id (preserve_unobserved s r p) = sp_id s" for s r p
    by (simp add: preserve_unobserved_def split: option.split)
  consider "rp_kind reply \<noteq> lit ''re''" | "rp_kind reply = lit ''re''" "reply_dead reply"
    | "rp_kind reply = lit ''re''" "\<not> reply_dead reply" by blast
  then show thesis
  proof cases
    case 1
    with assms that(1) show thesis by (simp add: apply_reply_def)
  next
    case 2
    let ?k = "text_of (reply_record reply) [''.id'', ''id'']"
    show thesis
    proof (cases "?k = [] \<or> dget (br_sessions b) ?k = None")
      case True
      with 2 assms that(1) show thesis
        by (auto simp: apply_reply_def Let_def split: option.split_asm)
    next
      case False
      then obtain previous where p: "dget (br_sessions b) ?k = Some previous" by auto
      obtain b2 e where "emit_event (b\<lparr>br_sessions := ddel ?k (br_sessions b)\<rparr>)
          (SessionDisconnected (session_payload previous)) (timestamp now clock) = (b2, e)" by fastforce
      with 2 False p assms that(2) [OF 2 refl _ p] show thesis
        by (simp add: apply_reply_def Let_def)
    qed
  next
    case 3
    show thesis
    proof (cases "normalize_session (reply_record reply) (timestamp now clock)")
      case None
      with 3 assms that(1) show thesis by (simp add: apply_reply_def Let_def)
    next
      case (Some s0)
      let ?p = "dget (br_sessions b) (sp_id s0)"
      let ?s = "preserve_unobserved s0 (reply_record reply) ?p"
      obtain b1 resets where r: "counter_reset_event
          (b\<lparr>br_sessions := evict (br_max_sessions b) (dset (sp_id s0) ?s (br_sessions b))\<rparr>)
          ?p ?s (timestamp now clock) = (b1, resets)" by fastforce
      obtain b2 e where e: "emit_event b1 ((if ?p = None then SessionConnected else SessionUpdated)
          (session_payload ?s)) (timestamp now clock) = (b2, e)" by fastforce
      from 3 Some r e assms have "b2 = b'" "es = resets @ [e]"
        by (simp_all add: apply_reply_def Let_def id)
      with that(3) [OF 3 Some refl refl r] e show thesis by simp
    qed
  qed
qed

lemma apply_reply_continues: "apply_reply b reply now clock = (b', es) \<Longrightarrow> continues b b' es"
  by (erule apply_reply_cases)
     (auto dest!: emit_event_continues counter_reset_continues intro: continues_append)

lemma disconnect_events_continues:
  "disconnect_events b old sessions now = (b', es) \<Longrightarrow> continues b b' es \<and> br_sessions b' = br_sessions b"
proof (induction old arbitrary: b b' es)
  case (Cons x old)
  obtain k previous where x: "x = (k, previous)" by fastforce
  obtain b1 e where 1: "emit_event b (SessionDisconnected (session_payload previous)) now = (b1, e)" by fastforce
  obtain b2 es' where 2: "disconnect_events b1 old sessions now = (b2, es')" by fastforce
  have "br_sessions b1 = br_sessions b" using 1 by (auto simp: emit_event_def)
  with Cons.IH [OF 2] emit_event_continues [OF 1] Cons x 1 2 show ?case
    by (auto intro: continues_Cons split: if_splits)
qed simp

lemma upsert_events_continues: "upsert_events b sessions now = (b', es) \<Longrightarrow> continues b b' es"
proof (induction b sessions now arbitrary: b' es rule: upsert_events.induct)
  case (2 b k s rest now)
  let ?name = "if dget (br_sessions b) k = None then SessionConnected else SessionUpdated"
  obtain b1 resets where 1: "counter_reset_event b (dget (br_sessions b) k) s now = (b1, resets)" by fastforce
  obtain b2 e where 2: "emit_event b1 (?name (session_payload s)) now = (b2, e)" by fastforce
  obtain b3 es' where 3: "upsert_events b2 rest now = (b3, es')" by fastforce
  have "continues b2 b3 es'" using "2.IH" 1 2 3 by fastforce
  with counter_reset_continues [OF 1] emit_event_continues [OF 2] "2.prems" 1 2 3 show ?case
    by (auto simp: Let_def intro: continues_append continues_Cons)
qed simp

lemma interface_events_continues:
  "interface_events b incoming now t kind = (b', incoming', es) \<Longrightarrow> continues b b' es"
proof (induction incoming arbitrary: b b' incoming' es)
  case (Cons x rest)
  obtain k i where x: "x = (k, i)" by fastforce
  obtain b1 resets where 1: "interface_reset_event b (dget (br_interfaces b) k) i now = (b1, resets)" by fastforce
  obtain i' elapsed where s: "sample_interface i (dget (br_interfaces b) k) t kind = (i', elapsed)" by fastforce
  obtain b2 e where 2: "emit_event (b1\<lparr>br_interfaces := dset k i' (br_interfaces b1)\<rparr>)
      (InterfaceCounters (interface_payload i' elapsed)) now = (b2, e)" by fastforce
  obtain b3 in3 es' where 3: "interface_events b2 rest now t kind = (b3, in3, es')" by (metis prod_cases3)
  from interface_reset_continues [OF 1] emit_event_continues [OF 2] Cons.IH [OF 3] Cons.prems x 1 2 3 s
  show ?case by (auto simp: Let_def intro: continues_append continues_Cons)
qed simp

lemma reconcile_continues: "reconcile b rs now clock = (b', Inr es) \<Longrightarrow> continues b b' es"
  by (auto simp: reconcile_def Let_def split: sum.splits prod.splits
      dest!: disconnect_events_continues upsert_events_continues emit_event_continues
      intro!: continues_append)

lemma reconcile_interfaces_continues:
  "reconcile_interfaces b rs now clock ticks = (b', Inr es) \<Longrightarrow> continues b b' es"
  by (auto simp: reconcile_interfaces_def Let_def split: sum.splits prod.splits
      dest!: interface_events_continues)

end
