(* ===== verification/Supervisor.thy ===== *)
theory Supervisor
  imports Broker
begin

text \<open>
  \<open>telemetry_supervisor.py\<close>: the worker that keeps one read-only Binary API stream open
  (\<open>run_attempt\<close>, \<open>run_forever\<close>) and the sampler of interface counters (\<open>sample_once\<close>). Both get
  everything they touch injected: the connection, the credentials, the broker, the clock, the stop event
  and the authorization callbacks. Here the injected objects are the functions of a record \<open>deps\<close> on a
  state of type \<open>'w\<close>, the rest of the program: whatever other threads do meanwhile is part of what these
  functions do to it. A stream may go on for ever, so the listen loop and what contains it are partial
  functions: \<open>None\<close> means that the call does not return. The lock makes the updates of the metrics
  atomic.
\<close>

section \<open>Failures\<close>

text \<open>An exception by the class the code distinguishes, with its text.\<close>

datatype failure = SupervisorError pystr | TimeoutFailure pystr | OsFailure pystr | OtherFailure pystr

definition error_code :: "failure \<Rightarrow> pystr" where
  "error_code e =
     (case e of
        SupervisorError t \<Rightarrow> if t = [] then lit ''supervisor_error'' else take 64 t
      | TimeoutFailure _ \<Rightarrow> lit ''timeout''
      | OsFailure _ \<Rightarrow> lit ''connection_error''
      | OtherFailure _ \<Rightarrow> lit ''stream_error'')"

definition credentials_unavailable :: failure where
  "credentials_unavailable = SupervisorError (lit ''credentials_unavailable'')"

text \<open>Statements that change the state and may raise, one after the other; \<open>finally\<close> runs its
  second part in either case, and an exception of that part replaces the outcome.\<close>

definition sbind :: "('s \<Rightarrow> 's \<times> ('e + 'a)) \<Rightarrow> ('a \<Rightarrow> 's \<Rightarrow> 's \<times> ('e + 'b)) \<Rightarrow> 's \<Rightarrow> 's \<times> ('e + 'b)" where
  "sbind m f s = (case m s of (s, Inl e) \<Rightarrow> (s, Inl e) | (s, Inr a) \<Rightarrow> f a s)"

definition finally_do :: "('s \<Rightarrow> 's \<times> ('e + unit)) \<Rightarrow> 's \<times> ('e + 'a) \<Rightarrow> 's \<times> ('e + 'a)" where
  "finally_do cleanup outcome =
     (case outcome of (s, r) \<Rightarrow> (case cleanup s of (s, Inl e) \<Rightarrow> (s, Inl e) | (s, Inr _) \<Rightarrow> (s, r)))"

section \<open>What is injected\<close>

datatype provided = CredentialPair pystr pystr | CredentialLease pystr pystr pystr

datatype listened = StreamEnds | StreamReply reply | StreamOther

record 'w deps =
  dp_factory :: "'w \<Rightarrow> 'w \<times> (failure + unit)"
  dp_credentials :: "'w \<Rightarrow> 'w \<times> (failure + provided)"
  dp_connect :: "pystr \<Rightarrow> pystr \<Rightarrow> 'w \<Rightarrow> 'w \<times> (failure + unit)"
  dp_close :: "'w \<Rightarrow> 'w \<times> (failure + unit)"
  dp_snapshot :: "('w \<Rightarrow> 'w \<times> (failure + record_dict list)) option"
  dp_listen :: "'w \<Rightarrow> 'w \<times> (failure + listened)"
  dp_interfaces :: "'w \<Rightarrow> 'w \<times> (failure + reply list)"
  dp_clock :: "'w \<Rightarrow> 'w \<times> rat"
  dp_stopped :: "'w \<Rightarrow> bool"
  dp_wait :: "rat \<Rightarrow> 'w \<Rightarrow> 'w \<times> bool"
  dp_apply :: "reply \<Rightarrow> rat option \<Rightarrow> 'w \<Rightarrow> 'w \<times> (failure + event list)"
  dp_reconcile :: "record_dict list \<Rightarrow> rat option \<Rightarrow> 'w \<Rightarrow> 'w \<times> (failure + event list)"
  dp_reconcile_interfaces :: "record_dict list \<Rightarrow> 'w \<Rightarrow> 'w \<times> (failure + event list)"
  dp_on_sample :: "('w \<Rightarrow> 'w \<times> (failure + unit)) option"
  dp_on_events :: "(event list \<Rightarrow> 'w \<Rightarrow> 'w \<times> (failure + unit)) option"
  dp_after_dispatch :: "(event list \<Rightarrow> 'w \<Rightarrow> 'w \<times> (failure + unit)) option"
  dp_check :: "(pystr \<Rightarrow> pystr \<Rightarrow> 'w \<Rightarrow> 'w \<times> (failure + bool)) option"
  dp_ref_check :: "(pystr \<Rightarrow> 'w \<Rightarrow> 'w \<times> (failure + bool)) option"
  dp_ref_dispatch :: "(pystr \<Rightarrow> 'w \<Rightarrow> 'w \<times> (failure + bool)) option"

text \<open>\<open>dp_ref_dispatch ref\<close> answers whether \<open>authorization_ref_dispatch\<close> runs its callback; the
  callback then runs at once, under the lock that the function holds.\<close>

definition require_authorized :: "'w deps \<Rightarrow> pystr \<times> pystr \<Rightarrow> 'w \<Rightarrow> 'w \<times> (failure + unit)" where
  "require_authorized d credentials w =
     (case dp_check d of
        None \<Rightarrow> (w, Inr ())
      | Some check \<Rightarrow>
          sbind (check (fst credentials) (snd credentials))
            (\<lambda>valid w. (w, if valid then Inr () else Inl credentials_unavailable)) w)"

definition require_authorization_ref :: "'w deps \<Rightarrow> pystr \<Rightarrow> 'w \<Rightarrow> 'w \<times> (failure + unit)" where
  "require_authorization_ref d ref w =
     (case dp_ref_check d of
        None \<Rightarrow> (w, Inl credentials_unavailable)
      | Some check \<Rightarrow>
          sbind (check ref) (\<lambda>valid w. (w, if valid then Inr () else Inl credentials_unavailable)) w)"

text \<open>What authorizes an attempt: the reference of a lease, or a credential pair.\<close>

datatype authority = ByRef pystr | ByPair "pystr \<times> pystr"

definition require_attempt_authorized :: "'w deps \<Rightarrow> authority \<Rightarrow> 'w \<Rightarrow> 'w \<times> (failure + unit)" where
  "require_attempt_authorized d a =
     (case a of ByRef ref \<Rightarrow> require_authorization_ref d ref | ByPair credentials \<Rightarrow> require_authorized d credentials)"

text \<open>Authenticate the connection with whatever the provider hands out.\<close>

definition connect_with :: "'w deps \<Rightarrow> 'w \<Rightarrow> 'w \<times> (failure + authority)" where
  "connect_with d =
     sbind (dp_credentials d) (\<lambda>provided.
       case provided of
         CredentialLease username password ref \<Rightarrow>
           sbind (dp_connect d username password) (\<lambda>_ w. (w, Inr (ByRef ref)))
       | CredentialPair username password \<Rightarrow>
           sbind (dp_connect d username password) (\<lambda>_ w. (w, Inr (ByPair (username, password)))))"

section \<open>Dispatch\<close>

text \<open>The closure \<open>dispatch\<close>: change the broker and hand the events on, in one go.\<close>

definition dispatch_events :: "'w deps \<Rightarrow> ('w \<Rightarrow> 'w \<times> (failure + event list)) \<Rightarrow> 'w \<Rightarrow> 'w \<times> (failure + event list)" where
  "dispatch_events d event_factory =
     sbind event_factory (\<lambda>events w.
       case dp_on_events d of
         None \<Rightarrow> (w, Inr events)
       | Some on_events \<Rightarrow>
           if events = [] then (w, Inr events)
           else sbind (on_events events) (\<lambda>_ w. (w, Inr events)) w)"

definition authorized_dispatch :: "'w deps \<Rightarrow> authority \<Rightarrow> ('w \<Rightarrow> 'w \<times> (failure + event list))
    \<Rightarrow> 'w \<Rightarrow> 'w \<times> (failure + event list)" where
  "authorized_dispatch d a event_factory =
     (case (a, dp_ref_dispatch d) of
        (ByRef ref, Some ref_dispatch) \<Rightarrow>
          sbind (ref_dispatch ref) (\<lambda>run w.
            if run then dispatch_events d event_factory w else (w, Inl credentials_unavailable))
      | _ \<Rightarrow>
          if (case a of ByRef _ \<Rightarrow> dp_on_events d \<noteq> None | ByPair _ \<Rightarrow> False)
          then (\<lambda>w. (w, Inl credentials_unavailable))
          else sbind (require_attempt_authorized d a) (\<lambda>_. dispatch_events d event_factory))"

section \<open>The supervisor\<close>

record supervisor_config =
  cf_enabled :: bool
  cf_snapshot_timeout :: rat
  cf_poll_interval :: rat
  cf_initial_backoff :: rat
  cf_max_backoff :: rat

definition config_valid :: "supervisor_config \<Rightarrow> bool" where
  "config_valid c \<longleftrightarrow> 0 < cf_snapshot_timeout c \<and> 0 < cf_poll_interval c \<and> 0 < cf_initial_backoff c \<and>
     cf_initial_backoff c \<le> cf_max_backoff c"

definition default_config :: supervisor_config where
  "default_config = \<lparr>cf_enabled = False, cf_snapshot_timeout = 5, cf_poll_interval = 1,
     cf_initial_backoff = 1, cf_max_backoff = 30\<rparr>"

datatype status = Disabled | Stopped | Connecting | Healthy | Degraded

record 'w supervisor =
  sv_config :: supervisor_config
  sv_status :: status
  sv_attempts :: nat
  sv_reconnects :: nat
  sv_failures :: nat
  sv_events :: nat
  sv_last_connected :: "int option"
  sv_last_event :: "int option"
  sv_last_snapshot :: "int option"
  sv_last_error :: "pystr option"
  sv_backoff :: rat
  sv_world :: 'w

definition new_supervisor :: "supervisor_config \<Rightarrow> 'w \<Rightarrow> 'w supervisor" where
  "new_supervisor config w =
     \<lparr>sv_config = config, sv_status = (if cf_enabled config then Stopped else Disabled), sv_attempts = 0,
      sv_reconnects = 0, sv_failures = 0, sv_events = 0, sv_last_connected = None, sv_last_event = None,
      sv_last_snapshot = None, sv_last_error = None, sv_backoff = cf_initial_backoff config, sv_world = w\<rparr>"

record supervisor_health =
  he_status :: status
  he_enabled :: bool
  he_attempts :: nat
  he_reconnects :: nat
  he_failures :: nat
  he_events :: nat
  he_last_connected :: "int option"
  he_last_event :: "int option"
  he_last_snapshot :: "int option"
  he_last_error :: "pystr option"
  he_backoff :: rat
  he_sequence :: nat

definition health_of :: "nat \<Rightarrow> 'w supervisor \<Rightarrow> supervisor_health" where
  "health_of broker_sequence s =
     \<lparr>he_status = sv_status s, he_enabled = cf_enabled (sv_config s), he_attempts = sv_attempts s,
      he_reconnects = sv_reconnects s, he_failures = sv_failures s, he_events = sv_events s,
      he_last_connected = sv_last_connected s, he_last_event = sv_last_event s,
      he_last_snapshot = sv_last_snapshot s, he_last_error = sv_last_error s, he_backoff = sv_backoff s,
      he_sequence = broker_sequence\<rparr>"

definition stop_supervisor :: "('w \<Rightarrow> 'w) \<Rightarrow> 'w supervisor \<Rightarrow> 'w supervisor" where
  "stop_supervisor set_event s = s\<lparr>sv_world := set_event (sv_world s), sv_status := Stopped\<rparr>"

text \<open>A step of the rest of the program, seen from the supervisor.\<close>

definition outside :: "('w \<Rightarrow> 'w \<times> 'r) \<Rightarrow> 'w supervisor \<Rightarrow> 'w supervisor \<times> 'r" where
  "outside m s = (case m (sv_world s) of (w, r) \<Rightarrow> (s\<lparr>sv_world := w\<rparr>, r))"

definition read_clock :: "'w deps \<Rightarrow> 'w supervisor \<Rightarrow> 'w supervisor \<times> (failure + rat)" where
  "read_clock d s = (case outside (dp_clock d) s of (s, t) \<Rightarrow> (s, Inr t))"


definition updating :: "('w supervisor \<Rightarrow> 'w supervisor) \<Rightarrow> 'w supervisor \<Rightarrow> 'w supervisor \<times> (failure + unit)" where
  "updating f s = (f s, Inr ())"

subsection \<open>\<open>_publish\<close>\<close>

definition note_events :: "nat \<Rightarrow> int \<Rightarrow> bool \<Rightarrow> 'w supervisor \<Rightarrow> 'w supervisor" where
  "note_events n now is_snapshot s =
     s\<lparr>sv_events := sv_events s + n, sv_last_event := Some now,
       sv_last_snapshot := (if is_snapshot then Some now else sv_last_snapshot s)\<rparr>"

definition publish_with :: "'w deps \<Rightarrow> authority \<Rightarrow> ('w \<Rightarrow> 'w \<times> (failure + event list)) \<Rightarrow> bool
    \<Rightarrow> 'w supervisor \<Rightarrow> 'w supervisor \<times> (failure + unit)" where
  "publish_with d a event_factory is_snapshot =
     sbind (outside (authorized_dispatch d a event_factory)) (\<lambda>events.
       if events = [] then updating (\<lambda>s. s)
       else sbind (read_clock d) (\<lambda>now.
         sbind (updating (note_events (length events) (py_trunc now) is_snapshot)) (\<lambda>_.
           case dp_after_dispatch d of
             None \<Rightarrow> updating (\<lambda>s. s)
           | Some after \<Rightarrow> outside (after events))))"

text \<open>The two event factories: \<open>now=int(self._clock())\<close> is read when they run.\<close>

definition at_clock :: "'w deps \<Rightarrow> (rat \<Rightarrow> 'w \<Rightarrow> 'w \<times> (failure + event list)) \<Rightarrow> 'w \<Rightarrow> 'w \<times> (failure + event list)" where
  "at_clock d f w = (case dp_clock d w of (w, t) \<Rightarrow> f (of_int (py_trunc t)) w)"

definition apply_factory :: "'w deps \<Rightarrow> reply \<Rightarrow> 'w \<Rightarrow> 'w \<times> (failure + event list)" where
  "apply_factory d reply = at_clock d (\<lambda>now. dp_apply d reply (Some now))"

definition reconcile_factory :: "'w deps \<Rightarrow> record_dict list \<Rightarrow> 'w \<Rightarrow> 'w \<times> (failure + event list)" where
  "reconcile_factory d records = at_clock d (\<lambda>now. dp_reconcile d records (Some now))"

subsection \<open>\<open>run_attempt\<close>\<close>

definition attempt_begins :: "'w supervisor \<Rightarrow> 'w supervisor" where
  "attempt_begins s = s\<lparr>sv_attempts := sv_attempts s + 1, sv_status := Connecting, sv_last_error := None\<rparr>"

definition note_connected :: "bool \<Rightarrow> int \<Rightarrow> 'w supervisor \<Rightarrow> 'w supervisor" where
  "note_connected with_snapshot now s =
     s\<lparr>sv_status := (if with_snapshot then Connecting else Healthy),
       sv_reconnects := (if sv_last_connected s = None then sv_reconnects s else sv_reconnects s + 1),
       sv_last_connected := Some now\<rparr>"

definition take_snapshot :: "'w deps \<Rightarrow> authority \<Rightarrow> ('w \<Rightarrow> 'w \<times> (failure + record_dict list))
    \<Rightarrow> 'w supervisor \<Rightarrow> 'w supervisor \<times> (failure + unit)" where
  "take_snapshot d a reader =
     sbind (outside (require_attempt_authorized d a)) (\<lambda>_.
     sbind (read_clock d) (\<lambda>started.
     sbind (outside reader) (\<lambda>records.
     sbind (outside (require_attempt_authorized d a)) (\<lambda>_.
     sbind (read_clock d) (\<lambda>finished s.
       if cf_snapshot_timeout (sv_config s) < finished - started
       then (s, Inl (SupervisorError (lit ''snapshot_timeout'')))
       else sbind (publish_with d a (reconcile_factory d records) True) (\<lambda>_.
         updating (\<lambda>s. s\<lparr>sv_status := Healthy\<rparr>)) s)))))"

text \<open>The part of the attempt before the stream is read.\<close>

definition attempt_opens :: "'w deps \<Rightarrow> 'w supervisor \<Rightarrow> 'w supervisor \<times> (failure + authority)" where
  "attempt_opens d =
     sbind (outside (connect_with d)) (\<lambda>a.
     sbind (outside (require_attempt_authorized d a)) (\<lambda>_.
     sbind (read_clock d) (\<lambda>now.
     sbind (updating (note_connected (dp_snapshot d \<noteq> None) (py_trunc now))) (\<lambda>_.
     sbind (case dp_snapshot d of None \<Rightarrow> updating (\<lambda>s. s) | Some reader \<Rightarrow> take_snapshot d a reader) (\<lambda>_.
     sbind (updating (\<lambda>s. s\<lparr>sv_backoff := cf_initial_backoff (sv_config s)\<rparr>)) (\<lambda>_ s.
       (s, Inr a)))))))"

text \<open>What one reply does: \<open>Inr True\<close> goes on reading, \<open>Inr False\<close> is the \<open>return\<close> after a stop
  request, and every other end of the stream is an exception.\<close>

definition listen_step :: "'w deps \<Rightarrow> authority \<Rightarrow> 'w supervisor \<Rightarrow> 'w supervisor \<times> (failure + bool)" where
  "listen_step d a =
     sbind (outside (dp_listen d)) (\<lambda>item s.
       if item = StreamEnds then (s, Inl (SupervisorError (lit ''listen_ended'')))
       else if dp_stopped d (sv_world s) then (s, Inr False)
       else sbind (outside (require_attempt_authorized d a)) (\<lambda>_.
         case item of
           StreamReply reply \<Rightarrow>
             sbind (publish_with d a (apply_factory d reply) False) (\<lambda>_ s. (s, Inr True))
         | _ \<Rightarrow> (\<lambda>s. (s, Inl (SupervisorError (lit ''invalid_reply''))))) s)"

partial_function (option) listen_loop :: "'w deps \<Rightarrow> authority \<Rightarrow> 'w supervisor \<Rightarrow> ('w supervisor \<times> (failure + unit)) option" where
  "listen_loop d a s =
     (case listen_step d a s of
        (s, Inl e) \<Rightarrow> Some (s, Inl e)
      | (s, Inr goes_on) \<Rightarrow> if goes_on then listen_loop d a s else Some (s, Inr ()))"

definition run_attempt :: "'w deps \<Rightarrow> 'w supervisor \<Rightarrow> ('w supervisor \<times> (failure + unit)) option" where
  "run_attempt d s =
     (if \<not> cf_enabled (sv_config s) then Some (s\<lparr>sv_status := Disabled\<rparr>, Inr ())
      else if dp_stopped d (sv_world s) then Some (s, Inr ())
      else case outside (dp_factory d) (attempt_begins s) of
        (s, Inl e) \<Rightarrow> Some (s, Inl e)
      | (s, Inr _) \<Rightarrow>
          map_option (finally_do (outside (dp_close d)))
            (case attempt_opens d s of
               (s, Inl e) \<Rightarrow> Some (s, Inl e)
             | (s, Inr a) \<Rightarrow> listen_loop d a s))"

subsection \<open>\<open>run_forever\<close>\<close>

definition attempt_failed :: "failure \<Rightarrow> 'w supervisor \<Rightarrow> 'w supervisor" where
  "attempt_failed e s =
     s\<lparr>sv_failures := sv_failures s + 1, sv_status := Degraded, sv_last_error := Some (error_code e),
       sv_backoff := min (cf_max_backoff (sv_config s)) (sv_backoff s * 2)\<rparr>"

partial_function (option) run_loop :: "'w deps \<Rightarrow> nat option \<Rightarrow> nat \<Rightarrow> 'w supervisor \<Rightarrow> 'w supervisor option" where
  "run_loop d max_attempts attempts s =
     (if dp_stopped d (sv_world s) \<or> (case max_attempts of None \<Rightarrow> False | Some n \<Rightarrow> n \<le> attempts) then Some s
      else Option.bind (run_attempt d s) (\<lambda>(s, r).
        case r of
          Inr _ \<Rightarrow> Some s
        | Inl e \<Rightarrow>
            (case outside (dp_wait d (sv_backoff s)) (attempt_failed e s) of
               (s, stopped) \<Rightarrow> if stopped then Some s else run_loop d max_attempts (attempts + 1) s)))"

definition run_forever :: "'w deps \<Rightarrow> nat option \<Rightarrow> 'w supervisor \<Rightarrow> 'w supervisor option" where
  "run_forever d max_attempts s =
     (if \<not> cf_enabled (sv_config s) then Some (s\<lparr>sv_status := Disabled\<rparr>)
      else map_option (\<lambda>s. if dp_stopped d (sv_world s) then s\<lparr>sv_status := Stopped\<rparr> else s)
        (run_loop d max_attempts 0 s))"

subsection \<open>\<open>_watch_authorization\<close>\<close>

text \<open>One round of the watching thread, after a wait that ended with its timeout: it closes the
  connection, whatever \<open>close\<close> raises, once the reference is not valid any more; the answer says whether
  it goes on watching.\<close>

definition watch_round :: "'w deps \<Rightarrow> pystr \<Rightarrow> 'w \<Rightarrow> 'w \<times> bool" where
  "watch_round d ref w =
     (case require_authorization_ref d ref w of
        (w, Inr _) \<Rightarrow> (w, True)
      | (w, Inl _) \<Rightarrow> (fst (dp_close d w), False))"

section \<open>The interface sampler\<close>

definition read_interface_counters :: "'w deps \<Rightarrow> 'w \<Rightarrow> 'w \<times> (failure + record_dict list)" where
  "read_interface_counters d =
     sbind (dp_interfaces d) (\<lambda>replies w.
       (w, Inr (map reply_record (filter (\<lambda>r. rp_kind r = lit ''re'') replies))))"

definition sample_dispatch :: "'w deps \<Rightarrow> record_dict list \<Rightarrow> 'w \<Rightarrow> 'w \<times> (failure + event list)" where
  "sample_dispatch d records =
     sbind (dp_reconcile_interfaces d records) (\<lambda>events.
     sbind (case dp_on_sample d of None \<Rightarrow> (\<lambda>w. (w, Inr ())) | Some on_sample \<Rightarrow> on_sample) (\<lambda>_.
     sbind (case dp_on_events d of None \<Rightarrow> (\<lambda>w. (w, Inr ())) | Some on_events \<Rightarrow> on_events events) (\<lambda>_ w.
       (w, Inr events))))"

definition sample_authorized :: "'w deps \<Rightarrow> authority \<Rightarrow> record_dict list \<Rightarrow> 'w \<Rightarrow> 'w \<times> (failure + event list)" where
  "sample_authorized d a records =
     (case a of
        ByRef ref \<Rightarrow>
          (case dp_ref_dispatch d of
             None \<Rightarrow> (\<lambda>w. (w, Inl credentials_unavailable))
           | Some ref_dispatch \<Rightarrow>
               sbind (ref_dispatch ref) (\<lambda>run w.
                 if run then sample_dispatch d records w else (w, Inl credentials_unavailable)))
      | ByPair credentials \<Rightarrow>
          sbind (require_authorized d credentials) (\<lambda>_. sample_dispatch d records))"

definition sample_once :: "'w deps \<Rightarrow> 'w \<Rightarrow> 'w \<times> (failure + event list)" where
  "sample_once d =
     sbind (dp_factory d) (\<lambda>_ w.
       finally_do (dp_close d)
         (sbind (connect_with d) (\<lambda>a.
          sbind (require_attempt_authorized d a) (\<lambda>_.
          sbind (read_interface_counters d) (\<lambda>records.
          sbind (require_attempt_authorized d a) (\<lambda>_.
            sample_authorized d a records)))) w))"

text \<open>\<open>run_forever\<close> of the sampler; \<open>dp_clock\<close> is its \<open>time.monotonic\<close>.\<close>

partial_function (option) sampler_loop :: "'w deps \<Rightarrow> rat \<Rightarrow> nat option \<Rightarrow> nat \<Rightarrow> 'w \<Rightarrow> ('w \<times> (failure + unit)) option" where
  "sampler_loop d interval max_samples samples w =
     (if dp_stopped d w \<or> (case max_samples of None \<Rightarrow> False | Some n \<Rightarrow> n \<le> samples) then Some (w, Inr ())
      else case dp_clock d w of
        (w, started_at) \<Rightarrow>
          (case sample_once d w of
             (w, Inl e) \<Rightarrow> Some (w, Inl e)
           | (w, Inr _) \<Rightarrow>
               (case dp_clock d w of
                  (w, finished) \<Rightarrow>
                    sampler_loop d interval max_samples (samples + 1)
                      (fst (dp_wait d (max 0 (interval - max 0 (finished - started_at))) w)))))"

end
