(* ===== verification/Supervisor_Props.thy ===== *)
theory Supervisor_Props
  imports Supervisor
begin

text \<open>
  What the telemetry supervisor guarantees whatever it is connected to: the back-off stays within
  its limits and failures are counted (\<open>reconnects_back_off\<close>, from the relation \<open>stable\<close> that every part of
  an attempt keeps), and, in the locale \<open>revoked_lease\<close>, nothing is published on behalf of a
  reference that is no longer authorized. The locale is the interface to the rest of the program: the
  telemetry runtime interprets it.
\<close>

section \<open>What every step keeps\<close>

definition keeps :: "('s \<Rightarrow> 's \<Rightarrow> bool) \<Rightarrow> ('s \<Rightarrow> 's \<times> 'r) \<Rightarrow> bool" where
  "keeps R m \<longleftrightarrow> (\<forall>s. R s (fst (m s)))"

named_theorems keeping "which statements keep a relation"

definition stable :: "'w supervisor \<Rightarrow> 'w supervisor \<Rightarrow> bool" where
  "stable s s' \<longleftrightarrow> sv_config s' = sv_config s \<and> sv_attempts s' = sv_attempts s \<and> sv_failures s' = sv_failures s \<and>
     (sv_backoff s' = sv_backoff s \<or> sv_backoff s' = cf_initial_backoff (sv_config s))"

lemma stable_refl [simp]: "stable s s"
  by (simp add: stable_def)

lemma stable_trans: "stable s t \<Longrightarrow> stable t u \<Longrightarrow> stable s u"
  by (auto simp: stable_def)

lemma keeps_sbind [keeping]:
  "keeps stable m \<Longrightarrow> (\<And>a. keeps stable (f a)) \<Longrightarrow> keeps stable (sbind m f)"
  unfolding keeps_def sbind_def by (auto split: prod.split sum.split) (metis fst_conv stable_trans)+

lemma keeps_outside [keeping]: "keeps stable (outside m)"
  by (simp add: keeps_def outside_def stable_def split: prod.split)

lemma keeps_read_clock [keeping]: "keeps stable (read_clock d)"
  by (simp add: keeps_def read_clock_def outside_def stable_def split: prod.split)

lemma keeps_updating [keeping]: "(\<And>s. stable s (f s)) \<Longrightarrow> keeps stable (updating f)"
  by (simp add: keeps_def updating_def)

lemma keeps_answer [keeping]: "keeps stable (\<lambda>s. (s, f s))"
  by (simp add: keeps_def)

lemma keeps_cases [keeping]:
  "(P \<Longrightarrow> keeps stable m) \<Longrightarrow> (\<not> P \<Longrightarrow> keeps stable n) \<Longrightarrow> keeps stable (if P then m else n)"
  by (simp_all add: keeps_def)

lemma stable_updates [simp]:
  "stable s (note_events n now b s)" "stable s (note_connected b now s)" "stable s (s\<lparr>sv_status := st\<rparr>)"
  "stable s (s\<lparr>sv_backoff := cf_initial_backoff (sv_config s)\<rparr>)" "stable s (s\<lparr>sv_world := w\<rparr>)"
  by (simp_all add: stable_def note_events_def note_connected_def)

lemma keeps_publish [keeping]: "keeps stable (publish_with d a f b)"
  unfolding publish_with_def by (auto intro!: keeping split: option.split)

lemma keepsD: "keeps R m \<Longrightarrow> m s = (s', r) \<Longrightarrow> R s s'"
  by (metis fst_conv keeps_def)

lemma keeps_snapshot [keeping]: "keeps stable (take_snapshot d a reader)"
proof -
  have p: "keeps stable (sbind (publish_with d a (reconcile_factory d records) True) (\<lambda>_. updating (\<lambda>s. s\<lparr>sv_status := Healthy\<rparr>)))"
    for records by (intro keeping) simp_all
  have last: "keeps stable (\<lambda>s. if cf_snapshot_timeout (sv_config s) < t
      then (s, Inl (SupervisorError (lit ''snapshot_timeout'')))
      else sbind (publish_with d a (reconcile_factory d records) True) (\<lambda>_. updating (\<lambda>s. s\<lparr>sv_status := Healthy\<rparr>)) s)"
    for t records using p [of records] by (simp add: keeps_def)
  show ?thesis unfolding take_snapshot_def by (intro keeping last)
qed

lemma keeps_opens [keeping]: "keeps stable (attempt_opens d)"
  unfolding attempt_opens_def by (auto intro!: keeping split: option.split)

lemma keeps_listen_step [keeping]: "keeps stable (listen_step d a)"
proof -
  have "keeps stable (sbind (outside (require_attempt_authorized d a)) (\<lambda>_. case item of
      StreamReply reply \<Rightarrow> sbind (publish_with d a (apply_factory d reply) False) (\<lambda>_ s. (s, Inr True))
    | _ \<Rightarrow> (\<lambda>s. (s, Inl (SupervisorError (lit ''invalid_reply''))))))" for item
    by (auto intro!: keeping split: listened.split)
  then have step: "keeps stable (\<lambda>s.
      if item = StreamEnds then (s, Inl (SupervisorError (lit ''listen_ended'')))
      else if dp_stopped d (sv_world s) then (s, Inr False)
      else sbind (outside (require_attempt_authorized d a)) (\<lambda>_. case item of
        StreamReply reply \<Rightarrow> sbind (publish_with d a (apply_factory d reply) False) (\<lambda>_ s. (s, Inr True))
      | _ \<Rightarrow> (\<lambda>s. (s, Inl (SupervisorError (lit ''invalid_reply''))))) s)" for item
    by (simp add: keeps_def)
  show ?thesis unfolding listen_step_def by (intro keeping step)
qed

lemma listen_loop_stable:
  assumes "listen_loop d a s = Some y"
  shows "stable s (fst y)"
proof (rule listen_loop.raw_induct [where P = "\<lambda>d a s y. stable s (fst y)", OF _ assms])
  fix loop d a s y
  assume ih: "\<And>d a s y. loop d a s = Some y \<Longrightarrow> stable s (fst y)"
    and body: "(case listen_step d a s of (s, Inl e) \<Rightarrow> Some (s, Inl e)
      | (s, Inr goes_on) \<Rightarrow> if goes_on then loop d a s else Some (s, Inr ())) = Some y"
  obtain t q where step: "listen_step d a s = (t, q)" by force
  then have "stable s t" by (rule keepsD [OF keeps_listen_step])
  moreover have "stable t (fst y)"
    using ih [of d a t y] body step by (cases q) (auto split: if_splits)
  ultimately show "stable s (fst y)" by (rule stable_trans)
qed

section \<open>Attempts and back-off\<close>

lemma stable_close: "finally_do (outside m) (s, r) = (s', r') \<Longrightarrow> stable s s'"
  using keeps_outside [of m] by (auto simp: finally_do_def keeps_def split: prod.splits sum.splits) (metis fst_conv)+

text \<open>One attempt counts itself, changes no count of failures, and leaves the delay or resets it.\<close>

lemma run_attempt_effect:
  assumes "run_attempt d s = Some (s', r)"
  shows "sv_config s' = sv_config s \<and> sv_failures s' = sv_failures s \<and>
    (sv_backoff s' = sv_backoff s \<or> sv_backoff s' = cf_initial_backoff (sv_config s)) \<and>
    sv_attempts s' \<le> sv_attempts s + 1 \<and> sv_attempts s \<le> sv_attempts s' \<and>
    (r \<noteq> Inr () \<longrightarrow> sv_attempts s' = sv_attempts s + 1)"
proof (cases "\<not> cf_enabled (sv_config s) \<or> dp_stopped d (sv_world s)")
  case True
  with assms show ?thesis by (auto simp: run_attempt_def split: if_splits)
next
  case False
  obtain t q where t: "outside (dp_factory d) (attempt_begins s) = (t, q)" by force
  have b: "stable (attempt_begins s) t" using keeps_outside t by (rule keepsD)
  have "stable (attempt_begins s) s'"
  proof (cases q)
    case (Inl e)
    with False assms t b show ?thesis by (simp add: run_attempt_def)
  next
    case (Inr x)
    obtain u oc where o: "(case attempt_opens d t of (s, Inl e) \<Rightarrow> Some (s, Inl e) | (s, Inr a) \<Rightarrow> listen_loop d a s) = Some (u, oc)"
      "finally_do (outside (dp_close d)) (u, oc) = (s', r)"
      using False assms t Inr by (auto simp: run_attempt_def)
    obtain v p where v: "attempt_opens d t = (v, p)" by force
    have "stable t v" by (rule keepsD [OF keeps_opens v])
    moreover have "stable v u" using o(1) v listen_loop_stable by (fastforce split: sum.splits)
    ultimately show ?thesis using b stable_close [OF o(2)] stable_trans by blast
  qed
  then show ?thesis by (auto simp: stable_def attempt_begins_def)
qed

definition backoff_ok :: "'w supervisor \<Rightarrow> bool" where
  "backoff_ok s \<longleftrightarrow> cf_initial_backoff (sv_config s) \<le> sv_backoff s \<and> sv_backoff s \<le> cf_max_backoff (sv_config s)"

lemma attempt_failed_ok: "config_valid (sv_config s) \<Longrightarrow> backoff_ok s \<Longrightarrow> backoff_ok (attempt_failed e s)"
  by (auto simp: backoff_ok_def attempt_failed_def config_valid_def min_def)

text \<open>Failures in a row double the delay up to its maximum.\<close>

lemma failures_double_the_delay:
  "0 \<le> sv_backoff s \<Longrightarrow> sv_backoff s \<le> cf_max_backoff (sv_config s) \<Longrightarrow>
   sv_backoff (fold attempt_failed es s) = min (cf_max_backoff (sv_config s)) (sv_backoff s * 2 ^ length es)"
proof (induction es arbitrary: s)
  case (Cons e es)
  let ?m = "cf_max_backoff (sv_config s)" and ?b = "sv_backoff s"
  have "min ?m (min ?m (?b * 2) * 2 ^ length es) = min ?m (?b * (2 * 2 ^ length es))"
  proof (cases "?b * 2 \<le> ?m")
    case False
    have 1: "?m \<le> ?m * 2 ^ length es" using Cons.prems by (simp add: mult_le_cancel_left1)
    have 2: "?m * 2 ^ length es \<le> ?b * 2 * 2 ^ length es" using False by simp
    have "?m \<le> ?b * (2 * 2 ^ length es)" using order_trans [OF 1 2] by (simp add: mult.assoc)
    with 1 False show ?thesis by (simp add: min_def)
  qed (simp add: mult.assoc)
  moreover have "sv_backoff (fold attempt_failed es (attempt_failed e s)) =
      min ?m (min ?m (?b * 2) * 2 ^ length es)"
  proof -
    have "sv_backoff (attempt_failed e s) = min ?m (?b * 2)" "sv_config (attempt_failed e s) = sv_config s"
      by (simp_all add: attempt_failed_def)
    then show ?thesis using Cons.IH [of "attempt_failed e s"] Cons.prems by simp
  qed
  ultimately show ?case by (simp add: mult.assoc)
qed simp

definition progress :: "'w supervisor \<Rightarrow> 'w supervisor \<Rightarrow> bool" where
  "progress s s' \<longleftrightarrow> sv_config s' = sv_config s \<and> (backoff_ok s \<longrightarrow> backoff_ok s') \<and> sv_attempts s \<le> sv_attempts s' \<and>
     sv_failures s \<le> sv_failures s' \<and> sv_failures s' + sv_attempts s \<le> sv_failures s + sv_attempts s'"

lemma progress_trans: "progress s t \<Longrightarrow> progress t u \<Longrightarrow> progress s u"
  by (auto simp: progress_def)

lemma failed_attempt_progress:
  assumes "run_attempt d s = Some (t, Inl e)" and "outside (dp_wait d (sv_backoff t)) (attempt_failed e t) = (u, b)"
    and "config_valid (sv_config s)"
  shows "progress s u \<and> sv_attempts u = sv_attempts s + 1"
proof -
  note eff = run_attempt_effect [OF assms(1)]
  have "backoff_ok s \<Longrightarrow> backoff_ok t" using eff assms(3) by (auto simp: backoff_ok_def config_valid_def)
  then have "backoff_ok s \<Longrightarrow> backoff_ok (attempt_failed e t)" using attempt_failed_ok [of t e] eff assms(3) by simp
  moreover have "stable (attempt_failed e t) u \<and> sv_backoff u = sv_backoff (attempt_failed e t)"
    using assms(2) by (auto simp: outside_def stable_def split: prod.splits)
  ultimately show ?thesis
    using eff by (auto simp: progress_def stable_def backoff_ok_def attempt_failed_def)
qed

lemma run_loop_progress:
  assumes "run_loop d m k s = Some s'" and "config_valid (sv_config s)"
  shows "progress s s' \<and> (case m of None \<Rightarrow> True | Some n \<Rightarrow> k \<le> n \<longrightarrow> sv_attempts s' + k \<le> sv_attempts s + n)"
    (is "?P m k s s'")
proof -
  have "config_valid (sv_config s) \<longrightarrow> ?P m k s s'"
  proof (rule run_loop.raw_induct [where P = "\<lambda>d m k s s'. config_valid (sv_config s) \<longrightarrow> ?P m k s s'", OF _ assms(1)],
      rule impI)
  fix loop d m k s s'
  assume ih: "\<And>d m k s s'. loop d m k s = Some s' \<Longrightarrow> config_valid (sv_config s) \<longrightarrow> ?P m k s s'"
    and body: "(if dp_stopped d (sv_world s) \<or> (case m of None \<Rightarrow> False | Some n \<Rightarrow> n \<le> k) then Some s
      else Option.bind (run_attempt d s) (\<lambda>(s, r).
        case r of
          Inl e \<Rightarrow>
            (case outside (dp_wait d (sv_backoff s)) (attempt_failed e s) of
               (s, stopped) \<Rightarrow> if stopped then Some s else loop d m (k + 1) s)
        | Inr _ \<Rightarrow> Some s)) = Some s'"
    and valid: "config_valid (sv_config s)"
  show "?P m k s s'"
  proof (cases "dp_stopped d (sv_world s) \<or> (case m of None \<Rightarrow> False | Some n \<Rightarrow> n \<le> k)")
    case True
    with body show ?thesis by (auto simp: progress_def split: option.splits)
  next
    case False
    then obtain t r where t: "run_attempt d s = Some (t, r)"
      "(case r of Inr _ \<Rightarrow> Some t | Inl e \<Rightarrow> (case outside (dp_wait d (sv_backoff t)) (attempt_failed e t) of
         (s, stopped) \<Rightarrow> if stopped then Some s else loop d m (k + 1) s)) = Some s'"
      using body by (auto simp: bind_eq_Some_conv)
    note eff = run_attempt_effect [OF t(1)]
    show ?thesis
    proof (cases r)
      case (Inr x)
      with t eff valid False show ?thesis by (auto simp: progress_def backoff_ok_def config_valid_def split: option.splits)
    next
      case (Inl e)
      obtain u b where u: "outside (dp_wait d (sv_backoff t)) (attempt_failed e t) = (u, b)" by force
      note p = failed_attempt_progress [OF t(1) [unfolded Inl] u valid]
      show ?thesis
      proof (cases b)
        case True
        with t(2) Inl u have "s' = u" by simp
        with p False show ?thesis by (auto split: option.splits)
      next
        case nb: False
        with t(2) Inl u have l: "loop d m (k + 1) u = Some s'" by simp
        have "config_valid (sv_config u)" using p valid by (simp add: progress_def)
        from ih [OF l] this p show ?thesis using progress_trans [of s u s'] False by (auto split: option.splits)
      qed
    qed
  qed
  qed
  with assms(2) show ?thesis by blast
qed

lemma run_loop_returns:
  "(\<And>a t. listen_loop d a t \<noteq> None) \<Longrightarrow> \<exists>s'. run_loop d (Some n) k s = Some s'"
proof (induction "n - k" arbitrary: k s)
  case 0
  then show ?case by (simp add: run_loop.simps)
next
  case (Suc x)
  have "run_attempt d s \<noteq> None"
  proof -
    have "\<exists>u q. listen_loop d a t = Some (u, q)" for a t using Suc(3) [of a t] by auto
    then show ?thesis by (auto simp: run_attempt_def split: prod.split sum.split) (metis surj_pair)
  qed
  then obtain t r where t: "run_attempt d s = Some (t, r)" by force
  have "x = n - (k + 1)" using Suc(2) by simp
  from Suc(1) [OF this Suc(3)] obtain f where "\<And>u. run_loop d (Some n) (k + 1) u = Some (f u)" by metis
  with t show ?case by (subst run_loop.simps) (auto split: sum.split prod.split)
qed

section \<open>Revoked leases\<close>

text \<open>The interface to the rest of the program. \<open>dead\<close> says that the reference is not authorized any
  more, \<open>view\<close> is what publishing changes. While it is dead, reading the connection and asking for
  authorization keep it so and publish nothing, and neither callback accepts it.\<close>

locale revoked_lease =
  fixes d :: "'w deps" and ref :: pystr and dead :: "'w \<Rightarrow> bool" and view :: "'w \<Rightarrow> 'v"
    and check dispatch :: "pystr \<Rightarrow> 'w \<Rightarrow> 'w \<times> (failure + bool)"
  assumes ref_check: "dp_ref_check d = Some check"
    and ref_dispatch: "dp_ref_dispatch d = Some dispatch"
    and listen_dead: "dead w \<Longrightarrow> dp_listen d w = (w1, listened) \<Longrightarrow> dead w1 \<and> view w1 = view w"
    and interfaces_dead: "dead w \<Longrightarrow> dp_interfaces d w = (w2, replies) \<Longrightarrow> dead w2 \<and> view w2 = view w"
    and check_dead: "dead w \<Longrightarrow> check ref w = (w3, valid) \<Longrightarrow> dead w3 \<and> view w3 = view w \<and> valid \<noteq> Inr True"
    and dispatch_dead: "dead w \<Longrightarrow> dispatch ref w = (w4, run) \<Longrightarrow> dead w4 \<and> view w4 = view w \<and> run \<noteq> Inr True"
begin

lemma require_dead:
  "dead w \<Longrightarrow> require_attempt_authorized d (ByRef ref) w = (w', r) \<Longrightarrow> dead w' \<and> view w' = view w \<and> (\<exists>e. r = Inl e)"
  by (auto simp: require_attempt_authorized_def require_authorization_ref_def ref_check sbind_def
      split: prod.splits sum.splits if_splits dest: check_dead)

lemma authorized_dispatch_dead:
  "dead w \<Longrightarrow> authorized_dispatch d (ByRef ref) f w = (w', r) \<Longrightarrow> dead w' \<and> view w' = view w \<and> (\<exists>e. r = Inl e)"
  by (auto simp: authorized_dispatch_def ref_dispatch sbind_def split: prod.splits sum.splits if_splits dest: dispatch_dead)

lemma sample_dead:
  "dead w \<Longrightarrow> sample_authorized d (ByRef ref) records w = (w', r) \<Longrightarrow> dead w' \<and> view w' = view w \<and> (\<exists>e. r = Inl e)"
  by (auto simp: sample_authorized_def ref_dispatch sbind_def split: prod.splits sum.splits if_splits dest: dispatch_dead)

lemma publish_dead:
  "dead (sv_world s) \<Longrightarrow> publish_with d (ByRef ref) f b s = (s', r) \<Longrightarrow>
   view (sv_world s') = view (sv_world s) \<and> sv_events s' = sv_events s \<and> (\<exists>e. r = Inl e)"
  by (auto simp: publish_with_def sbind_def outside_def split: prod.splits sum.splits dest: authorized_dispatch_dead)

text \<open>The stream of a dead reference ends with the next reply, and publishes nothing.\<close>

lemma listen_step_dead:
  assumes "dead (sv_world s)" and "listen_step d (ByRef ref) s = (s', r)"
  shows "view (sv_world s') = view (sv_world s) \<and> sv_events s' = sv_events s \<and> r \<noteq> Inr True"
proof -
  obtain w q where l: "dp_listen d (sv_world s) = (w, q)" by force
  have w: "dead w" "view w = view (sv_world s)" using listen_dead [OF assms(1) l] by simp_all
  obtain w' p where a: "require_attempt_authorized d (ByRef ref) w = (w', p)" by force
  obtain e where e: "view w' = view w" "p = Inl e" using require_dead [OF w(1) a] by blast
  show ?thesis
    using assms(2) w e l a by (auto simp: listen_step_def sbind_def outside_def split: sum.splits if_splits)
qed

lemma listen_loop_dead:
  assumes "dead (sv_world s)"
  shows "\<exists>s' r. listen_loop d (ByRef ref) s = Some (s', r) \<and>
    view (sv_world s') = view (sv_world s) \<and> sv_events s' = sv_events s"
proof -
  obtain t q where t: "listen_step d (ByRef ref) s = (t, q)" by force
  have "\<exists>r. listen_loop d (ByRef ref) s = Some (t, r)"
    using listen_step_dead [OF assms t] t by (subst listen_loop.simps) (auto split: sum.splits)
  with listen_step_dead [OF assms t] show ?thesis by blast
qed

end

section \<open>Properties\<close>

text \<open>C34: reconnecting is bounded. With a valid configuration, \<open>run_forever\<close> with a limit on its
  attempts returns as soon as every stream it opens comes to an end; it has then made at most that many
  attempts, has counted no more failures than attempts, and the delay it keeps is within the configured
  limits.\<close>

theorem reconnects_are_bounded:
  assumes "config_valid (sv_config s)" and "backoff_ok s" and "\<forall>a t. listen_loop d a t \<noteq> None"
  shows "\<exists>s'. run_forever d (Some n) s = Some s' \<and> sv_attempts s' \<le> sv_attempts s + n \<and>
    sv_failures s' + sv_attempts s \<le> sv_failures s + sv_attempts s' \<and>
    cf_initial_backoff (sv_config s) \<le> sv_backoff s' \<and> sv_backoff s' \<le> cf_max_backoff (sv_config s) \<and>
    (cf_enabled (sv_config s) \<longrightarrow> dp_stopped d (sv_world s') \<longrightarrow> sv_status s' = Stopped)"
proof (cases "cf_enabled (sv_config s)")
  case True
  obtain t where t: "run_loop d (Some n) 0 s = Some t" using run_loop_returns assms(3) by blast
  have "progress s t" "sv_attempts t \<le> sv_attempts s + n" using run_loop_progress [OF t assms(1)] by simp_all
  then show ?thesis using True t assms(2) by (auto simp: run_forever_def progress_def backoff_ok_def)
next
  case False
  then show ?thesis using assms(2) by (simp add: run_forever_def backoff_ok_def)
qed


text \<open>An API that refuses every connection: the delay doubles with every attempt.\<close>

definition refusing_deps :: "nat deps" where
  "refusing_deps =
     \<lparr>dp_factory = (\<lambda>w. (w, Inl (OsFailure []))), dp_credentials = (\<lambda>w. (w, Inl (OtherFailure []))),
      dp_connect = (\<lambda>_ _ w. (w, Inr ())), dp_close = (\<lambda>w. (w, Inr ())), dp_snapshot = None,
      dp_listen = (\<lambda>w. (w, Inr StreamEnds)), dp_interfaces = (\<lambda>w. (w, Inr [])), dp_clock = (\<lambda>w. (w, of_nat w)),
      dp_stopped = (\<lambda>w. False), dp_wait = (\<lambda>_ w. (w + 1, False)), dp_apply = (\<lambda>_ _ w. (w, Inr [])),
      dp_reconcile = (\<lambda>_ _ w. (w, Inr [])), dp_reconcile_interfaces = (\<lambda>_ w. (w, Inr [])), dp_on_sample = None,
      dp_on_events = None, dp_after_dispatch = None, dp_check = None, dp_ref_check = None, dp_ref_dispatch = None\<rparr>"

lemma refusing_stream: "listen_loop refusing_deps a s \<noteq> None"
  by (subst listen_loop.simps) (simp add: listen_step_def sbind_def outside_def refusing_deps_def)

definition demo_supervisor :: "nat supervisor" where
  "demo_supervisor = new_supervisor (default_config\<lparr>cf_enabled := True\<rparr>) 0"

lemma demo_refused:
  "\<exists>s'. run_forever refusing_deps (Some 3) demo_supervisor = Some s' \<and> sv_backoff s' = 8 \<and> sv_failures s' = 3"
proof -
  have step: "run_loop refusing_deps (Some 3) k s =
      (if 3 \<le> k then Some s else run_loop refusing_deps (Some 3) (k + 1)
        ((attempt_failed (OsFailure []) (attempt_begins s))\<lparr>sv_world := sv_world s + 1\<rparr>))"
    if "cf_enabled (sv_config s)" for k s
    using that by (subst run_loop.simps)
      (simp add: refusing_deps_def run_attempt_def outside_def attempt_begins_def attempt_failed_def)
  show ?thesis
    by (simp add: run_forever_def step demo_supervisor_def new_supervisor_def default_config_def attempt_failed_def
        attempt_begins_def)
qed

theorem reconnects_are_bounded_witness:
  "\<exists>s'. run_forever refusing_deps (Some 3) demo_supervisor = Some s' \<and> sv_attempts s' \<le> 3 \<and> sv_backoff s' \<le> 30"
  using reconnects_are_bounded [of demo_supervisor refusing_deps 3] refusing_stream
  by (simp add: demo_supervisor_def new_supervisor_def default_config_def config_valid_def backoff_ok_def) blast

end
