(* ===== verification/Gateway.thy ===== *)
theory Gateway
  imports Broker Roles
begin

text \<open>
  \<open>telemetry_gateway.py\<close>: the redaction boundary between broker events and browser frames
  (\<open>build_frame\<close>), the bounded replay buffer (\<open>publish\<close>), the subscriptions (\<open>open_client\<close>,
  \<open>close_client\<close>) and the delivery with gap recovery (\<open>poll\<close>). Payloads are JSON-like values;
  a float carries its value (\<open>None\<close> when it is not finite) and its text. The iteration over a
  Python set of field names is modelled in a fixed order, which only chooses among several
  possible errors. Opaque identifiers and clock readings are arguments.
\<close>

section \<open>Values and their JSON text\<close>

datatype jval =
    JNone | JBool bool | JInt int | JFloat "rat option" pystr | JStr pystr
  | JList "jval list" | JDict "(pystr \<times> jval) list" | JOther

text \<open>\<open>json.dumps(..., ensure_ascii=False, separators=(",", ":"), allow_nan=False)\<close>;
  \<open>None\<close> stands for the \<open>TypeError\<close> or \<open>ValueError\<close> it raises.\<close>

definition hex_digit :: "nat \<Rightarrow> nat" where
  "hex_digit d = (if d < 10 then 48 + d else 87 + d)"

definition json_escape :: "nat \<Rightarrow> pystr" where
  "json_escape c =
     (if c = 34 then [92, 34] else if c = 92 then [92, 92]
      else if c = 8 then [92, 98] else if c = 12 then [92, 102] else if c = 10 then [92, 110]
      else if c = 13 then [92, 114] else if c = 9 then [92, 116]
      else if c < 32 then [92, 117, 48, 48, hex_digit (c div 16), hex_digit (c mod 16)]
      else [c])"

definition json_string :: "pystr \<Rightarrow> pystr" where
  "json_string s = 34 # concat (map json_escape s) @ [34]"

fun json_text :: "jval \<Rightarrow> pystr option"
  and json_texts :: "jval list \<Rightarrow> pystr list option"
  and json_pairs :: "(pystr \<times> jval) list \<Rightarrow> pystr list option" where
  "json_text JNone = Some (lit ''null'')"
| "json_text (JBool b) = Some (lit (if b then ''true'' else ''false''))"
| "json_text (JInt i) = Some (str_of_int i)"
| "json_text (JFloat (Some _) t) = Some t"
| "json_text (JFloat None _) = None"
| "json_text (JStr s) = Some (json_string s)"
| "json_text (JList vs) = map_option (\<lambda>ts. 91 # py_join 44 ts @ [93]) (json_texts vs)"
| "json_text (JDict kvs) = map_option (\<lambda>ts. 123 # py_join 44 ts @ [125]) (json_pairs kvs)"
| "json_text JOther = None"
| "json_texts [] = Some []"
| "json_texts (v # vs) =
     (case json_text v of None \<Rightarrow> None | Some t \<Rightarrow> map_option ((#) t) (json_texts vs))"
| "json_pairs [] = Some []"
| "json_pairs ((k, v) # kvs) =
     (case json_text v of
        None \<Rightarrow> None
      | Some t \<Rightarrow> map_option ((#) (json_string k @ 58 # t)) (json_pairs kvs))"

definition json_size :: "jval \<Rightarrow> nat option" where
  "json_size v = (case json_text v of None \<Rightarrow> None | Some t \<Rightarrow> map_option length (utf8_encode t))"

section \<open>Checked values\<close>

definition protocol_version :: int where "protocol_version = 1"
definition max_frame_bytes :: nat where "max_frame_bytes = 8388608"
definition max_replay_bytes :: nat where "max_replay_bytes = 8388608"
definition max_replay_events :: nat where "max_replay_events = 256"
definition max_counter_value :: int where "max_counter_value = 2 ^ 64 - 1"
definition max_frame_number :: int where "max_frame_number = 2 ^ 63 - 1"
definition max_rate_value :: rat where "max_rate_value = 10 ^ 15"

datatype gateway_error =
    TextType | TextTooLong | TextNotUtf8 | CounterInvalid | NumberType | NumberTooLarge
  | SequenceInvalid | FlagType | UnsupportedEvent | TooManySessions | TooManyInterfaces
  | ResetScopeInvalid | ResetFieldsInvalid | NotSerializable | FrameTooLarge | ReplayBudget
  | NotAuthorized | ClientLimit | NotSubscribed

definition bounded_text :: "jval \<Rightarrow> gateway_error + jval" where
  "bounded_text v =
     (case v of
        JStr s \<Rightarrow>
          if max_text_bytes < length s then Inl TextTooLong
          else (case utf8_encode s of
                  None \<Rightarrow> Inl TextNotUtf8
                | Some bs \<Rightarrow> if max_text_bytes < length bs then Inl TextTooLong else Inr v)
      | _ \<Rightarrow> Inl TextType)"

definition bounded_counter :: "jval \<Rightarrow> gateway_error + jval" where
  "bounded_counter v =
     (case v of
        JInt i \<Rightarrow> if 0 \<le> i \<and> i \<le> max_counter_value then Inr v else Inl CounterInvalid
      | _ \<Rightarrow> Inl CounterInvalid)"

definition bounded_number :: "rat \<Rightarrow> jval \<Rightarrow> gateway_error + jval" where
  "bounded_number maximum v =
     (case v of
        JInt i \<Rightarrow> if i < 0 \<or> maximum < of_int i then Inl NumberTooLarge else Inr v
      | JFloat (Some x) _ \<Rightarrow> if x < 0 \<or> maximum < x then Inl NumberTooLarge else Inr v
      | JFloat None _ \<Rightarrow> Inl NumberTooLarge
      | _ \<Rightarrow> Inl NumberType)"

definition bounded_sequence :: "jval \<Rightarrow> gateway_error + int" where
  "bounded_sequence v =
     (case v of
        JInt i \<Rightarrow> if 0 \<le> i \<and> i \<le> max_frame_number then Inr i else Inl SequenceInvalid
      | _ \<Rightarrow> Inl SequenceInvalid)"

definition bounded_flag :: "jval \<Rightarrow> gateway_error + jval" where
  "bounded_flag v = (case v of JBool _ \<Rightarrow> Inr v | _ \<Rightarrow> Inl FlagType)"

section \<open>Redaction\<close>

definition session_text_fields :: "pystr list" where
  "session_text_fields = map lit [''id'', ''name'', ''vpn_address'', ''source_address'', ''uptime'', ''encoding'', ''service'']"

definition session_counter_fields :: "pystr list" where
  "session_counter_fields = map lit [''rx_bytes'', ''tx_bytes'', ''rx_packets'', ''tx_packets'']"

definition session_fields :: "pystr list" where
  "session_fields = session_text_fields @ session_counter_fields @ [lit ''counter_complete'']"

definition rate_fields :: "pystr list" where
  "rate_fields = map lit [''rx_bytes_per_second'', ''tx_bytes_per_second'', ''rx_packets_per_second'', ''tx_packets_per_second'']"

definition interface_counter_fields :: "pystr list" where
  "interface_counter_fields = map lit [''id'', ''name''] @ session_counter_fields @ rate_fields"

definition router_metric_fields :: "pystr list" where
  "router_metric_fields = map lit [''cpu_percent'', ''memory_percent'', ''storage_percent'', ''status'', ''age_seconds'']"

text \<open>The loop \<open>for key in FIELDS: if key in value: result[key] = check(value[key])\<close>.\<close>

definition project :: "(pystr \<Rightarrow> jval \<Rightarrow> gateway_error + jval) \<Rightarrow> pystr list \<Rightarrow> (pystr \<times> jval) list
    \<Rightarrow> gateway_error + (pystr \<times> jval) list" where
  "project check keys d =
     emap (\<lambda>k. ebind (check k (the (dget d k))) (\<lambda>v. Inr (k, v))) (filter (\<lambda>k. dget d k \<noteq> None) keys)"

definition dict_items :: "jval \<Rightarrow> (pystr \<times> jval) list" where
  "dict_items v = (case v of JDict d \<Rightarrow> d | _ \<Rightarrow> [])"

definition check_session_field :: "pystr \<Rightarrow> jval \<Rightarrow> gateway_error + jval" where
  "check_session_field k v =
     (if k \<in> set session_text_fields then bounded_text v
      else if k \<in> set session_counter_fields then bounded_counter v
      else bounded_flag v)"

definition redact_session :: "jval \<Rightarrow> gateway_error + jval" where
  "redact_session v = ebind (project check_session_field session_fields (dict_items v)) (\<lambda>d. Inr (JDict d))"

definition check_interface_field :: "pystr \<Rightarrow> jval \<Rightarrow> gateway_error + jval" where
  "check_interface_field k v =
     (if k = lit ''id'' \<or> k = lit ''name'' then bounded_text v
      else if k \<in> set session_counter_fields then bounded_counter v
      else bounded_number max_rate_value v)"

definition redact_interface :: "jval \<Rightarrow> gateway_error + jval" where
  "redact_interface v =
     ebind (project check_interface_field interface_counter_fields (dict_items v)) (\<lambda>d. Inr (JDict d))"

definition check_metric_field :: "pystr \<Rightarrow> jval \<Rightarrow> gateway_error + jval" where
  "check_metric_field k v =
     (if k = lit ''status'' then bounded_text v
      else bounded_number (if k = lit ''age_seconds'' then max_rate_value else 100) v)"

record gw_event =
  ge_name :: pystr
  ge_sequence :: jval
  ge_timestamp :: jval
  ge_payload :: jval

record frame =
  fr_event :: pystr
  fr_sequence :: int
  fr_timestamp :: int
  fr_payload :: jval

definition supported_events :: "pystr list" where
  "supported_events = map lit [''telemetry.snapshot'', ''vpn.session.connected'', ''vpn.session.updated'',
     ''vpn.session.disconnected'', ''vpn.interface.counters'', ''telemetry.counter_reset'',
     ''router.capacity.updated'', ''router.health.updated'', ''telemetry.reconciled'']"

definition snapshot_payload :: "(pystr \<times> jval) list \<Rightarrow> gateway_error + jval" where
  "snapshot_payload payload =
     (case (case dget payload (lit ''sessions'') of None \<Rightarrow> JList [] | Some v \<Rightarrow> v) of
        JList sessions \<Rightarrow>
          if max_cached_sessions < length sessions then Inl TooManySessions
          else ebind (emap redact_session sessions) (\<lambda>ss.
            (case dget payload (lit ''interfaces'') of
               None \<Rightarrow> Inr (JDict [(lit ''sessions'', JList ss)])
             | Some (JList interfaces) \<Rightarrow>
                 if max_cached_interfaces < length interfaces then Inl TooManyInterfaces
                 else ebind (emap redact_interface interfaces)
                   (\<lambda>is. Inr (JDict [(lit ''sessions'', JList ss), (lit ''interfaces'', JList is)]))
             | Some _ \<Rightarrow> Inl TooManyInterfaces))
      | _ \<Rightarrow> Inl TooManySessions)"

definition reset_field_ok :: "jval \<Rightarrow> bool" where
  "reset_field_ok v = (case v of JStr s \<Rightarrow> s \<in> set session_counter_fields | _ \<Rightarrow> False)"

definition check_reset_field :: "pystr \<Rightarrow> jval \<Rightarrow> gateway_error + jval" where
  "check_reset_field k v =
     (if k = lit ''scope'' then
        ebind (bounded_text v)
          (\<lambda>s. if s = JStr (lit ''session'') \<or> s = JStr (lit ''interface'') then Inr s else Inl ResetScopeInvalid)
      else if k = lit ''fields'' then
        (case v of
           JList fs \<Rightarrow> if 4 < length fs \<or> \<not> list_all reset_field_ok fs then Inl ResetFieldsInvalid else Inr v
         | _ \<Rightarrow> Inl ResetFieldsInvalid)
      else bounded_text v)"

definition reset_keys :: "pystr list" where
  "reset_keys = map lit [''scope'', ''id'', ''name'', ''fields'']"

definition safe_payload :: "pystr \<Rightarrow> (pystr \<times> jval) list \<Rightarrow> gateway_error + jval" where
  "safe_payload name payload =
     (if name = lit ''telemetry.snapshot'' then snapshot_payload payload
      else if name = lit ''vpn.interface.counters'' then
        redact_interface (case dget payload (lit ''interface'') of None \<Rightarrow> JDict payload | Some v \<Rightarrow> v)
      else if name = lit ''telemetry.counter_reset'' then
        ebind (project check_reset_field reset_keys payload) (\<lambda>d. Inr (JDict d))
      else if name \<in> {lit ''router.capacity.updated'', lit ''router.health.updated'', lit ''telemetry.reconciled''} then
        ebind (project check_metric_field router_metric_fields payload) (\<lambda>d. Inr (JDict d))
      else redact_session (JDict payload))"

definition frame_json :: "frame \<Rightarrow> jval" where
  "frame_json f = JDict
     [(lit ''protocol_version'', JInt protocol_version), (lit ''event'', JStr (fr_event f)),
      (lit ''sequence'', JInt (fr_sequence f)), (lit ''router_timestamp'', JInt (fr_timestamp f)),
      (lit ''payload'', fr_payload f)]"

definition build_frame :: "gw_event \<Rightarrow> gateway_error + frame \<times> nat" where
  "build_frame e =
     (if ge_name e \<notin> set supported_events then Inl UnsupportedEvent
      else
        ebind (safe_payload (ge_name e) (dict_items (ge_payload e))) (\<lambda>payload.
        ebind (bounded_sequence (ge_sequence e)) (\<lambda>sequence.
        ebind (bounded_sequence (ge_timestamp e)) (\<lambda>timestamp.
        let f = \<lparr>fr_event = ge_name e, fr_sequence = sequence, fr_timestamp = timestamp, fr_payload = payload\<rparr> in
        (case json_size (frame_json f) of
           None \<Rightarrow> Inl NotSerializable
         | Some n \<Rightarrow> if max_frame_bytes < n then Inl FrameTooLarge else Inr (f, n))))))"

section \<open>Principals\<close>

record principal =
  pr_authenticated :: bool
  pr_auth_method :: pystr
  pr_role :: pystr
  pr_capabilities :: "pystr list option"

text \<open>\<open>from_session\<close>; a session is given by its authentication method, role and optional
  explicit capabilities.\<close>

definition principal_from_session :: "(pystr \<times> pystr \<times> pystr list option) option \<Rightarrow> principal" where
  "principal_from_session s =
     (case s of
        None \<Rightarrow> \<lparr>pr_authenticated = False, pr_auth_method = [], pr_role = lit ''read_only'', pr_capabilities = None\<rparr>
      | Some (auth_method, role, capabilities) \<Rightarrow>
          \<lparr>pr_authenticated = True, pr_auth_method = auth_method, pr_role = normalize_role role,
           pr_capabilities = capabilities\<rparr>)"

definition can_read_sessions :: "principal \<Rightarrow> bool" where
  "can_read_sessions p =
     (case pr_capabilities p of
        Some cs \<Rightarrow> lit ''sessions.read'' \<in> set cs \<or> lit ''*'' \<in> set cs
      | None \<Rightarrow> has_capability (pr_role p) (lit ''sessions.read''))"

definition may_stream :: "principal \<Rightarrow> bool" where
  "may_stream p \<longleftrightarrow> pr_authenticated p \<and> pr_auth_method p = lit ''routeros'' \<and> can_read_sessions p"

section \<open>The gateway\<close>

record subscription =
  su_created_at :: int
  su_last_seen :: int
  su_cursor_seen :: bool

text \<open>A retained frame with its publication time and its size.\<close>

type_synonym entry = "frame \<times> rat \<times> nat"

abbreviation entry_sequence :: "entry \<Rightarrow> int" where
  "entry_sequence x \<equiv> fr_sequence (fst x)"

abbreviation entry_size :: "entry \<Rightarrow> nat" where
  "entry_size x \<equiv> snd (snd x)"

record gateway =
  gw_max_replay :: nat
  gw_max_replay_bytes :: nat
  gw_max_frame_bytes :: nat
  gw_events :: "entry list"
  gw_retained :: int
  gw_clients :: "(pystr, subscription) dict"
  gw_max_clients :: nat
  gw_ages :: "rat list"
  gw_published :: nat
  gw_replayed :: nat
  gw_recoveries :: nat
  gw_rejected :: nat

definition new_gateway :: "int \<Rightarrow> int \<Rightarrow> int \<Rightarrow> int \<Rightarrow> gateway" where
  "new_gateway max_replay max_clients max_frame max_bytes =
     (let replay_bytes = min max_replay_bytes (nat (max 1 max_bytes)) in
      \<lparr>gw_max_replay = min max_replay_events (nat (max 1 max_replay)),
       gw_max_replay_bytes = replay_bytes,
       gw_max_frame_bytes = min max_frame_bytes (min replay_bytes (nat (max 1 max_frame))),
       gw_events = [], gw_retained = 0, gw_clients = [], gw_max_clients = nat (max 1 max_clients),
       gw_ages = [], gw_published = 0, gw_replayed = 0, gw_recoveries = 0, gw_rejected = 0\<rparr>)"

definition bounded_frame :: "gateway \<Rightarrow> gw_event \<Rightarrow> gateway_error + frame \<times> nat" where
  "bounded_frame g e =
     ebind (build_frame e) (\<lambda>(f, n). if gw_max_frame_bytes g < n then Inl FrameTooLarge else Inr (f, n))"

definition open_client :: "gateway \<Rightarrow> principal \<Rightarrow> pystr \<Rightarrow> rat \<Rightarrow> gateway \<times> (gateway_error + pystr)" where
  "open_client g p sid clock =
     (if \<not> may_stream p then (g\<lparr>gw_rejected := gw_rejected g + 1\<rparr>, Inl NotAuthorized)
      else if gw_max_clients g \<le> length (gw_clients g)
      then (g\<lparr>gw_rejected := gw_rejected g + 1\<rparr>, Inl ClientLimit)
      else (g\<lparr>gw_clients := dset sid
              \<lparr>su_created_at = py_trunc clock, su_last_seen = 0, su_cursor_seen = False\<rparr> (gw_clients g)\<rparr>,
            Inr sid))"

definition close_client :: "gateway \<Rightarrow> pystr \<Rightarrow> gateway \<times> bool" where
  "close_client g sid =
     (g\<lparr>gw_clients := ddel sid (gw_clients g)\<rparr>, dget (gw_clients g) sid \<noteq> None)"

text \<open>The eviction loop of \<open>publish\<close>.\<close>

fun make_room :: "gateway \<Rightarrow> nat \<Rightarrow> entry list \<Rightarrow> int \<Rightarrow> entry list \<times> int" where
  "make_room g size_new [] retained = ([], retained)"
| "make_room g size_new (old # events) retained =
     (if gw_max_replay g \<le> length (old # events) \<or> int (gw_max_replay_bytes g) < retained + int size_new
      then make_room g size_new events (retained - int (entry_size old))
      else (old # events, retained))"

text \<open>\<open>readings\<close> are the monotonic clock readings, one per appended frame.\<close>

fun publish_loop :: "gateway \<Rightarrow> (gw_event \<times> rat) list \<Rightarrow> nat \<Rightarrow> gateway \<times> (gateway_error + nat)" where
  "publish_loop g [] appended = (g\<lparr>gw_published := gw_published g + appended\<rparr>, Inr appended)"
| "publish_loop g ((e, reading) # rest) appended =
     (case bounded_frame g e of
        Inl err \<Rightarrow> (g, Inl err)
      | Inr (f, n) \<Rightarrow>
          if gw_max_replay_bytes g < n then (g, Inl ReplayBudget)
          else case make_room g n (gw_events g) (gw_retained g) of
            (events, retained) \<Rightarrow>
              publish_loop (g\<lparr>gw_events := events @ [(f, reading, n)], gw_retained := retained + int n\<rparr>)
                rest (appended + 1))"

definition publish :: "gateway \<Rightarrow> (gw_event \<times> rat) list \<Rightarrow> gateway \<times> (gateway_error + nat)" where
  "publish g events = publish_loop g events 0"

text \<open>What the gateway needs of the broker: its sequence and its recovery snapshot (the
  watermark, the sessions and the interfaces as JSON values).\<close>

record source =
  so_sequence :: int
  so_snapshot :: "int \<times> jval \<times> jval"

definition snapshot_entry :: "gateway \<Rightarrow> source \<Rightarrow> rat \<Rightarrow> rat \<Rightarrow> gateway_error + entry" where
  "snapshot_entry g src clock reading =
     (case so_snapshot src of (sequence, sessions, interfaces) \<Rightarrow>
      ebind (bounded_frame g
               \<lparr>ge_name = lit ''telemetry.snapshot'', ge_sequence = JInt sequence,
                ge_timestamp = JInt (py_trunc clock),
                ge_payload = JDict [(lit ''sessions'', sessions), (lit ''interfaces'', interfaces)]\<rparr>)
        (\<lambda>(f, n). Inr (f, reading, n)))"

definition consecutive :: "int list \<Rightarrow> bool" where
  "consecutive xs \<longleftrightarrow> list_all (\<lambda>(p, q). q = p + 1) (zip xs (drop 1 xs))"

text \<open>Nothing between the cursor and the broker's sequence is missing.\<close>

definition replay_complete :: "entry list \<Rightarrow> int \<Rightarrow> int \<Rightarrow> bool" where
  "replay_complete result cursor broker_sequence \<longleftrightarrow>
     (let available = sorted_list_of_set (entry_sequence ` set result) in
      int (length available) = broker_sequence - cursor \<and>
      (available = [] \<or> hd available = cursor + 1) \<and>
      (available = [] \<or> last available = broker_sequence) \<and>
      consecutive available)"

text \<open>The conditions under which \<open>poll\<close> answers with a snapshot instead of a replay.\<close>

definition needs_snapshot :: "gateway \<Rightarrow> source \<Rightarrow> subscription \<Rightarrow> int option \<Rightarrow> entry list \<Rightarrow> bool" where
  "needs_snapshot g src sub after_sequence pending \<longleftrightarrow>
     (after_sequence \<noteq> None \<and> \<not> su_cursor_seen sub) \<or> su_last_seen sub < 0 \<or>
     so_sequence src < su_last_seen sub \<or>
     (gw_events g \<noteq> [] \<and> su_last_seen sub < Min (entry_sequence ` set (gw_events g)) - 1) \<or>
     \<not> replay_complete pending (su_last_seen sub) (so_sequence src)"

text \<open>The end of \<open>poll\<close>: the cursor, the queue ages and the cursor flag.\<close>

definition deliver :: "gateway \<Rightarrow> pystr \<Rightarrow> subscription \<Rightarrow> int option \<Rightarrow> rat \<Rightarrow> entry list \<Rightarrow> gateway" where
  "deliver g sid sub after_sequence observed result =
     (let sub' = (if result = [] then sub else sub\<lparr>su_last_seen := Max (entry_sequence ` set result)\<rparr>) in
      g\<lparr>gw_clients := dset sid (if after_sequence = None then sub' else sub'\<lparr>su_cursor_seen := True\<rparr>) (gw_clients g),
        gw_ages := last_n 512 (gw_ages g @ map (\<lambda>x. max 0 (observed - fst (snd x))) result)\<rparr>)"

text \<open>\<open>clock\<close> and \<open>reading\<close> are read when a snapshot is built, \<open>observed\<close> when the frames are
  handed over.\<close>

definition poll :: "gateway \<Rightarrow> source \<Rightarrow> pystr \<Rightarrow> int option \<Rightarrow> rat \<Rightarrow> rat \<Rightarrow> rat
    \<Rightarrow> gateway \<times> (gateway_error + frame list)" where
  "poll g src sid after_sequence clock reading observed =
     (case dget (gw_clients g) sid of
        None \<Rightarrow> (g, Inl NotSubscribed)
      | Some sub \<Rightarrow>
          let pending = filter (\<lambda>x. su_last_seen sub < entry_sequence x) (gw_events g) in
          if needs_snapshot g src sub after_sequence pending then
            (case snapshot_entry g src clock reading of
               Inl e \<Rightarrow> (g, Inl e)
             | Inr entry \<Rightarrow>
                 (deliver (g\<lparr>gw_recoveries := gw_recoveries g + 1\<rparr>) sid sub after_sequence observed [entry],
                  Inr [fst entry]))
          else
            let result = sort_key entry_sequence pending in
            (deliver (g\<lparr>gw_replayed := gw_replayed g + length result\<rparr>) sid sub after_sequence observed result,
             Inr (map fst result)))"

record gateway_metrics =
  me_active_clients :: nat
  me_buffered_events :: nat
  me_buffered_bytes :: int
  me_bytes_limit :: nat
  me_published :: nat
  me_replayed :: nat
  me_recoveries :: nat
  me_rejected :: nat
  me_observations :: nat
  me_queue_age :: rat
  me_queue_age_p95 :: rat

definition metrics :: "gateway \<Rightarrow> gateway_metrics" where
  "metrics g =
     (let ages = sort (gw_ages g); p95_index = (length ages * 95 + 99) div 100 - 1 in
      \<lparr>me_active_clients = length (gw_clients g), me_buffered_events = length (gw_events g),
       me_buffered_bytes = gw_retained g, me_bytes_limit = gw_max_replay_bytes g,
       me_published = gw_published g, me_replayed = gw_replayed g, me_recoveries = gw_recoveries g,
       me_rejected = gw_rejected g, me_observations = length (gw_ages g),
       me_queue_age = (if gw_ages g = [] then -1 else last (gw_ages g)),
       me_queue_age_p95 = (if ages = [] then -1 else ages ! p95_index)\<rparr>)"

definition client_count :: "gateway \<Rightarrow> nat" where
  "client_count g = length (gw_clients g)"

section \<open>Redacted values\<close>

text \<open>What a public value may be: bounded text, a counter, a rate or metric, a flag.\<close>

definition public_text :: "jval \<Rightarrow> bool" where
  "public_text v \<longleftrightarrow> (\<exists>s bs. v = JStr s \<and> utf8_encode s = Some bs \<and> length bs \<le> max_text_bytes)"

definition public_number :: "jval \<Rightarrow> bool" where
  "public_number v \<longleftrightarrow> (\<exists>i. v = JInt i \<and> 0 \<le> i \<and> (i \<le> max_counter_value)) \<or>
     (\<exists>x t. v = JFloat (Some x) t \<and> 0 \<le> x \<and> x \<le> max_rate_value)"

lemma bounded_text_public: "bounded_text v = Inr w \<Longrightarrow> w = v \<and> public_text w"
  by (auto simp: bounded_text_def public_text_def split: jval.splits if_splits option.splits)

lemma bounded_counter_public: "bounded_counter v = Inr w \<Longrightarrow> w = v \<and> public_number w"
  by (auto simp: bounded_counter_def public_number_def split: jval.splits if_splits)

lemma bounded_number_public:
  assumes "bounded_number m v = Inr w" and "m \<le> max_rate_value"
  shows "w = v \<and> public_number w"
proof -
  have "i \<le> max_counter_value" if "of_int i \<le> m" for i
  proof -
    from that assms(2) have "(of_int i :: rat) \<le> of_int (10 ^ 15)" by (simp add: max_rate_value_def)
    then have "i \<le> 10 ^ 15" by (simp only: of_int_le_iff)
    then show ?thesis by (simp add: max_counter_value_def)
  qed
  with assms show ?thesis
    by (auto simp: bounded_number_def public_number_def split: jval.splits if_splits option.splits)
qed

lemma project_Inr:
  assumes "project check keys d = Inr d'" and "(k, v) \<in> set d'"
  shows "k \<in> set keys \<and> (\<exists>w. dget d k = Some w \<and> check k w = Inr v)"
  using emap_Inr_set [OF assms [unfolded project_def]] by (auto simp: err_simps)

lemma project_keys: "project check keys d = Inr d' \<Longrightarrow> dkeys d' = filter (\<lambda>k. dget d k \<noteq> None) keys"
proof -
  have "emap (\<lambda>k. ebind (check k (f k)) (\<lambda>v. Inr (k, v))) ks = Inr d' \<Longrightarrow> dkeys d' = ks" for f ks d'
    by (induction ks arbitrary: d') (auto simp: err_simps)
  then show "project check keys d = Inr d' \<Longrightarrow> dkeys d' = filter (\<lambda>k. dget d k \<noteq> None) keys"
    unfolding project_def .
qed

end
