(* ===== verification/Gateway_Props.thy ===== *)
theory Gateway_Props
  imports Gateway "HOL-Library.Multiset"
begin

text \<open>
  What the gateway guarantees: every frame it retains or delivers consists of allow-listed
  fields with bounded values; the replay buffer stays within its event and byte budgets and
  its byte count is exact; only authorised principals subscribe, up to the client limit; and
  a poll never skips an event: it brings the client exactly to the broker's sequence, either
  by all events in between, in order, or by a snapshot.
\<close>

section \<open>Public frames\<close>

definition public_scalar :: "jval \<Rightarrow> bool" where
  "public_scalar v \<longleftrightarrow> public_text v \<or> public_number v \<or> (\<exists>b. v = JBool b)"

definition flat_public :: "pystr list \<Rightarrow> jval \<Rightarrow> bool" where
  "flat_public keys v \<longleftrightarrow> (\<exists>d. v = JDict d \<and> (\<forall>(k, x)\<in>set d. k \<in> set keys \<and> public_scalar x))"

definition list_public :: "pystr list \<Rightarrow> jval \<Rightarrow> bool" where
  "list_public keys v \<longleftrightarrow> (\<exists>xs. v = JList xs \<and> list_all (flat_public keys) xs)"

definition snapshot_public :: "jval \<Rightarrow> bool" where
  "snapshot_public v \<longleftrightarrow> (\<exists>d. v = JDict d \<and>
     (\<forall>(k, x)\<in>set d. k = lit ''sessions'' \<and> list_public session_fields x \<or>
                     k = lit ''interfaces'' \<and> list_public interface_counter_fields x))"

definition reset_public :: "jval \<Rightarrow> bool" where
  "reset_public v \<longleftrightarrow> (\<exists>d. v = JDict d \<and>
     (\<forall>(k, x)\<in>set d. k \<in> set reset_keys \<and>
        (public_text x \<or> (\<exists>fs. x = JList fs \<and> length fs \<le> 4 \<and> list_all reset_field_ok fs))))"

definition frame_public :: "frame \<Rightarrow> bool" where
  "frame_public f \<longleftrightarrow> fr_event f \<in> set supported_events \<and> 0 \<le> fr_sequence f \<and> 0 \<le> fr_timestamp f \<and>
     (snapshot_public (fr_payload f) \<or> reset_public (fr_payload f) \<or>
      flat_public (session_fields @ interface_counter_fields @ router_metric_fields) (fr_payload f))"

lemma flat_public_mono: "flat_public ks v \<Longrightarrow> set ks \<subseteq> set ks' \<Longrightarrow> flat_public ks' v"
  by (fastforce simp: flat_public_def)

lemma project_flat:
  assumes "project check keys d = Inr d'" and "\<And>k v w. k \<in> set keys \<Longrightarrow> check k v = Inr w \<Longrightarrow> public_scalar w"
  shows "flat_public keys (JDict d')"
  using project_Inr [OF assms(1)] assms(2) by (fastforce simp: flat_public_def)

lemma check_session_public: "check_session_field k v = Inr w \<Longrightarrow> public_scalar w"
  by (auto simp: check_session_field_def public_scalar_def bounded_flag_def
      split: if_splits jval.splits dest: bounded_text_public bounded_counter_public)

lemma check_interface_public: "check_interface_field k v = Inr w \<Longrightarrow> public_scalar w"
  by (auto simp: check_interface_field_def public_scalar_def
      split: if_splits dest: bounded_text_public bounded_counter_public bounded_number_public)

lemma check_metric_public: "check_metric_field k v = Inr w \<Longrightarrow> public_scalar w"
proof -
  have "(100 :: rat) \<le> max_rate_value" by (simp add: max_rate_value_def)
  then show "check_metric_field k v = Inr w \<Longrightarrow> public_scalar w"
    by (auto simp: check_metric_field_def public_scalar_def
        split: if_splits dest: bounded_text_public bounded_number_public)
qed

lemma redact_session_public: "redact_session v = Inr w \<Longrightarrow> flat_public session_fields w"
  by (auto simp: redact_session_def err_simps intro: project_flat check_session_public)

lemma redact_interface_public: "redact_interface v = Inr w \<Longrightarrow> flat_public interface_counter_fields w"
  by (auto simp: redact_interface_def err_simps intro: project_flat check_interface_public)

lemma emap_list_all: "emap f xs = Inr ys \<Longrightarrow> (\<And>x y. f x = Inr y \<Longrightarrow> P y) \<Longrightarrow> list_all P ys"
  by (induction xs arbitrary: ys) (auto simp: err_simps)

lemma snapshot_payload_public:
  assumes "snapshot_payload d = Inr v" shows "snapshot_public v"
proof -
  obtain sessions where s: "(case dget d (lit ''sessions'') of None \<Rightarrow> JList [] | Some v \<Rightarrow> v) = JList sessions"
    using assms unfolding snapshot_payload_def by (simp split: jval.split_asm)
  obtain ss where ss: "emap redact_session sessions = Inr ss"
    and rest: "(case dget d (lit ''interfaces'') of
         None \<Rightarrow> Inr (JDict [(lit ''sessions'', JList ss)])
       | Some (JList interfaces) \<Rightarrow>
           if max_cached_interfaces < length interfaces then Inl TooManyInterfaces
           else ebind (emap redact_interface interfaces)
             (\<lambda>is. Inr (JDict [(lit ''sessions'', JList ss), (lit ''interfaces'', JList is)]))
       | Some _ \<Rightarrow> Inl TooManyInterfaces) = Inr v"
    using assms unfolding snapshot_payload_def s by (auto simp: ebind_Inr_iff split: if_split_asm)
  have "list_public session_fields (JList ss)"
    using emap_list_all [OF ss redact_session_public] by (simp add: list_public_def)
  moreover have "v = JDict [(lit ''sessions'', JList ss)] \<or>
    (\<exists>is. v = JDict [(lit ''sessions'', JList ss), (lit ''interfaces'', JList is)] \<and>
       list_public interface_counter_fields (JList is))"
    using rest emap_list_all [of redact_interface _ _ "flat_public interface_counter_fields", OF _ redact_interface_public]
    by (auto simp: ebind_Inr_iff list_public_def split: option.split_asm jval.split_asm if_split_asm)
  ultimately show ?thesis by (auto simp: snapshot_public_def)
qed

lemma check_reset_public:
  "check_reset_field k v = Inr w \<Longrightarrow>
   public_text w \<or> (\<exists>fs. w = JList fs \<and> length fs \<le> 4 \<and> list_all reset_field_ok fs)"
  by (auto simp: check_reset_field_def err_simps split: if_splits jval.splits dest!: bounded_text_public)

lemma safe_payload_public:
  assumes "safe_payload n d = Inr v"
  shows "snapshot_public v \<or> reset_public v \<or>
    flat_public (session_fields @ interface_counter_fields @ router_metric_fields) v"
proof -
  have m: "flat_public (session_fields @ interface_counter_fields @ router_metric_fields) v"
    if "flat_public ks v" "ks \<in> {session_fields, interface_counter_fields, router_metric_fields}" for ks
    using that by (auto intro: flat_public_mono)
  consider "snapshot_payload d = Inr v" | x where "redact_interface x = Inr v"
    | d' where "project check_reset_field reset_keys d = Inr d'" "v = JDict d'"
    | d' where "project check_metric_field router_metric_fields d = Inr d'" "v = JDict d'"
    | "redact_session (JDict d) = Inr v"
    using assms by (auto simp: safe_payload_def err_simps split: if_splits)
  then show ?thesis
  proof cases
    case 3
    then show ?thesis
      using project_Inr [OF 3(1)] check_reset_public by (fastforce simp: reset_public_def)
  next
    case 4
    then show ?thesis using m [of router_metric_fields] project_flat [OF 4(1)] check_metric_public by blast
  qed (use m snapshot_payload_public redact_session_public redact_interface_public in blast)+
qed

lemma bounded_sequence_iff: "bounded_sequence v = Inr i \<longleftrightarrow> v = JInt i \<and> 0 \<le> i \<and> i \<le> max_frame_number"
  by (auto simp: bounded_sequence_def split: jval.splits if_splits)

lemma build_frame_Inr:
  assumes "build_frame e = Inr (f, n)"
  shows "ge_name e \<in> set supported_events \<and> fr_event f = ge_name e \<and>
     safe_payload (ge_name e) (dict_items (ge_payload e)) = Inr (fr_payload f) \<and>
     bounded_sequence (ge_sequence e) = Inr (fr_sequence f) \<and>
     bounded_sequence (ge_timestamp e) = Inr (fr_timestamp f) \<and>
     json_size (frame_json f) = Some n \<and> n \<le> max_frame_bytes"
proof -
  from assms have n: "ge_name e \<in> set supported_events"
    unfolding build_frame_def by (simp split: if_split_asm)
  with assms obtain p sq ts where p: "safe_payload (ge_name e) (dict_items (ge_payload e)) = Inr p"
    "bounded_sequence (ge_sequence e) = Inr sq" "bounded_sequence (ge_timestamp e) = Inr ts"
    and r: "(case json_size (frame_json \<lparr>fr_event = ge_name e, fr_sequence = sq, fr_timestamp = ts, fr_payload = p\<rparr>) of
         None \<Rightarrow> Inl NotSerializable
       | Some n \<Rightarrow> if max_frame_bytes < n then Inl FrameTooLarge
           else Inr (\<lparr>fr_event = ge_name e, fr_sequence = sq, fr_timestamp = ts, fr_payload = p\<rparr>, n)) = Inr (f, n)"
    unfolding build_frame_def Let_def ebind_Inr_iff if_not_P [of "_ \<notin> _"] by (auto simp: ebind_Inr_iff)
  from r have "f = \<lparr>fr_event = ge_name e, fr_sequence = sq, fr_timestamp = ts, fr_payload = p\<rparr>"
    "json_size (frame_json f) = Some n" "n \<le> max_frame_bytes"
    by (auto split: option.split_asm if_split_asm)
  with n p show ?thesis by simp
qed

lemma build_frame_public:
  assumes "build_frame e = Inr (f, n)"
  shows "frame_public f \<and> n \<le> max_frame_bytes \<and> json_size (frame_json f) = Some n"
  using build_frame_Inr [OF assms] safe_payload_public
  by (auto simp: frame_public_def bounded_sequence_iff)

section \<open>The invariant\<close>

definition entry_ok :: "nat \<Rightarrow> entry \<Rightarrow> bool" where
  "entry_ok limit x \<longleftrightarrow> frame_public (fst x) \<and> json_size (frame_json (fst x)) = Some (entry_size x) \<and>
     entry_size x \<le> limit"

definition gateway_ok :: "gateway \<Rightarrow> bool" where
  "gateway_ok g \<longleftrightarrow>
     1 \<le> gw_max_replay g \<and> gw_max_replay g \<le> max_replay_events \<and>
     gw_max_frame_bytes g \<le> gw_max_replay_bytes g \<and> gw_max_replay_bytes g \<le> max_replay_bytes \<and>
     gw_retained g = int (sum_list (map entry_size (gw_events g))) \<and>
     gw_retained g \<le> int (gw_max_replay_bytes g) \<and> length (gw_events g) \<le> gw_max_replay g \<and>
     list_all (entry_ok (gw_max_frame_bytes g)) (gw_events g) \<and>
     dict_ok (gw_clients g) \<and> length (gw_clients g) \<le> gw_max_clients g \<and> length (gw_ages g) \<le> 512"

lemma new_gateway_ok: "gateway_ok (new_gateway a b c d)"
  by (auto simp: gateway_ok_def new_gateway_def Let_def max_replay_events_def max_frame_bytes_def
      max_replay_bytes_def)

lemma bounded_frame_ok: "bounded_frame g e = Inr (f, n) \<Longrightarrow> entry_ok (gw_max_frame_bytes g) (f, t, n)"
  by (auto simp: bounded_frame_def err_simps entry_ok_def dest!: build_frame_public split: if_splits)

lemma make_room_spec:
  assumes "make_room g n events retained = (events', retained')"
    and "retained = int (sum_list (map entry_size events))"
    and "1 \<le> gw_max_replay g" and "n \<le> gw_max_replay_bytes g"
  shows "retained' = int (sum_list (map entry_size events')) \<and>
    retained' + int n \<le> int (gw_max_replay_bytes g) \<and> length events' < gw_max_replay g \<and>
    (\<exists>dropped. events = dropped @ events')"
  using assms
proof (induction g n events retained rule: make_room.induct)
  case (2 g n old events retained)
  show ?case
  proof (cases "gw_max_replay g \<le> length (old # events) \<or> int (gw_max_replay_bytes g) < retained + int n")
    case True
    with 2 show ?thesis by (auto intro: exI [of _ "old # _"])
  next
    case False
    with 2 show ?thesis by auto
  qed
qed auto

lemma publish_loop_ok:
  "publish_loop g events k = (g', res) \<Longrightarrow> gateway_ok g \<Longrightarrow> gateway_ok g'"
proof (induction events arbitrary: g k)
  case (Cons x rest)
  obtain e reading where x: "x = (e, reading)" by fastforce
  show ?case
  proof (cases "bounded_frame g e")
    case (Inl err)
    with Cons.prems x show ?thesis by simp
  next
    case (Inr fn)
    obtain f n where fn: "fn = (f, n)" by fastforce
    obtain events' retained' where m: "make_room g n (gw_events g) (gw_retained g) = (events', retained')" by fastforce
    show ?thesis
    proof (cases "gw_max_replay_bytes g < n")
      case True
      with Cons.prems x Inr fn show ?thesis by simp
    next
      case False
      let ?g = "g\<lparr>gw_events := events' @ [(f, reading, n)], gw_retained := retained' + int n\<rparr>"
      have room: "retained' = int (sum_list (map entry_size events'))"
        "retained' + int n \<le> int (gw_max_replay_bytes g)" "length events' < gw_max_replay g"
        "\<exists>dropped. gw_events g = dropped @ events'"
        using make_room_spec [OF m] Cons.prems(2) False by (simp_all add: gateway_ok_def)
      have "entry_ok (gw_max_frame_bytes g) (f, reading, n)" using bounded_frame_ok Inr fn by simp
      then have "gateway_ok ?g"
        using Cons.prems(2) room by (auto simp: gateway_ok_def list_all_iff)
      with Cons x Inr fn m False show ?thesis by simp
    qed
  qed
qed (auto simp: gateway_ok_def)

lemma open_client_ok:
  "open_client g p sid clock = (g', res) \<Longrightarrow> gateway_ok g \<Longrightarrow> gateway_ok g'"
proof -
  assume o: "open_client g p sid clock = (g', res)" and g: "gateway_ok g"
  have "length (dset sid v (gw_clients g)) \<le> gw_max_clients g"
    if "length (gw_clients g) < gw_max_clients g" for v :: subscription
    using that length_dset_le [of sid v "gw_clients g"] by linarith
  with o g show ?thesis
    by (auto simp: open_client_def gateway_ok_def split: if_splits)
qed

lemma close_client_ok: "gateway_ok g \<Longrightarrow> gateway_ok (fst (close_client g sid))"
  using length_ddel_le [of sid "gw_clients g"]
  by (auto simp: close_client_def gateway_ok_def)

text \<open>The two ways a poll succeeds.\<close>

lemma poll_cases [consumes 1, case_names unknown unserved recovered replayed]:
  assumes "poll g src sid after_sequence clock reading observed = (g', res)"
  obtains "dget (gw_clients g) sid = None" "g' = g" "res = Inl NotSubscribed"
  | e where "g' = g" "res = Inl e" "snapshot_entry g src clock reading = Inl e"
  | sub entry where "dget (gw_clients g) sid = Some sub" "snapshot_entry g src clock reading = Inr entry"
      "g' = deliver (g\<lparr>gw_recoveries := gw_recoveries g + 1\<rparr>) sid sub after_sequence observed [entry]"
      "res = Inr [fst entry]"
  | sub pending where "dget (gw_clients g) sid = Some sub"
      "pending = filter (\<lambda>x. su_last_seen sub < entry_sequence x) (gw_events g)"
      "replay_complete pending (su_last_seen sub) (so_sequence src)" "su_last_seen sub \<le> so_sequence src"
      "after_sequence \<noteq> None \<longrightarrow> su_cursor_seen sub"
      "g' = deliver (g\<lparr>gw_replayed := gw_replayed g + length pending\<rparr>) sid sub after_sequence observed
              (sort_key entry_sequence pending)"
      "res = Inr (map fst (sort_key entry_sequence pending))"
proof (cases "dget (gw_clients g) sid")
  case None
  then have "poll g src sid after_sequence clock reading observed = (g, Inl NotSubscribed)"
    by (simp add: poll_def)
  with assms that(1) [OF None] show thesis by simp
next
  case (Some sub)
  define pending where "pending = filter (\<lambda>x. su_last_seen sub < entry_sequence x) (gw_events g)"
  show thesis
  proof (cases "needs_snapshot g src sub after_sequence pending")
    case True
    then have p: "poll g src sid after_sequence clock reading observed =
      (case snapshot_entry g src clock reading of
         Inl e \<Rightarrow> (g, Inl e)
       | Inr entry \<Rightarrow>
           (deliver (g\<lparr>gw_recoveries := gw_recoveries g + 1\<rparr>) sid sub after_sequence observed [entry],
            Inr [fst entry]))"
      unfolding poll_def Some option.case pending_def [symmetric] Let_def by (rule if_P)
    show thesis
    proof (cases "snapshot_entry g src clock reading")
      case (Inl e)
      with p assms show thesis by (intro that(2) [OF _ _ Inl]) simp_all
    next
      case (Inr entry)
      with p assms show thesis by (intro that(3) [OF Some Inr]) simp_all
    qed
  next
    case False
    then have c: "replay_complete pending (su_last_seen sub) (so_sequence src)"
      "su_last_seen sub \<le> so_sequence src" "after_sequence \<noteq> None \<longrightarrow> su_cursor_seen sub"
      unfolding needs_snapshot_def by (blast, linarith, blast)
    have "poll g src sid after_sequence clock reading observed =
      (deliver (g\<lparr>gw_replayed := gw_replayed g + length (sort_key entry_sequence pending)\<rparr>) sid sub
         after_sequence observed (sort_key entry_sequence pending),
       Inr (map fst (sort_key entry_sequence pending)))"
      unfolding poll_def Some option.case pending_def [symmetric] Let_def using False by (rule if_not_P)
    with assms show thesis
      by (intro that(4) [OF Some pending_def c]) simp_all
  qed
qed

lemma deliver_ok:
  assumes "gateway_ok g" and "dget (gw_clients g) sid = Some sub"
  shows "gateway_ok (deliver g sid sub after_sequence observed result)"
proof -
  have "sid \<in> set (dkeys (gw_clients g))"
    using assms(2) by (simp add: set_dkeys domI del: set_map)
  then have "length (dset sid v (gw_clients g)) = length (gw_clients g)" for v :: subscription
    by (simp add: length_dset del: set_map)
  with assms(1) show ?thesis by (auto simp: gateway_ok_def deliver_def Let_def)
qed

lemma gateway_ok_counts [simp]:
  "gateway_ok (g\<lparr>gw_recoveries := n\<rparr>) = gateway_ok g" "gateway_ok (g\<lparr>gw_replayed := n\<rparr>) = gateway_ok g"
  by (simp_all add: gateway_ok_def)

lemma poll_ok:
  assumes "poll g src sid after_sequence clock reading observed = (g', res)" and "gateway_ok g"
  shows "gateway_ok g'"
  using assms(1) by (cases rule: poll_cases) (use assms(2) in \<open>simp_all add: deliver_ok\<close>)

lemma snapshot_entry_Inr:
  assumes "snapshot_entry g src clock reading = Inr entry"
  shows "entry_ok (gw_max_frame_bytes g) entry \<and> entry_sequence entry = fst (so_snapshot src) \<and>
    fr_event (fst entry) = lit ''telemetry.snapshot''"
proof -
  obtain w ss ifs where src: "so_snapshot src = (w, ss, ifs)" by (metis prod_cases3)
  from assms obtain f n where b: "bounded_frame g \<lparr>ge_name = lit ''telemetry.snapshot'', ge_sequence = JInt w,
      ge_timestamp = JInt (py_trunc clock),
      ge_payload = JDict [(lit ''sessions'', ss), (lit ''interfaces'', ifs)]\<rparr> = Inr (f, n)"
    and e: "entry = (f, reading, n)"
    by (auto simp: snapshot_entry_def src err_simps)
  then have "build_frame \<lparr>ge_name = lit ''telemetry.snapshot'', ge_sequence = JInt w,
      ge_timestamp = JInt (py_trunc clock),
      ge_payload = JDict [(lit ''sessions'', ss), (lit ''interfaces'', ifs)]\<rparr> = Inr (f, n)"
    by (auto simp: bounded_frame_def err_simps split: if_splits)
  from build_frame_Inr [OF this] bounded_frame_ok [OF b] show ?thesis
    by (simp add: e src bounded_sequence_iff)
qed

lemma poll_frames_public:
  assumes "poll g src sid after_sequence clock reading observed = (g', Inr frames)" and "gateway_ok g"
    and "f \<in> set frames"
  shows "frame_public f"
  using assms(1)
proof (cases rule: poll_cases)
  case (recovered sub entry)
  with assms(3) snapshot_entry_Inr [OF recovered(2)] show ?thesis by (auto simp: entry_ok_def)
next
  case (replayed sub pending)
  then have "\<exists>x\<in>set (gw_events g). f = fst x" using assms(3) by auto
  with assms(2) show ?thesis by (auto simp: gateway_ok_def list_all_iff entry_ok_def)
qed simp_all

text \<open>A complete replay holds exactly the sequence numbers between the cursor and the broker.\<close>

lemma sorted_hd_last: "sorted l \<Longrightarrow> x \<in> set l \<Longrightarrow> hd l \<le> x \<and> x \<le> last (l :: int list)"
  by (induction l) (auto simp: last_in_set)

lemma replay_complete_set:
  assumes "replay_complete pending cursor n" and "cursor \<le> n"
  shows "entry_sequence ` set pending = {cursor + 1..n}"
proof -
  let ?S = "entry_sequence ` set pending"
  define l where "l = sorted_list_of_set ?S"
  have l: "set l = ?S" "distinct l" "sorted l" by (simp_all add: l_def)
  have c: "int (length l) = n - cursor \<and> (l = [] \<or> hd l = cursor + 1) \<and> (l = [] \<or> last l = n) \<and> consecutive l"
    using assms(1) unfolding replay_complete_def Let_def l_def .
  have "x \<in> {cursor + 1..n}" if "x \<in> set l" for x
    using sorted_hd_last [OF l(3) that] c that by (cases l) auto
  then have sub: "?S \<subseteq> {cursor + 1..n}" using l(1) by blast
  have "card ?S = length l" using l by (metis distinct_card)
  moreover have "length l = nat (n - cursor)" using c by linarith
  ultimately have "card ?S = card {cursor + 1..n}" by simp
  with sub show ?thesis by (intro card_subset_eq) simp_all
qed

definition last_seen :: "gateway \<Rightarrow> pystr \<Rightarrow> int option" where
  "last_seen g sid = map_option su_last_seen (dget (gw_clients g) sid)"

lemma deliver_last_seen:
  "last_seen (deliver g sid sub after_sequence observed result) sid =
     Some (if result = [] then su_last_seen sub else Max (entry_sequence ` set result))"
  by (simp add: last_seen_def deliver_def Let_def dget_dset)

lemma poll_catches_up:
  assumes "poll g src sid after_sequence clock reading observed = (g', Inr frames)"
    and "fst (so_snapshot src) = so_sequence src"
  shows "last_seen g' sid = Some (so_sequence src) \<and>
    ((\<exists>f. frames = [f] \<and> fr_event f = lit ''telemetry.snapshot'' \<and> fr_sequence f = so_sequence src) \<or>
     (\<exists>cursor. last_seen g sid = Some cursor \<and> cursor \<le> so_sequence src \<and>
        fr_sequence ` set frames = {cursor + 1..so_sequence src} \<and>
        sorted (map fr_sequence frames) \<and>
        mset frames = mset (filter (\<lambda>f. cursor < fr_sequence f) (map fst (gw_events g)))))"
  using assms(1)
proof (cases rule: poll_cases)
  case (recovered sub entry)
  then show ?thesis
    using snapshot_entry_Inr [OF recovered(2)] assms(2) by (simp add: deliver_last_seen)
next
  case (replayed sub pending)
  let ?result = "sort_key entry_sequence pending"
  note set = replay_complete_set [OF replayed(3,4)]
  have seqs: "fr_sequence ` set frames = {su_last_seen sub + 1..so_sequence src}"
    using replayed(7) set by (simp add: image_image)
  have "last_seen g' sid = Some (so_sequence src)"
  proof (cases "pending = []")
    case True
    then have "\<not> su_last_seen sub < so_sequence src" using set by auto
    with True replayed(4,6) show ?thesis by (simp add: deliver_last_seen)
  next
    case False
    then have "{su_last_seen sub + 1..so_sequence src} \<noteq> {}" unfolding set [symmetric] by auto
    then have "Max {su_last_seen sub + 1..so_sequence src} = so_sequence src"
      by (intro Max_eqI) auto
    moreover have "sort_key entry_sequence pending \<noteq> []"
      using False by (metis length_0_conv length_sort)
    ultimately show ?thesis using replayed(6) set by (simp add: deliver_last_seen)
  qed
  moreover have "sorted (map fr_sequence frames)"
  proof -
    have "map fr_sequence frames = map entry_sequence ?result" using replayed(7) by simp
    then show ?thesis by (metis sorted_sort_key)
  qed
  moreover have "mset frames = mset (filter (\<lambda>f. su_last_seen sub < fr_sequence f) (map fst (gw_events g)))"
    using replayed(2,7) by (simp add: filter_map comp_def mset_map)
  moreover have "last_seen g sid = Some (su_last_seen sub)"
    using replayed(1) by (simp add: last_seen_def)
  ultimately show ?thesis using seqs replayed(4) by blast
qed simp_all

section \<open>Runs\<close>

inductive gateway_step :: "gateway \<Rightarrow> frame list \<Rightarrow> gateway \<Rightarrow> bool" where
  open_step: "open_client g p sid clock = (g', res) \<Longrightarrow> gateway_step g [] g'"
| close_step: "close_client g sid = (g', found) \<Longrightarrow> gateway_step g [] g'"
| publish_step: "publish g events = (g', res) \<Longrightarrow> gateway_step g [] g'"
| poll_step: "poll g src sid cursor clock reading observed = (g', Inr frames) \<Longrightarrow> gateway_step g frames g'"
| poll_error_step: "poll g src sid cursor clock reading observed = (g', Inl e) \<Longrightarrow> gateway_step g [] g'"

text \<open>A gateway in use and all frames it has handed out.\<close>

inductive gateway_run :: "gateway \<Rightarrow> frame list \<Rightarrow> bool" where
  gateway_start: "gateway_run (new_gateway a b c d) []"
| gateway_more: "gateway_run g out \<Longrightarrow> gateway_step g frames g' \<Longrightarrow> gateway_run g' (out @ frames)"

lemma gateway_step_ok:
  "gateway_step g frames g' \<Longrightarrow> gateway_ok g \<Longrightarrow> gateway_ok g' \<and> list_all frame_public frames"
proof (induction rule: gateway_step.induct)
  case (close_step g sid g' found)
  then show ?case using close_client_ok [of g sid] by simp
next
  case (poll_step g src sid cursor clock reading observed g' frames)
  then show ?case using poll_ok poll_frames_public by (fastforce simp: list_all_iff)
qed (auto intro: open_client_ok publish_loop_ok poll_ok simp: publish_def)

lemma gateway_run_ok: "gateway_run g out \<Longrightarrow> gateway_ok g \<and> list_all frame_public out"
  by (induction rule: gateway_run.induct) (auto simp: new_gateway_ok dest: gateway_step_ok)

section \<open>Properties\<close>

text \<open>C2: the privacy boundary of live telemetry. In every run of the gateway, every frame it
  retains and every frame it hands to a client has a supported event name and a payload of
  allow-listed fields only, each a bounded text, a counter, a bounded rate or a flag,
  whatever was published.\<close>

theorem frames_are_redacted:
  assumes "gateway_run g out"
  shows "(\<forall>f\<in>set out. frame_public f) \<and> (\<forall>x\<in>set (gw_events g). frame_public (fst x))"
  using gateway_run_ok [OF assms] by (auto simp: gateway_ok_def list_all_iff entry_ok_def)

definition demo_event :: gw_event where
  "demo_event = \<lparr>ge_name = lit ''router.health.updated'', ge_sequence = JInt 1, ge_timestamp = JInt 0,
     ge_payload = JDict [(lit ''password'', JStr (lit ''x'')), (lit ''cpu_percent'', JInt 7)]\<rparr>"

definition demo_frame :: frame where
  "demo_frame = \<lparr>fr_event = lit ''router.health.updated'', fr_sequence = 1, fr_timestamp = 0,
     fr_payload = JDict [(lit ''cpu_percent'', JInt 7)]\<rparr>"

definition demo_gateway :: gateway where
  "demo_gateway = fst (publish (new_gateway 2 1 1000 1000) [(demo_event, 0)])"

lemma demo_size: "json_size (frame_json demo_frame) = Some 116"
proof -
  have t: "json_text (frame_json demo_frame) = Some (lit ''{\"protocol_version\":1,\"event\":\"router.health.updated\",\"sequence\":1,\"router_timestamp\":0,\"payload\":{\"cpu_percent\":7}}'')"
    by (simp add: frame_json_def demo_frame_def protocol_version_def str_of_int_def dec_of_nat.simps
        json_string_def lit_def of_char_def json_escape_def)
  show ?thesis
    unfolding json_size_def t by (simp add: utf8_encode_lit lit_def of_char_def)
qed

lemma demo_build: "build_frame demo_event = Inr (demo_frame, 116)"
proof -
  have p: "safe_payload (lit ''router.health.updated'')
      [(lit ''password'', JStr (lit ''x'')), (lit ''cpu_percent'', JInt 7)] = Inr (JDict [(lit ''cpu_percent'', JInt 7)])"
    by (simp add: safe_payload_def project_def router_metric_fields_def check_metric_field_def bounded_number_def)
  then show ?thesis
    using demo_size
    by (simp add: build_frame_def demo_event_def demo_frame_def dict_items_def bounded_sequence_def
        max_frame_number_def supported_events_def Let_def max_frame_bytes_def)
qed

lemma demo_gateway_run: "gateway_run demo_gateway []"
proof -
  have "gateway_step (new_gateway 2 1 1000 1000) [] demo_gateway"
    by (rule publish_step [of _ "[(demo_event, 0)]" _ "snd (publish (new_gateway 2 1 1000 1000) [(demo_event, 0)])"])
       (simp add: demo_gateway_def)
  from gateway_run.gateway_more [OF gateway_run.gateway_start this] show ?thesis by simp
qed

lemma demo_gateway_events: "gw_events demo_gateway = [(demo_frame, 0, 116)]"
  using demo_build
  by (simp add: demo_gateway_def publish_def bounded_frame_def new_gateway_def Let_def max_frame_bytes_def
      max_replay_bytes_def max_replay_events_def)

theorem frames_are_redacted_witness: "frame_public demo_frame"
  using frames_are_redacted [OF demo_gateway_run] demo_gateway_events by auto

text \<open>in every run the replay buffer is within its event and byte budgets, the byte count
  is exactly the sum of the JSON sizes of the retained frames, and the subscriptions are
  within the client limit.\<close>

theorem gateway_budgets:
  assumes "gateway_run g out"
  shows "length (gw_events g) \<le> gw_max_replay g \<and> gw_max_replay g \<le> max_replay_events \<and>
    gw_retained g = int (sum_list (map (\<lambda>x. the (json_size (frame_json (fst x)))) (gw_events g))) \<and>
    gw_retained g \<le> int (gw_max_replay_bytes g) \<and> gw_max_replay_bytes g \<le> max_replay_bytes \<and>
    length (gw_clients g) \<le> gw_max_clients g"
proof -
  have g: "gateway_ok g" using gateway_run_ok [OF assms] by simp
  then have "map entry_size (gw_events g) = map (\<lambda>x. the (json_size (frame_json (fst x)))) (gw_events g)"
    by (auto simp: gateway_ok_def list_all_iff entry_ok_def)
  with g show ?thesis by (simp add: gateway_ok_def)
qed

theorem gateway_budgets_witness: "length (gw_events demo_gateway) \<le> gw_max_replay demo_gateway"
  using gateway_budgets [OF demo_gateway_run] by simp

text \<open>a subscription is opened only for an authenticated RouterOS session that may read
  sessions, and only below the client limit; a refusal changes nothing but the counter.\<close>

theorem open_is_authorised:
  assumes "open_client g p sid clock = (g', Inr sid')"
  shows "sid' = sid \<and> pr_authenticated p \<and> pr_auth_method p = lit ''routeros'' \<and> can_read_sessions p \<and>
    length (gw_clients g) < gw_max_clients g"
  using assms by (auto simp: open_client_def may_stream_def split: if_splits)

definition demo_principal :: principal where
  "demo_principal = principal_from_session (Some (lit ''routeros'', lit ''viewer'', None))"

theorem open_is_authorised_witness:
  "can_read_sessions demo_principal \<and> snd (open_client demo_gateway demo_principal [1] 0) = Inr [1]"
proof -
  have "normalize_role (normalize_role (lit ''viewer'')) \<noteq> []"
    using normalize_role_known [of "normalize_role (lit ''viewer'')"] by (auto simp: dashboard_roles_def)
  have may: "may_stream demo_principal"
    using role_capabilities_cases [of "normalize_role (lit ''viewer'')"]
    by (auto simp: may_stream_def can_read_sessions_def demo_principal_def principal_from_session_def has_capability_def)
  have "gw_clients demo_gateway = []" "gw_max_clients demo_gateway = 1"
    using demo_build
    by (auto simp: demo_gateway_def publish_def bounded_frame_def new_gateway_def Let_def max_frame_bytes_def
        max_replay_bytes_def max_replay_events_def)
  then obtain g' where o: "open_client demo_gateway demo_principal [1] 0 = (g', Inr [1])"
    using may by (simp add: open_client_def)
  show ?thesis using open_is_authorised [OF o] o by simp
qed

end
