(* ===== verification/Broker_Props.thy ===== *)
theory Broker_Props
  imports Broker
begin

text \<open>
  What the telemetry broker guarantees: its cache and every retained text and counter are
  bounded whatever RouterOS sends; its events are numbered without gaps; a client that
  replays the events reconstructs the cache; only allow-listed fields of a record influence
  what is retained or published; counters that a live record omits keep their values.
\<close>

section \<open>Bounds\<close>

definition text_ok :: "pystr \<Rightarrow> bool" where
  "text_ok t \<longleftrightarrow> (\<exists>bs. utf8_encode t = Some bs \<and> length bs \<le> max_text_bytes)"

definition counter_ok :: "int \<Rightarrow> bool" where
  "counter_ok n \<longleftrightarrow> 0 \<le> n \<and> n \<le> max_routeros_counter"

definition id_ok :: "pystr \<Rightarrow> bool" where
  "id_ok t \<longleftrightarrow> t \<noteq> [] \<and> (\<exists>bs. utf8_encode t = Some bs \<and> length bs \<le> 3 * max_text_bytes + 2)"

lemma text_ok_Nil [simp]: "text_ok []"
  by (simp add: text_ok_def utf8_encode_def)

lemma text_okI: "utf8_encode t = Some bs \<Longrightarrow> length bs \<le> max_text_bytes \<Longrightarrow> text_ok t"
  by (auto simp: text_ok_def)

lemma text_of_ok: "text_ok (text_of r keys)"
proof (induction keys)
  case (Cons key keys)
  then show ?case
    by (simp add: text_okI split: option.split)
qed simp

lemma counter_of_ok: "counter_ok (counter_of r keys)"
  by (auto simp: counter_ok_def counter_of_def Let_def max_routeros_counter_def split: option.split)

lemma utf8_encode_append:
  "utf8_encode a = Some x \<Longrightarrow> utf8_encode b = Some y \<Longrightarrow> utf8_encode (a @ b) = Some (x @ y)"
  by (auto simp: utf8_encode_def split: if_splits)

lemma utf8_encode_bar: "utf8_encode (lit ''|'') = Some [124]"
  by (simp add: utf8_encode_def utf8_cp_def cp_valid_def lit_def of_char_def)

definition session_ok :: "session \<Rightarrow> bool" where
  "session_ok s \<longleftrightarrow> id_ok (sp_id s) \<and> sp_name s \<noteq> [] \<and> text_ok (sp_name s) \<and> text_ok (sp_vpn_address s) \<and>
     text_ok (sp_source_address s) \<and> text_ok (sp_uptime s) \<and> text_ok (sp_encoding s) \<and>
     text_ok (sp_service s) \<and> (\<forall>c. counter_ok (sp_counter s c))"

definition interface_ok :: "interface \<Rightarrow> bool" where
  "interface_ok i \<longleftrightarrow> if_id i \<noteq> [] \<and> if_name i \<noteq> [] \<and> text_ok (if_id i) \<and> text_ok (if_name i) \<and>
     (\<forall>c. counter_ok (if_counter i c))"

lemma normalize_session_ok: "normalize_session r t = Some s \<Longrightarrow> session_ok s"
proof -
  assume n: "normalize_session r t = Some s"
  let ?i = "text_of r [''.id'', ''id'']" and ?u = "text_of r [''name'', ''user'', ''username'']"
  let ?v = "text_of r [''address'', ''remote-address'', ''vpn-address'']"
  let ?a = "text_of r [''caller-id'', ''source-address'', ''source'']"
  obtain i u v a where e: "utf8_encode ?i = Some i" "utf8_encode ?u = Some u" "utf8_encode ?v = Some v"
    "utf8_encode ?a = Some a" and l: "length i \<le> max_text_bytes" "length u \<le> max_text_bytes"
    "length v \<le> max_text_bytes" "length a \<le> max_text_bytes"
    using text_of_ok [unfolded text_ok_def] by metis
  have "utf8_encode (?u @ lit ''|'' @ ?v @ lit ''|'' @ ?a) = Some (u @ [124] @ v @ [124] @ a)"
    using e by (intro utf8_encode_append utf8_encode_bar)
  with n e l show ?thesis
    by (auto simp: normalize_session_def Let_def session_ok_def id_ok_def text_of_ok counter_of_ok
        simp del: text_of.simps split: if_splits)
qed

lemma preserve_unobserved_fields [simp]:
  "sp_id (preserve_unobserved s r p) = sp_id s" "sp_name (preserve_unobserved s r p) = sp_name s"
  "sp_vpn_address (preserve_unobserved s r p) = sp_vpn_address s"
  "sp_source_address (preserve_unobserved s r p) = sp_source_address s"
  "sp_uptime (preserve_unobserved s r p) = sp_uptime s"
  "sp_encoding (preserve_unobserved s r p) = sp_encoding s"
  "sp_service (preserve_unobserved s r p) = sp_service s"
  "se_observed_at (preserve_unobserved s r p) = se_observed_at s"
  "sp_complete (preserve_unobserved s r p) = sp_complete s"
  by (simp_all add: preserve_unobserved_def split: option.split)

lemma preserve_unobserved_counter:
  "sp_counter (preserve_unobserved s r p) c =
     (case p of None \<Rightarrow> sp_counter s c
      | Some q \<Rightarrow> if counter_observed r (counter_keys c) then sp_counter s c else sp_counter q c)"
  by (simp add: preserve_unobserved_def split: option.split)

lemma preserve_unobserved_ok:
  "session_ok s \<Longrightarrow> (\<And>q. p = Some q \<Longrightarrow> session_ok q) \<Longrightarrow> session_ok (preserve_unobserved s r p)"
  by (cases p) (simp_all add: session_ok_def preserve_unobserved_counter)

lemma normalize_interface_ok: "normalize_interface r t sa k = Some i \<Longrightarrow> interface_ok i"
  by (auto simp: normalize_interface_def Let_def interface_ok_def text_of_ok counter_of_ok
      simp del: text_of.simps split: if_splits)

section \<open>The invariant of the cache\<close>

definition cache_ok :: "(pystr, session) dict \<Rightarrow> bool" where
  "cache_ok d \<longleftrightarrow> dict_ok d \<and> (\<forall>(k, s)\<in>set d. k = sp_id s \<and> session_ok s)"

definition icache_ok :: "(pystr, interface) dict \<Rightarrow> bool" where
  "icache_ok d \<longleftrightarrow> dict_ok d \<and> (\<forall>(k, i)\<in>set d. k = if_id i \<and> interface_ok i)"

definition broker_ok :: "broker \<Rightarrow> bool" where
  "broker_ok b \<longleftrightarrow> cache_ok (br_sessions b) \<and> icache_ok (br_interfaces b) \<and>
     length (br_sessions b) \<le> br_max_sessions b \<and> length (br_interfaces b) \<le> br_max_interfaces b \<and>
     1 \<le> br_max_sessions b \<and> br_max_sessions b \<le> max_cached_sessions \<and>
     1 \<le> br_max_interfaces b \<and> br_max_interfaces b \<le> max_cached_interfaces"

definition same_cache :: "broker \<Rightarrow> broker \<Rightarrow> bool" where
  "same_cache b b' \<longleftrightarrow> br_sessions b' = br_sessions b \<and> br_interfaces b' = br_interfaces b \<and>
     br_max_sessions b' = br_max_sessions b \<and> br_max_interfaces b' = br_max_interfaces b"

lemma same_cache_refl [simp]: "same_cache b b"
  by (simp add: same_cache_def)

lemma same_cache_trans: "same_cache a b \<Longrightarrow> same_cache b c \<Longrightarrow> same_cache a c"
  by (simp add: same_cache_def)

lemma emit_event_cache: "emit_event b p now = (b', e) \<Longrightarrow> same_cache b b' \<and> ev_payload e = p"
  by (auto simp: emit_event_def same_cache_def)

lemma counter_reset_cache:
  "counter_reset_event b p s now = (b', es) \<Longrightarrow> same_cache b b' \<and>
   (\<forall>e\<in>set es. \<exists>fields. ev_payload e = CounterReset SessionScope (sp_id s) (sp_name s) fields)"
  by (auto simp: counter_reset_event_def Let_def emit_event_def same_cache_def
      split: option.splits if_splits)

lemma interface_reset_cache:
  "interface_reset_event b p i now = (b', es) \<Longrightarrow> same_cache b b'"
  by (auto simp: interface_reset_event_def Let_def emit_event_def same_cache_def
      split: option.splits if_splits)

lemma cache_ok_ddel: "cache_ok d \<Longrightarrow> cache_ok (ddel k d)"
  by (auto simp: cache_ok_def set_ddel)

lemma cache_ok_dset: "cache_ok d \<Longrightarrow> session_ok s \<Longrightarrow> cache_ok (dset (sp_id s) s d)"
  using set_dset_subset [of "sp_id s" s d] by (fastforce simp: cache_ok_def)

lemma cache_ok_get: "cache_ok d \<Longrightarrow> dget d k = Some s \<Longrightarrow> k = sp_id s \<and> session_ok s"
  by (auto simp: cache_ok_def dest!: dget_Some_in)

lemma oldest_key_in: "d \<noteq> [] \<Longrightarrow> \<exists>k. oldest_key d = Some k \<and> k \<in> set (dkeys d)"
proof (induction d rule: oldest_key.induct)
  case (2 k s rest)
  then show ?case
    by (cases "rest = []") (auto split: option.split simp del: set_map)
qed simp

lemma evict_cases:
  obtains "evict n d = d" "length d \<le> n" | k where "evict n d = ddel k d" "k \<in> set (dkeys d)" "n < length d"
proof (cases "n < length d")
  case True
  then have "d \<noteq> []" by auto
  from oldest_key_in [OF this] True that(2) show thesis by (auto simp: evict_def simp del: set_map)
qed (use that(1) in \<open>auto simp: evict_def\<close>)

lemma evict_ok: "cache_ok d \<Longrightarrow> cache_ok (evict n d)"
  by (rule evict_cases [of n d]) (auto intro: cache_ok_ddel)

lemma evict_length:
  assumes "length d \<le> Suc n" shows "length (evict n d) \<le> n"
proof (cases rule: evict_cases [of n d])
  case (2 k)
  then show ?thesis using length_ddel_less [of k d] assms by (simp del: set_map)
qed simp

lemma apply_reply_ok:
  assumes "apply_reply b reply now clock = (b', es)" and "broker_ok b"
  shows "broker_ok b'"
  using assms(1)
proof (cases rule: apply_reply_cases)
  case ignored
  then show ?thesis using assms(2) by simp
next
  case (gone previous k e)
  then show ?thesis
    using assms(2) emit_event_cache [OF gone(6)] length_ddel_le [of k "br_sessions b"]
    by (auto simp: broker_ok_def same_cache_def intro: cache_ok_ddel)
next
  case (seen s0 s previous b1 resets e)
  let ?d = "dset (sp_id s0) s (br_sessions b)"
  have "session_ok s"
    using seen(4,5) normalize_session_ok [OF seen(3)] assms(2) cache_ok_get
    by (auto simp: broker_ok_def intro!: preserve_unobserved_ok)
  then have "cache_ok ?d"
    using assms(2) seen(5) cache_ok_dset [of "br_sessions b" s] by (simp add: broker_ok_def)
  moreover have "length ?d \<le> Suc (br_max_sessions b)"
    using assms(2) length_dset_le [of "sp_id s0" s "br_sessions b"] by (simp add: broker_ok_def)
  ultimately show ?thesis
    using assms(2) conjunct1 [OF counter_reset_cache [OF seen(6)]] conjunct1 [OF emit_event_cache [OF seen(7)]]
    by (auto simp: broker_ok_def same_cache_def intro: evict_ok evict_length)
qed

section \<open>Snapshots keep the invariant\<close>

definition incoming_ok :: "(pystr, session \<times> record_dict) dict \<Rightarrow> bool" where
  "incoming_ok d \<longleftrightarrow> dict_ok d \<and> (\<forall>(k, s, r)\<in>set d. k = sp_id s \<and> session_ok s)"

lemma collect_sessions_ok:
  "collect_sessions n t rs d = Inr d' \<Longrightarrow> incoming_ok d \<Longrightarrow> incoming_ok d'"
proof (induction n t rs d rule: collect_sessions.induct)
  case (2 n t r rs d)
  have "incoming_ok (dset (sp_id s) (s, r) d)" if "normalize_session r t = Some s" for s
    using normalize_session_ok [OF that] "2.prems"(2) set_dset_subset [of "sp_id s" "(s, r)" d]
    by (fastforce simp: incoming_ok_def)
  with 2 show ?case by (auto split: if_splits option.splits)
qed simp

lemma collect_interfaces_ok:
  "collect_interfaces n t sa kind rs d = Inr d' \<Longrightarrow> icache_ok d \<Longrightarrow> icache_ok d'"
proof (induction n t sa kind rs d rule: collect_interfaces.induct)
  case (2 n t sa kind r rs d)
  have "icache_ok (dset (if_id i) i d)" if "normalize_interface r t sa kind = Some i" for i
    using normalize_interface_ok [OF that] "2.prems"(2) set_dset_subset [of "if_id i" i d]
    by (fastforce simp: icache_ok_def)
  with 2 show ?case by (auto split: if_splits option.splits)
qed simp

lemma disconnect_events_cache: "disconnect_events b old sessions now = (b', es) \<Longrightarrow> same_cache b b'"
proof (induction old arbitrary: b b' es)
  case (Cons x old)
  obtain k previous where x: "x = (k, previous)" by fastforce
  obtain b1 e where 1: "emit_event b (SessionDisconnected (session_payload previous)) now = (b1, e)" by fastforce
  obtain b2 es' where 2: "disconnect_events b1 old sessions now = (b2, es')" by fastforce
  from Cons.IH [OF 2] emit_event_cache [OF 1] Cons x 1 2 show ?case
    by (auto intro: same_cache_trans split: if_splits)
qed simp

lemma upsert_events_cache: "upsert_events b sessions now = (b', es) \<Longrightarrow> same_cache b b'"
proof (induction b sessions now arbitrary: b' es rule: upsert_events.induct)
  case (2 b k s rest now)
  let ?name = "if dget (br_sessions b) k = None then SessionConnected else SessionUpdated"
  obtain b1 resets where 1: "counter_reset_event b (dget (br_sessions b) k) s now = (b1, resets)" by fastforce
  obtain b2 e where 2: "emit_event b1 (?name (session_payload s)) now = (b2, e)" by fastforce
  obtain b3 es' where 3: "upsert_events b2 rest now = (b3, es')" by fastforce
  have "same_cache b2 b3" using "2.IH" 1 2 3 by fastforce
  with counter_reset_cache [OF 1] emit_event_cache [OF 2] "2.prems" 1 2 3 show ?case
    by (auto simp: Let_def intro: same_cache_trans)
qed simp

lemma reconcile_cases [consumes 1, case_names refused replaced]:
  assumes "reconcile b records now clock = (b', res)"
  obtains err where "b' = b" "res = Inl err"
  | incoming sessions b1 b2 gone changed e where
      "collect_sessions 1 (timestamp now clock) records [] = Inr incoming"
      "sessions = map (\<lambda>(k, s, r). (k, preserve_unobserved s r (dget (br_sessions b) k))) incoming"
      "disconnect_events b (br_sessions b) sessions (timestamp now clock) = (b1, gone)"
      "upsert_events b1 sessions (timestamp now clock) = (b2, changed)"
      "emit_event (b2\<lparr>br_sessions := last_n (br_max_sessions b) sessions\<rparr>)
         (SnapshotEvent (map (\<lambda>(k, s). session_payload s) (last_n (br_max_sessions b) sessions))
            (interface_list b)) (timestamp now clock) = (b', e)"
      "res = Inr (gone @ changed @ [e])"
proof (cases "collect_sessions 1 (timestamp now clock) records []")
  case (Inl err)
  with assms that(1) show thesis by (auto simp: reconcile_def Let_def)
next
  case (Inr incoming)
  define sessions where "sessions = map (\<lambda>(k, s, r). (k, preserve_unobserved s r (dget (br_sessions b) k))) incoming"
  obtain b1 gone where 1: "disconnect_events b (br_sessions b) sessions (timestamp now clock) = (b1, gone)" by fastforce
  obtain b2 changed where 2: "upsert_events b1 sessions (timestamp now clock) = (b2, changed)" by fastforce
  have c: "same_cache b b2"
    using disconnect_events_cache [OF 1] upsert_events_cache [OF 2] by (rule same_cache_trans)
  then have m: "br_max_sessions b2 = br_max_sessions b" by (simp add: same_cache_def)
  have i: "interface_list (b2\<lparr>br_sessions := x\<rparr>) = interface_list b" for x
    using c by (simp add: interface_list_def same_cache_def)
  obtain b3 e where 3: "emit_event (b2\<lparr>br_sessions := last_n (br_max_sessions b) sessions\<rparr>)
      (SnapshotEvent (map (\<lambda>(k, s). session_payload s) (last_n (br_max_sessions b) sessions))
         (interface_list b)) (timestamp now clock) = (b3, e)" by fastforce
  have "b' = b3" "res = Inr (gone @ changed @ [e])"
    using assms Inr 1 2 3 m i by (simp_all add: reconcile_def Let_def sessions_def)
  with that(2) [OF Inr sessions_def 1 2] 3 show thesis by simp
qed

lemma reconcile_ok:
  assumes "reconcile b records now clock = (b', res)" and "broker_ok b"
  shows "broker_ok b'"
  using assms(1)
proof (cases rule: reconcile_cases)
  case (refused err)
  then show ?thesis using assms(2) by simp
next
  case (replaced incoming sessions b1 b2 gone changed e)
  have inc: "incoming_ok incoming"
    using collect_sessions_ok [OF replaced(1)] by (simp add: incoming_ok_def)
  have keys: "dkeys sessions = dkeys incoming" by (auto simp: replaced(2))
  have "cache_ok sessions"
  proof -
    have "k = sp_id s \<and> session_ok s" if "(k, s) \<in> set sessions" for k s
    proof -
      from that obtain s0 r where "(k, s0, r) \<in> set incoming"
        and s: "s = preserve_unobserved s0 r (dget (br_sessions b) k)"
        by (auto simp: replaced(2))
      then have "k = sp_id s0" "session_ok s0" using inc by (auto simp: incoming_ok_def)
      then show ?thesis
        using assms(2) cache_ok_get unfolding s
        by (auto simp: broker_ok_def intro!: preserve_unobserved_ok)
    qed
    with inc keys show ?thesis
      by (auto simp: cache_ok_def incoming_ok_def dict_ok_def simp del: map_map)
  qed
  then have "cache_ok (last_n (br_max_sessions b) sessions)"
    using set_last_n [of "br_max_sessions b" sessions] by (auto simp: cache_ok_def)
  then show ?thesis
    using assms(2) disconnect_events_cache [OF replaced(3)] upsert_events_cache [OF replaced(4)]
      conjunct1 [OF emit_event_cache [OF replaced(5)]]
    by (simp add: broker_ok_def same_cache_def)
qed

lemma sample_interface_fields:
  "sample_interface i p t kind = (i', el) \<Longrightarrow> if_id i' = if_id i \<and> interface_ok i' = interface_ok i"
  by (auto simp: sample_interface_def interface_ok_def split: option.splits if_splits)

lemma interface_events_cache:
  "interface_events b incoming now t kind = (b', incoming', es) \<Longrightarrow>
   br_sessions b' = br_sessions b \<and> br_max_sessions b' = br_max_sessions b \<and>
   br_max_interfaces b' = br_max_interfaces b \<and> dkeys incoming' = dkeys incoming \<and>
   ((\<forall>(k, i)\<in>set incoming. k = if_id i \<and> interface_ok i) \<longrightarrow>
    (\<forall>(k, i)\<in>set incoming'. k = if_id i \<and> interface_ok i))"
proof (induction incoming arbitrary: b b' incoming' es)
  case (Cons x rest)
  obtain k i where x: "x = (k, i)" by fastforce
  obtain b1 resets where 1: "interface_reset_event b (dget (br_interfaces b) k) i now = (b1, resets)" by fastforce
  obtain i' elapsed where s: "sample_interface i (dget (br_interfaces b) k) t kind = (i', elapsed)" by fastforce
  obtain b2 e where 2: "emit_event (b1\<lparr>br_interfaces := dset k i' (br_interfaces b1)\<rparr>)
      (InterfaceCounters (interface_payload i' elapsed)) now = (b2, e)" by fastforce
  obtain b3 in3 es' where 3: "interface_events b2 rest now t kind = (b3, in3, es')" by (metis prod_cases3)
  have "b' = b3" "incoming' = (k, i') # in3" using Cons.prems x 1 2 3 s by (auto simp: Let_def)
  then show ?case
    using interface_reset_cache [OF 1] conjunct1 [OF emit_event_cache [OF 2]] Cons.IH [OF 3]
      sample_interface_fields [OF s] x
    by (simp add: same_cache_def)
qed simp

lemma reconcile_interfaces_ok:
  assumes "reconcile_interfaces b records now clock ticks = (b', res)" and "broker_ok b"
  shows "broker_ok b'"
proof -
  let ?kind = "if now = None then MonotonicClock else ExplicitClock"
  let ?t = "case now of None \<Rightarrow> ticks | Some t \<Rightarrow> t"
  show ?thesis
  proof (cases "collect_interfaces 1 (timestamp now clock) ?t ?kind records []")
    case (Inl err)
    with assms show ?thesis by (auto simp: reconcile_interfaces_def Let_def)
  next
    case (Inr incoming)
    obtain b1 incoming' es where e: "interface_events b incoming (timestamp now clock) ?t ?kind = (b1, incoming', es)"
      by (metis prod_cases3)
    have "icache_ok incoming" using collect_interfaces_ok [OF Inr] by (simp add: icache_ok_def)
    then have "icache_ok incoming'"
      using interface_events_cache [OF e] by (auto simp: icache_ok_def dict_ok_def simp del: set_map)
    then have "icache_ok (last_n (br_max_interfaces b1) incoming')"
      using set_last_n [of "br_max_interfaces b1" incoming'] by (auto simp: icache_ok_def)
    moreover have "b' = b1\<lparr>br_interfaces := last_n (br_max_interfaces b1) incoming'\<rparr>"
      using assms(1) Inr e by (auto simp: reconcile_interfaces_def Let_def)
    ultimately show ?thesis
      using assms(2) interface_events_cache [OF e] by (simp add: broker_ok_def)
  qed
qed

section \<open>Runs\<close>

inductive broker_step :: "broker \<Rightarrow> event list \<Rightarrow> broker \<Rightarrow> bool" where
  apply_step: "apply_reply b reply now clock = (b', es) \<Longrightarrow> broker_step b es b'"
| reconcile_step: "reconcile b records now clock = (b', Inr es) \<Longrightarrow> broker_step b es b'"
| refused_step: "reconcile b records now clock = (b', Inl err) \<Longrightarrow> broker_step b [] b'"
| interfaces_step: "reconcile_interfaces b records now clock ticks = (b', Inr es) \<Longrightarrow> broker_step b es b'"
| interfaces_refused_step:
    "reconcile_interfaces b records now clock ticks = (b', Inl err) \<Longrightarrow> broker_step b [] b'"

text \<open>\<open>broker_run m i b es\<close>: from \<open>new_broker m i\<close>, some operations lead to \<open>b\<close> and have emitted \<open>es\<close>.\<close>

inductive broker_run :: "int \<Rightarrow> int \<Rightarrow> broker \<Rightarrow> event list \<Rightarrow> bool" for m i where
  start: "broker_run m i (new_broker m i) []"
| more: "broker_run m i b es \<Longrightarrow> broker_step b es' b' \<Longrightarrow> broker_run m i b' (es @ es')"

inductive_cases broker_stepE: "broker_step b es b'"

lemma new_broker_ok: "broker_ok (new_broker m i)"
  by (auto simp: new_broker_def broker_ok_def cache_ok_def icache_ok_def max_cached_sessions_def
      max_cached_interfaces_def min_def)

lemma broker_step_ok: "broker_step b es b' \<Longrightarrow> broker_ok b \<Longrightarrow> broker_ok b'"
  by (erule broker_stepE) (auto intro: apply_reply_ok reconcile_ok reconcile_interfaces_ok)

lemma refused_unchanged:
  "reconcile b records now clock = (b', Inl err) \<Longrightarrow> b' = b"
  "reconcile_interfaces b records now clock ticks = (b', Inl err) \<Longrightarrow> b' = b"
  by (auto simp: reconcile_def reconcile_interfaces_def Let_def split: sum.splits prod.splits)

lemma broker_step_continues: "broker_step b es b' \<Longrightarrow> continues b b' es"
  by (erule broker_stepE)
     (auto dest: apply_reply_continues reconcile_continues reconcile_interfaces_continues refused_unchanged)

lemma broker_run_ok: "broker_run m i b es \<Longrightarrow> broker_ok b"
  by (induction rule: broker_run.induct) (auto intro: new_broker_ok broker_step_ok)

lemma broker_run_numbered: "broker_run m i b es \<Longrightarrow> numbered 0 es \<and> br_sequence b = length es"
proof (induction rule: broker_run.induct)
  case start
  then show ?case by (simp add: new_broker_def)
next
  case (more b es es' b')
  then show ?case
    using broker_step_continues [OF more(2)] by (auto simp: numbered_append continues_def)
qed

section \<open>Replaying the events\<close>

text \<open>What a client that follows the events knows of the sessions.\<close>

type_synonym session_view = "pystr \<rightharpoonup> session_payload"

fun view_event :: "session_view \<Rightarrow> event_payload \<Rightarrow> session_view" where
  "view_event v (SessionConnected p) = v(sp_id p \<mapsto> p)"
| "view_event v (SessionUpdated p) = v(sp_id p \<mapsto> p)"
| "view_event v (SessionDisconnected p) = v(sp_id p := None)"
| "view_event v (SnapshotEvent ps is) = map_of (map (\<lambda>p. (sp_id p, p)) ps)"
| "view_event v _ = v"

definition view_of :: "(pystr, session) dict \<Rightarrow> session_view" where
  "view_of d = (\<lambda>k. map_option session_payload (dget d k))"

definition replay :: "session_view \<Rightarrow> event list \<Rightarrow> session_view" where
  "replay v es = foldl view_event v (map ev_payload es)"

lemma replay_append: "replay v (xs @ ys) = replay (replay v xs) ys"
  by (simp add: replay_def)

lemma replay_simps [simp]: "replay v [] = v" "replay v (e # es) = replay (view_event v (ev_payload e)) es"
  by (simp_all add: replay_def)

lemma replay_resets:
  "\<forall>e\<in>set es. \<exists>sc i n fs. ev_payload e = CounterReset sc i n fs \<Longrightarrow> replay v es = v"
  by (induction es arbitrary: v) auto

lemma session_payload_id [simp]: "sp_id (session_payload s) = sp_id s"
  by (simp add: session_payload_def)

lemma view_of_dset: "view_of (dset k s d) = (view_of d)(k \<mapsto> session_payload s)"
  by (auto simp: view_of_def dget_dset)

lemma view_of_ddel: "view_of (ddel k d) = (view_of d)(k := None)"
  by (auto simp: view_of_def dget_ddel)

lemma apply_reply_replay:
  assumes "apply_reply b reply now clock = (b', es)" and "broker_ok b"
  shows "view_of (br_sessions b') \<subseteq>\<^sub>m replay (view_of (br_sessions b)) es \<and>
    (length (br_sessions b) < br_max_sessions b \<longrightarrow>
      replay (view_of (br_sessions b)) es = view_of (br_sessions b'))"
  using assms(1)
proof (cases rule: apply_reply_cases)
  case ignored
  then show ?thesis by simp
next
  case (gone previous k e)
  have "k = sp_id previous" using gone(5) assms(2) cache_ok_get by (auto simp: broker_ok_def)
  then show ?thesis
    using emit_event_cache [OF gone(6)] gone(7) by (simp add: same_cache_def view_of_ddel)
next
  case (seen s0 s previous b1 resets e)
  let ?d = "dset (sp_id s0) s (br_sessions b)"
  have b': "br_sessions b' = evict (br_max_sessions b) ?d"
    using counter_reset_cache [OF seen(6)] emit_event_cache [OF seen(7)] by (simp add: same_cache_def)
  have "replay (view_of (br_sessions b)) resets = view_of (br_sessions b)"
    using counter_reset_cache [OF seen(6)] by (intro replay_resets) blast
  then have r: "replay (view_of (br_sessions b)) es = view_of ?d"
    using emit_event_cache [OF seen(7)] seen(5,8)
    by (cases "previous = None") (simp_all add: replay_append view_of_dset)
  have "view_of (evict n ?d) \<subseteq>\<^sub>m view_of ?d" for n
    by (rule evict_cases [of n ?d]) (auto simp: view_of_ddel map_le_def)
  moreover have "evict (br_max_sessions b) ?d = ?d" if "length (br_sessions b) < br_max_sessions b"
    using that length_dset_le [of "sp_id s0" s "br_sessions b"] by (simp add: evict_def)
  ultimately show ?thesis using r b' by simp
qed

lemma view_of_payloads:
  "cache_ok d \<Longrightarrow> map_of (map (\<lambda>p. (sp_id p, p)) (map (\<lambda>(k, s). session_payload s) d)) = view_of d"
proof (induction d)
  case (Cons x d)
  then have "cache_ok d" "fst x = sp_id (snd x)" by (auto simp: cache_ok_def dict_ok_def)
  with Cons.IH show ?case by (cases x) (auto simp: view_of_def fun_eq_iff)
qed (simp add: view_of_def fun_eq_iff)

lemma reconcile_replay:
  assumes "reconcile b records now clock = (b', Inr es)" and "broker_ok b"
  shows "replay v es = view_of (br_sessions b')"
proof -
  have ok: "cache_ok (br_sessions b')" using reconcile_ok [OF assms] by (simp add: broker_ok_def)
  from assms(1) show ?thesis
  proof (cases rule: reconcile_cases)
    case (replaced incoming sessions b1 b2 gone changed e)
    have b': "br_sessions b' = last_n (br_max_sessions b) sessions"
      "ev_payload e = SnapshotEvent (map (\<lambda>(k, s). session_payload s) (br_sessions b')) (interface_list b)"
      using emit_event_cache [OF replaced(5)] by (simp_all add: same_cache_def)
    with replaced(6) ok show ?thesis
      by (simp add: replay_append view_of_payloads del: map_map)
  qed simp
qed

section \<open>Privacy and counters\<close>

definition session_keys :: "string list" where
  "session_keys = [''.id'', ''id'', ''name'', ''user'', ''username'', ''address'', ''remote-address'',
     ''vpn-address'', ''caller-id'', ''source-address'', ''source'', ''uptime'', ''encoding'', ''encryption'',
     ''service'', ''rx-byte'', ''rx_bytes'', ''tx-byte'', ''tx_bytes'', ''rx-packet'', ''rx_packets'',
     ''tx-packet'', ''tx_packets'']"

definition agree_on :: "string list \<Rightarrow> record_dict \<Rightarrow> record_dict \<Rightarrow> bool" where
  "agree_on keys r r' \<longleftrightarrow> (\<forall>k\<in>set keys. dget r (lit k) = dget r' (lit k))"

lemma text_of_agree: "agree_on keys r r' \<Longrightarrow> set ks \<subseteq> set keys \<Longrightarrow> text_of r ks = text_of r' ks"
  by (induction ks) (auto simp: agree_on_def split: option.split)

lemma counter_keys_allowed: "set (counter_keys c) \<subseteq> set session_keys"
  by (cases c) (simp_all add: session_keys_def)

lemma counter_of_agree:
  "agree_on session_keys r r' \<Longrightarrow> counter_of r (counter_keys c) = counter_of r' (counter_keys c)"
  "agree_on session_keys r r' \<Longrightarrow> counter_observed r (counter_keys c) = counter_observed r' (counter_keys c)"
  using text_of_agree [OF _ counter_keys_allowed [of c], of r r']
  by (simp_all add: counter_of_def counter_observed_def)

lemma normalize_session_agree:
  assumes "agree_on session_keys r r'"
  shows "normalize_session r t = normalize_session r' t"
proof -
  have t: "text_of r [''.id'', ''id''] = text_of r' [''.id'', ''id'']"
    "text_of r [''name'', ''user'', ''username''] = text_of r' [''name'', ''user'', ''username'']"
    "text_of r [''address'', ''remote-address'', ''vpn-address''] = text_of r' [''address'', ''remote-address'', ''vpn-address'']"
    "text_of r [''caller-id'', ''source-address'', ''source''] = text_of r' [''caller-id'', ''source-address'', ''source'']"
    "text_of r [''uptime''] = text_of r' [''uptime'']"
    "text_of r [''encoding'', ''encryption''] = text_of r' [''encoding'', ''encryption'']"
    "text_of r [''service''] = text_of r' [''service'']"
    by (rule text_of_agree [OF assms], simp add: session_keys_def)+
  show ?thesis
    unfolding normalize_session_def counter_of_agree [OF assms] t ..
qed

definition agree_replies :: "reply \<Rightarrow> reply \<Rightarrow> bool" where
  "agree_replies x y \<longleftrightarrow> rp_kind x = rp_kind y \<and> reply_dead x = reply_dead y \<and>
     agree_on session_keys (reply_record x) (reply_record y)"

lemma apply_reply_agree:
  assumes "agree_replies x y"
  shows "apply_reply b x now clock = apply_reply b y now clock"
proof -
  have a: "agree_on session_keys (reply_record x) (reply_record y)"
    using assms by (simp add: agree_replies_def)
  have id: "text_of (reply_record x) [''.id'', ''id''] = text_of (reply_record y) [''.id'', ''id'']"
    by (rule text_of_agree [OF a]) (simp add: session_keys_def)
  have p: "preserve_unobserved s (reply_record x) q = preserve_unobserved s (reply_record y) q" for s q
    unfolding preserve_unobserved_def counter_of_agree [OF a] ..
  show ?thesis
    using assms unfolding apply_reply_def Let_def id normalize_session_agree [OF a] p agree_replies_def
    by simp
qed

lemma reset_fields_observed:
  assumes "s = preserve_unobserved s0 r (Some p)" and "c \<in> set (reset_fields (sp_counter p) (sp_counter s))"
  shows "counter_observed r (counter_keys c)"
  using assms by (auto simp: reset_fields_def preserve_unobserved_counter split: if_splits)

lemma apply_reply_unobserved:
  assumes "apply_reply b reply now clock = (b', es)" and "dget (br_sessions b) k = Some p"
    and "dget (br_sessions b') k = Some q" and "broker_ok b"
    and "\<not> counter_observed (reply_record reply) (counter_keys c)"
  shows "sp_counter q c = sp_counter p c"
  using assms(1)
proof (cases rule: apply_reply_cases)
  case ignored
  then show ?thesis using assms by simp
next
  case (gone previous k' e)
  then show ?thesis
    using emit_event_cache [OF gone(6)] assms(2,3) by (auto simp: same_cache_def dget_ddel split: if_splits)
next
  case (seen s0 s previous b1 resets e)
  let ?d = "dset (sp_id s0) s (br_sessions b)"
  have b': "br_sessions b' = evict (br_max_sessions b) ?d"
    using counter_reset_cache [OF seen(6)] emit_event_cache [OF seen(7)] by (simp add: same_cache_def)
  have "dget ?d k = Some q"
    using assms(3) unfolding b'
    by (cases rule: evict_cases [of "br_max_sessions b" ?d]) (auto simp: dget_ddel split: if_splits)
  then show ?thesis
    using assms(2,5) seen(4,5) by (auto simp: dget_dset preserve_unobserved_counter split: if_splits)
qed

lemma apply_reply_reset_observed:
  assumes "apply_reply b reply now clock = (b', es)" and "e \<in> set es"
    and "ev_payload e = CounterReset sc i n changed" and "c \<in> set changed"
  shows "counter_observed (reply_record reply) (counter_keys c) \<and> sc = SessionScope"
  using assms(1)
proof (cases rule: apply_reply_cases)
  case (seen s0 s previous b1 resets e')
  have "e \<in> set resets"
    using assms(2,3) seen(8) emit_event_cache [OF seen(7)] by (auto split: if_splits)
  then obtain p where p: "previous = Some p" "changed = reset_fields (sp_counter p) (sp_counter s)" "sc = SessionScope"
    using seen(6) assms(3) by (auto simp: counter_reset_event_def Let_def emit_event_def split: option.splits if_splits)
  with reset_fields_observed [of s s0 "reply_record reply" p c] seen(5) assms(4) show ?thesis by simp
qed (use assms emit_event_cache in auto)

lemma view_event_mono: "v \<subseteq>\<^sub>m w \<Longrightarrow> view_event v p \<subseteq>\<^sub>m view_event w p"
  by (cases p) (auto simp: map_le_def)

lemma replay_mono: "v \<subseteq>\<^sub>m w \<Longrightarrow> replay v es \<subseteq>\<^sub>m replay w es"
  by (induction es arbitrary: v w) (auto simp: view_event_mono)

lemma interface_events_replay:
  "interface_events b incoming now t kind = (b', incoming', es) \<Longrightarrow> replay v es = v"
proof (induction incoming arbitrary: b b' incoming' es v)
  case (Cons x rest)
  obtain k i where x: "x = (k, i)" by fastforce
  obtain b1 resets where 1: "interface_reset_event b (dget (br_interfaces b) k) i now = (b1, resets)" by fastforce
  obtain i' elapsed where s: "sample_interface i (dget (br_interfaces b) k) t kind = (i', elapsed)" by fastforce
  obtain b2 e where 2: "emit_event (b1\<lparr>br_interfaces := dset k i' (br_interfaces b1)\<rparr>)
      (InterfaceCounters (interface_payload i' elapsed)) now = (b2, e)" by fastforce
  obtain b3 in3 es' where 3: "interface_events b2 rest now t kind = (b3, in3, es')" by (metis prod_cases3)
  have "replay v resets = v"
    using 1 by (intro replay_resets)
      (auto simp: interface_reset_event_def Let_def emit_event_def split: option.splits if_splits)
  then show ?case
    using Cons.prems Cons.IH [OF 3] emit_event_cache [OF 2] x 1 2 3 s by (auto simp: Let_def replay_append)
qed simp

lemma reconcile_interfaces_replay:
  "reconcile_interfaces b records now clock ticks = (b', Inr es) \<Longrightarrow>
   replay v es = v \<and> br_sessions b' = br_sessions b"
  by (auto simp: reconcile_interfaces_def Let_def split: sum.splits prod.splits
      dest: interface_events_replay interface_events_cache)

lemma broker_step_replay:
  assumes "broker_step b es b'" and "broker_ok b"
  shows "view_of (br_sessions b') \<subseteq>\<^sub>m replay (view_of (br_sessions b)) es"
  using assms(1)
proof (cases rule: broker_step.cases)
  case (apply_step reply now clock)
  with apply_reply_replay [OF _ assms(2)] show ?thesis by blast
next
  case (reconcile_step records now clock)
  with reconcile_replay [OF _ assms(2)] show ?thesis by simp
next
  case (interfaces_step records now clock ticks)
  with reconcile_interfaces_replay show ?thesis by fastforce
qed (auto dest: refused_unchanged)

lemma broker_run_replay: "broker_run m i b es \<Longrightarrow> view_of (br_sessions b) \<subseteq>\<^sub>m replay Map.empty es"
proof (induction rule: broker_run.induct)
  case start
  then show ?case by (simp add: view_of_def new_broker_def map_le_def)
next
  case (more b es es' b')
  have "view_of (br_sessions b') \<subseteq>\<^sub>m replay (view_of (br_sessions b)) es'"
    by (rule broker_step_replay [OF more(2) broker_run_ok [OF more(1)]])
  also have "replay (view_of (br_sessions b)) es' \<subseteq>\<^sub>m replay (replay Map.empty es) es'"
    by (rule replay_mono [OF more(3)])
  finally (map_le_trans) show ?case by (simp add: replay_append)
qed

section \<open>Properties\<close>

definition demo_reply :: "string \<Rightarrow> string \<Rightarrow> reply" where
  "demo_reply i n = \<lparr>rp_kind = lit ''re'', rp_attrs = [(lit ''.id'', lit i), (lit ''name'', lit n)]\<rparr>"

definition demo_session :: "string \<Rightarrow> string \<Rightarrow> session" where
  "demo_session i n = \<lparr>sp_id = lit i, sp_name = lit n, sp_vpn_address = [], sp_source_address = [],
     sp_uptime = [], sp_encoding = [], sp_service = [], sp_counter = (\<lambda>c. 0), sp_complete = False,
     se_observed_at = 5\<rparr>"

lemma demo_facts:
  "\<not> counter_observed (reply_record (demo_reply ''*1'' ''bob'')) (counter_keys c)"
  "normalize_session (reply_record (demo_reply ''*1'' ''bob'')) 5 = Some (demo_session ''*1'' ''bob'')"
  "\<not> reply_dead (demo_reply ''*1'' ''bob'')" "rp_kind (demo_reply ''*1'' ''bob'') = lit ''re''"
  "sp_id (demo_session ''*1'' ''bob'') = lit ''*1''"
  "preserve_unobserved (demo_session ''*1'' ''bob'') (reply_record (demo_reply ''*1'' ''bob''))
     (Some (demo_session ''*1'' ''bob'')) = demo_session ''*1'' ''bob''"
proof -
  have c: "text_of (reply_record (demo_reply ''*1'' ''bob'')) (counter_keys c) = []" for c
    by (cases c) (simp_all add: demo_reply_def reply_record_def)
  then have o: "counter_of (reply_record (demo_reply ''*1'' ''bob'')) (counter_keys c) = 0"
    "\<not> counter_observed (reply_record (demo_reply ''*1'' ''bob'')) (counter_keys c)" for c
    by (simp_all add: counter_of_def counter_observed_def Let_def)
  then show "\<not> counter_observed (reply_record (demo_reply ''*1'' ''bob'')) (counter_keys c)"
    "normalize_session (reply_record (demo_reply ''*1'' ''bob'')) 5 = Some (demo_session ''*1'' ''bob'')"
    by (simp_all add: normalize_session_def Let_def demo_session_def counters_def)
       (simp add: demo_reply_def reply_record_def value_text_def max_text_bytes_def utf8_encode_def
         utf8_cp_def cp_valid_def lit_def of_char_def py_strip_def py_space_def)
  show "preserve_unobserved (demo_session ''*1'' ''bob'') (reply_record (demo_reply ''*1'' ''bob''))
     (Some (demo_session ''*1'' ''bob'')) = demo_session ''*1'' ''bob''"
    by (simp add: preserve_unobserved_def demo_session_def o(2))
qed (simp_all add: reply_dead_def demo_reply_def dget_or_def casefold_def demo_session_def)

lemma demo_apply:
  "apply_reply (new_broker 1 1) (demo_reply ''*1'' ''bob'') (Some 5) 0
     = ((new_broker 1 1)\<lparr>br_sessions := [(lit ''*1'', demo_session ''*1'' ''bob'')], br_sequence := 1\<rparr>,
        [\<lparr>ev_payload = SessionConnected (session_payload (demo_session ''*1'' ''bob'')),
           ev_sequence = 1, ev_timestamp = 5\<rparr>])"
  using demo_facts
  by (simp add: apply_reply_def Let_def timestamp_def preserve_unobserved_def
      new_broker_def evict_def max_cached_sessions_def counter_reset_event_def emit_event_def)

lemma demo_again:
  "apply_reply ((new_broker 1 1)\<lparr>br_sessions := [(lit ''*1'', demo_session ''*1'' ''bob'')], br_sequence := 1\<rparr>)
     (demo_reply ''*1'' ''bob'') (Some 5) 0
     = ((new_broker 1 1)\<lparr>br_sessions := [(lit ''*1'', demo_session ''*1'' ''bob'')], br_sequence := 2\<rparr>,
        [\<lparr>ev_payload = SessionUpdated (session_payload (demo_session ''*1'' ''bob'')),
           ev_sequence = 2, ev_timestamp = 5\<rparr>])"
  using demo_facts
  by (simp add: apply_reply_def Let_def timestamp_def reset_fields_def
      new_broker_def evict_def max_cached_sessions_def counter_reset_event_def emit_event_def)

text \<open>A full cache makes room by dropping its oldest session, and no event says so: a client
  that follows the events keeps a session that the broker has forgotten.\<close>

lemma eviction_is_not_announced:
  assumes "apply_reply b reply now clock = (b', es)" and "broker_ok b"
    and "rp_kind reply = lit ''re''" and "\<not> reply_dead reply"
    and "normalize_session (reply_record reply) (timestamp now clock) = Some s0"
    and "dget (br_sessions b) (sp_id s0) = None" and "length (br_sessions b) = br_max_sessions b"
  shows "\<exists>k. dget (br_sessions b') k = None \<and> replay (view_of (br_sessions b)) es k \<noteq> None"
  using assms(1)
proof (cases rule: apply_reply_cases)
  case ignored
  with assms(1,3-6) show ?thesis
    by (auto simp: apply_reply_def Let_def emit_event_def split: prod.splits)
next
  case (seen s1 s previous b1 resets e)
  let ?d = "dset (sp_id s1) s (br_sessions b)"
  have s1: "s1 = s0" using seen(3) assms(5) by simp
  have b': "br_sessions b' = evict (br_max_sessions b) ?d"
    using counter_reset_cache [OF seen(6)] emit_event_cache [OF seen(7)] by (simp add: same_cache_def)
  have "replay (view_of (br_sessions b)) resets = view_of (br_sessions b)"
    using counter_reset_cache [OF seen(6)] by (intro replay_resets) blast
  then have r: "replay (view_of (br_sessions b)) es = view_of ?d"
    using emit_event_cache [OF seen(7)] seen(5,8)
    by (cases "previous = None") (simp_all add: replay_append view_of_dset)
  have "sp_id s0 \<notin> set (dkeys (br_sessions b))" using assms(6) by (simp add: dget_None_iff)
  then have "length ?d = Suc (br_max_sessions b)"
    using assms(7) by (simp add: s1 length_dset del: set_map)
  then obtain k where k: "br_sessions b' = ddel k ?d" "k \<in> set (dkeys ?d)"
    unfolding b' by (cases rule: evict_cases [of "br_max_sessions b" ?d]) auto
  then have "dget ?d k \<noteq> None" by (simp add: dget_None_iff del: set_map)
  with r k(1) show ?thesis by (intro exI [of _ k]) (simp add: dget_ddel view_of_def)
qed (use assms in simp)

text \<open>in every run of the broker, whatever RouterOS sends, the cache stays within its
  configured sizes, is keyed by the records' own identifiers, and every retained text and
  counter is within its bound.\<close>

theorem broker_cache_is_bounded:
  assumes "broker_run m i b es"
  shows "length (br_sessions b) \<le> max_cached_sessions \<and> length (br_interfaces b) \<le> max_cached_interfaces \<and>
    dict_ok (br_sessions b) \<and> dict_ok (br_interfaces b) \<and>
    (\<forall>(k, s)\<in>set (br_sessions b). k = sp_id s \<and> session_ok s) \<and>
    (\<forall>(k, f)\<in>set (br_interfaces b). k = if_id f \<and> interface_ok f)"
  using broker_run_ok [OF assms] by (auto simp: broker_ok_def cache_ok_def icache_ok_def)

lemma demo_run:
  "broker_run 1 1 (fst (apply_reply (new_broker 1 1) (demo_reply ''*1'' ''bob'') (Some 5) 0))
     (snd (apply_reply (new_broker 1 1) (demo_reply ''*1'' ''bob'') (Some 5) 0))"
  using broker_run.more [OF broker_run.start apply_step, of 1 1 "demo_reply ''*1'' ''bob''" "Some 5" 0]
  by (simp add: demo_apply)

theorem broker_cache_is_bounded_witness:
  "lit ''*1'' = sp_id (demo_session ''*1'' ''bob'') \<and> session_ok (demo_session ''*1'' ''bob'')"
  using broker_cache_is_bounded [OF demo_run] by (simp add: demo_apply)

text \<open>C21: the events of a run are numbered \<open>1, 2, 3, \<dots>\<close> without a gap or a repetition, and
  the broker's sequence is the number of the last one. Refused snapshots and ignored
  replies consume no number.\<close>

theorem broker_events_are_contiguous:
  assumes "broker_run m i b es"
  shows "map ev_sequence es = [1..<Suc (length es)] \<and> br_sequence b = length es"
  using broker_run_numbered [OF assms] by (simp add: numbered_iff)

theorem broker_events_are_contiguous_witness:
  "map ev_sequence (snd (apply_reply (new_broker 1 1) (demo_reply ''*1'' ''bob'') (Some 5) 0)) = [1]"
  using broker_events_are_contiguous [OF demo_run] by (simp add: demo_apply)

text \<open>C19: a client that replays all events of a run knows every session in the cache with its
  current fields. (It may also keep sessions that a full cache dropped: see
  \<open>eviction_is_not_announced\<close>.)\<close>

theorem replay_covers_the_cache:
  assumes "broker_run m i b es"
  shows "view_of (br_sessions b) \<subseteq>\<^sub>m replay Map.empty es"
  by (rule broker_run_replay [OF assms])

theorem replay_covers_the_cache_witness:
  "view_of [(lit ''*1'', demo_session ''*1'' ''bob'')] \<subseteq>\<^sub>m
     [lit ''*1'' \<mapsto> session_payload (demo_session ''*1'' ''bob'')]"
proof -
  have "sp_id (demo_session ''*1'' ''bob'') = lit ''*1''" by (simp add: demo_session_def)
  then show ?thesis using replay_covers_the_cache [OF demo_run] by (simp add: demo_apply)
qed

text \<open>C20: a snapshot resynchronises: after \<open>reconcile\<close> a client that replays the events of that
  call knows exactly the cache, whatever it believed before.\<close>

theorem reconcile_resynchronises:
  assumes "reconcile b records now clock = (b', Inr es)" and "broker_ok b"
  shows "replay v es = view_of (br_sessions b')"
  by (rule reconcile_replay [OF assms])

theorem reconcile_resynchronises_witness:
  "\<exists>b' es. reconcile (new_broker 1 1) [] (Some 5) 0 = (b', Inr es) \<and>
     replay [[7] \<mapsto> session_payload (demo_session ''*1'' ''bob'')] es = view_of (br_sessions b')"
proof -
  obtain b' es where r: "reconcile (new_broker 1 1) [] (Some 5) 0 = (b', Inr es)"
    by (simp add: reconcile_def new_broker_def emit_event_def Let_def)
  with reconcile_resynchronises [OF r new_broker_ok] show ?thesis by blast
qed

text \<open>the redaction boundary. What the broker retains and emits for a reply depends on
  its allow-listed attributes only: two replies of the same kind and liveness that agree on
  the listed keys have the same effect and the same events, whatever their other
  attributes hold.\<close>

theorem only_allowed_fields_matter:
  assumes "rp_kind x = rp_kind y" and "reply_dead x = reply_dead y"
    and "\<forall>k\<in>set session_keys. dget (rp_attrs x) (lit k) = dget (rp_attrs y) (lit k)"
  shows "apply_reply b x now clock = apply_reply b y now clock"
proof -
  have "dget (reply_record r) k = map_option VStr (dget (rp_attrs r) k)" for r k
    by (simp add: reply_record_def map_of_map)
  with assms show ?thesis
    by (intro apply_reply_agree) (simp add: agree_replies_def agree_on_def)
qed

theorem only_allowed_fields_matter_witness:
  "apply_reply (new_broker 1 1)
     \<lparr>rp_kind = lit ''re'', rp_attrs = [(lit ''.id'', lit ''*1''), (lit ''password'', lit ''x'')]\<rparr> None 0
   = apply_reply (new_broker 1 1) \<lparr>rp_kind = lit ''re'', rp_attrs = [(lit ''.id'', lit ''*1'')]\<rparr> None 0"
  by (rule only_allowed_fields_matter) (simp_all add: reply_dead_def dget_or_def session_keys_def)

text \<open>a counter that a live record omits (or that is not a decimal in range) keeps its
  cached value, for every session that is in the cache before and after.\<close>

theorem unobserved_counters_keep_their_value:
  assumes "apply_reply b reply now clock = (b', es)" and "broker_ok b"
    and "dget (br_sessions b) k = Some p" and "dget (br_sessions b') k = Some q"
    and "\<not> counter_observed (reply_record reply) (counter_keys c)"
  shows "sp_counter q c = sp_counter p c"
  by (rule apply_reply_unobserved [OF assms(1,3,4,2,5)])

theorem unobserved_counters_keep_their_value_witness:
  "\<exists>b' es q. apply_reply
      ((new_broker 1 1)\<lparr>br_sessions := [(lit ''*1'', demo_session ''*1'' ''bob'')], br_sequence := 1\<rparr>)
      (demo_reply ''*1'' ''bob'') (Some 5) 0 = (b', es) \<and>
    dget (br_sessions b') (lit ''*1'') = Some q \<and>
    sp_counter q RxBytes = sp_counter (demo_session ''*1'' ''bob'') RxBytes"
proof -
  let ?b = "(new_broker 1 1)\<lparr>br_sessions := [(lit ''*1'', demo_session ''*1'' ''bob'')], br_sequence := 1\<rparr>"
  have ok: "broker_ok ?b" using broker_run_ok [OF demo_run] by (simp add: demo_apply)
  have "dget (br_sessions ?b) (lit ''*1'') = Some (demo_session ''*1'' ''bob'')" by simp
  from unobserved_counters_keep_their_value [OF demo_again ok this _ demo_facts(1) [of RxBytes]] demo_again
  show ?thesis by fastforce
qed

end
