(* ===== verification/Broker_Gateway.thy ===== *)
theory Broker_Gateway
  imports Gateway_Props Broker_Props
begin

text \<open>
  The interface between the broker and the gateway. The locale \<open>telemetry_source\<close> states what
  the gateway relies on (the watermark of a recovery snapshot is the source's sequence, and
  the snapshot passes the redaction), the client lemmas about \<open>poll\<close> are proved in it, and
  the broker's own definitions interpret it. \<open>broker_event\<close> is the \<open>TelemetryEvent\<close> the
  gateway receives; \<open>ft\<close> gives the text of a float.
\<close>

section \<open>The interface\<close>

locale telemetry_source =
  fixes src_view :: "'b \<Rightarrow> source" and valid :: "'b \<Rightarrow> bool"
  assumes watermark: "valid b \<Longrightarrow> fst (so_snapshot (src_view b)) = so_sequence (src_view b)"
    and sequence_bounded: "valid b \<Longrightarrow> 0 \<le> so_sequence (src_view b) \<and> so_sequence (src_view b) \<le> max_frame_number"
    and snapshot_accepted: "valid b \<Longrightarrow> so_snapshot (src_view b) = (w, ss, ifs) \<Longrightarrow>
      \<exists>p. snapshot_payload [(lit ''sessions'', ss), (lit ''interfaces'', ifs)] = Inr p"
begin

lemma poll_reaches_the_source:
  assumes "valid b" and "poll g (src_view b) sid after_sequence clock reading observed = (g', Inr frames)"
  shows "last_seen g' sid = Some (so_sequence (src_view b))"
  using poll_catches_up [OF assms(2) watermark [OF assms(1)]] by simp

lemma poll_errors:
  assumes "valid b" and "poll g (src_view b) sid after_sequence clock reading observed = (g', Inl e)"
    and "0 \<le> clock" and "clock < 2 ^ 62"
  shows "g' = g \<and> e \<in> {NotSubscribed, FrameTooLarge, NotSerializable}"
  using assms(2)
proof (cases rule: poll_cases)
  case (unserved e')
  obtain w ss ifs where src: "so_snapshot (src_view b) = (w, ss, ifs)" by (metis prod_cases3)
  obtain p where p: "snapshot_payload [(lit ''sessions'', ss), (lit ''interfaces'', ifs)] = Inr p"
    using snapshot_accepted [OF assms(1) src] by blast
  have w: "0 \<le> w" "w \<le> max_frame_number"
    using watermark [OF assms(1)] sequence_bounded [OF assms(1)] src by simp_all
  have t: "0 \<le> py_trunc clock" "py_trunc clock \<le> max_frame_number"
  proof -
    have "\<lfloor>clock\<rfloor> < (2 ^ 62 :: int)" using assms(4) by (simp add: floor_less_iff)
    then show "0 \<le> py_trunc clock" "py_trunc clock \<le> max_frame_number"
      using assms(3) by (simp_all add: py_trunc_def max_frame_number_def)
  qed
  have name: "lit ''telemetry.snapshot'' \<in> set supported_events" by (simp add: supported_events_def)
  have "safe_payload (lit ''telemetry.snapshot'') [(lit ''sessions'', ss), (lit ''interfaces'', ifs)] = Inr p"
    using p by (simp add: safe_payload_def)
  then have "build_frame \<lparr>ge_name = lit ''telemetry.snapshot'', ge_sequence = JInt w,
      ge_timestamp = JInt (py_trunc clock),
      ge_payload = JDict [(lit ''sessions'', ss), (lit ''interfaces'', ifs)]\<rparr> = Inl e' \<Longrightarrow>
    e' \<in> {FrameTooLarge, NotSerializable}"
    using w t name
    by (auto simp: build_frame_def dict_items_def bounded_sequence_def Let_def split: option.splits if_splits)
  moreover have "e = e'" using unserved(2) by simp
  ultimately show ?thesis
    using unserved(1,3) by (auto simp: snapshot_entry_def src bounded_frame_def err_simps split: if_splits)
qed simp_all

end

section \<open>The broker's view as JSON\<close>

fun counter_name :: "counter \<Rightarrow> pystr" where
  "counter_name RxBytes = lit ''rx_bytes''"
| "counter_name TxBytes = lit ''tx_bytes''"
| "counter_name RxPackets = lit ''rx_packets''"
| "counter_name TxPackets = lit ''tx_packets''"

fun rate_name :: "counter \<Rightarrow> pystr" where
  "rate_name RxBytes = lit ''rx_bytes_per_second''"
| "rate_name TxBytes = lit ''tx_bytes_per_second''"
| "rate_name RxPackets = lit ''rx_packets_per_second''"
| "rate_name TxPackets = lit ''tx_packets_per_second''"

definition session_items :: "session_payload \<Rightarrow> (pystr \<times> jval) list" where
  "session_items p =
     [(lit ''id'', JStr (sp_id p)), (lit ''name'', JStr (sp_name p)),
      (lit ''vpn_address'', JStr (sp_vpn_address p)), (lit ''source_address'', JStr (sp_source_address p)),
      (lit ''uptime'', JStr (sp_uptime p)), (lit ''encoding'', JStr (sp_encoding p)),
      (lit ''service'', JStr (sp_service p))]
     @ map (\<lambda>c. (counter_name c, JInt (sp_counter p c))) counters
     @ [(lit ''counter_complete'', JBool (sp_complete p))]"

definition interface_items :: "(rat \<Rightarrow> pystr) \<Rightarrow> interface_payload \<Rightarrow> (pystr \<times> jval) list" where
  "interface_items ft p =
     [(lit ''id'', JStr (ip_id p)), (lit ''name'', JStr (ip_name p))]
     @ map (\<lambda>c. (counter_name c, JInt (ip_counter p c))) counters
     @ (case ip_rate p of
          None \<Rightarrow> []
        | Some rate \<Rightarrow> map (\<lambda>c. (rate_name c, JFloat (Some (rate c)) (ft (rate c)))) counters)"

definition sessions_json :: "session_payload list \<Rightarrow> jval" where
  "sessions_json ps = JList (map (\<lambda>p. JDict (session_items p)) ps)"

definition interfaces_json :: "(rat \<Rightarrow> pystr) \<Rightarrow> interface_payload list \<Rightarrow> jval" where
  "interfaces_json ft ps = JList (map (\<lambda>p. JDict (interface_items ft p)) ps)"

definition broker_source :: "(rat \<Rightarrow> pystr) \<Rightarrow> broker \<Rightarrow> source" where
  "broker_source ft b =
     (let snap = recovery_snapshot b in
      \<lparr>so_sequence = int (br_sequence b),
       so_snapshot = (int (rec_sequence snap), sessions_json (rec_sessions snap),
                      interfaces_json ft (rec_interfaces snap))\<rparr>)"

fun event_name :: "event_payload \<Rightarrow> pystr" where
  "event_name (SessionConnected p) = lit ''vpn.session.connected''"
| "event_name (SessionUpdated p) = lit ''vpn.session.updated''"
| "event_name (SessionDisconnected p) = lit ''vpn.session.disconnected''"
| "event_name (CounterReset scope i n cs) = lit ''telemetry.counter_reset''"
| "event_name (InterfaceCounters p) = lit ''vpn.interface.counters''"
| "event_name (SnapshotEvent ss ifs) = lit ''telemetry.snapshot''"

fun event_items :: "(rat \<Rightarrow> pystr) \<Rightarrow> event_payload \<Rightarrow> (pystr \<times> jval) list" where
  "event_items ft (SessionConnected p) = session_items p"
| "event_items ft (SessionUpdated p) = session_items p"
| "event_items ft (SessionDisconnected p) = session_items p"
| "event_items ft (CounterReset scope i n cs) =
     (if scope = InterfaceScope then [(lit ''scope'', JStr (lit ''interface''))] else [])
     @ [(lit ''id'', JStr i), (lit ''name'', JStr n), (lit ''fields'', JList (map (\<lambda>c. JStr (counter_name c)) cs))]"
| "event_items ft (InterfaceCounters p) = [(lit ''interface'', JDict (interface_items ft p))]"
| "event_items ft (SnapshotEvent ss ifs) =
     [(lit ''sessions'', sessions_json ss), (lit ''interfaces'', interfaces_json ft ifs)]"

definition broker_event :: "(rat \<Rightarrow> pystr) \<Rightarrow> event \<Rightarrow> gw_event" where
  "broker_event ft e =
     \<lparr>ge_name = event_name (ev_payload e), ge_sequence = JInt (int (ev_sequence e)),
      ge_timestamp = JInt (ev_timestamp e), ge_payload = JDict (event_items ft (ev_payload e))\<rparr>"

section \<open>What the broker publishes passes the redaction\<close>

definition payload_safe :: "session_payload \<Rightarrow> bool" where
  "payload_safe p \<longleftrightarrow> text_ok (sp_id p) \<and> text_ok (sp_name p) \<and> text_ok (sp_vpn_address p) \<and>
     text_ok (sp_source_address p) \<and> text_ok (sp_uptime p) \<and> text_ok (sp_encoding p) \<and>
     text_ok (sp_service p) \<and> (\<forall>c. counter_ok (sp_counter p c))"

lemma bounded_text_ok: "text_ok s \<Longrightarrow> bounded_text (JStr s) = Inr (JStr s)"
proof -
  assume "text_ok s"
  then obtain bs where b: "utf8_encode s = Some bs" "length bs \<le> max_text_bytes"
    by (auto simp: text_ok_def)
  moreover from b(1) have "length s \<le> length bs"
    using length_utf8_ge [of s] by (auto simp: utf8_encode_def split: if_splits)
  ultimately show ?thesis by (simp add: bounded_text_def)
qed

lemma bounded_counter_ok: "counter_ok n \<Longrightarrow> bounded_counter (JInt n) = Inr (JInt n)"
  by (simp add: bounded_counter_def counter_ok_def max_routeros_counter_def max_counter_value_def)

lemma redact_session_items:
  assumes "payload_safe p"
  shows "redact_session (JDict (session_items p)) = Inr (JDict (session_items p))"
  using assms
  by (simp add: redact_session_def project_def session_fields_def session_text_fields_def
      session_counter_fields_def dict_items_def session_items_def counters_def check_session_field_def
      payload_safe_def bounded_text_ok bounded_counter_ok bounded_flag_def)

lemma redact_interface_items:
  assumes "text_ok (ip_id p)" "text_ok (ip_name p)" "\<forall>c. counter_ok (ip_counter p c)" "ip_rate p = None"
  shows "redact_interface (JDict (interface_items ft p)) = Inr (JDict (interface_items ft p))"
  using assms
  by (simp add: redact_interface_def project_def interface_counter_fields_def rate_fields_def
      session_counter_fields_def dict_items_def interface_items_def counters_def check_interface_field_def
      bounded_text_ok bounded_counter_ok)

definition broker_public :: "broker \<Rightarrow> bool" where
  "broker_public b \<longleftrightarrow> broker_ok b \<and> (\<forall>(k, s)\<in>set (br_sessions b). text_ok (sp_id s)) \<and>
     int (br_sequence b) \<le> max_frame_number"

lemma session_payload_safe: "session_ok s \<Longrightarrow> text_ok (sp_id s) \<Longrightarrow> payload_safe (session_payload s)"
  by (simp add: session_ok_def payload_safe_def session_payload_def)

lemma snapshot_payload_accepts:
  assumes "list_all payload_safe ss" "length ss \<le> max_cached_sessions"
    and "list_all (\<lambda>p. text_ok (ip_id p) \<and> text_ok (ip_name p) \<and> (\<forall>c. counter_ok (ip_counter p c)) \<and> ip_rate p = None) ifs"
    and "length ifs \<le> max_cached_interfaces"
  shows "snapshot_payload [(lit ''sessions'', sessions_json ss), (lit ''interfaces'', interfaces_json ft ifs)]
    = Inr (JDict [(lit ''sessions'', sessions_json ss), (lit ''interfaces'', interfaces_json ft ifs)])"
proof -
  have s: "emap redact_session (map (\<lambda>p. JDict (session_items p)) ss) = Inr (map (\<lambda>p. JDict (session_items p)) ss)"
    using assms(1) by (induction ss) (simp_all add: redact_session_items)
  have i: "emap redact_interface (map (\<lambda>p. JDict (interface_items ft p)) ifs) = Inr (map (\<lambda>p. JDict (interface_items ft p)) ifs)"
    using assms(3) by (induction ifs) (simp_all add: redact_interface_items)
  show ?thesis
    using assms(2,4) by (simp add: snapshot_payload_def sessions_json_def interfaces_json_def s i)
qed

lemma snapshot_safe: "broker_public b \<Longrightarrow> list_all payload_safe (snapshot b) \<and> length (snapshot b) \<le> max_cached_sessions"
  by (auto simp: broker_public_def broker_ok_def cache_ok_def snapshot_def list_all_iff intro!: session_payload_safe)

lemma interface_list_safe:
  "broker_ok b \<Longrightarrow> list_all (\<lambda>p. text_ok (ip_id p) \<and> text_ok (ip_name p) \<and> (\<forall>c. counter_ok (ip_counter p c)) \<and> ip_rate p = None)
     (interface_list b) \<and> length (interface_list b) \<le> max_cached_interfaces"
  by (auto simp: broker_ok_def icache_ok_def interface_list_def list_all_iff interface_payload_def interface_ok_def)

lemma broker_snapshot_accepted:
  "broker_public b \<Longrightarrow>
   snapshot_payload [(lit ''sessions'', sessions_json (snapshot b)), (lit ''interfaces'', interfaces_json ft (interface_list b))]
     = Inr (JDict [(lit ''sessions'', sessions_json (snapshot b)), (lit ''interfaces'', interfaces_json ft (interface_list b))])"
  using snapshot_safe [of b] interface_list_safe [of b]
  by (intro snapshot_payload_accepts) (auto simp: broker_public_def)

interpretation broker_telemetry: telemetry_source "broker_source ft" broker_public for ft
proof
  show "broker_public b \<Longrightarrow> fst (so_snapshot (broker_source ft b)) = so_sequence (broker_source ft b)" for b
    by (simp add: broker_source_def Let_def recovery_snapshot_def)
  show "broker_public b \<Longrightarrow> 0 \<le> so_sequence (broker_source ft b) \<and> so_sequence (broker_source ft b) \<le> max_frame_number" for b
    by (simp add: broker_source_def Let_def broker_public_def)
  show "\<exists>p. snapshot_payload [(lit ''sessions'', ss), (lit ''interfaces'', ifs)] = Inr p"
    if "broker_public b" "so_snapshot (broker_source ft b) = (w, ss, ifs)" for b w ss ifs
    using that broker_snapshot_accepted [OF that(1), of ft]
    by (auto simp: broker_source_def Let_def recovery_snapshot_def)
qed

definition event_safe :: "event_payload \<Rightarrow> bool" where
  "event_safe p =
     (case p of
        SessionConnected s \<Rightarrow> payload_safe s
      | SessionUpdated s \<Rightarrow> payload_safe s
      | SessionDisconnected s \<Rightarrow> payload_safe s
      | CounterReset scope i n cs \<Rightarrow> text_ok i \<and> text_ok n \<and> length cs \<le> 4
      | _ \<Rightarrow> False)"

lemma check_reset_fields:
  "length cs \<le> 4 \<Longrightarrow> check_reset_field (lit ''fields'') (JList (map (\<lambda>c. JStr (counter_name c)) cs))
     = Inr (JList (map (\<lambda>c. JStr (counter_name c)) cs))"
proof -
  have "counter_name c \<in> set session_counter_fields" for c
    by (cases c) (simp_all add: session_counter_fields_def)
  then show "length cs \<le> 4 \<Longrightarrow> ?thesis"
    by (simp add: check_reset_field_def reset_field_ok_def list_all_iff)
qed

lemma scope_ok: "bounded_text (JStr (lit ''interface'')) = Inr (JStr (lit ''interface''))"
  by (intro bounded_text_ok) (simp add: text_ok_def utf8_encode_def cp_valid_def utf8_cp_def max_text_bytes_def lit_def of_char_def)

lemma event_safe_accepted: "event_safe p \<Longrightarrow> \<exists>d. safe_payload (event_name p) (event_items ft p) = Inr (JDict d)"
proof (cases p)
  case (CounterReset scope i n cs)
  moreover assume "event_safe p"
  ultimately show ?thesis
    by (simp add: event_safe_def safe_payload_def project_def reset_keys_def check_reset_fields
        check_reset_field_def [of "lit ''scope''"] check_reset_field_def [of "lit ''id''"]
        check_reset_field_def [of "lit ''name''"] scope_ok bounded_text_ok)
qed (auto simp: event_safe_def safe_payload_def redact_session_items)

lemma reset_fields_length: "length (reset_fields p q) \<le> 4"
  using length_filter_le [of "\<lambda>c. q c < p c" counters] by (simp add: reset_fields_def counters_def)

lemma normalize_session_id:
  "normalize_session r t = Some s \<Longrightarrow> text_of r [''.id'', ''id''] \<noteq> [] \<Longrightarrow> text_ok (sp_id s)"
  by (auto simp: normalize_session_def Let_def text_of_ok simp del: text_of.simps split: if_splits)

lemma apply_reply_event_safe:
  assumes "apply_reply b reply now clock = (b', es)" and "broker_public b"
    and "text_of (reply_record reply) [''.id'', ''id''] \<noteq> []" and "e \<in> set es"
  shows "event_safe (ev_payload e)"
  using assms(1)
proof (cases rule: apply_reply_cases)
  case ignored
  then show ?thesis using assms(4) by simp
next
  case (gone previous k e')
  have "(k, previous) \<in> set (br_sessions b)" using gone(5) by (rule dget_Some_in)
  then have "payload_safe (session_payload previous)"
    using assms(2) by (auto simp: broker_public_def broker_ok_def cache_ok_def intro!: session_payload_safe)
  then show ?thesis
    using gone(7) assms(4) emit_event_cache [OF gone(6)] by (simp add: event_safe_def)
next
  case (seen s0 s previous b1 resets e')
  have ok: "session_ok s"
    using seen(4,5) normalize_session_ok [OF seen(3)] assms(2) cache_ok_get
    by (auto simp: broker_public_def broker_ok_def intro!: preserve_unobserved_ok)
  moreover have id: "text_ok (sp_id s)" using normalize_session_id [OF seen(3) assms(3)] seen(5) by simp
  ultimately have safe: "payload_safe (session_payload s)" by (rule session_payload_safe)
  show ?thesis
  proof (cases "e \<in> set resets")
    case True
    then have "\<exists>cs. ev_payload e = CounterReset SessionScope (sp_id s) (sp_name s) cs \<and> length cs \<le> 4"
      using seen(6)
      by (auto simp: counter_reset_event_def Let_def emit_event_def reset_fields_length split: option.splits if_splits)
    then show ?thesis using id ok by (auto simp: event_safe_def session_ok_def)
  next
    case False
    then have "e = e'" using assms(4) seen(8) by simp
    then show ?thesis using emit_event_cache [OF seen(7)] safe by (simp add: event_safe_def split: if_splits)
  qed
qed

text \<open>The identifier that the broker makes up for a record without \<open>.id\<close> joins three texts of up
  to 256 bytes; the gateway refuses identifiers above 256 bytes, so such a session is
  cached but cannot be published.\<close>

definition long_record :: record_dict where
  "long_record = [(lit ''name'', VStr (replicate 200 97)), (lit ''address'', VStr (replicate 100 98))]"

lemma long_identifier_is_refused:
  "\<exists>s. normalize_session long_record 0 = Some s \<and> session_ok s \<and>
     redact_session (JDict (session_items (session_payload s))) = Inl TextTooLong"
proof -
  have strip: "py_strip (replicate n c) = replicate n c" if "\<not> py_space c" "0 < n" for n c
    using that by (intro py_strip_no_space) (simp_all add: last_replicate)
  have enc: "utf8_encode (replicate n c) = Some (map of_nat (replicate n c))" if "c < 128" for n c
    using that by (intro utf8_encode_lit) simp
  have t: "text_of long_record [''name'', ''user'', ''username''] = replicate 200 97"
    "text_of long_record [''address'', ''remote-address'', ''vpn-address''] = replicate 100 98"
    "text_of long_record [''caller-id'', ''source-address'', ''source''] = []"
    "text_of long_record [''.id'', ''id''] = []"
    by (simp_all add: long_record_def value_text_def max_text_bytes_def strip enc py_space_def)
  define i where "i = replicate 200 97 @ lit ''|'' @ replicate 100 98 @ lit ''|''"
  obtain s where s: "normalize_session long_record 0 = Some s" "sp_id s = i"
    by (simp add: normalize_session_def Let_def t i_def del: text_of.simps)
  moreover have "redact_session (JDict (session_items (session_payload s))) = Inl TextTooLong"
  proof -
    have "bounded_text (JStr i) = Inl TextTooLong"
      by (simp add: bounded_text_def max_text_bytes_def i_def)
    then show ?thesis
      using s(2) by (simp add: redact_session_def project_def session_fields_def session_text_fields_def dict_items_def
          session_items_def check_session_field_def)
  qed
  ultimately show ?thesis using normalize_session_ok by blast
qed

section \<open>Properties\<close>

text \<open>C3: a poll never skips an event. When \<open>poll\<close> succeeds against the broker, the client's
  cursor is the broker's sequence, and what it received is either one snapshot frame with
  that sequence, or, in order and without a gap, every retained frame after its old cursor,
  covering every sequence number in between.\<close>

theorem poll_never_skips:
  assumes "broker_public b"
    and "poll g (broker_source ft b) sid after_sequence clock reading observed = (g', Inr frames)"
  shows "last_seen g' sid = Some (int (br_sequence b)) \<and>
    ((\<exists>f. frames = [f] \<and> fr_event f = lit ''telemetry.snapshot'' \<and> fr_sequence f = int (br_sequence b)) \<or>
     (\<exists>cursor. last_seen g sid = Some cursor \<and> cursor \<le> int (br_sequence b) \<and>
        fr_sequence ` set frames = {cursor + 1..int (br_sequence b)} \<and> sorted (map fr_sequence frames) \<and>
        mset frames = mset (filter (\<lambda>f. cursor < fr_sequence f) (map fst (gw_events g)))))"
  using broker_telemetry.poll_reaches_the_source [OF assms]
    poll_catches_up [OF assms(2) broker_telemetry.watermark [OF assms(1)]]
  by (simp add: broker_source_def Let_def)

lemma new_broker_public: "broker_public (new_broker 1 1)"
  using new_broker_ok [of 1 1] by (simp add: broker_public_def new_broker_def max_frame_number_def)

definition demo_clients :: gateway where
  "demo_clients = (new_gateway 2 1 1000 1000)
     \<lparr>gw_clients := [([1], \<lparr>su_created_at = 0, su_last_seen = 0, su_cursor_seen = False\<rparr>)]\<rparr>"

theorem poll_never_skips_witness:
  "\<exists>g'. poll demo_clients (broker_source (\<lambda>r. []) (new_broker 1 1)) [1] None 0 0 0 = (g', Inr []) \<and>
     last_seen g' [1] = Some 0"
proof -
  have "snd (poll demo_clients (broker_source (\<lambda>r. []) (new_broker 1 1)) [1] None 0 0 0) = Inr []"
    by (simp add: poll_def demo_clients_def new_gateway_def Let_def needs_snapshot_def replay_complete_def
        consecutive_def broker_source_def recovery_snapshot_def new_broker_def)
  then obtain g' where p: "poll demo_clients (broker_source (\<lambda>r. []) (new_broker 1 1)) [1] None 0 0 0 = (g', Inr [])"
    by (metis surjective_pairing)
  have "br_sequence (new_broker 1 1) = 0" by (simp add: new_broker_def)
  with poll_never_skips [OF new_broker_public p] p show ?thesis by auto
qed

text \<open>Values of this shape have a JSON text, and that has a UTF-8 form.\<close>

fun plain_json :: "jval \<Rightarrow> bool" where
  "plain_json JNone \<longleftrightarrow> True"
| "plain_json (JBool b) \<longleftrightarrow> True"
| "plain_json (JInt i) \<longleftrightarrow> True"
| "plain_json (JFloat x t) \<longleftrightarrow> False"
| "plain_json (JStr s) \<longleftrightarrow> list_all cp_valid s"
| "plain_json (JList vs) \<longleftrightarrow> list_all plain_json vs"
| "plain_json (JDict kvs) \<longleftrightarrow> list_all (\<lambda>(k, v). list_all cp_valid k \<and> plain_json v) kvs"
| "plain_json JOther \<longleftrightarrow> False"

lemma ascii_valid: "c < 128 \<Longrightarrow> cp_valid c"
  by (simp add: cp_valid_def)

lemma valid_int [simp]: "list_all cp_valid (str_of_int i)"
proof -
  have "list_all cp_valid (dec_of_nat n)" for n
    using dec_of_nat_digits [of n] by (auto simp: list_all_iff is_digit_def intro!: ascii_valid dest!: bspec)
  then show ?thesis by (simp add: str_of_int_def ascii_valid)
qed

lemma valid_string [simp]: "list_all cp_valid s \<Longrightarrow> list_all cp_valid (json_string s)"
proof -
  have "list_all cp_valid (json_escape c)" if "cp_valid c" for c
    using that by (simp add: json_escape_def ascii_valid hex_digit_def)
  then show "list_all cp_valid s \<Longrightarrow> ?thesis" by (auto simp: json_string_def list_all_iff ascii_valid)
qed

lemma valid_join: "cp_valid c \<Longrightarrow> list_all (list_all cp_valid) ts \<Longrightarrow> list_all cp_valid (py_join c ts)"
  by (induction c ts rule: py_join.induct) auto

lemma plain_json_text:
  "plain_json v \<Longrightarrow> \<exists>t. json_text v = Some t \<and> list_all cp_valid t"
  "list_all plain_json vs \<Longrightarrow> \<exists>ts. json_texts vs = Some ts \<and> list_all (list_all cp_valid) ts"
  "list_all (\<lambda>(k, v). list_all cp_valid k \<and> plain_json v) kvs \<Longrightarrow> \<exists>ts. json_pairs kvs = Some ts \<and> list_all (list_all cp_valid) ts"
proof (induction v and vs and kvs rule: json_text_json_texts_json_pairs.induct)
  case (7 vs)
  then obtain ts where "json_texts vs = Some ts" "list_all (list_all cp_valid) ts" by auto
  then show ?case using valid_join [of 44 ts] by (simp add: ascii_valid)
next
  case (8 kvs)
  then obtain ts where "json_pairs kvs = Some ts" "list_all (list_all cp_valid) ts" by auto
  then show ?case using valid_join [of 44 ts] by (simp add: ascii_valid)
next
  case (13 k v kvs)
  then obtain t ts where "json_text v = Some t" "list_all cp_valid t" "json_pairs kvs = Some ts" "list_all (list_all cp_valid) ts" by auto
  moreover have "list_all cp_valid (json_string k)" using "13.prems" by simp
  ultimately show ?case by (simp add: ascii_valid)
qed (auto simp: lit_def of_char_def ascii_valid)

lemma plain_json_size: "plain_json v \<Longrightarrow> \<exists>n. json_size v = Some n"
  using plain_json_text(1) [of v] by (auto simp: json_size_def utf8_encode_def list_all_iff)

lemma text_ok_valid: "text_ok t \<Longrightarrow> list_all cp_valid t"
  by (auto simp: text_ok_def utf8_encode_def list_all_iff split: if_splits)

lemma lit_valid [simp]: "list_all cp_valid (lit s)"
proof -
  have "(of_char c :: nat) < 256" for c by (metis of_char_of nat_of_char_less_256)
  moreover have "n < 256 \<Longrightarrow> cp_valid n" for n by (simp add: cp_valid_def)
  ultimately have "cp_valid (of_char c)" for c :: char by blast
  then show ?thesis by (auto simp: lit_def list_all_iff)
qed

text \<open>The frame of the snapshot that the gateway builds for a client it cannot replay to.\<close>

definition snapshot_frame :: "(rat \<Rightarrow> pystr) \<Rightarrow> broker \<Rightarrow> rat \<Rightarrow> frame" where
  "snapshot_frame ft b clock =
     \<lparr>fr_event = lit ''telemetry.snapshot'', fr_sequence = int (br_sequence b), fr_timestamp = py_trunc clock,
      fr_payload = JDict [(lit ''sessions'', sessions_json (snapshot b)), (lit ''interfaces'', interfaces_json ft (interface_list b))]\<rparr>"

lemma snapshot_frame_plain: "broker_public b \<Longrightarrow> plain_json (frame_json (snapshot_frame ft b clock))"
proof -
  assume b: "broker_public b"
  have "list_all plain_json (map (\<lambda>p. JDict (session_items p)) (snapshot b))"
    using snapshot_safe [OF b] by (auto simp: list_all_iff session_items_def payload_safe_def counters_def text_ok_valid [unfolded list_all_iff]
        lit_valid [unfolded list_all_iff])
  moreover have "list_all plain_json (map (\<lambda>p. JDict (interface_items ft p)) (interface_list b))"
    using interface_list_safe [of b] b by (auto simp: broker_public_def list_all_iff interface_items_def counters_def
        text_ok_valid [unfolded list_all_iff] lit_valid [unfolded list_all_iff])
  ultimately show ?thesis by (simp add: frame_json_def snapshot_frame_def sessions_json_def interfaces_json_def)
qed

lemma snapshot_entry_of_broker:
  assumes "broker_public b" and "0 \<le> clock" and "clock < 2 ^ 62" and "snapshot_entry g (broker_source ft b) clock reading = Inl e"
  shows "e = FrameTooLarge \<and> (\<exists>n. json_size (frame_json (snapshot_frame ft b clock)) = Some n \<and> min max_frame_bytes (gw_max_frame_bytes g) < n)"
proof -
  have t: "0 \<le> py_trunc clock" "py_trunc clock \<le> max_frame_number"
  proof -
    have "\<lfloor>clock\<rfloor> < (2 ^ 62 :: int)" using assms(3) by (simp add: floor_less_iff)
    then show "0 \<le> py_trunc clock" "py_trunc clock \<le> max_frame_number"
      using assms(2) by (simp_all add: py_trunc_def max_frame_number_def)
  qed
  have w: "int (br_sequence b) \<le> max_frame_number" using assms(1) by (simp add: broker_public_def)
  have name: "lit ''telemetry.snapshot'' \<in> set supported_events" by (simp add: supported_events_def)
  have "safe_payload (lit ''telemetry.snapshot'') [(lit ''sessions'', sessions_json (snapshot b)),
      (lit ''interfaces'', interfaces_json ft (interface_list b))] = Inr (fr_payload (snapshot_frame ft b clock))"
    using broker_snapshot_accepted [OF assms(1), of ft] by (simp add: safe_payload_def snapshot_frame_def)
  moreover obtain n where n: "json_size (frame_json (snapshot_frame ft b clock)) = Some n"
    using plain_json_size [OF snapshot_frame_plain [OF assms(1)]] by blast
  ultimately have "build_frame \<lparr>ge_name = lit ''telemetry.snapshot'', ge_sequence = JInt (int (br_sequence b)),
      ge_timestamp = JInt (py_trunc clock), ge_payload = JDict [(lit ''sessions'', sessions_json (snapshot b)),
        (lit ''interfaces'', interfaces_json ft (interface_list b))]\<rparr> =
      (if max_frame_bytes < n then Inl FrameTooLarge else Inr (snapshot_frame ft b clock, n))"
    using t w name by (simp add: build_frame_def dict_items_def bounded_sequence_def Let_def snapshot_frame_def)
  then have "e = FrameTooLarge \<and> (max_frame_bytes < n \<or> gw_max_frame_bytes g < n)"
    using assms(4) by (auto simp: snapshot_entry_def broker_source_def Let_def recovery_snapshot_def bounded_frame_def err_simps split: if_splits)
  with n show ?thesis by auto
qed

text \<open>C36: a poll fails only for a stated reason. As long as the identifiers in the broker's cache are within the text limit, and the clock reads
  less than \<open>2 ^ 62\<close> seconds, a poll fails only because the subscription is unknown, or because the JSON text of the snapshot frame is longer
  than the limit; the snapshot itself is never refused, and always has a JSON text and a UTF-8 form. A failed poll changes nothing.\<close>

theorem poll_fails_only_for_size:
  assumes "broker_public b" and "0 \<le> clock" and "clock < 2 ^ 62"
    and "poll g (broker_source ft b) sid after_sequence clock reading observed = (g', Inl e)"
  shows "g' = g \<and> (e = NotSubscribed \<and> dget (gw_clients g) sid = None \<or>
    e = FrameTooLarge \<and> (\<exists>n. json_size (frame_json (snapshot_frame ft b clock)) = Some n \<and> min max_frame_bytes (gw_max_frame_bytes g) < n))"
  using assms(4)
proof (cases rule: poll_cases)
  case (unserved e')
  with snapshot_entry_of_broker [OF assms(1-3)] show ?thesis by auto
qed simp_all

text \<open>A gateway whose frames may have one byte only, and a client that needs a snapshot; and one that is not subscribed.\<close>

definition tiny_gateway :: gateway where
  "tiny_gateway = (new_gateway 2 1 1 1000)
     \<lparr>gw_clients := [([1], \<lparr>su_created_at = 0, su_last_seen = 0, su_cursor_seen = False\<rparr>)]\<rparr>"

lemma json_dict_size: "json_size (JDict d) = Some n \<Longrightarrow> 1 < n"
proof -
  assume "json_size (JDict d) = Some n"
  then obtain t where "utf8_encode (123 # t @ [125]) = Some (concat (map utf8_cp (123 # t @ [125])))"
      "n = length (concat (map utf8_cp (123 # t @ [125])))"
    by (auto simp: json_size_def utf8_encode_def split: option.splits if_splits)
  then show ?thesis using length_utf8_ge [of "123 # t @ [125]"] by simp
qed

lemma tiny_poll: "poll tiny_gateway (broker_source (\<lambda>r. []) (new_broker 1 1)) [1] (Some 0) 1 0 0 = (tiny_gateway, Inl FrameTooLarge)"
proof -
  let ?b = "new_broker 1 1"
  have "snapshot_entry tiny_gateway (broker_source (\<lambda>r. []) ?b) 1 0 = Inl FrameTooLarge"
  proof (cases "snapshot_entry tiny_gateway (broker_source (\<lambda>r. []) ?b) 1 0")
    case (Inl e)
    with snapshot_entry_of_broker [OF new_broker_public _ _ Inl] show ?thesis by simp
  next
    case (Inr entry)
    from snapshot_entry_Inr [OF Inr] have "json_size (frame_json (fst entry)) = Some (entry_size entry)" "entry_size entry \<le> 1"
      by (auto simp: entry_ok_def tiny_gateway_def new_gateway_def Let_def)
    with json_dict_size show ?thesis unfolding frame_json_def by fastforce
  qed
  then show ?thesis by (simp add: poll_def tiny_gateway_def needs_snapshot_def)
qed

theorem poll_fails_only_for_size_witness:
  "poll tiny_gateway (broker_source (\<lambda>r. []) (new_broker 1 1)) [1] (Some 0) 1 0 0 = (tiny_gateway, Inl FrameTooLarge) \<and>
   (\<exists>n. json_size (frame_json (snapshot_frame (\<lambda>r. []) (new_broker 1 1) 1)) = Some n \<and> 1 < n) \<and>
   poll tiny_gateway (broker_source (\<lambda>r. []) (new_broker 1 1)) [2] None 1 0 0 = (tiny_gateway, Inl NotSubscribed)"
proof -
  have "gw_max_frame_bytes tiny_gateway = 1" "1 \<le> max_frame_bytes"
    by (simp_all add: tiny_gateway_def new_gateway_def Let_def max_frame_bytes_def max_replay_bytes_def)
  moreover have "poll tiny_gateway (broker_source (\<lambda>r. []) (new_broker 1 1)) [2] None 1 0 0 = (tiny_gateway, Inl NotSubscribed)"
    by (simp add: poll_def tiny_gateway_def)
  ultimately show ?thesis using poll_fails_only_for_size [OF new_broker_public _ _ tiny_poll] tiny_poll by auto
qed

text \<open>the events of an applied reply that carries an identifier pass the redaction of the
  gateway, so the two privacy boundaries agree on what a session record may hold.\<close>

theorem applied_events_are_accepted:
  assumes "apply_reply b reply now clock = (b', es)" and "broker_public b"
    and "text_of (reply_record reply) [''.id'', ''id''] \<noteq> []" and "e \<in> set es"
  shows "\<exists>d. safe_payload (ge_name (broker_event ft e)) (dict_items (ge_payload (broker_event ft e))) = Inr (JDict d)"
  using event_safe_accepted [OF apply_reply_event_safe [OF assms]]
  by (simp add: broker_event_def dict_items_def)

theorem applied_events_are_accepted_witness:
  "\<exists>d. safe_payload (lit ''vpn.session.connected'')
      (session_items (session_payload (demo_session ''*1'' ''bob''))) = Inr (JDict d)"
proof -
  have id: "text_of (reply_record (demo_reply ''*1'' ''bob'')) [''.id'', ''id''] \<noteq> []"
    by (simp add: demo_reply_def reply_record_def value_text_def max_text_bytes_def utf8_encode_def
         utf8_cp_def cp_valid_def lit_def of_char_def py_strip_def py_space_def)
  show ?thesis
    using applied_events_are_accepted [OF demo_apply new_broker_public id, of _ "\<lambda>r. []"]
    by (simp add: broker_event_def dict_items_def)
qed

end
