(* ===== verification/Telemetry_State.thy ===== *)
theory Telemetry_State
  imports Prelude
begin

text \<open>
  \<open>telemetry_state.py\<close>: the runtime status of live telemetry: which transport is in effect, when
  the last event, reconciliation and traffic sample were seen, and whether the data is healthy, stale or
  in error. The lock makes each method atomic; the clock reading (or the \<open>now\<close> argument, as the code
  prefers it) is an argument.
\<close>

section \<open>The state and its operations\<close>

record telemetry_state =
  ts_stale_after :: int
  ts_requested :: pystr
  ts_effective :: pystr
  ts_socketio :: bool
  ts_last_event :: "int option"
  ts_last_reconciliation :: "int option"
  ts_event_count :: int
  ts_last_session_event :: "rat option"
  ts_last_traffic :: "rat option"
  ts_session_events :: int
  ts_traffic_samples :: int
  ts_reconnects :: int
  ts_last_error :: "pystr option"

definition new_state :: "pystr \<Rightarrow> pystr \<Rightarrow> bool \<Rightarrow> int \<Rightarrow> telemetry_state" where
  "new_state requested effective socketio stale_after =
     \<lparr>ts_stale_after = max 1 stale_after, ts_requested = requested, ts_effective = effective, ts_socketio = socketio,
      ts_last_event = None, ts_last_reconciliation = None, ts_event_count = 0, ts_last_session_event = None,
      ts_last_traffic = None, ts_session_events = 0, ts_traffic_samples = 0, ts_reconnects = 0, ts_last_error = None\<rparr>"

definition mark_event :: "bool \<Rightarrow> rat \<Rightarrow> telemetry_state \<Rightarrow> telemetry_state" where
  "mark_event reconciliation now st =
     (let observed_at = py_trunc now in
      st\<lparr>ts_last_event := Some observed_at, ts_last_session_event := Some (of_int observed_at),
         ts_session_events := ts_session_events st + 1,
         ts_last_reconciliation := (if reconciliation then Some observed_at else ts_last_reconciliation st),
         ts_event_count := ts_event_count st + 1, ts_last_error := None\<rparr>)"

definition mark_session_events :: "int \<Rightarrow> bool \<Rightarrow> rat \<Rightarrow> telemetry_state \<Rightarrow> telemetry_state" where
  "mark_session_events n reconciliation observed_at st =
     st\<lparr>ts_last_event := Some (py_trunc observed_at), ts_last_session_event := Some observed_at,
        ts_session_events := ts_session_events st + max 0 n,
        ts_last_reconciliation := (if reconciliation then Some (py_trunc observed_at) else ts_last_reconciliation st),
        ts_event_count := ts_event_count st + max 0 n, ts_last_error := None\<rparr>"

definition mark_traffic_samples :: "int \<Rightarrow> rat \<Rightarrow> telemetry_state \<Rightarrow> telemetry_state" where
  "mark_traffic_samples n observed_at st =
     st\<lparr>ts_last_traffic := Some observed_at, ts_traffic_samples := ts_traffic_samples st + max 0 n\<rparr>"

definition mark_reconnect :: "telemetry_state \<Rightarrow> telemetry_state" where
  "mark_reconnect st = st\<lparr>ts_reconnects := ts_reconnects st + 1\<rparr>"

definition mark_error :: "pystr \<Rightarrow> telemetry_state \<Rightarrow> telemetry_state" where
  "mark_error code st =
     (let safe = take 64 (py_strip code) in
      st\<lparr>ts_last_error := Some (if safe = [] then lit ''telemetry_error'' else safe)\<rparr>)"

section \<open>The report\<close>

datatype health = ErrorState | StaleState | HealthyState

record telemetry_report =
  tr_requested :: pystr
  tr_transport :: pystr
  tr_socketio :: bool
  tr_state :: health
  tr_last_event :: "int option"
  tr_last_reconciliation :: "int option"
  tr_event_age :: "int option"
  tr_reconciliation_age :: "int option"
  tr_event_count :: int
  tr_last_session_event :: "rat option"
  tr_session_event_age :: "rat option"
  tr_session_events :: int
  tr_last_traffic :: "rat option"
  tr_traffic_age :: "rat option"
  tr_traffic_samples :: int
  tr_reconnects :: int
  tr_last_error :: "pystr option"

definition age_of :: "'a::linordered_idom \<Rightarrow> 'a option \<Rightarrow> 'a option" where
  "age_of current last_seen = map_option (\<lambda>t. max 0 (current - t)) last_seen"

definition as_dict :: "rat \<Rightarrow> telemetry_state \<Rightarrow> telemetry_report" where
  "as_dict current_exact st =
     (let current = py_trunc current_exact;
          event_age = age_of current (ts_last_event st) in
      \<lparr>tr_requested = ts_requested st, tr_transport = ts_effective st, tr_socketio = ts_socketio st,
       tr_state =
         (if (case ts_last_error st of None \<Rightarrow> False | Some e \<Rightarrow> e \<noteq> []) then ErrorState
          else case event_age of
            None \<Rightarrow> StaleState
          | Some age \<Rightarrow> if ts_stale_after st < age then StaleState else HealthyState),
       tr_last_event = ts_last_event st, tr_last_reconciliation = ts_last_reconciliation st,
       tr_event_age = event_age,
       tr_reconciliation_age = age_of current (ts_last_reconciliation st),
       tr_event_count = ts_event_count st,
       tr_last_session_event = ts_last_session_event st,
       tr_session_event_age = age_of current_exact (ts_last_session_event st),
       tr_session_events = ts_session_events st,
       tr_last_traffic = ts_last_traffic st,
       tr_traffic_age = age_of current_exact (ts_last_traffic st),
       tr_traffic_samples = ts_traffic_samples st,
       tr_reconnects = ts_reconnects st,
       tr_last_error = ts_last_error st\<rparr>)"

section \<open>What a history of calls means\<close>

text \<open>The calls, and the reference the report is compared with: it reads the history of calls, the
  latest first.\<close>

datatype state_call =
    EventCall bool rat | SessionEventsCall int bool rat | TrafficCall int rat | ReconnectCall | ErrorCall pystr

definition call_state :: "state_call \<Rightarrow> telemetry_state \<Rightarrow> telemetry_state" where
  "call_state c =
     (case c of
        EventCall reconciliation now \<Rightarrow> mark_event reconciliation now
      | SessionEventsCall n reconciliation now \<Rightarrow> mark_session_events n reconciliation now
      | TrafficCall n now \<Rightarrow> mark_traffic_samples n now
      | ReconnectCall \<Rightarrow> mark_reconnect
      | ErrorCall code \<Rightarrow> mark_error code)"

fun observed_at :: "state_call \<Rightarrow> int option" where
  "observed_at (EventCall _ now) = Some (py_trunc now)"
| "observed_at (SessionEventsCall _ _ now) = Some (py_trunc now)"
| "observed_at _ = None"

fun observed_count :: "state_call \<Rightarrow> int" where
  "observed_count (EventCall _ _) = 1"
| "observed_count (SessionEventsCall n _ _) = max 0 n"
| "observed_count _ = 0"

fun last_observation :: "state_call list \<Rightarrow> int option" where
  "last_observation [] = None"
| "last_observation (c # cs) = (case observed_at c of Some t \<Rightarrow> Some t | None \<Rightarrow> last_observation cs)"

fun error_since :: "state_call list \<Rightarrow> bool" where
  "error_since [] = False"
| "error_since (c # cs) = (case c of ErrorCall _ \<Rightarrow> True | _ \<Rightarrow> observed_at c = None \<and> error_since cs)"

definition expected_health :: "int \<Rightarrow> int \<Rightarrow> state_call list \<Rightarrow> health" where
  "expected_health stale_after current latest_first =
     (if error_since latest_first then ErrorState
      else case last_observation latest_first of
        None \<Rightarrow> StaleState
      | Some t \<Rightarrow> if current - t \<le> stale_after then HealthyState else StaleState)"

lemma mark_error_nonempty: "ts_last_error (mark_error code st) \<noteq> Some []"
  by (simp add: mark_error_def Let_def)

text \<open>The state knows, of the calls so far, what the reference reads off them.\<close>

definition state_knows :: "telemetry_state \<Rightarrow> state_call list \<Rightarrow> bool" where
  "state_knows st cs \<longleftrightarrow>
     ts_last_event st = last_observation cs \<and> (ts_last_error st \<noteq> None \<longleftrightarrow> error_since cs) \<and> ts_last_error st \<noteq> Some [] \<and>
     ts_event_count st = sum_list (map observed_count cs) \<and> ts_session_events st = ts_event_count st"

lemma call_state_knows: "state_knows st cs \<Longrightarrow> state_knows (call_state c st) (c # cs)"
  by (cases c)
    (auto simp: state_knows_def call_state_def mark_event_def mark_session_events_def mark_traffic_samples_def
      mark_reconnect_def mark_error_def Let_def)

lemma call_state_stale: "ts_stale_after (call_state c st) = ts_stale_after st"
  by (cases c)
    (simp_all add: call_state_def mark_event_def mark_session_events_def mark_traffic_samples_def mark_reconnect_def
      mark_error_def Let_def)

lemma fold_calls_know: "state_knows st cs \<Longrightarrow> state_knows (fold call_state ds st) (rev ds @ cs)"
  by (induction ds arbitrary: st cs) (auto dest: call_state_knows)

lemma fold_calls_stale: "ts_stale_after (fold call_state ds st) = ts_stale_after st"
  by (induction ds arbitrary: st) (simp_all add: call_state_stale)

text \<open>the reported health is truthful after any calls: an error is reported exactly if one was
  marked since the last observed event, healthy exactly if there was none and the last event is at most
  the configured time old; traffic samples and reconnects do not hide either; and both event counters are
  the number of events that were announced.\<close>

theorem telemetry_health_is_truthful:
  "tr_state (as_dict now (fold call_state calls (new_state requested effective socketio stale_after))) =
     expected_health (max 1 stale_after) (py_trunc now) (rev calls) \<and>
   tr_event_count (as_dict now (fold call_state calls (new_state requested effective socketio stale_after))) =
     sum_list (map observed_count calls) \<and>
   tr_session_events (as_dict now (fold call_state calls (new_state requested effective socketio stale_after))) =
     sum_list (map observed_count calls)"
proof -
  let ?st = "fold call_state calls (new_state requested effective socketio stale_after)"
  have "state_knows (new_state requested effective socketio stale_after) []"
    by (simp add: state_knows_def new_state_def)
  then have knows: "state_knows ?st (rev calls)" using fold_calls_know by fastforce
  have stale: "ts_stale_after ?st = max 1 stale_after" by (simp add: fold_calls_stale new_state_def)
  have "sum_list (map observed_count (rev calls)) = sum_list (map observed_count calls)"
    by (simp add: rev_map [symmetric] sum_list_rev)
  then show ?thesis
    using knows stale
    by (auto simp: as_dict_def Let_def state_knows_def expected_health_def age_of_def split: option.splits)
qed

end
