(* ===== verification/Event_Safety.thy ===== *)
theory Event_Safety
  imports Prelude "HOL-Library.Sublist"
begin

text \<open>
  \<open>event_safety.py\<close>: the privacy boundary that every audit record and every outbound event
  passes. \<open>sanitize_payload\<close> drops credential-like keys and bounds everything, at every depth;
  \<open>sanitize_audit_details\<close> replaces free-text rationales by a flag; \<open>sanitize_integration_event\<close>
  builds the small fixed-vocabulary event that leaves the host. A dictionary key stands for the text
  \<open>str\<close> gives it, so a key may occur twice in an argument; \<open>list\<close>, \<open>tuple\<close> and \<open>set\<close> are sequences
  in iteration order. Python's recursion limit is not modelled.
\<close>

section \<open>Values\<close>

datatype pyany =
    ANone | ABool bool | AInt int | AFloat "rat option" pystr | AStr pystr
  | ASeq "pyany list" | AMap "(pystr \<times> pyany) list" | AOther pystr

definition truthy :: "pyany \<Rightarrow> bool" where
  "truthy v =
     (case v of
        ANone \<Rightarrow> False
      | ABool b \<Rightarrow> b
      | AInt i \<Rightarrow> i \<noteq> 0
      | AFloat x _ \<Rightarrow> x \<noteq> Some 0
      | AStr s \<Rightarrow> s \<noteq> []
      | ASeq vs \<Rightarrow> vs \<noteq> []
      | AMap d \<Rightarrow> d \<noteq> []
      | AOther _ \<Rightarrow> True)"

text \<open>The test \<open>part in text\<close>.\<close>

fun contains_text :: "pystr \<Rightarrow> pystr \<Rightarrow> bool" where
  "contains_text part [] \<longleftrightarrow> part = []"
| "contains_text part (c # cs) \<longleftrightarrow> take (length part) (c # cs) = part \<or> contains_text part cs"

section \<open>\<open>sanitize_payload\<close>\<close>

definition forbidden_key_parts :: "pystr list" where
  "forbidden_key_parts = map lit [''password'', ''passphrase'', ''private_key'', ''private-key'', ''secret'',
     ''token'', ''cookie'', ''credential'', ''authorization'', ''api_key'', ''api-key'', ''certificate'', ''privatekey'']"

definition max_string_length :: nat where "max_string_length = 2048"

definition normalized_key :: "pystr \<Rightarrow> pystr" where
  "normalized_key key = map (\<lambda>c. if c = 32 then 95 else c) (casefold (py_strip key))"

definition forbidden_key :: "pystr \<Rightarrow> bool" where
  "forbidden_key key \<longleftrightarrow> list_ex (\<lambda>part. contains_text part (normalized_key key)) forbidden_key_parts"

lemma size_in_take [termination_simp]: "x \<in> set (take n vs) \<Longrightarrow> size x < Suc (size_list size vs)"
  using in_set_takeD [of x n vs] size_list_estimation' [of x vs "size x" size] by simp

fun sanitize_payload :: "pyany \<Rightarrow> pyany" where
  "sanitize_payload (AMap d) =
     AMap (fold (\<lambda>(key, item) r. if forbidden_key key then r else dset (take 128 key) (sanitize_payload item) r) d [])"
| "sanitize_payload (ASeq vs) = ASeq (map sanitize_payload (take 256 vs))"
| "sanitize_payload (AStr s) = AStr (take max_string_length s)"
| "sanitize_payload (AOther s) = AStr (take max_string_length s)"
| "sanitize_payload v = v"

section \<open>\<open>sanitize_audit_details\<close>\<close>

definition rationale_key :: "pystr \<Rightarrow> bool" where
  "rationale_key name \<longleftrightarrow> contains_text (lit ''rationale'') (casefold name)"

definition recorded :: "pyany \<Rightarrow> bool" where
  "recorded nested = (case nested of AStr s \<Rightarrow> py_strip s \<noteq> [] | _ \<Rightarrow> truthy nested)"

fun redact :: "pyany \<Rightarrow> pyany" where
  "redact (AMap d) =
     AMap (fold (\<lambda>(key, nested) r.
       let name = take 128 key in
       if rationale_key name then dset (lit ''rationale_recorded'') (ABool (recorded nested)) r
       else dset name (redact nested) r) d [])"
| "redact (ASeq vs) = ASeq (map redact vs)"
| "redact v = v"

definition sanitize_audit_details :: "pyany \<Rightarrow> pyany" where
  "sanitize_audit_details v = redact (sanitize_payload v)"

section \<open>\<open>sanitize_integration_event\<close>\<close>

definition is_lower :: "nat \<Rightarrow> bool" where "is_lower c \<longleftrightarrow> 97 \<le> c \<and> c \<le> 122"

text \<open>The regular expression \<open>[a-z][a-z0-9]*(?:[._-][a-z0-9]+)*\<close>; \<open>need\<close>: a letter or digit must follow.\<close>

fun safe_event_tail :: "bool \<Rightarrow> pystr \<Rightarrow> bool" where
  "safe_event_tail need [] \<longleftrightarrow> \<not> need"
| "safe_event_tail need (c # cs) \<longleftrightarrow>
     (if is_lower c \<or> is_digit c then safe_event_tail False cs
      else \<not> need \<and> c \<in> {46, 95, 45} \<and> safe_event_tail True cs)"

definition safe_event_value :: "pystr \<Rightarrow> bool" where
  "safe_event_value s = (case s of [] \<Rightarrow> False | c # cs \<Rightarrow> is_lower c \<and> safe_event_tail False cs)"

definition safe_action_categories :: "pystr list" where
  "safe_action_categories = map lit [''admin-session'', ''alert'', ''api-token'', ''backup'', ''bootstrap'',
     ''break-glass'', ''bulk'', ''certificate'', ''checkpoint'', ''connection'', ''device'', ''login'', ''network'',
     ''policy_template'', ''profile'', ''report'', ''role'', ''security'', ''session'', ''user'']"

definition safe_statuses :: "pystr list" where
  "safe_statuses = map lit [''blocked'', ''completed'', ''denied'', ''failed'', ''failure'', ''operator_attested'',
     ''partial'', ''planned'', ''preview'', ''rejected'', ''running'', ''success'', ''unavailable'', ''unknown'',
     ''verified'', ''warning'']"

text \<open>\<open>int(text, 16)\<close>: spaces around, a sign, the prefix \<open>0x\<close> and single underscores are allowed.\<close>

definition hex_value :: "nat \<Rightarrow> int option" where
  "hex_value c =
     (if is_digit c then Some (int c - 48)
      else if is_lower c \<and> c \<le> 102 then Some (int c - 87)
      else if 65 \<le> c \<and> c \<le> 70 then Some (int c - 55)
      else None)"

fun hex_digits :: "int \<Rightarrow> bool \<Rightarrow> pystr \<Rightarrow> int option" where
  "hex_digits acc after_digit [] = (if after_digit then Some acc else None)"
| "hex_digits acc after_digit (c # cs) =
     (case hex_value c of
        Some d \<Rightarrow> hex_digits (acc * 16 + d) True cs
      | None \<Rightarrow> if c = 95 \<and> after_digit then hex_digits acc False cs else None)"

definition hex_body :: "pystr \<Rightarrow> int option" where
  "hex_body s =
     (if take 2 s = lit ''0x'' \<or> take 2 s = lit ''0X''
      then hex_digits 0 False (if take 1 (drop 2 s) = lit ''_'' then drop 3 s else drop 2 s)
      else hex_digits 0 False s)"

definition int_base_16 :: "pystr \<Rightarrow> int option" where
  "int_base_16 s =
     (let t = py_strip s in
      if take 1 t = lit ''+'' then hex_body (drop 1 t)
      else if take 1 t = lit ''-'' then map_option uminus (hex_body (drop 1 t))
      else hex_body t)"

text \<open>\<open>text.replace(old, '''')\<close> for a non-empty \<open>old\<close>, and \<open>text.strip("{}")\<close>.\<close>

function remove_text :: "pystr \<Rightarrow> pystr \<Rightarrow> pystr" where
  "remove_text old [] = []"
| "remove_text old (c # cs) =
     (if old \<noteq> [] \<and> take (length old) (c # cs) = old then remove_text old (drop (length old) (c # cs))
      else c # remove_text old cs)"
  by pat_completeness auto
termination
  by (relation "measure (\<lambda>(old, s). length s)") auto

definition strip_braces :: "pystr \<Rightarrow> pystr" where
  "strip_braces s =
     (let brace = (\<lambda>c. c = 123 \<or> c = 125) in rev (dropWhile brace (rev (dropWhile brace s))))"

text \<open>The integer of \<open>uuid.UUID(text)\<close>, \<open>None\<close> for the \<open>ValueError\<close>.\<close>

definition parse_uuid :: "pystr \<Rightarrow> int option" where
  "parse_uuid text =
     (let h = remove_text (lit ''-'') (strip_braces (remove_text (lit ''uuid:'') (remove_text (lit ''urn:'') text))) in
      if length h \<noteq> 32 then None
      else case int_base_16 h of
        None \<Rightarrow> None
      | Some i \<Rightarrow> if 0 \<le> i \<and> i < 2 ^ 128 then Some i else None)"

definition uuid_is_v4 :: "int \<Rightarrow> bool" where
  "uuid_is_v4 i \<longleftrightarrow> i div 2 ^ 62 mod 4 = 2 \<and> i div 2 ^ 76 mod 16 = 4"

definition hex_char :: "int \<Rightarrow> nat" where
  "hex_char d = (if d < 10 then nat (48 + d) else nat (87 + d))"

text \<open>\<open>"%032x" % i\<close>, and \<open>str\<close> of the UUID.\<close>

definition hex_32 :: "int \<Rightarrow> pystr" where
  "hex_32 i = map (\<lambda>k. hex_char (i div 16 ^ k mod 16)) (rev [0..<32])"

definition uuid_text :: "int \<Rightarrow> pystr" where
  "uuid_text i =
     (let h = hex_32 i; dash = lit ''-'' in
      take 8 h @ dash @ take 4 (drop 8 h) @ dash @ take 4 (drop 12 h) @ dash @ take 4 (drop 16 h) @ dash @ drop 20 h)"

definition event_id_items :: "pyany option \<Rightarrow> (pystr \<times> pyany) list" where
  "event_id_items v =
     (case v of
        Some (AStr s) \<Rightarrow>
          if py_strip s = [] then []
          else (case parse_uuid (py_strip s) of
                  Some i \<Rightarrow> if uuid_is_v4 i then [(lit ''event_id'', AStr (uuid_text i))] else []
                | None \<Rightarrow> [])
      | _ \<Rightarrow> [])"

definition action_items :: "pyany option \<Rightarrow> (pystr \<times> pyany) list" where
  "action_items v =
     (case v of
        Some (AStr s) \<Rightarrow>
          let category = takeWhile (\<lambda>c. c \<noteq> 46) s in
          if safe_event_value s \<and> category \<in> set safe_action_categories
          then [(lit ''action'', AStr category)] else []
      | _ \<Rightarrow> [])"

definition status_items :: "pyany option \<Rightarrow> (pystr \<times> pyany) list" where
  "status_items v =
     (case v of
        Some (AStr s) \<Rightarrow> if s \<in> set safe_statuses then [(lit ''status'', AStr s)] else []
      | _ \<Rightarrow> [])"

definition created_items :: "pyany option \<Rightarrow> (pystr \<times> pyany) list" where
  "created_items v =
     (case v of Some (AInt i) \<Rightarrow> if 0 \<le> i then [(lit ''created_at'', AInt i)] else [] | _ \<Rightarrow> [])"

definition event_header :: "(pystr \<times> pyany) list" where
  "event_header = [(lit ''schema_version'', AInt 2), (lit ''event'', AStr (lit ''audit''))]"

definition sanitize_integration_event :: "pyany \<Rightarrow> (pystr \<times> pyany) list" where
  "sanitize_integration_event v =
     (case v of
        AMap d \<Rightarrow>
          event_header @ event_id_items (dget d (lit ''event_id'')) @ action_items (dget d (lit ''action''))
            @ status_items (dget d (lit ''status'')) @ created_items (dget d (lit ''created_at''))
      | _ \<Rightarrow> event_header)"


section \<open>Keys\<close>

lemma prefix_take_iff: "prefix xs ys \<longleftrightarrow> take (length xs) ys = xs"
  by (auto simp: prefix_def) (metis append_take_drop_id)

lemma contains_text_sublist: "contains_text part s \<longleftrightarrow> sublist part s"
  by (induction s) (auto simp: prefix_take_iff sublist_Cons_right)

definition py_rstrip :: "pystr \<Rightarrow> pystr" where
  "py_rstrip s = rev (dropWhile py_space (rev s))"

lemma rstrip_split: "\<exists>t. s = py_rstrip s @ t \<and> list_all py_space t"
proof -
  have "rev s = takeWhile py_space (rev s) @ dropWhile py_space (rev s)" by simp
  then have "s = py_rstrip s @ rev (takeWhile py_space (rev s))"
    unfolding py_rstrip_def by (metis rev_append rev_rev_ident)
  moreover have "list_all py_space (rev (takeWhile py_space (rev s)))"
    by (auto simp: list_all_iff dest: set_takeWhileD)
  ultimately show ?thesis by blast
qed

lemma rstrip_spaces: "list_all py_space t \<Longrightarrow> py_rstrip (s @ t) = py_rstrip s"
  by (simp add: py_rstrip_def list_all_iff) (metis dropWhile_append2 set_rev)

lemma rstrip_idem: "py_rstrip (py_rstrip s) = py_rstrip s"
  using rstrip_split [of s] rstrip_spaces by metis

lemma rstrip_prefix: "prefix (py_rstrip s) s"
  using rstrip_split [of s] by (metis prefixI)

lemma rstrip_take: "prefix (py_rstrip (take m s)) (py_rstrip s)"
proof -
  obtain t where s: "s = py_rstrip s @ t" "list_all py_space t" using rstrip_split by blast
  show ?thesis
  proof (cases "m \<le> length (py_rstrip s)")
    case True
    then have "take m s = take m (py_rstrip s)" using s(1) by (metis append_Nil2 diff_is_0_eq take0 take_append)
    then have "prefix (take m s) (py_rstrip s)" by (simp add: take_is_prefix)
    with rstrip_prefix show ?thesis by (rule prefix_order.trans)
  next
    case False
    then have "take m s = py_rstrip s @ take (m - length (py_rstrip s)) t" using s(1) by (metis take_all nat_le_linear take_append)
    moreover have "list_all py_space (take (m - length (py_rstrip s)) t)"
      using s(2) by (auto simp: list_all_iff dest: in_set_takeD)
    ultimately show ?thesis by (simp add: rstrip_spaces rstrip_idem)
  qed
qed

lemma dropWhile_take: "dropWhile P (take n s) = take (n - length (takeWhile P s)) (dropWhile P s)"
  by (induction s arbitrary: n) (auto simp: take_Cons split: nat.split)

lemma strip_take: "prefix (py_strip (take n s)) (py_strip s)"
  unfolding py_strip_def py_rstrip_def [symmetric] dropWhile_take by (rule rstrip_take)

lemma normalized_key_take: "prefix (normalized_key (take n key)) (normalized_key key)"
  using strip_take [of n key] unfolding normalized_key_def casefold_def by (auto simp: prefix_def)

lemma forbidden_key_take: "forbidden_key (take n key) \<Longrightarrow> forbidden_key key"
  unfolding forbidden_key_def list_ex_iff contains_text_sublist
  using normalized_key_take [of n key] by (meson prefix_imp_sublist sublist_order.order_trans)

section \<open>What sanitized values look like\<close>

fun clean :: "pyany \<Rightarrow> bool" where
  "clean (AMap d) \<longleftrightarrow>
     distinct (dkeys d) \<and> list_all (\<lambda>(key, item). length key \<le> 128 \<and> \<not> forbidden_key key \<and> clean item) d"
| "clean (ASeq vs) \<longleftrightarrow> length vs \<le> 256 \<and> list_all clean vs"
| "clean (AStr s) \<longleftrightarrow> length s \<le> max_string_length"
| "clean (AOther s) \<longleftrightarrow> False"
| "clean v \<longleftrightarrow> True"

fun no_rationale :: "pyany \<Rightarrow> bool" where
  "no_rationale (AMap d) \<longleftrightarrow>
     list_all (\<lambda>(key, item). if rationale_key key then key = lit ''rationale_recorded'' \<and> item \<in> {ABool True, ABool False}
       else no_rationale item) d"
| "no_rationale (ASeq vs) \<longleftrightarrow> list_all no_rationale vs"
| "no_rationale v \<longleftrightarrow> True"

lemma fold_dset_induct:
  assumes "Q []" and "\<And>p r. p \<in> set d \<Longrightarrow> Q r \<Longrightarrow> Q (f p r)"
  shows "Q (fold f d [])"
proof -
  have "Q r \<Longrightarrow> Q (fold f xs r)" if "set xs \<subseteq> set d" for xs r
    using that by (induction xs arbitrary: r) (auto intro: assms(2))
  with assms(1) show ?thesis by blast
qed

lemma fold_dset_id:
  assumes "\<And>k v r. (k, v) \<in> set d \<Longrightarrow> f (k, v) r = dset k v r" and "distinct (dkeys d)"
  shows "fold f d [] = d"
proof -
  have "distinct (dkeys (r @ xs)) \<Longrightarrow> fold f xs r = r @ xs" if "set xs \<subseteq> set d" for xs r
    using that
  proof (induction xs arbitrary: r)
    case (Cons p xs)
    obtain k v where p: "p = (k, v)" by force
    with Cons.prems have "f p r = r @ [p]" using assms(1) [of k v r] by (simp add: dset_fresh)
    with Cons show ?case by simp
  qed simp
  from this [of d "[]"] assms(2) show ?thesis by simp
qed

lemma clean_dset:
  "clean (AMap r) \<Longrightarrow> length key \<le> 128 \<Longrightarrow> \<not> forbidden_key key \<Longrightarrow> clean item \<Longrightarrow> clean (AMap (dset key item r))"
  using set_dset_subset [of key item r] dict_ok_dset [of r key item]
  by (auto simp: list_all_iff dict_ok_def simp del: set_map)

lemma sanitize_payload_clean: "clean (sanitize_payload v)"
proof (induction v rule: sanitize_payload.induct)
  case (1 d)
  have "clean (AMap (fold (\<lambda>(key, item) r. if forbidden_key key then r else dset (take 128 key) (sanitize_payload item) r) d []))"
    (is "clean (AMap (fold ?f d []))")
  proof (rule fold_dset_induct [where Q = "\<lambda>r. clean (AMap r)"])
    fix p r assume p: "p \<in> set d" "clean (AMap r)"
    obtain key item where [simp]: "p = (key, item)" by force
    show "clean (AMap (?f p r))"
    proof (cases "forbidden_key key")
      case False
      then have "clean (sanitize_payload item)" using 1 [OF p(1)] by simp
      moreover have "\<not> forbidden_key (take 128 key)" using False forbidden_key_take by blast
      ultimately show ?thesis using False p(2) clean_dset [of r "take 128 key"] by simp
    qed (use p in simp)
  qed simp
  then show ?case by simp
next
  case (2 vs)
  then show ?case by (auto simp: list_all_iff)
qed simp_all

lemma sanitize_clean_id: "clean v \<Longrightarrow> sanitize_payload v = v"
proof (induction v rule: clean.induct)
  case (1 d)
  have "fold (\<lambda>(key, item) r. if forbidden_key key then r else dset (take 128 key) (sanitize_payload item) r) d [] = d"
    by (rule fold_dset_id) (use 1 in \<open>auto simp: list_all_iff\<close>)
  then show ?case by simp
next
  case (2 vs)
  then have "map sanitize_payload vs = vs" by (intro map_idI) (auto simp: list_all_iff)
  with 2 show ?case by simp
qed auto

lemma recorded_key: "rationale_key (lit ''rationale_recorded'')" "\<not> forbidden_key (lit ''rationale_recorded'')"
  "length (lit ''rationale_recorded'') \<le> 128"
  by (simp_all add: rationale_key_def forbidden_key_def forbidden_key_parts_def normalized_key_def py_strip_def
      py_space_def casefold_def fold_cp_def lit_def)

lemma redact_clean: "clean v \<Longrightarrow> clean (redact v)"
proof (induction v rule: redact.induct)
  case (1 d)
  have "clean (AMap (fold (\<lambda>(key, nested) r. let name = take 128 key in
       if rationale_key name then dset (lit ''rationale_recorded'') (ABool (recorded nested)) r
       else dset name (redact nested) r) d []))"
    (is "clean (AMap (fold ?f d []))")
  proof (rule fold_dset_induct [where Q = "\<lambda>r. clean (AMap r)"])
    fix p r assume p: "p \<in> set d" "clean (AMap r)"
    obtain key nested where [simp]: "p = (key, nested)" by force
    have "\<not> forbidden_key key" "length key \<le> 128" "clean nested"
      using 1(2) p(1) by (auto simp: list_all_iff)
    then show "clean (AMap (?f p r))"
      using p 1(1) [OF p(1), of key nested "take 128 key"] recorded_key
      by (auto intro!: clean_dset simp: Let_def simp del: clean.simps(1))
  qed simp
  then show ?case by simp
next
  case (2 vs)
  then show ?case by (auto simp: list_all_iff)
qed auto

lemma redact_no_rationale: "no_rationale (redact v)"
proof (induction v rule: redact.induct)
  case (1 d)
  have "no_rationale (AMap (fold (\<lambda>(key, nested) r. let name = take 128 key in
       if rationale_key name then dset (lit ''rationale_recorded'') (ABool (recorded nested)) r
       else dset name (redact nested) r) d []))"
    (is "no_rationale (AMap (fold ?f d []))")
  proof (rule fold_dset_induct [where Q = "\<lambda>r. no_rationale (AMap r)"])
    fix p r assume p: "p \<in> set d" "no_rationale (AMap r)"
    obtain key nested where [simp]: "p = (key, nested)" by force
    have *: "no_rationale (AMap (dset k v r))"
      if "if rationale_key k then k = lit ''rationale_recorded'' \<and> v \<in> {ABool True, ABool False} else no_rationale v" for k v
      using p(2) that set_dset_subset [of k v r] by (auto simp: list_all_iff split: if_splits)
    show "no_rationale (AMap (?f p r))"
      using 1 [OF p(1), of key nested "take 128 key"] recorded_key(1)
      by (cases "recorded nested") (auto intro!: * simp: Let_def simp del: no_rationale.simps(1))
  qed simp
  then show ?case by simp
next
  case (2 vs)
  then show ?case by (auto simp: list_all_iff)
qed auto

lemma redact_id: "clean v \<Longrightarrow> no_rationale v \<Longrightarrow> redact v = v"
proof (induction v rule: clean.induct)
  case (1 d)
  have "fold (\<lambda>(key, nested) r. let name = take 128 key in
       if rationale_key name then dset (lit ''rationale_recorded'') (ABool (recorded nested)) r
       else dset name (redact nested) r) d [] = d"
  proof (rule fold_dset_id)
    fix k v r assume kv: "(k, v) \<in> set d"
    then have "length k \<le> 128" "clean v" using 1(2) by (auto simp: list_all_iff)
    moreover have "if rationale_key k then k = lit ''rationale_recorded'' \<and> v \<in> {ABool True, ABool False} else no_rationale v"
      using 1(3) kv by (auto simp: list_all_iff)
    ultimately show "(case (k, v) of (key, nested) \<Rightarrow> \<lambda>r. let name = take 128 key in
       if rationale_key name then dset (lit ''rationale_recorded'') (ABool (recorded nested)) r
       else dset name (redact nested) r) r = dset k v r"
      using 1(1) [OF kv] by (auto simp: Let_def recorded_def truthy_def split: if_splits)
  qed (use 1 in simp)
  then show ?case by simp
next
  case (2 vs)
  then have "map redact vs = vs" by (intro map_idI) (auto simp: list_all_iff)
  then show ?case by simp
qed auto


section \<open>Remote events\<close>

text \<open>The text of a UUID reads back as the UUID.\<close>

lemma hex_value_char [simp]: "0 \<le> d \<Longrightarrow> d < 16 \<Longrightarrow> hex_value (hex_char d) = Some d"
  by (auto simp: hex_value_def hex_char_def is_digit_def is_lower_def)

lemma hex_char_range: "0 \<le> d \<Longrightarrow> d < 16 \<Longrightarrow> 48 \<le> hex_char d \<and> hex_char d \<le> 57 \<or> 97 \<le> hex_char d \<and> hex_char d \<le> 102"
  by (auto simp: hex_char_def)

lemma hex_digits_chars:
  "list_all (\<lambda>d. 0 \<le> d \<and> d < 16) ds \<Longrightarrow>
   hex_digits acc b (map hex_char ds) = (if ds = [] \<and> \<not> b then None else Some (foldl (\<lambda>a d. a * 16 + d) acc ds))"
  by (induction ds arbitrary: acc b) auto

lemma hex_expansion:
  "foldl (\<lambda>a d. a * 16 + d) acc (map (\<lambda>k. i div 16 ^ k mod 16) (rev [0..<n])) = acc * 16 ^ n + i mod (16 ^ n :: int)"
proof (induction n arbitrary: acc)
  case (Suc n)
  have "i mod (16 ^ n * 16) = 16 ^ n * (i div 16 ^ n mod 16) + i mod 16 ^ n" by (rule zmod_zmult2_eq) simp
  with Suc show ?case by (simp add: algebra_simps)
qed simp

lemma hex_32_chars: "hex_32 i = map hex_char (map (\<lambda>k. i div 16 ^ k mod 16) (rev [0..<32]))"
  by (simp add: hex_32_def comp_def)

lemma hex_32_digit: "c \<in> set (hex_32 i) \<Longrightarrow> 48 \<le> c \<and> c \<le> 57 \<or> 97 \<le> c \<and> c \<le> 102"
proof -
  assume "c \<in> set (hex_32 i)"
  then obtain k where "c = hex_char (i div 16 ^ k mod 16)" by (auto simp: hex_32_def)
  then show ?thesis using hex_char_range [of "i div 16 ^ k mod 16"] by simp
qed

lemma length_hex_32 [simp]: "length (hex_32 i) = 32"
  by (simp add: hex_32_def)

lemma remove_text_absent: "old \<noteq> [] \<Longrightarrow> last old \<notin> set s \<Longrightarrow> remove_text old s = s"
proof (induction s)
  case (Cons c cs)
  have "take (length old) (c # cs) \<noteq> old"
  proof
    assume "take (length old) (c # cs) = old"
    then have "last old \<in> set (c # cs)" using Cons.prems(1) by (metis in_set_takeD last_in_set)
    with Cons.prems(2) show False by contradiction
  qed
  with Cons show ?case by simp
qed simp

lemma remove_dashes: "remove_text [c] s = filter (\<lambda>x. x \<noteq> c) s"
  by (induction s) auto

lemma strip_braces_absent: "(\<And>c. c \<in> set s \<Longrightarrow> c < 123) \<Longrightarrow> strip_braces s = s"
proof -
  assume a: "\<And>c. c \<in> set s \<Longrightarrow> c < 123"
  have keep: "dropWhile (\<lambda>c. c = 123 \<or> c = 125) t = t" if "set t \<subseteq> set s" for t
    using that a by (cases t) fastforce+
  show ?thesis by (simp add: strip_braces_def keep)
qed

lemma uuid_text_chars: "c \<in> set (uuid_text i) \<Longrightarrow> c = 45 \<or> c \<in> set (hex_32 i)"
  unfolding uuid_text_def Let_def by (auto simp: lit_def dest: in_set_takeD in_set_dropD)

lemma uuid_text_hex: "filter (\<lambda>x. x \<noteq> 45) (uuid_text i) = hex_32 i"
proof -
  have f: "filter (\<lambda>x. x \<noteq> 45) t = t" if "set t \<subseteq> set (hex_32 i)" for t
    using that hex_32_digit [of _ i] by (force intro: filter_True)
  have h: "hex_32 i = take 8 (hex_32 i) @ take 4 (drop 8 (hex_32 i)) @ take 4 (drop 12 (hex_32 i))
      @ take 4 (drop 16 (hex_32 i)) @ drop 20 (hex_32 i)"
  proof -
    have step: "take 4 (drop n t) @ drop (n + 4) t = drop n t" for n and t :: pystr
      using append_take_drop_id [of 4 "drop n t"] by (simp add: add.commute)
    show ?thesis
      using step [of 16 "hex_32 i"] step [of 12 "hex_32 i"] step [of 8 "hex_32 i"] append_take_drop_id [of 8 "hex_32 i"]
      by simp
  qed
  have "filter (\<lambda>x. x \<noteq> 45) (uuid_text i) = take 8 (hex_32 i) @ take 4 (drop 8 (hex_32 i)) @ take 4 (drop 12 (hex_32 i))
      @ take 4 (drop 16 (hex_32 i)) @ drop 20 (hex_32 i)"
  proof -
    have part: "filter (\<lambda>x. x \<noteq> 45) (take n (drop k (hex_32 i))) = take n (drop k (hex_32 i))" for n k
      by (rule f) (meson in_set_dropD in_set_takeD subsetI)
    have ends: "filter (\<lambda>x. x \<noteq> 45) (take n (hex_32 i)) = take n (hex_32 i)"
      "filter (\<lambda>x. x \<noteq> 45) (drop n (hex_32 i)) = drop n (hex_32 i)" for n
      by (rule f, meson in_set_dropD in_set_takeD subsetI)+
    have dash: "filter (\<lambda>x. x \<noteq> 45) (lit ''-'') = []" by (simp add: lit_def)
    show ?thesis unfolding uuid_text_def Let_def filter_append part ends dash by simp
  qed
  with h show ?thesis by simp
qed

lemma parse_uuid_text: "0 \<le> i \<Longrightarrow> i < 2 ^ 128 \<Longrightarrow> parse_uuid (uuid_text i) = Some i"
proof -
  assume i: "0 \<le> i" "i < 2 ^ 128"
  have small: "c < 123 \<and> c \<noteq> 58" if "c \<in> set (uuid_text i)" for c
    using uuid_text_chars [OF that] hex_32_digit [of c i] by auto
  have colon: "(58::nat) \<notin> set (uuid_text i)" using small by blast
  have "remove_text (lit ''-'') (strip_braces (remove_text (lit ''uuid:'') (remove_text (lit ''urn:'') (uuid_text i)))) = hex_32 i"
    using small colon by (simp add: remove_text_absent strip_braces_absent remove_dashes uuid_text_hex lit_def)
  moreover have "int_base_16 (hex_32 i) = Some i"
  proof -
    obtain c cs where h: "hex_32 i = c # cs" using length_hex_32 [of i] by (cases "hex_32 i") auto
    have ne: "hex_32 i \<noteq> []" by (simp add: h)
    have nospace: "\<not> py_space x" if "x \<in> set (hex_32 i)" for x
      using hex_32_digit [OF that] by (auto simp: py_space_def)
    have "py_strip (hex_32 i) = hex_32 i"
      by (rule py_strip_no_space) (use ne nospace in \<open>simp_all add: last_in_set\<close>)
    moreover have "x \<noteq> 43 \<and> x \<noteq> 45 \<and> x \<noteq> 120 \<and> x \<noteq> 88" if "x \<in> set (hex_32 i)" for x
      using hex_32_digit [OF that] by auto
    moreover from this have "hex_body (hex_32 i) = hex_digits 0 False (hex_32 i)"
      unfolding hex_body_def lit_def
      by (cases cs) (auto simp: h)
    moreover have "hex_digits 0 False (hex_32 i) = Some i"
      unfolding hex_32_chars using i
      by (subst hex_digits_chars) (simp_all add: list_all_iff hex_expansion del: map_map)
    ultimately show ?thesis by (simp add: int_base_16_def h lit_def)
  qed
  ultimately show ?thesis using i by (simp add: parse_uuid_def)
qed

lemma uuid_text_stripped: "py_strip (uuid_text i) = uuid_text i" "uuid_text i \<noteq> []"
proof -
  have nospace: "\<not> py_space x" if "x \<in> set (uuid_text i)" for x
    using uuid_text_chars [OF that] hex_32_digit [of x i] by (auto simp: py_space_def)
  show ne: "uuid_text i \<noteq> []" by (simp add: uuid_text_def Let_def lit_def)
  show "py_strip (uuid_text i) = uuid_text i"
    by (rule py_strip_no_space) (use ne nospace in \<open>simp_all add: last_in_set\<close>)
qed

lemma categories_safe:
  "category \<in> set safe_action_categories \<Longrightarrow> safe_event_value category \<and> takeWhile (\<lambda>c. c \<noteq> 46) category = category"
  unfolding safe_action_categories_def
  by (auto simp: lit_def safe_event_value_def is_lower_def is_digit_def)


definition is_uuid_text :: "pystr \<Rightarrow> bool" where
  "is_uuid_text s = (case parse_uuid s of None \<Rightarrow> False | Some i \<Rightarrow> uuid_is_v4 i \<and> s = uuid_text i)"

text \<open>The items a remote event may have: none of them carries text of the operator.\<close>

definition classified :: "pystr \<times> pyany \<Rightarrow> bool" where
  "classified item \<longleftrightarrow>
     (case item of
        (key, AStr s) \<Rightarrow>
          item \<in> set event_header \<or> key = lit ''event_id'' \<and> is_uuid_text s \<or>
          key = lit ''action'' \<and> s \<in> set safe_action_categories \<or> key = lit ''status'' \<and> s \<in> set safe_statuses
      | (key, AInt i) \<Rightarrow> item \<in> set event_header \<or> key = lit ''created_at'' \<and> 0 \<le> i
      | _ \<Rightarrow> False)"

lemma parse_uuid_range: "parse_uuid s = Some i \<Longrightarrow> 0 \<le> i \<and> i < 2 ^ 128"
  by (auto simp: parse_uuid_def Let_def split: if_splits option.splits)

lemma event_id_items_cases:
  "event_id_items v = [] \<or>
   (\<exists>i. uuid_is_v4 i \<and> parse_uuid (uuid_text i) = Some i \<and> event_id_items v = [(lit ''event_id'', AStr (uuid_text i))])"
proof (cases "event_id_items v = []")
  case False
  then obtain s i where "v = Some (AStr s)" "parse_uuid (py_strip s) = Some i" "uuid_is_v4 i"
      "event_id_items v = [(lit ''event_id'', AStr (uuid_text i))]"
    by (auto simp: event_id_items_def split: option.splits pyany.splits if_splits)
  then show ?thesis using parse_uuid_range parse_uuid_text by blast
qed simp

lemma action_items_cases:
  "action_items v = [] \<or> (\<exists>s. s \<in> set safe_action_categories \<and> action_items v = [(lit ''action'', AStr s)])"
  by (auto simp: action_items_def Let_def split: option.splits pyany.splits)

lemma status_items_cases:
  "status_items v = [] \<or> (\<exists>s. s \<in> set safe_statuses \<and> status_items v = [(lit ''status'', AStr s)])"
  by (auto simp: status_items_def split: option.splits pyany.splits)

lemma created_items_cases:
  "created_items v = [] \<or> (\<exists>i. 0 \<le> i \<and> created_items v = [(lit ''created_at'', AInt i)])"
  by (auto simp: created_items_def split: option.splits pyany.splits)

lemma items_again:
  "uuid_is_v4 i \<Longrightarrow> parse_uuid (uuid_text i) = Some i \<Longrightarrow>
     event_id_items (Some (AStr (uuid_text i))) = [(lit ''event_id'', AStr (uuid_text i))]"
  "s \<in> set safe_action_categories \<Longrightarrow> action_items (Some (AStr s)) = [(lit ''action'', AStr s)]"
  "t \<in> set safe_statuses \<Longrightarrow> status_items (Some (AStr t)) = [(lit ''status'', AStr t)]"
  "event_id_items None = []" "action_items None = []" "status_items None = []" "created_items None = []"
  using categories_safe [of s]
  by (simp_all add: event_id_items_def action_items_def status_items_def created_items_def uuid_text_stripped Let_def del: takeWhile_eq_all_conv)

lemma rebuilt_event:
  assumes "e = [] \<or> (\<exists>i. uuid_is_v4 i \<and> parse_uuid (uuid_text i) = Some i \<and> e = [(lit ''event_id'', AStr (uuid_text i))])"
    and "a = [] \<or> (\<exists>s. s \<in> set safe_action_categories \<and> a = [(lit ''action'', AStr s)])"
    and "t = [] \<or> (\<exists>s. s \<in> set safe_statuses \<and> t = [(lit ''status'', AStr s)])"
    and "c = [] \<or> (\<exists>i. 0 \<le> i \<and> c = [(lit ''created_at'', AInt i)])"
  shows "sanitize_integration_event (AMap (event_header @ e @ a @ t @ c)) = event_header @ e @ a @ t @ c"
    and "list_all classified (event_header @ e @ a @ t @ c)"
proof -
  have d: "dget (event_header @ e @ a @ t @ c) (lit ''event_id'') = dget e (lit ''event_id'')"
    "dget (event_header @ e @ a @ t @ c) (lit ''action'') = dget a (lit ''action'')"
    "dget (event_header @ e @ a @ t @ c) (lit ''status'') = dget t (lit ''status'')"
    "dget (event_header @ e @ a @ t @ c) (lit ''created_at'') = dget c (lit ''created_at'')"
    using assms by (auto simp: event_header_def)
  have "event_id_items (dget e (lit ''event_id'')) = e" using assms(1) by (auto simp: items_again)
  moreover have "action_items (dget a (lit ''action'')) = a" using assms(2) by (auto simp: items_again)
  moreover have "status_items (dget t (lit ''status'')) = t" using assms(3) by (auto simp: items_again)
  moreover have "created_items (dget c (lit ''created_at'')) = c" using assms(4) by (auto simp: items_again created_items_def)
  ultimately show "sanitize_integration_event (AMap (event_header @ e @ a @ t @ c)) = event_header @ e @ a @ t @ c"
    unfolding sanitize_integration_event_def pyany.case d by simp
  have "list_all classified event_header" by (simp add: event_header_def classified_def)
  moreover have "list_all classified e" using assms(1) by (auto simp: classified_def is_uuid_text_def)
  moreover have "list_all classified a" "list_all classified t" "list_all classified c"
    using assms(2-4) by (auto simp: classified_def)
  ultimately show "list_all classified (event_header @ e @ a @ t @ c)" by simp
qed

lemma sanitize_event_shape:
  "\<exists>e a t c. sanitize_integration_event v = event_header @ e @ a @ t @ c \<and>
     (e = [] \<or> (\<exists>i. uuid_is_v4 i \<and> parse_uuid (uuid_text i) = Some i \<and> e = [(lit ''event_id'', AStr (uuid_text i))])) \<and>
     (a = [] \<or> (\<exists>s. s \<in> set safe_action_categories \<and> a = [(lit ''action'', AStr s)])) \<and>
     (t = [] \<or> (\<exists>s. s \<in> set safe_statuses \<and> t = [(lit ''status'', AStr s)])) \<and>
     (c = [] \<or> (\<exists>i. 0 \<le> i \<and> c = [(lit ''created_at'', AInt i)]))"
proof (cases v)
  case (AMap d)
  show ?thesis
    by (rule exI [of _ "event_id_items (dget d (lit ''event_id''))"], rule exI [of _ "action_items (dget d (lit ''action''))"],
        rule exI [of _ "status_items (dget d (lit ''status''))"], rule exI [of _ "created_items (dget d (lit ''created_at''))"])
      (simp add: AMap sanitize_integration_event_def event_id_items_cases action_items_cases status_items_cases created_items_cases)
qed (auto simp: sanitize_integration_event_def intro!: exI [of _ "[]"])

section \<open>Properties\<close>

text \<open>C25: what is recorded of an audited action holds no secrets, at any depth: no key suggests a
  credential, everything is bounded, and of a rationale only whether one was given is kept. Sanitizing a
  second time changes nothing, so records may be sanitized again on the way out.\<close>

theorem audit_details_hold_no_secrets:
  "clean (sanitize_payload v) \<and> sanitize_payload (sanitize_payload v) = sanitize_payload v \<and>
   clean (sanitize_audit_details v) \<and> no_rationale (sanitize_audit_details v) \<and>
   sanitize_audit_details (sanitize_audit_details v) = sanitize_audit_details v"
  unfolding sanitize_audit_details_def
  by (simp add: sanitize_payload_clean sanitize_clean_id redact_clean redact_no_rationale redact_id)

text \<open>C26: an event that leaves the host consists of fixed classifications only, whatever the audit
  record holds: the header, a version 4 UUID in canonical form, an action category and a status of the
  fixed vocabularies and a non-negative time; and building the event from such an event gives it back.\<close>

theorem remote_events_are_classified:
  "list_all classified (sanitize_integration_event v) \<and>
   sanitize_integration_event (AMap (sanitize_integration_event v)) = sanitize_integration_event v"
proof -
  obtain e a t c where shape: "sanitize_integration_event v = event_header @ e @ a @ t @ c"
    "e = [] \<or> (\<exists>i. uuid_is_v4 i \<and> parse_uuid (uuid_text i) = Some i \<and> e = [(lit ''event_id'', AStr (uuid_text i))])"
    "a = [] \<or> (\<exists>s. s \<in> set safe_action_categories \<and> a = [(lit ''action'', AStr s)])"
    "t = [] \<or> (\<exists>s. s \<in> set safe_statuses \<and> t = [(lit ''status'', AStr s)])"
    "c = [] \<or> (\<exists>i. 0 \<le> i \<and> c = [(lit ''created_at'', AInt i)])"
    using sanitize_event_shape [of v] by blast
  show ?thesis using rebuilt_event [OF shape(2-5)] unfolding shape(1) by blast
qed

end
