(* ===== verification/Telemetry_Runtime.thy ===== *)
theory Telemetry_Runtime
  imports Supervisor_Props Session_Props Broker_Gateway Telemetry_State Event_Safety
begin

text \<open>
  \<open>telemetry_runtime.py\<close>: the wiring of live telemetry. \<open>TelemetryRuntime\<close> gives the supervisor
  and the sampler their collaborators: leases on the credentials of an active dashboard session, the
  authorization callbacks of the session store, the broker, the gateway and the runtime state. Here they
  become the record \<open>runtime_deps\<close>, and the record \<open>runtime_world\<close> is the state they share.

  Everything the code does not decide is in \<open>surroundings\<close>: the clocks, RouterOS, the role resolver, the
  history callback and the steps of other threads, which happen before each call that leaves the
  supervisor. The \<open>n\<close>-th such call finds its values at index \<open>n\<close>. A call that would have to wait for a lock of
  the store happens when the lock is free. \<open>float_text\<close> is \<open>repr\<close> of a \<open>float\<close>.
\<close>

section \<open>The shared state\<close>

record runtime_world =
  rw_sessions :: session_store
  rw_broker :: broker
  rw_gateway :: gateway
  rw_state :: telemetry_state
  rw_stopped :: bool
  rw_slots :: nat
  rw_calls :: nat

record surroundings =
  su_float_text :: "rat \<Rightarrow> pystr"
  su_others :: "nat \<Rightarrow> runtime_world \<Rightarrow> runtime_world"
  su_reading :: "nat \<Rightarrow> nat \<Rightarrow> reading"
  su_resolver :: "(nat \<Rightarrow> account_session \<Rightarrow> resolver_answer) option"
  su_retry_starts :: bool
  su_factory :: "nat \<Rightarrow> failure + unit"
  su_connect :: "nat \<Rightarrow> pystr \<Rightarrow> pystr \<Rightarrow> failure + unit"
  su_close :: "nat \<Rightarrow> failure + unit"
  su_listen :: "nat \<Rightarrow> failure + listened"
  su_print_sessions :: "nat \<Rightarrow> failure + reply list"
  su_print_interfaces :: "nat \<Rightarrow> failure + reply list"
  su_history :: "(nat \<Rightarrow> session_payload list \<Rightarrow> bool) option"

definition live_role_seconds :: int where "live_role_seconds = 1"
definition max_live_role_refreshes :: nat where "max_live_role_refreshes = 4"

text \<open>\<open>requested_transport in {"binary", "auto"}\<close>, and the state that \<open>__init__\<close> builds.\<close>

definition transport_enabled :: "pystr \<Rightarrow> bool" where
  "transport_enabled requested \<longleftrightarrow> requested = lit ''binary'' \<or> requested = lit ''auto''"

definition new_runtime :: "session_store \<Rightarrow> pystr \<Rightarrow> runtime_world" where
  "new_runtime sessions requested =
     (let enabled = transport_enabled requested in
      \<lparr>rw_sessions = sessions, rw_broker = new_broker 4096 1024, rw_gateway = new_gateway 256 128 max_frame_bytes max_replay_bytes,
       rw_state = new_state requested (if enabled then lit ''socketio'' else lit ''sse'') enabled 10,
       rw_stopped = False, rw_slots = max_live_role_refreshes, rw_calls = 0\<rparr>)"

text \<open>A call that leaves the supervisor: other threads go first.\<close>

definition arrive :: "surroundings \<Rightarrow> runtime_world \<Rightarrow> runtime_world" where
  "arrive e w = (su_others e (rw_calls w) w)\<lparr>rw_calls := rw_calls w + 1\<rparr>"

abbreviation with_sessions :: "session_store \<Rightarrow> runtime_world \<Rightarrow> runtime_world" where
  "with_sessions st w \<equiv> w\<lparr>rw_sessions := st\<rparr>"

section \<open>Sessions and roles\<close>

definition store_failure :: "store_error \<Rightarrow> failure" where
  "store_failure e = OtherFailure (lit ''SessionStore is synchronous'')"

definition no_credentials :: failure where
  "no_credentials = OtherFailure (lit ''credentials_unavailable'')"

definition usable :: "account_session \<Rightarrow> bool" where
  "usable s \<longleftrightarrow> as_auth_method s = lit ''routeros'' \<and> as_username s \<noteq> [] \<and> as_password s \<noteq> []"

definition validated_session :: "surroundings \<Rightarrow> nat \<Rightarrow> pystr \<Rightarrow> session_store \<Rightarrow> session_store \<times> (failure + account_session)" where
  "validated_session e n sid st =
     (case (case su_resolver e of
              None \<Rightarrow> get False sid None False False True (su_reading e n 0) (su_reading e n 1) st
            | Some resolver \<Rightarrow>
                revalidate_role False sid (resolver n) None 5 (su_reading e n) (su_retry_starts e) st) of
        (st, Inl err) \<Rightarrow> (st, Inl (store_failure err))
      | (st, Inr None) \<Rightarrow> (st, Inl no_credentials)
      | (st, Inr (Some s)) \<Rightarrow> (st, if usable s then Inr s else Inl no_credentials))"

text \<open>\<open>_credential_lease\<close>: the first active RouterOS session that is still valid.\<close>

fun first_lease :: "surroundings \<Rightarrow> nat \<Rightarrow> account_session list \<Rightarrow> session_store \<Rightarrow> session_store \<times> (failure + provided)" where
  "first_lease e n [] st = (st, Inl no_credentials)"
| "first_lease e n (s # rest) st =
     (if as_auth_method s \<noteq> lit ''routeros'' then first_lease e n rest st
      else case validated_session e n (as_id s) st of
        (st, Inl _) \<Rightarrow> first_lease e n rest st
      | (st, Inr s) \<Rightarrow> (st, Inr (CredentialLease (as_username s) (as_password s) (as_authorization_ref s))))"

definition active_sessions :: "surroundings \<Rightarrow> nat \<Rightarrow> session_store \<Rightarrow> session_store \<times> (failure + account_session list)" where
  "active_sessions e n st =
     (case active False None (su_reading e n 10) st of
        (st, Inl err) \<Rightarrow> (st, Inl (store_failure err))
      | (st, Inr sessions) \<Rightarrow> (st, Inr sessions))"

definition credential_lease :: "surroundings \<Rightarrow> nat \<Rightarrow> session_store \<Rightarrow> session_store \<times> (failure + provided)" where
  "credential_lease e n =
     sbind (active_sessions e n) (\<lambda>sessions. first_lease e n sessions)"

text \<open>\<open>_credentials\<close> and \<open>_credentials_valid\<close>, the variants without a reference.\<close>

fun first_pair :: "surroundings \<Rightarrow> nat \<Rightarrow> account_session list \<Rightarrow> session_store \<Rightarrow> session_store \<times> (failure + pystr \<times> pystr)" where
  "first_pair e n [] st = (st, Inl no_credentials)"
| "first_pair e n (s # rest) st =
     (if as_auth_method s \<noteq> lit ''routeros'' then first_pair e n rest st
      else case validated_session e n (as_id s) st of
        (st, Inl _) \<Rightarrow> first_pair e n rest st
      | (st, Inr s) \<Rightarrow> (st, Inr (as_username s, as_password s)))"

definition credentials :: "surroundings \<Rightarrow> nat \<Rightarrow> session_store \<Rightarrow> session_store \<times> (failure + pystr \<times> pystr)" where
  "credentials e n = sbind (active_sessions e n) (\<lambda>sessions. first_pair e n sessions)"

fun some_pair_matches :: "surroundings \<Rightarrow> nat \<Rightarrow> pystr \<Rightarrow> pystr \<Rightarrow> account_session list \<Rightarrow> session_store
    \<Rightarrow> session_store \<times> (failure + bool)" where
  "some_pair_matches e n username password [] st = (st, Inr False)"
| "some_pair_matches e n username password (s # rest) st =
     (if as_auth_method s \<noteq> lit ''routeros'' then some_pair_matches e n username password rest st
      else case validated_session e n (as_id s) st of
        (st, Inl _) \<Rightarrow> some_pair_matches e n username password rest st
      | (st, Inr c) \<Rightarrow>
          if as_username c = username \<and> as_password c = password then (st, Inr True)
          else some_pair_matches e n username password rest st)"

definition credentials_valid :: "surroundings \<Rightarrow> nat \<Rightarrow> pystr \<Rightarrow> pystr \<Rightarrow> session_store \<Rightarrow> session_store \<times> (failure + bool)" where
  "credentials_valid e n username password =
     sbind (active_sessions e n) (\<lambda>sessions. some_pair_matches e n username password sessions)"

text \<open>\<open>_authorization_ref_valid\<close>: the session with the reference, revalidated, still has it.\<close>

definition authorization_ref_valid :: "surroundings \<Rightarrow> nat \<Rightarrow> pystr \<Rightarrow> session_store \<Rightarrow> session_store \<times> (failure + bool)" where
  "authorization_ref_valid e n ref st =
     (if ref = [] then (st, Inr False)
      else sbind (active_sessions e n) (\<lambda>sessions st.
        case List.find (\<lambda>s. as_auth_method s = lit ''routeros'' \<and> as_authorization_ref s = ref) sessions of
          None \<Rightarrow> (st, Inr False)
        | Some s \<Rightarrow>
            (case validated_session e n (as_id s) st of
               (st, Inl _) \<Rightarrow> (st, Inr False)
             | (st, Inr c) \<Rightarrow> (st, Inr (as_authorization_ref c = ref)))) st)"

subsection \<open>\<open>revalidate_session\<close> and the principals of live streams\<close>

definition revalidate_session :: "surroundings \<Rightarrow> pystr \<Rightarrow> bool \<Rightarrow> int \<Rightarrow> runtime_world
    \<Rightarrow> runtime_world \<times> (failure + account_session option)" where
  "revalidate_session e sid force interval w =
     (let n = rw_calls w;
          answer = (\<lambda>w p. case p of (st, Inl err) \<Rightarrow> (with_sessions st w, Inl (store_failure err))
                                   | (st, Inr s) \<Rightarrow> (with_sessions st w, Inr s)) in
      case su_resolver e of
        None \<Rightarrow> answer w (get False sid None False False True (su_reading e n 0) (su_reading e n 1) (rw_sessions w))
      | Some resolver \<Rightarrow>
          let is_live = interval \<le> live_role_seconds;
              refresh = (\<lambda>w. answer w (revalidate_role False sid (resolver n) None (if force then 0 else interval)
                (su_reading e n) (su_retry_starts e) (rw_sessions w)));
              limited = (\<lambda>w.
                if \<not> is_live then refresh w
                else if rw_slots w = 0 then (w, Inr None)
                else case refresh (w\<lparr>rw_slots := rw_slots w - 1\<rparr>) of
                  (w, r) \<Rightarrow> (w\<lparr>rw_slots := rw_slots w + 1\<rparr>, r)) in
          if is_live \<and> \<not> force then
            (case cached_role_session sid None interval False (su_reading e n 11) (rw_sessions w) of
               (st, fresh, cached) \<Rightarrow>
                 if fresh then (with_sessions st w, Inr cached) else limited (with_sessions st w))
          else limited w)"

definition session_facts :: "account_session \<Rightarrow> pystr \<times> pystr \<times> pystr list option" where
  "session_facts s = (as_auth_method s, as_role s, as_capabilities s)"

definition principal_for_session :: "surroundings \<Rightarrow> pystr \<Rightarrow> bool \<Rightarrow> runtime_world
    \<Rightarrow> runtime_world \<times> (failure + principal option)" where
  "principal_for_session e sid force =
     sbind (revalidate_session e sid force live_role_seconds) (\<lambda>s w.
       (w, Inr (map_option (\<lambda>s. principal_from_session (Some (session_facts s))) s)))"

definition cached_principal_for_session :: "surroundings \<Rightarrow> pystr \<Rightarrow> bool \<Rightarrow> runtime_world
    \<Rightarrow> runtime_world \<times> (failure + bool \<times> principal option)" where
  "cached_principal_for_session e sid lock_held w =
     (let n = rw_calls w in
      case su_resolver e of
        None \<Rightarrow>
          (case get False sid None False lock_held False (su_reading e n 0) (su_reading e n 1) (rw_sessions w) of
             (st, Inl err) \<Rightarrow> (with_sessions st w, Inl (store_failure err))
           | (st, Inr s) \<Rightarrow>
               (with_sessions st w, Inr (True, Some (principal_from_session (map_option session_facts s)))))
      | Some resolver \<Rightarrow>
          (case cached_role_session sid None live_role_seconds lock_held (su_reading e n 11) (rw_sessions w) of
             (st, fresh, s) \<Rightarrow>
               (with_sessions st w, Inr (fresh, map_option (\<lambda>s. principal_from_session (Some (session_facts s))) s))))"

section \<open>Publishing\<close>

fun counts_as_session_event :: "event_payload \<Rightarrow> bool" where
  "counts_as_session_event (SessionConnected _) = True"
| "counts_as_session_event (SessionUpdated _) = True"
| "counts_as_session_event (SessionDisconnected _) = True"
| "counts_as_session_event (SnapshotEvent _ _) = True"
| "counts_as_session_event _ = False"

fun snapshot_sessions :: "event_payload \<Rightarrow> session_payload list option" where
  "snapshot_sessions (SnapshotEvent ss _) = Some ss"
| "snapshot_sessions _ = None"

definition publish_events :: "surroundings \<Rightarrow> event list \<Rightarrow> runtime_world \<Rightarrow> runtime_world \<times> (failure + unit)" where
  "publish_events e events w =
     (if events = [] then (w, Inr ())
      else let n = rw_calls w in
        (case publish (rw_gateway w) (map (\<lambda>ev. (broker_event (su_float_text e) ev, mono_clock (su_reading e n 0))) events) of
           (g, Inl _) \<Rightarrow> (w\<lparr>rw_gateway := g\<rparr>, Inl (OtherFailure (lit ''gateway'')))
         | (g, Inr _) \<Rightarrow>
             let k = length (filter (\<lambda>ev. counts_as_session_event (ev_payload ev)) events);
                 reconciliation = list_ex (\<lambda>ev. snapshot_sessions (ev_payload ev) \<noteq> None) events in
             (w\<lparr>rw_gateway := g,
                rw_state := (if k = 0 then rw_state w
                  else mark_session_events (int k) reconciliation (wall (su_reading e n 1)) (rw_state w))\<rparr>, Inr ())))"

text \<open>\<open>_persist_session_snapshot\<close>: \<open>su_history\<close> says whether the callback returns.\<close>

definition persist_session_snapshot :: "surroundings \<Rightarrow> event list \<Rightarrow> runtime_world \<Rightarrow> runtime_world \<times> (failure + unit)" where
  "persist_session_snapshot e events w =
     (case su_history e of
        None \<Rightarrow> (w, Inr ())
      | Some saves \<Rightarrow>
          let snapshots = List.map_filter (\<lambda>ev. snapshot_sessions (ev_payload ev)) events;
              failed = list_ex (\<lambda>ss. \<not> saves (rw_calls w) ss) snapshots in
          (if failed then w\<lparr>rw_state := mark_error (lit ''session_history_unavailable'') (rw_state w)\<rparr> else w, Inr ()))"

section \<open>The collaborators of the supervisor and the sampler\<close>

definition on_store :: "surroundings \<Rightarrow> (nat \<Rightarrow> session_store \<Rightarrow> session_store \<times> 'r) \<Rightarrow> runtime_world \<Rightarrow> runtime_world \<times> 'r" where
  "on_store e m w =
     (let v = arrive e w in case m (rw_calls v) (rw_sessions v) of (st, r) \<Rightarrow> (with_sessions st v, r))"

definition dispatch_authorized :: "surroundings \<Rightarrow> pystr \<Rightarrow> nat \<Rightarrow> session_store \<Rightarrow> session_store \<times> (failure + bool)" where
  "dispatch_authorized e ref n st =
     (case dispatch_if_active ref (su_reading e n 12) st of (st, run) \<Rightarrow> (st, Inr run))"

definition apply_to_broker :: "surroundings \<Rightarrow> reply \<Rightarrow> rat option \<Rightarrow> runtime_world \<Rightarrow> runtime_world \<times> (failure + event list)" where
  "apply_to_broker e reply now w =
     (case apply_reply (rw_broker w) reply now (wall (su_reading e (rw_calls w) 2)) of
        (b, events) \<Rightarrow> (w\<lparr>rw_broker := b\<rparr>, Inr events))"

definition broker_answer :: "broker \<times> (broker_error + event list) \<Rightarrow> runtime_world \<Rightarrow> runtime_world \<times> (failure + event list)" where
  "broker_answer p w =
     (case p of
        (b, Inl _) \<Rightarrow> (w\<lparr>rw_broker := b\<rparr>, Inl (OtherFailure (lit ''snapshot exceeds limit'')))
      | (b, Inr events) \<Rightarrow> (w\<lparr>rw_broker := b\<rparr>, Inr events))"

definition session_snapshot_reader :: "surroundings \<Rightarrow> runtime_world \<Rightarrow> runtime_world \<times> (failure + record_dict list)" where
  "session_snapshot_reader e w =
     (let v = arrive e w in
      (v, case su_print_sessions e (rw_calls v) of
            Inl f \<Rightarrow> Inl f
          | Inr replies \<Rightarrow> Inr (map reply_record (filter (\<lambda>r. rp_kind r = lit ''re'') replies))))"

definition runtime_deps :: "surroundings \<Rightarrow> runtime_world deps" where
  "runtime_deps e =
     \<lparr>dp_factory = (\<lambda>w. let v = arrive e w in (v, su_factory e (rw_calls v))),
      dp_credentials = on_store e (credential_lease e),
      dp_connect = (\<lambda>username password w. let v = arrive e w in (v, su_connect e (rw_calls v) username password)),
      dp_close = (\<lambda>w. let v = arrive e w in (v, su_close e (rw_calls v))),
      dp_snapshot = Some (session_snapshot_reader e),
      dp_listen = (\<lambda>w. let v = arrive e w in (v, su_listen e (rw_calls v))),
      dp_interfaces = (\<lambda>w. let v = arrive e w in (v, su_print_interfaces e (rw_calls v))),
      dp_clock = (\<lambda>w. (w, wall (su_reading e (rw_calls w) 3))),
      dp_stopped = rw_stopped,
      dp_wait = (\<lambda>delay w. let v = arrive e w in (v, rw_stopped v)),
      dp_apply = apply_to_broker e,
      dp_reconcile = (\<lambda>records now w.
        broker_answer (reconcile (rw_broker w) records now (wall (su_reading e (rw_calls w) 4))) w),
      dp_reconcile_interfaces = (\<lambda>records w.
        broker_answer (reconcile_interfaces (rw_broker w) records None (wall (su_reading e (rw_calls w) 5))
          (mono_clock (su_reading e (rw_calls w) 5))) w),
      dp_on_sample = Some (\<lambda>w.
        (w\<lparr>rw_state := mark_traffic_samples 1 (wall (su_reading e (rw_calls w) 6)) (rw_state w)\<rparr>, Inr ())),
      dp_on_events = Some (publish_events e),
      dp_after_dispatch = Some (persist_session_snapshot e),
      dp_check = None,
      dp_ref_check = Some (\<lambda>ref. on_store e (\<lambda>n. authorization_ref_valid e n ref)),
      dp_ref_dispatch = Some (\<lambda>ref. on_store e (dispatch_authorized e ref))\<rparr>"

section \<open>The sampling worker\<close>

definition py_lower :: "pystr \<Rightarrow> pystr" where
  "py_lower s = map (\<lambda>c. if 65 \<le> c \<and> c \<le> 90 \<or> 192 \<le> c \<and> c \<le> 222 \<and> c \<noteq> 215 then c + 32 else c) s"

fun failure_text :: "failure \<Rightarrow> pystr" where
  "failure_text (SupervisorError t) = t"
| "failure_text (TimeoutFailure t) = t"
| "failure_text (OsFailure t) = t"
| "failure_text (OtherFailure t) = t"

definition runtime_error_code :: "failure \<Rightarrow> pystr" where
  "runtime_error_code e =
     (if contains_text (lit ''credential'') (py_lower (py_strip (failure_text e))) then lit ''credentials_unavailable''
      else case e of TimeoutFailure _ \<Rightarrow> lit ''timeout'' | _ \<Rightarrow> lit ''binary_api_unavailable'')"

text \<open>One round of \<open>_run_sampler\<close>, and the time it waits afterwards.\<close>

definition sampler_round :: "surroundings \<Rightarrow> rat \<Rightarrow> runtime_world \<Rightarrow> runtime_world \<times> rat" where
  "sampler_round e interval w =
     (let started_at = mono_clock (su_reading e (rw_calls w) 7) in
      case sample_once (runtime_deps e) w of
        (w, Inl err) \<Rightarrow> (w\<lparr>rw_state := mark_error (runtime_error_code err) (rw_state w)\<rparr>, max 5 interval)
      | (w, Inr _) \<Rightarrow> (w, max 0 (interval - max 0 (mono_clock (su_reading e (rw_calls w) 8) - started_at))))"

partial_function (option) run_sampler :: "surroundings \<Rightarrow> rat \<Rightarrow> runtime_world \<Rightarrow> runtime_world option" where
  "run_sampler e interval w =
     (if rw_stopped w then Some w
      else case sampler_round e interval w of
        (w, delay) \<Rightarrow> run_sampler e interval (arrive e w))"

section \<open>\<open>stop\<close> and \<open>status\<close>\<close>

definition stop_runtime :: "runtime_world \<Rightarrow> runtime_world" where
  "stop_runtime w = w\<lparr>rw_stopped := True\<rparr>"

definition runtime_status :: "rat \<Rightarrow> runtime_world supervisor option \<Rightarrow> runtime_world
    \<Rightarrow> telemetry_report \<times> gateway_metrics \<times> supervisor_health option" where
  "runtime_status now supervisor w =
     (as_dict now (rw_state w), metrics (rw_gateway w),
      map_option (health_of (br_sequence (rw_broker w))) supervisor)"

end
