(* ===== verification/Runtime_Props.thy ===== *)
theory Runtime_Props
  imports Telemetry_Runtime Session_Runs
begin

text \<open>
  What the telemetry runtime guarantees of the credentials and authorizations it lends: a lease is
  always that of a stored RouterOS session (\<open>leases_come_from_stored_sessions\<close>), and once no session has the
  reference of a stream any more, the stream ends with its next reply and nothing is published on its behalf
  (\<open>revoked_streams_publish_nothing\<close>). The runtime interprets the locale \<open>revoked_lease\<close> of the supervisor.
\<close>

section \<open>What revalidation answers is stored\<close>

lemma apply_role_stored:
  assumes "apply_role sid s resolved r st = (st', Some s')" and "store_ok st" and "dget (st_sessions st) sid = Some s"
  shows "dget (st_sessions st') sid = Some s'"
proof -
  have "as_id s = sid" using assms(2,3) by (simp add: store_ok_def)
  with assms(1,3) show ?thesis
    by (auto simp: apply_role_def Let_def replace_session_def dget_dset split: if_splits)
qed

lemma revalidate_body_stored:
  assumes "revalidate_body sid resolver now interval clk st = (st', Some s, denied)" and ok: "store_ok st"
  shows "dget (st_sessions st') sid = Some s"
proof -
  obtain a x where a: "get_held sid now (clk 3) (clk 4) st = (a, x)" by fastforce
  obtain b y where b: "get_held sid now (clk 6) (clk 7) a = (b, y)" by fastforce
  note as = get_held_spec [OF a ok]
  have oka: "store_ok a" using as ok moves_store_ok by blast
  note bs = get_held_spec [OF b oka]
  have okb: "store_ok b" using bs oka moves_store_ok by blast
  have applied: "dget (st_sessions c) sid = Some z" if "y = Some t" "apply_role sid t resolved (clk 8) b = (c, Some z)"
    for t resolved c z
    using apply_role_stored [OF that(2) okb] bs that(1) by blast
  show ?thesis
    using assms(1) a b as applied
    by (auto simp: revalidate_body_def split: option.splits if_splits resolver_answer.splits prod.splits)
qed

lemma revalidate_role_stored:
  assumes "revalidate_role in_loop sid resolver now interval clk started st = (st', Inr (Some s))" and ok: "store_ok st"
  shows "dget (st_sessions st') sid = Some s"
proof -
  obtain a x where a: "get in_loop sid now False False True (clk 0) (clk 1) st = (a, x)" by fastforce
  note as = get_spec [OF a ok]
  have oka: "store_ok a" using as ok moves_store_ok by blast
  obtain t where x: "x = Inr (Some t)"
    using assms(1) a by (cases x) (auto simp: revalidate_role_def split: option.splits)
  let ?b = "add_lock_key sid a"
  have t: "dget (st_sessions a) sid = Some t" using as x by blast
  have mb: "moves a ?b" by (rule moves_add_present [OF t])
  obtain c y where c: "acquire_sync_lock in_loop True (CheckLock sid) ?b = (c, y)" by fastforce
  have mc: "moves a c" using acquire_sync_lock_core [OF c] mb by (blast intro: moves_then_core)
  have okc: "store_ok c" by (rule moves_store_ok [OF mc oka])
  have released: "st_sessions (release_locks ls d) = st_sessions d" for ls d by (simp add: release_locks_def)
  show ?thesis
    using assms(1) a x c t revalidate_body_stored [OF _ okc]
    by (auto simp: revalidate_role_def Let_def add_lock_key_def released split: if_splits sum.splits prod.splits)
qed

lemma validated_session_spec:
  assumes "validated_session e n sid st = (st', r)" and ok: "store_ok st"
  shows "moves st st'" and "r = Inr s \<Longrightarrow> dget (st_sessions st') sid = Some s \<and> usable s"
proof -
  let ?get = "get False sid None False False True (su_reading e n 0) (su_reading e n 1) st"
  let ?answer = "case su_resolver e of None \<Rightarrow> ?get
    | Some resolver \<Rightarrow> revalidate_role False sid (resolver n) None 5 (su_reading e n) (su_retry_starts e) st"
  obtain u q where a: "?answer = (u, q)" by force
  have u: "moves st u \<and> (\<forall>t. q = Inr (Some t) \<longrightarrow> dget (st_sessions u) sid = Some t)"
  proof (cases "su_resolver e")
    case None
    with a have "?get = (u, q)" by simp
    from get_spec [OF this ok] show ?thesis by blast
  next
    case (Some resolver)
    with a have "revalidate_role False sid (resolver n) None 5 (su_reading e n) (su_retry_starts e) st = (u, q)" by simp
    with revalidate_role_moves [OF this ok] revalidate_role_stored [OF _ ok] show ?thesis by blast
  qed
  then show "moves st st'"
    using assms(1) a by (auto simp: validated_session_def split: sum.splits option.splits if_splits)
  show "r = Inr s \<Longrightarrow> dget (st_sessions st') sid = Some s \<and> usable s"
    using assms(1) a u by (auto simp: validated_session_def split: sum.splits option.splits if_splits)
qed

lemma first_lease_spec:
  "first_lease e n sessions st = (st', r) \<Longrightarrow> store_ok st \<Longrightarrow>
   moves st st' \<and> (\<forall>p. r = Inr p \<longrightarrow> (\<exists>sid s. dget (st_sessions st') sid = Some s \<and> usable s \<and>
     p = CredentialLease (as_username s) (as_password s) (as_authorization_ref s)))"
proof (induction sessions arbitrary: st)
  case (Cons x rest)
  show ?case
  proof (cases "as_auth_method x = lit ''routeros''")
    case False
    then have "first_lease e n rest st = (st', r)" using Cons.prems(1) by simp
    then show ?thesis using Cons.IH Cons.prems(2) by blast
  next
    case True
    obtain u q where v: "validated_session e n (as_id x) st = (u, q)" by force
    note spec = validated_session_spec [OF v Cons.prems(2)]
    show ?thesis
    proof (cases q)
      case (Inl err)
      with Cons.IH [of u] Cons.prems v True spec(1) show ?thesis
        by (auto intro: moves_trans moves_store_ok)
    next
      case (Inr s)
      with Cons.prems v True spec show ?thesis by auto
    qed
  qed
qed auto

lemma active_sessions_moves: "active_sessions e n st = (st', r) \<Longrightarrow> moves st st'"
  by (auto simp: active_sessions_def split: prod.splits sum.splits dest: active_moves)

lemma credential_lease_spec:
  assumes "credential_lease e n st = (st', r)" and "store_ok st"
  shows "moves st st' \<and> (\<forall>p. r = Inr p \<longrightarrow> (\<exists>sid s. dget (st_sessions st') sid = Some s \<and> usable s \<and>
     p = CredentialLease (as_username s) (as_password s) (as_authorization_ref s)))"
proof -
  obtain u q where a: "active_sessions e n st = (u, q)" by force
  have m: "moves st u" by (rule active_sessions_moves [OF a])
  have ok: "store_ok u" by (rule moves_store_ok [OF m assms(2)])
  show ?thesis
  proof (cases q)
    case (Inl err)
    with assms(1) a m show ?thesis by (auto simp: credential_lease_def sbind_def)
  next
    case (Inr sessions)
    then have "first_lease e n sessions u = (st', r)" using assms(1) a by (simp add: credential_lease_def sbind_def)
    from first_lease_spec [OF this ok] m show ?thesis by (blast intro: moves_trans)
  qed
qed

section \<open>Revoked references\<close>

definition gone :: "pystr \<Rightarrow> session_store \<Rightarrow> bool" where
  "gone ref st \<longleftrightarrow> (\<forall>sid s. dget (st_sessions st) sid = Some s \<longrightarrow> as_authorization_ref s \<noteq> ref)"

lemma goneD: "gone ref st \<Longrightarrow> dget (st_sessions st) sid = Some s \<Longrightarrow> as_authorization_ref s \<noteq> ref"
  unfolding gone_def by blast

lemma aged_ref: "aged s s' \<Longrightarrow> as_authorization_ref s' = as_authorization_ref s"
  by (auto simp: aged_def)

lemma moves_gone: "moves st st' \<Longrightarrow> gone ref st \<Longrightarrow> gone ref st'"
  unfolding gone_def by (metis moves_session aged_ref)

text \<open>Other threads may do anything to the sessions but bring the reference back, and publish nothing
  themselves.\<close>

definition unpublished :: "runtime_world \<Rightarrow> broker \<times> gateway" where
  "unpublished w = (rw_broker w, rw_gateway w)"

definition quiet :: "surroundings \<Rightarrow> pystr \<Rightarrow> bool" where
  "quiet e ref \<longleftrightarrow> (\<forall>n w. store_ok (rw_sessions w) \<and> gone ref (rw_sessions w) \<longrightarrow>
     store_ok (rw_sessions (su_others e n w)) \<and> gone ref (rw_sessions (su_others e n w)) \<and>
     unpublished (su_others e n w) = unpublished w)"

definition dead_ref :: "surroundings \<Rightarrow> pystr \<Rightarrow> runtime_world \<Rightarrow> bool" where
  "dead_ref e ref w \<longleftrightarrow> quiet e ref \<and> store_ok (rw_sessions w) \<and> gone ref (rw_sessions w)"

lemma arrive_dead: "dead_ref e ref w \<Longrightarrow> dead_ref e ref (arrive e w) \<and> unpublished (arrive e w) = unpublished w"
  unfolding dead_ref_def quiet_def by (auto simp: arrive_def unpublished_def)

lemma on_store_dead:
  assumes "dead_ref e ref w" and "on_store e m w = (w', r)"
    and "\<And>n st st' q. store_ok st \<Longrightarrow> gone ref st \<Longrightarrow> m n st = (st', q) \<Longrightarrow> moves st st' \<and> P q"
  shows "dead_ref e ref w' \<and> unpublished w' = unpublished w \<and> P r"
proof -
  have v: "dead_ref e ref (arrive e w)" "unpublished (arrive e w) = unpublished w" using arrive_dead [OF assms(1)] by simp_all
  obtain st q where m: "m (rw_calls (arrive e w)) (rw_sessions (arrive e w)) = (st, q)" by force
  have "moves (rw_sessions (arrive e w)) st" "P q" using assms(3) [OF _ _ m] v(1) by (auto simp: dead_ref_def)
  with v m assms(2) show ?thesis
    by (auto simp: on_store_def Let_def dead_ref_def unpublished_def intro: moves_gone moves_store_ok)
qed

lemma find_gone:
  assumes "store_ok st" and "gone ref st"
  shows "List.find (\<lambda>(k, s). as_auth_method s = lit ''routeros'' \<and> as_authorization_ref s = ref) (st_sessions st) = None"
proof -
  have "as_authorization_ref s \<noteq> ref" if "(k, s) \<in> set (st_sessions st)" for k s
  proof -
    have "dget (st_sessions st) k = Some s" using that assms(1) dget_in_iff by (fastforce simp: store_ok_def)
    then show ?thesis by (rule goneD [OF assms(2)])
  qed
  then show ?thesis by (auto simp: find_None_iff)
qed

lemma dispatch_gone:
  "store_ok st \<Longrightarrow> gone ref st \<Longrightarrow> dispatch_authorized e ref n st = (st', q) \<Longrightarrow> moves st st' \<and> q \<noteq> Inr True"
  using find_gone [of st ref] moves_refl
  by (auto simp: dispatch_authorized_def dispatch_if_active_def split: if_splits)

lemma ref_valid_gone:
  assumes "store_ok st" and "gone ref st" and "authorization_ref_valid e n ref st = (st', q)"
  shows "moves st st' \<and> q \<noteq> Inr True"
proof (cases "ref = []")
  case True
  with assms(3) show ?thesis by (auto simp: authorization_ref_valid_def)
next
  case False
  obtain u p where a: "active_sessions e n st = (u, p)" by force
  have m: "moves st u" by (rule active_sessions_moves [OF a])
  show ?thesis
  proof (cases p)
    case (Inl err)
    with assms(3) False a m show ?thesis by (auto simp: authorization_ref_valid_def sbind_def)
  next
    case (Inr sessions)
    have "as_authorization_ref s \<noteq> ref" if s: "s \<in> set sessions" for s
    proof -
      obtain k where "(k, s) \<in> set (st_sessions u)"
      proof -
        have "sessions = map snd (filter (\<lambda>(k, s). \<not> session_is_invalidating u k s) (st_sessions u))"
          using a Inr by (auto simp: active_sessions_def active_def split: prod.splits sum.splits)
        with s have "s \<in> snd ` set (st_sessions u)" by force
        then show ?thesis using that by force
      qed
      moreover have "dict_ok (st_sessions u)" using moves_store_ok [OF m assms(1)] by (simp add: store_ok_def)
      ultimately have "dget (st_sessions u) k = Some s" by (simp add: dget_in_iff)
      then show ?thesis by (rule goneD [OF moves_gone [OF m assms(2)]])
    qed
    then have "List.find (\<lambda>s. as_auth_method s = lit ''routeros'' \<and> as_authorization_ref s = ref) sessions = None"
      by (auto simp: find_None_iff)
    with assms(3) False a m Inr show ?thesis by (auto simp: authorization_ref_valid_def sbind_def)
  qed
qed

interpretation runtime_lease: revoked_lease "runtime_deps e" ref "dead_ref e ref" unpublished
    "\<lambda>ref. on_store e (\<lambda>n. authorization_ref_valid e n ref)" "\<lambda>ref. on_store e (dispatch_authorized e ref)"
  for e ref
proof
  show "dead_ref e ref w1 \<and> unpublished w1 = unpublished w"
    if "dead_ref e ref w" "dp_listen (runtime_deps e) w = (w1, listened)" for w w1 listened
    using that arrive_dead by (auto simp: runtime_deps_def Let_def)
  show "dead_ref e ref w2 \<and> unpublished w2 = unpublished w"
    if "dead_ref e ref w" "dp_interfaces (runtime_deps e) w = (w2, replies)" for w w2 replies
    using that arrive_dead by (auto simp: runtime_deps_def Let_def)
  show "dead_ref e ref w3 \<and> unpublished w3 = unpublished w \<and> valid \<noteq> Inr True"
    if "dead_ref e ref w" "on_store e (\<lambda>n. authorization_ref_valid e n ref) w = (w3, valid)" for w w3 valid
    by (rule on_store_dead [OF that]) (rule ref_valid_gone)
  show "dead_ref e ref w4 \<and> unpublished w4 = unpublished w \<and> run \<noteq> Inr True"
    if "dead_ref e ref w" "on_store e (dispatch_authorized e ref) w = (w4, run)" for w w4 run
    by (rule on_store_dead [OF that]) (rule dispatch_gone)
qed (simp_all add: runtime_deps_def)

section \<open>Properties\<close>

text \<open>RouterOS credentials are lent out of stored sessions only: whatever lease the runtime hands to
  a worker, right after the call the store holds a RouterOS session with this name, this non-empty password and
  this reference.\<close>

theorem leases_come_from_stored_sessions:
  assumes "credential_lease e n st = (st', Inr lease)" and "store_ok st"
  shows "\<exists>sid s. dget (st_sessions st') sid = Some s \<and> as_auth_method s = lit ''routeros'' \<and> as_password s \<noteq> [] \<and>
    lease = CredentialLease (as_username s) (as_password s) (as_authorization_ref s)"
  using credential_lease_spec [OF assms] by (auto simp: usable_def)

text \<open>Surroundings in which nothing else happens, and a reply is waiting on the stream.\<close>

definition demo_surroundings :: surroundings where
  "demo_surroundings =
     \<lparr>su_float_text = (\<lambda>x. []), su_others = (\<lambda>n w. w), su_reading = (\<lambda>n k. demo_clock 5), su_resolver = None,
      su_retry_starts = True, su_factory = (\<lambda>n. Inr ()), su_connect = (\<lambda>n u p. Inr ()), su_close = (\<lambda>n. Inr ()),
      su_listen = (\<lambda>n. Inr (StreamReply \<lparr>rp_kind = lit ''re'', rp_attrs = [(lit ''.id'', [7])]\<rparr>)),
      su_print_sessions = (\<lambda>n. Inr []), su_print_interfaces = (\<lambda>n. Inr []), su_history = None\<rparr>"

lemma demo_stored_ok: "store_ok demo_store" "store_ok demo_empty"
  using run_ok_stores(1) [OF store_run_ok [OF demo_store_run]]
    run_ok_stores(1) [OF store_run_ok [OF start [OF demo_new]]] by simp_all

theorem leases_come_from_stored_sessions_witness:
  "\<exists>st'. credential_lease demo_surroundings 0 demo_store = (st', Inr (CredentialLease demo_user [9] [14])) \<and>
     (\<exists>sid s. dget (st_sessions st') sid = Some s \<and> as_username s = demo_user \<and> as_password s \<noteq> [])"
proof -
  have g: "get False [11] None False False True (demo_clock 5) (demo_clock 5) demo_store = (demo_store, Inr (Some demo_login))"
    by (simp add: get_def get_decide_def demo_stored session_is_invalidating_def is_expired_def demo_clock_def current_of_def)
       (simp add: demo_store_def install_session_def demo_empty_def demo_login_def new_session_def demo_tokens_def)
  have l: "as_password demo_login = [9]" "as_authorization_ref demo_login = [14]"
    by (simp_all add: demo_login_def new_session_def demo_tokens_def)
  have a: "\<exists>st. active False None (demo_clock 5) demo_store = (st, Inr [demo_login]) \<and> st = demo_store"
    by (simp add: active_def purge_def expired_ids_def bulk_removal_def acquire_check_locks_def is_expired_def
        mark_invalidating_def clear_invalidating_def drop_all_def still_there_def take_locks_def release_locks_def
        demo_store_def install_session_def demo_empty_def demo_login_def new_session_def demo_tokens_def demo_clock_def
        current_of_def session_is_invalidating_def dget_or_def Let_def)
  have v: "validated_session demo_surroundings 0 [11] demo_store = (demo_store, Inr demo_login)"
    using g l demo_stored demo_user_facts by (simp add: validated_session_def demo_surroundings_def usable_def)
  have "credential_lease demo_surroundings 0 demo_store = (demo_store, Inr (CredentialLease demo_user [9] [14]))"
    using a v l demo_stored
    by (auto simp: credential_lease_def sbind_def active_sessions_def demo_surroundings_def)
  moreover from leases_come_from_stored_sessions [OF this demo_stored_ok(1)]
  have "\<exists>sid s. dget (st_sessions demo_store) sid = Some s \<and> as_username s = demo_user \<and> as_password s \<noteq> []" by fastforce
  ultimately show ?thesis by blast
qed

text \<open>C5: revocation stops the stream. Once no stored session has the reference of a stream, and
  nothing brings the reference back, the listen loop of the stream returns (with the next reply at the
  latest) and has changed neither the broker nor the gateway; a pending sample of the interface
  sampler is refused in the same way.\<close>

theorem revoked_streams_publish_nothing:
  assumes "quiet e ref" and "store_ok (rw_sessions (sv_world s))" and "gone ref (rw_sessions (sv_world s))"
  shows "(\<exists>s' r. listen_loop (runtime_deps e) (ByRef ref) s = Some (s', r) \<and>
      rw_broker (sv_world s') = rw_broker (sv_world s) \<and> rw_gateway (sv_world s') = rw_gateway (sv_world s) \<and>
      sv_events s' = sv_events s) \<and>
    (\<exists>w f. sample_authorized (runtime_deps e) (ByRef ref) records (sv_world s) = (w, Inl f) \<and>
      rw_broker w = rw_broker (sv_world s) \<and> rw_gateway w = rw_gateway (sv_world s))"
proof -
  have dead: "dead_ref e ref (sv_world s)" using assms by (simp add: dead_ref_def)
  obtain w r where w: "sample_authorized (runtime_deps e) (ByRef ref) records (sv_world s) = (w, r)" by force
  show ?thesis
    using runtime_lease.listen_loop_dead [OF dead] runtime_lease.sample_dead [OF dead w] w
    by (auto simp: unpublished_def)
qed


definition demo_stream :: "runtime_world supervisor" where
  "demo_stream = new_supervisor default_config (new_runtime demo_empty (lit ''binary''))"

theorem revoked_streams_publish_nothing_witness:
  "\<exists>s' r. listen_loop (runtime_deps demo_surroundings) (ByRef [14]) demo_stream = Some (s', r) \<and>
     rw_broker (sv_world s') = rw_broker (sv_world demo_stream)"
proof -
  have w: "rw_sessions (sv_world demo_stream) = demo_empty"
    by (simp add: demo_stream_def new_supervisor_def new_runtime_def Let_def)
  have "quiet demo_surroundings [14]" by (simp add: quiet_def demo_surroundings_def)
  moreover have "gone [14] demo_empty" by (simp add: gone_def demo_empty_def)
  ultimately show ?thesis
    using revoked_streams_publish_nothing [of demo_surroundings "[14]" demo_stream "[]"] demo_stored_ok(2) w by auto
qed

end
