(* ===== verification/Canary.thy ===== *)
theory Canary
  imports Event_Safety "HOL-Library.List_Lexorder"
begin

text \<open>
  \<open>telemetry_canary.py\<close>: the read-only comparison of the Binary API snapshot with the REST
  snapshot (\<open>compare_snapshots\<close>), the counter of consecutive healthy comparisons (\<open>TelemetryCanary\<close>)
  and the offline evaluation of recorded samples (\<open>evaluate\<close>). Strings are compared by code points,
  as Python does. \<open>loads\<close> is \<open>json.loads\<close> and \<open>container_text\<close> is \<open>str\<close> of a list or a
  dictionary: both are arguments. The texts of exceptions and \<open>main\<close> are not modelled.
\<close>

section \<open>Policy and comparison\<close>

datatype canary_error = ValueError | TypeError | AttributeError | OverflowError

record canary_policy =
  cp_max_age :: rat
  cp_max_missing :: int
  cp_max_extra :: int
  cp_required :: int

definition new_policy :: "rat \<Rightarrow> int \<Rightarrow> int \<Rightarrow> int \<Rightarrow> canary_error + canary_policy" where
  "new_policy max_age max_missing max_extra required =
     (if max_age \<le> 0 then Inl ValueError
      else if max_missing < 0 \<or> max_extra < 0 then Inl ValueError
      else if required \<le> 0 then Inl ValueError
      else Inr \<lparr>cp_max_age = max_age, cp_max_missing = max_missing, cp_max_extra = max_extra, cp_required = required\<rparr>)"

definition default_policy :: canary_policy where
  "default_policy = \<lparr>cp_max_age = 10, cp_max_missing = 0, cp_max_extra = 0, cp_required = 3\<rparr>"

datatype reason = Stale | Mismatch | Fine

record canary_result =
  cr_healthy :: bool
  cr_observed :: int
  cr_age :: rat
  cr_missing :: "pystr list"
  cr_extra :: "pystr list"
  cr_reason :: reason

text \<open>\<open>str(value)\<close>; \<open>int(value)\<close> raises for everything that is no number.\<close>

definition any_text :: "(pyany \<Rightarrow> pystr) \<Rightarrow> pyany \<Rightarrow> pystr" where
  "any_text container_text v =
     (case v of
        ANone \<Rightarrow> lit ''None''
      | ABool b \<Rightarrow> lit (if b then ''True'' else ''False'')
      | AInt i \<Rightarrow> str_of_int i
      | AFloat _ t \<Rightarrow> t
      | AStr s \<Rightarrow> s
      | AOther s \<Rightarrow> s
      | _ \<Rightarrow> container_text v)"

definition any_int :: "pyany \<Rightarrow> canary_error + int" where
  "any_int v =
     (case v of
        ABool b \<Rightarrow> Inr (if b then 1 else 0)
      | AInt i \<Rightarrow> Inr i
      | AFloat (Some x) _ \<Rightarrow> Inr (py_trunc x)
      | AFloat None t \<Rightarrow> Inl (if t = lit ''nan'' then ValueError else OverflowError)
      | AStr s \<Rightarrow> (case py_int s of None \<Rightarrow> Inl ValueError | Some i \<Rightarrow> Inr i)
      | _ \<Rightarrow> Inl TypeError)"

definition record_id :: "(pyany \<Rightarrow> pystr) \<Rightarrow> pyany \<Rightarrow> canary_error + pystr" where
  "record_id container_text item =
     (case item of
        AMap d \<Rightarrow> Inr (py_strip (any_text container_text (dget_or d (lit ''id'') (AStr []))))
      | _ \<Rightarrow> Inl AttributeError)"

text \<open>The set \<open>_ids\<close> computes, as the list of its elements in the order of the records.\<close>

definition ids_of :: "(pyany \<Rightarrow> pystr) \<Rightarrow> pyany list \<Rightarrow> canary_error + pystr list" where
  "ids_of container_text records =
     ebind (emap (record_id container_text) records) (\<lambda>ids. Inr (filter (\<lambda>s. s \<noteq> []) ids))"

definition sorted_difference :: "pystr list \<Rightarrow> pystr list \<Rightarrow> pystr list" where
  "sorted_difference xs ys = sort (remdups (filter (\<lambda>x. x \<notin> set ys) xs))"

definition compare_snapshots :: "(pyany \<Rightarrow> pystr) \<Rightarrow> canary_policy \<Rightarrow> rat \<Rightarrow> pyany \<Rightarrow> pyany \<Rightarrow> pyany list \<Rightarrow> pyany list
    \<Rightarrow> canary_error + canary_result" where
  "compare_snapshots container_text selected now observed_at binary_timestamp legacy binary =
     ebind (if observed_at = ANone then Inr (py_trunc now) else any_int observed_at) (\<lambda>observed.
     ebind (if truthy binary_timestamp then any_int binary_timestamp else Inr observed) (\<lambda>stamp.
     let age = max 0 (now - of_int stamp) in
     ebind (ids_of container_text legacy) (\<lambda>legacy_ids.
     ebind (ids_of container_text binary) (\<lambda>binary_ids.
     let missing = sorted_difference legacy_ids binary_ids;
         extra = sorted_difference binary_ids legacy_ids;
         healthy = (age \<le> cp_max_age selected \<and> int (length missing) \<le> cp_max_missing selected \<and>
           int (length extra) \<le> cp_max_extra selected);
         why = (if cp_max_age selected < age then Stale
           else if missing \<noteq> [] \<or> extra \<noteq> [] then Mismatch else Fine) in
     Inr \<lparr>cr_healthy = healthy, cr_observed = observed, cr_age = age, cr_missing = missing, cr_extra = extra,
          cr_reason = why\<rparr>))))"

section \<open>\<open>TelemetryCanary\<close>\<close>

record canary =
  cn_policy :: canary_policy
  cn_streak :: int
  cn_last :: "canary_result option"

definition new_canary :: "canary_policy option \<Rightarrow> canary" where
  "new_canary policy =
     \<lparr>cn_policy = (case policy of None \<Rightarrow> default_policy | Some p \<Rightarrow> p), cn_streak = 0, cn_last = None\<rparr>"

definition ready_to_promote :: "canary \<Rightarrow> bool" where
  "ready_to_promote c \<longleftrightarrow> cp_required (cn_policy c) \<le> cn_streak c"

definition note_result :: "canary_result \<Rightarrow> canary \<Rightarrow> canary" where
  "note_result r c = c\<lparr>cn_last := Some r, cn_streak := (if cr_healthy r then cn_streak c + 1 else 0)\<rparr>"

definition observe :: "(pyany \<Rightarrow> pystr) \<Rightarrow> rat \<Rightarrow> pyany \<Rightarrow> pyany \<Rightarrow> pyany list \<Rightarrow> pyany list \<Rightarrow> canary
    \<Rightarrow> canary_error + canary \<times> canary_result" where
  "observe container_text now observed_at binary_timestamp legacy binary c =
     ebind (compare_snapshots container_text (cn_policy c) now observed_at binary_timestamp legacy binary)
       (\<lambda>r. Inr (note_result r c, r))"

section \<open>\<open>evaluate\<close>\<close>

record tally =
  ta_canary :: canary
  ta_samples :: nat
  ta_healthy :: nat
  ta_reasons :: "(reason, nat) dict"

text \<open>The body of the loop for one line that is not blank.\<close>

definition evaluate_line :: "(pystr \<Rightarrow> canary_error + pyany) \<Rightarrow> (pyany \<Rightarrow> pystr) \<Rightarrow> rat \<Rightarrow> pystr \<Rightarrow> tally
    \<Rightarrow> canary_error + tally" where
  "evaluate_line loads container_text now line t =
     ebind (loads line) (\<lambda>record.
     (case record of
        AMap d \<Rightarrow>
          (case (dget_or d (lit ''legacy'') ANone, dget_or d (lit ''binary'') ANone) of
             (ASeq legacy, ASeq binary) \<Rightarrow>
               ebind (observe container_text now (dget_or d (lit ''observed_at'') ANone)
                   (dget_or d (lit ''binary_timestamp'') ANone) legacy binary (ta_canary t))
                 (\<lambda>(c, r). Inr \<lparr>ta_canary = c, ta_samples = ta_samples t + 1,
                   ta_healthy = ta_healthy t + (if cr_healthy r then 1 else 0),
                   ta_reasons = dset (cr_reason r) (dget_or (ta_reasons t) (cr_reason r) 0 + 1) (ta_reasons t)\<rparr>)
           | _ \<Rightarrow> Inl ValueError)
      | _ \<Rightarrow> Inl ValueError))"

text \<open>The lines come with the clock reading of their iteration.\<close>

fun evaluate_lines :: "(pystr \<Rightarrow> canary_error + pyany) \<Rightarrow> (pyany \<Rightarrow> pystr) \<Rightarrow> (pystr \<times> rat) list \<Rightarrow> tally
    \<Rightarrow> canary_error + tally" where
  "evaluate_lines loads container_text [] t = Inr t"
| "evaluate_lines loads container_text ((line, now) # lines) t =
     (if py_strip line = [] then evaluate_lines loads container_text lines t
      else ebind (evaluate_line loads container_text now line t) (evaluate_lines loads container_text lines))"

record evaluation =
  ev_healthy :: bool
  ev_not_ready :: bool
  ev_samples :: nat
  ev_healthy_samples :: nat
  ev_consecutive :: int
  ev_policy :: canary_policy
  ev_reasons :: "(reason, nat) dict"
  ev_last :: canary_result

text \<open>\<open>InvalidInput\<close> is the answer with the failed gate \<open>invalid_input\<close>; an exception that
  \<open>evaluate\<close> does not catch is the left result.\<close>

datatype evaluated = InvalidInput | Evaluated evaluation

definition evaluate :: "(pystr \<Rightarrow> canary_error + pyany) \<Rightarrow> (pyany \<Rightarrow> pystr) \<Rightarrow> canary_policy option \<Rightarrow> (pystr \<times> rat) list
    \<Rightarrow> canary_error + int \<times> evaluated" where
  "evaluate loads container_text policy lines =
     (case evaluate_lines loads container_text lines
         \<lparr>ta_canary = new_canary policy, ta_samples = 0, ta_healthy = 0, ta_reasons = []\<rparr> of
        Inl e \<Rightarrow> if e = ValueError \<or> e = TypeError then Inr (2, InvalidInput) else Inl e
      | Inr t \<Rightarrow>
          (case cn_last (ta_canary t) of
             None \<Rightarrow> Inr (2, InvalidInput)
           | Some result \<Rightarrow>
               let ready = ready_to_promote (ta_canary t) in
               Inr (if ready then 0 else 1,
                Evaluated \<lparr>ev_healthy = ready, ev_not_ready = (\<not> ready), ev_samples = ta_samples t,
                  ev_healthy_samples = ta_healthy t, ev_consecutive = cn_streak (ta_canary t),
                  ev_policy = cn_policy (ta_canary t), ev_reasons = ta_reasons t, ev_last = result\<rparr>)))"


section \<open>What a comparison decides\<close>

text \<open>One recorded sample: the clock, the two time stamps and the two snapshots.\<close>

record sample =
  sa_now :: rat
  sa_observed_at :: pyany
  sa_timestamp :: pyany
  sa_legacy :: "pyany list"
  sa_binary :: "pyany list"

definition decode_sample :: "(pystr \<Rightarrow> canary_error + pyany) \<Rightarrow> pystr \<times> rat \<Rightarrow> sample option" where
  "decode_sample loads line =
     (case loads (fst line) of
        Inr (AMap d) \<Rightarrow>
          (case (dget_or d (lit ''legacy'') ANone, dget_or d (lit ''binary'') ANone) of
             (ASeq legacy, ASeq binary) \<Rightarrow>
               Some \<lparr>sa_now = snd line, sa_observed_at = dget_or d (lit ''observed_at'') ANone,
                     sa_timestamp = dget_or d (lit ''binary_timestamp'') ANone, sa_legacy = legacy, sa_binary = binary\<rparr>
           | _ \<Rightarrow> None)
      | _ \<Rightarrow> None)"

definition sample_result :: "(pyany \<Rightarrow> pystr) \<Rightarrow> canary_policy \<Rightarrow> sample \<Rightarrow> canary_error + canary_result" where
  "sample_result container_text p s =
     compare_snapshots container_text p (sa_now s) (sa_observed_at s) (sa_timestamp s) (sa_legacy s) (sa_binary s)"

text \<open>The time stamp the age is measured from, and the agreement of the two snapshots as sets.\<close>

definition stamp_of :: "sample \<Rightarrow> canary_error + int" where
  "stamp_of s =
     ebind (if sa_observed_at s = ANone then Inr (py_trunc (sa_now s)) else any_int (sa_observed_at s))
       (\<lambda>observed. if truthy (sa_timestamp s) then any_int (sa_timestamp s) else Inr observed)"

definition agrees :: "(pyany \<Rightarrow> pystr) \<Rightarrow> canary_policy \<Rightarrow> sample \<Rightarrow> bool" where
  "agrees container_text p s \<longleftrightarrow>
     (case (stamp_of s, ids_of container_text (sa_legacy s), ids_of container_text (sa_binary s)) of
        (Inr stamp, Inr legacy, Inr binary) \<Rightarrow>
          max 0 (sa_now s - of_int stamp) \<le> cp_max_age p \<and>
          int (card (set legacy - set binary)) \<le> cp_max_missing p \<and>
          int (card (set binary - set legacy)) \<le> cp_max_extra p
      | _ \<Rightarrow> False)"

lemma length_sorted_difference: "length (sorted_difference xs ys) = card (set xs - set ys)"
proof -
  have "set (remdups (filter (\<lambda>x. x \<notin> set ys) xs)) = set xs - set ys" by auto
  then show ?thesis unfolding sorted_difference_def by (metis distinct_card distinct_remdups length_sort)
qed

lemma compare_agrees: "sample_result container_text p s = Inr r \<Longrightarrow> cr_healthy r \<longleftrightarrow> agrees container_text p s"
  by (auto simp: sample_result_def compare_snapshots_def agrees_def stamp_of_def err_simps length_sorted_difference Let_def)

definition counted :: "canary_result \<Rightarrow> tally \<Rightarrow> tally" where
  "counted r t = \<lparr>ta_canary = note_result r (ta_canary t), ta_samples = ta_samples t + 1,
     ta_healthy = ta_healthy t + (if cr_healthy r then 1 else 0),
     ta_reasons = dset (cr_reason r) (dget_or (ta_reasons t) (cr_reason r) 0 + 1) (ta_reasons t)\<rparr>"

lemma evaluate_line_decoded:
  "evaluate_line loads container_text now line t =
     (case decode_sample loads (line, now) of
        None \<Rightarrow> Inl (case loads line of Inl e \<Rightarrow> e | Inr _ \<Rightarrow> ValueError)
      | Some s \<Rightarrow> ebind (sample_result container_text (cn_policy (ta_canary t)) s) (\<lambda>r. Inr (counted r t)))"
proof (cases "loads line")
  case (Inr v)
  show ?thesis
  proof (cases v)
    case (AMap d)
    have *: "ebind (ebind m (\<lambda>r. Inr (c r, r))) (\<lambda>(c, r). f c r) = ebind m (\<lambda>r. f (c r) r)"
      for m :: "canary_error + canary_result" and c and f :: "canary \<Rightarrow> canary_result \<Rightarrow> canary_error + tally"
      by (cases m) simp_all
    show ?thesis
      by (cases "dget_or d (lit ''legacy'') ANone"; cases "dget_or d (lit ''binary'') ANone")
        (simp_all add: evaluate_line_def decode_sample_def Inr AMap observe_def sample_result_def counted_def *)
  qed (simp_all add: evaluate_line_def decode_sample_def Inr)
qed (simp add: evaluate_line_def decode_sample_def)

lemma evaluate_line_iff:
  "evaluate_line loads container_text now line t = Inr t' \<longleftrightarrow>
   (\<exists>s r. decode_sample loads (line, now) = Some s \<and> sample_result container_text (cn_policy (ta_canary t)) s = Inr r \<and>
      t' = counted r t)"
  by (auto simp: evaluate_line_decoded err_simps split: option.splits)

section \<open>The evaluation as a whole\<close>

text \<open>What the tally says of the results seen so far, the latest first.\<close>

definition tally_of :: "canary_policy \<Rightarrow> canary_result list \<Rightarrow> tally \<Rightarrow> bool" where
  "tally_of p rs t \<longleftrightarrow>
     cn_policy (ta_canary t) = p \<and> cn_streak (ta_canary t) = int (length (takeWhile cr_healthy rs)) \<and>
     cn_last (ta_canary t) = (case rs of [] \<Rightarrow> None | r # _ \<Rightarrow> Some r) \<and>
     ta_samples t = length rs \<and> ta_healthy t = length (filter cr_healthy rs) \<and>
     (\<forall>why. dget_or (ta_reasons t) why 0 = length (filter (\<lambda>r. cr_reason r = why) rs))"

lemma tally_of_note:
  "tally_of p rs t \<Longrightarrow> tally_of p (r # rs) (counted r t)"
  by (auto simp: tally_of_def counted_def note_result_def dict_simps)

lemma evaluate_lines_tally:
  assumes "evaluate_lines loads container_text lines t = Inr t'" and "tally_of p rs t"
  shows "\<exists>samples rs'. map Some samples = map (decode_sample loads) (filter (\<lambda>(line, _). py_strip line \<noteq> []) lines) \<and>
    list_all2 (\<lambda>s r. sample_result container_text p s = Inr r) samples rs' \<and> tally_of p (rev rs' @ rs) t'"
  using assms
proof (induction lines arbitrary: t rs)
  case Nil
  then show ?case by (intro exI [of _ "[]"]) simp
next
  case (Cons l lines)
  obtain line now where l: "l = (line, now)" by force
  show ?case
  proof (cases "py_strip line = []")
    case True
    with Cons l show ?thesis by simp
  next
    case False
    then obtain u where u: "evaluate_line loads container_text now line t = Inr u"
      "evaluate_lines loads container_text lines u = Inr t'"
      using Cons.prems(1) l by (auto simp: err_simps)
    obtain s r where s: "decode_sample loads (line, now) = Some s" "sample_result container_text p s = Inr r"
      "tally_of p (r # rs) u"
    proof -
      have "cn_policy (ta_canary t) = p" using Cons.prems(2) by (simp add: tally_of_def)
      then obtain s r where "decode_sample loads (line, now) = Some s" "sample_result container_text p s = Inr r"
        "u = counted r t" using u(1) unfolding evaluate_line_iff by blast
      with that tally_of_note [OF Cons.prems(2)] show ?thesis by blast
    qed
    obtain samples rs' where "map Some samples = map (decode_sample loads) (filter (\<lambda>(line, _). py_strip line \<noteq> []) lines)"
      "list_all2 (\<lambda>s r. sample_result container_text p s = Inr r) samples rs'" "tally_of p (rev rs' @ r # rs) t'"
      using Cons.IH [OF u(2) s(3)] by blast
    with s False l show ?thesis by (intro exI [of _ "s # samples"] exI [of _ "r # rs'"]) simp
  qed
qed

lemma last_n_takeWhile:
  "n \<le> length (takeWhile P (rev xs)) \<longleftrightarrow> n \<le> length xs \<and> list_all P (last_n n xs)"
proof -
  have "n \<le> length (takeWhile P ys) \<longleftrightarrow> n \<le> length ys \<and> list_all P (take n ys)" for ys
  proof (induction ys arbitrary: n)
    case (Cons y ys)
    then show ?case by (cases n) auto
  qed simp
  from this [of "rev xs"] show ?thesis
    by (auto simp: last_n_def take_rev list_all_iff)
qed

text \<open>the canary promotes only on agreement. Whatever \<open>json.loads\<close> returns, an evaluation ends
  with exit code 0 exactly if the last samples, as many as the policy requires, all agree: the snapshot is
  fresh, and the sets of session identifiers differ by no more than the policy tolerates. One
  disagreement resets the count.\<close>

theorem promotion_needs_agreement:
  assumes "evaluate loads container_text policy lines = Inr (code, Evaluated e)"
  shows "\<exists>samples. map Some samples = map (decode_sample loads) (filter (\<lambda>(line, _). py_strip line \<noteq> []) lines) \<and>
    ev_samples e = length samples \<and> ev_policy e = (case policy of None \<Rightarrow> default_policy | Some p \<Rightarrow> p) \<and>
    (code = 0 \<longleftrightarrow> cp_required (ev_policy e) \<le> int (length samples) \<and>
       list_all (agrees container_text (ev_policy e)) (last_n (nat (cp_required (ev_policy e))) samples))"
proof -
  let ?p = "case policy of None \<Rightarrow> default_policy | Some p \<Rightarrow> p"
  obtain t r where t: "evaluate_lines loads container_text lines
      \<lparr>ta_canary = new_canary policy, ta_samples = 0, ta_healthy = 0, ta_reasons = []\<rparr> = Inr t"
    "cn_last (ta_canary t) = Some r" "ev_policy e = cn_policy (ta_canary t)" "ev_samples e = ta_samples t"
    "code = 0 \<longleftrightarrow> cp_required (cn_policy (ta_canary t)) \<le> cn_streak (ta_canary t)"
    using assms
    by (auto simp: evaluate_def ready_to_promote_def Let_def split: sum.splits option.splits if_splits)
  have "tally_of ?p [] \<lparr>ta_canary = new_canary policy, ta_samples = 0, ta_healthy = 0, ta_reasons = []\<rparr>"
    by (simp add: tally_of_def new_canary_def)
  from evaluate_lines_tally [OF t(1) this] obtain samples rs where
    s: "map Some samples = map (decode_sample loads) (filter (\<lambda>(line, _). py_strip line \<noteq> []) lines)"
    "list_all2 (\<lambda>s r. sample_result container_text ?p s = Inr r) samples rs" "tally_of ?p (rev rs) t" by auto
  have p: "cn_policy (ta_canary t) = ?p" and n: "ta_samples t = length samples"
    using s(3) list_all2_lengthD [OF s(2)] by (simp_all add: tally_of_def)
  let ?n = "nat (cp_required ?p)"
  have same: "list_all2 (\<lambda>s r. agrees container_text ?p s \<longleftrightarrow> cr_healthy r) samples rs"
    using s(2) by (rule list_all2_mono) (simp add: compare_agrees)
  have "list_all cr_healthy (last_n ?n rs) \<longleftrightarrow> list_all (agrees container_text ?p) (last_n ?n samples)"
  proof -
    have "list_all2 (\<lambda>s r. agrees container_text ?p s \<longleftrightarrow> cr_healthy r) (last_n ?n samples) (last_n ?n rs)"
      unfolding last_n_def list_all2_lengthD [OF s(2)] by (rule list_all2_dropI [OF same])
    then show ?thesis by (induction rule: list_all2_induct) auto
  qed
  moreover have "cp_required ?p \<le> cn_streak (ta_canary t) \<longleftrightarrow> ?n \<le> length rs \<and> list_all cr_healthy (last_n ?n rs)"
    using s(3) last_n_takeWhile [of ?n cr_healthy rs] by (simp add: tally_of_def nat_le_iff)
  moreover have "?n \<le> length rs \<longleftrightarrow> cp_required ?p \<le> int (length samples)"
    using list_all2_lengthD [OF s(2)] by (simp add: nat_le_iff)
  ultimately show ?thesis using s(1) t(3-5) p n by (intro exI [of _ samples]) simp
qed


definition demo_loads :: "pystr \<Rightarrow> canary_error + pyany" where
  "demo_loads line =
     (if line = lit ''same'' then Inr (AMap [(lit ''legacy'', ASeq [AMap [(lit ''id'', AStr (lit '' *1 ''))]]),
        (lit ''binary'', ASeq [AMap [(lit ''id'', AStr (lit ''*1''))]])])
      else Inr (AMap [(lit ''legacy'', ASeq [AMap [(lit ''id'', AStr (lit ''*1''))]]), (lit ''binary'', ASeq [])]))"

definition demo_policy :: canary_policy where
  "demo_policy = default_policy\<lparr>cp_required := 1\<rparr>"

lemma demo_strip: "py_strip (lit ''same'') = lit ''same''" "py_strip (lit ''*1'') = lit ''*1''" "py_strip (lit '' *1 '') = lit ''*1''"
  by (simp_all add: py_strip_def py_space_def lit_def)

theorem promotion_needs_agreement_witness:
  "\<exists>e samples. evaluate demo_loads (\<lambda>_. []) (Some demo_policy) [(lit ''same'', 5)] = Inr (0, Evaluated e) \<and>
     length samples = 1 \<and> agrees (\<lambda>_. []) demo_policy (last samples)"
proof -
  obtain e where e: "evaluate demo_loads (\<lambda>_. []) (Some demo_policy) [(lit ''same'', 5)] = Inr (0, Evaluated e)"
    "ev_policy e = demo_policy"
    by (simp add: evaluate_def demo_strip evaluate_line_decoded decode_sample_def demo_loads_def dget_or_def
        sample_result_def compare_snapshots_def ids_of_def record_id_def any_text_def truthy_def Let_def counted_def
        note_result_def new_canary_def ready_to_promote_def demo_policy_def default_policy_def sorted_difference_def)
  obtain samples where s: "map Some samples = map (decode_sample demo_loads) (filter (\<lambda>(line, _). py_strip line \<noteq> []) [(lit ''same'', 5)])"
    "list_all (agrees (\<lambda>_. []) demo_policy) (last_n (nat (cp_required demo_policy)) samples)"
    using promotion_needs_agreement [OF e(1)] e(2) by auto
  have "length (map Some samples) = 1" unfolding s(1) by (simp add: demo_strip)
  then have "length samples = 1" by simp
  then show ?thesis using e(1) s(2)
    by (auto simp: demo_policy_def default_policy_def last_n_def length_Suc_conv)
qed

text \<open>A sample whose snapshot holds something other than objects is not reported as invalid input:
  the exception of \<open>.get\<close> leaves \<open>evaluate\<close> (and \<open>main\<close>).\<close>

lemma scalar_record_escapes:
  "evaluate (\<lambda>_. Inr (AMap [(lit ''legacy'', ASeq [AInt 1]), (lit ''binary'', ASeq [])])) (\<lambda>_. []) None [(lit ''x'', 0)]
     = Inl AttributeError"
proof -
  have x: "py_strip (lit ''x'') = lit ''x''" by (simp add: py_strip_def py_space_def lit_def)
  show ?thesis
    by (simp add: evaluate_def x evaluate_line_decoded decode_sample_def dget_or_def sample_result_def
        compare_snapshots_def ids_of_def record_id_def truthy_def Let_def)
qed

end
