(* ===== verification/Polling_Bridge.thy ===== *)
theory Polling_Bridge
  imports Broker_Gateway Binary_Connection
begin

text \<open>
  \<open>telemetry_socketio_polling.py\<close>: the Engine.IO polling transport over the gateway. The bridge keeps a
  bounded table of polling clients, each owned by the dashboard session that made the handshake. A client
  object that \<open>post\<close> works on stays in use there after it has left the table, so the object and
  the table are separate values. Answers of the principal resolver, clock readings and random identifiers are arguments; the
  method bodies hold the lock, except that \<open>poll\<close> releases it while it waits for the namespace to open:
  \<open>meanwhile\<close> is what other calls do to the bridge then.
\<close>

section \<open>The bridge\<close>

record polling_client =
  pc_sid :: pystr
  pc_session :: pystr
  pc_last_activity :: rat
  pc_subscription :: "pystr option"
  pc_connected :: bool
  pc_pending :: "pystr list"

record bridge =
  pb_gateway :: gateway
  pb_idle_timeout :: rat
  pb_max_clients :: nat
  pb_clients :: "(pystr, polling_client) dict"

datatype bridge_error = CapacityReached | GatewayRaised gateway_error

definition new_bridge :: "gateway \<Rightarrow> rat \<Rightarrow> int \<Rightarrow> bridge" where
  "new_bridge g idle_timeout max_clients =
     \<lparr>pb_gateway = g, pb_idle_timeout = max 0 idle_timeout, pb_max_clients = nat (max 1 max_clients), pb_clients = []\<rparr>"

text \<open>\<open>if client and client.subscription\<close>: an empty identifier counts as none.\<close>

definition open_subscription :: "polling_client \<Rightarrow> pystr option" where
  "open_subscription c = (case pc_subscription c of None \<Rightarrow> None | Some s \<Rightarrow> if s = [] then None else Some s)"

definition close_sid :: "pystr \<Rightarrow> bridge \<Rightarrow> bridge" where
  "close_sid sid b =
     (case dget (pb_clients b) sid of
        None \<Rightarrow> b
      | Some c \<Rightarrow>
          b\<lparr>pb_clients := ddel sid (pb_clients b),
            pb_gateway := (case open_subscription c of
              None \<Rightarrow> pb_gateway b | Some s \<Rightarrow> fst (close_client (pb_gateway b) s))\<rparr>)"

definition expire_idle :: "rat \<Rightarrow> bridge \<Rightarrow> bridge" where
  "expire_idle now b =
     fold close_sid (map fst (filter (\<lambda>(sid, c). pb_idle_timeout b \<le> now - pc_last_activity c) (pb_clients b))) b"

definition close_if_owned :: "pystr \<Rightarrow> pystr \<Rightarrow> bridge \<Rightarrow> bridge" where
  "close_if_owned sid session_id b =
     (case dget (pb_clients b) sid of
        None \<Rightarrow> b
      | Some c \<Rightarrow> if pc_session c = session_id then close_sid sid b else b)"

definition streams :: "principal option \<Rightarrow> bool" where
  "streams p = (case p of None \<Rightarrow> False | Some p \<Rightarrow> may_stream p)"

section \<open>\<open>handshake\<close>\<close>

definition handshake_packet :: "pystr \<Rightarrow> pystr" where
  "handshake_packet sid =
     48 # the (json_text (JDict [(lit ''sid'', JStr sid), (lit ''upgrades'', JList []), (lit ''pingInterval'', JInt 25000),
       (lit ''pingTimeout'', JInt 20000), (lit ''maxPayload'', JInt 1000000)]))"

definition handshake :: "pystr \<Rightarrow> principal option \<Rightarrow> rat \<Rightarrow> pystr \<Rightarrow> bridge \<Rightarrow> bridge \<times> (bridge_error + (pystr \<times> pystr) option)" where
  "handshake session_id who now sid b =
     (if \<not> streams who then (b, Inr None)
      else let b = expire_idle now b in
        if pb_max_clients b \<le> length (pb_clients b) then (b, Inl CapacityReached)
        else (b\<lparr>pb_clients := dset sid
                \<lparr>pc_sid = sid, pc_session = session_id, pc_last_activity = now, pc_subscription = None,
                 pc_connected = False, pc_pending = []\<rparr> (pb_clients b)\<rparr>,
              Inr (Some (sid, handshake_packet sid))))"

section \<open>\<open>post\<close>\<close>

text \<open>A change of the client object; the table sees it while it holds the object.\<close>

definition set_client :: "polling_client \<Rightarrow> bridge \<Rightarrow> bridge" where
  "set_client c b =
     (if dget (pb_clients b) (pc_sid c) = None then b else b\<lparr>pb_clients := dset (pc_sid c) c (pb_clients b)\<rparr>)"

definition starts_with :: "pystr \<Rightarrow> string \<Rightarrow> bool" where
  "starts_with packet start \<longleftrightarrow> take (length start) packet = lit start"

text \<open>One packet; the identifiers \<open>tokens\<close> are for the subscriptions it opens. \<open>None\<close>: \<open>return False\<close>.\<close>

definition post_packet :: "principal \<Rightarrow> rat \<Rightarrow> pystr \<Rightarrow> pystr \<Rightarrow> polling_client \<Rightarrow> bridge
    \<Rightarrow> bridge \<times> polling_client option" where
  "post_packet p clock token packet c b =
     (if starts_with packet ''40'' then
        (if \<not> pc_connected c \<or> open_subscription c = None then
           (case open_client (pb_gateway b) p token clock of
              (g, Inl _) \<Rightarrow> (b\<lparr>pb_gateway := g\<rparr>, None)
            | (g, Inr s) \<Rightarrow>
                let c = c\<lparr>pc_subscription := Some s, pc_connected := True,
                          pc_pending := pc_pending c @ [lit ''40/telemetry,'']\<rparr> in
                (set_client c (b\<lparr>pb_gateway := g\<rparr>), Some c))
         else (b, Some c))
      else if starts_with packet ''42'' \<and> pc_connected c then (b, Some c)
      else if packet = lit ''3'' \<or> starts_with packet ''3/'' then (b, Some c)
      else if starts_with packet ''1'' then (close_sid (pc_sid c) b, Some c)
      else (b, Some c))"

fun post_packets :: "principal \<Rightarrow> rat \<Rightarrow> (nat \<Rightarrow> pystr) \<Rightarrow> nat \<Rightarrow> pystr list \<Rightarrow> polling_client \<Rightarrow> bridge \<Rightarrow> bridge \<times> bool" where
  "post_packets p clock tokens n [] c b = (b, True)"
| "post_packets p clock tokens n (packet # packets) c b =
     (case post_packet p clock (tokens n) packet c b of
        (b, None) \<Rightarrow> (b, False)
      | (b, Some c) \<Rightarrow> post_packets p clock tokens (n + 1) packets c b)"

definition post :: "pystr \<Rightarrow> pystr \<Rightarrow> byte list \<Rightarrow> principal option \<Rightarrow> rat \<Rightarrow> rat \<Rightarrow> rat \<Rightarrow> (nat \<Rightarrow> pystr) \<Rightarrow> bridge \<Rightarrow> bridge \<times> bool" where
  "post sid session_id body who now active_at clock tokens b =
     (if \<not> streams who then (close_if_owned sid session_id b, False)
      else let b = expire_idle now b in
        case dget (pb_clients b) sid of
          None \<Rightarrow> (b, False)
        | Some c \<Rightarrow>
            if pc_session c \<noteq> session_id then (b, False)
            else let c = c\<lparr>pc_last_activity := active_at\<rparr> in
              post_packets (the who) clock tokens 0 (py_split 30 (utf8_replace body)) c (set_client c b))"

section \<open>\<open>poll\<close>\<close>

text \<open>\<open>json.dumps\<close> with its default \<open>ensure_ascii\<close>: only strings hold other characters.\<close>

definition hex4 :: "nat \<Rightarrow> pystr" where
  "hex4 c = [92, 117, hex_digit (c div 4096 mod 16), hex_digit (c div 256 mod 16), hex_digit (c div 16 mod 16), hex_digit (c mod 16)]"

definition ascii_escape :: "nat \<Rightarrow> pystr" where
  "ascii_escape c =
     (if c < 127 then [c]
      else if c < 65536 then hex4 c
      else hex4 (55296 + (c - 65536) div 1024) @ hex4 (56320 + (c - 65536) mod 1024))"

definition frame_packet :: "frame \<Rightarrow> pystr option" where
  "frame_packet f =
     map_option (\<lambda>t. lit ''42/telemetry,'' @ concat (map ascii_escape t)) (json_text (JList [JStr (fr_event f), frame_json f]))"

text \<open>The loop over the frames asks the resolver again before each of them.\<close>

fun send_frames :: "pystr \<Rightarrow> (nat \<Rightarrow> principal option) \<Rightarrow> nat \<Rightarrow> frame list \<Rightarrow> pystr list \<Rightarrow> bridge
    \<Rightarrow> bridge \<times> (bridge_error + pystr list)" where
  "send_frames sid resolver n [] packets b = (b, Inr packets)"
| "send_frames sid resolver n (f # fs) packets b =
     (if \<not> streams (resolver n) then (close_sid sid b, Inr packets)
      else case frame_packet f of
        None \<Rightarrow> (b, Inl (GatewayRaised NotSerializable))
      | Some packet \<Rightarrow> send_frames sid resolver (n + 1) fs (packets @ [packet]) b)"

definition answer_packets :: "pystr list \<Rightarrow> pystr" where
  "answer_packets packets = (if packets = [] then lit ''2'' else py_join 30 packets)"

definition poll_client :: "pystr \<Rightarrow> source \<Rightarrow> rat \<Rightarrow> rat \<Rightarrow> rat \<Rightarrow> (nat \<Rightarrow> principal option) \<Rightarrow> polling_client \<Rightarrow> bridge
    \<Rightarrow> bridge \<times> (bridge_error + pystr option)" where
  "poll_client sid src clock reading observed resolver c b =
     (if pc_pending c \<noteq> [] then (set_client (c\<lparr>pc_pending := []\<rparr>) b, Inr (Some (py_join 30 (pc_pending c))))
      else case (pc_connected c, open_subscription c) of
        (True, Some s) \<Rightarrow>
          (case poll (pb_gateway b) src s None clock reading observed of
             (g, Inl err) \<Rightarrow> (b\<lparr>pb_gateway := g\<rparr>, Inl (GatewayRaised err))
           | (g, Inr frames) \<Rightarrow>
               (case send_frames sid resolver 0 frames [] (b\<lparr>pb_gateway := g\<rparr>) of
                  (b, Inl err) \<Rightarrow> (b, Inl err)
                | (b, Inr packets) \<Rightarrow> (b, Inr (Some (answer_packets packets)))))
      | _ \<Rightarrow> (b, Inr (Some (lit ''2''))))"

text \<open>The section before the wait: refuse, serve the client at once, or wait for its namespace.\<close>

datatype poll_stage = Refused | Serve polling_client | AwaitNamespace

definition poll_enter :: "pystr \<Rightarrow> pystr \<Rightarrow> principal option \<Rightarrow> rat \<Rightarrow> rat \<Rightarrow> bridge \<Rightarrow> bridge \<times> poll_stage" where
  "poll_enter sid session_id who now active_at b =
     (if \<not> streams who then (close_if_owned sid session_id b, Refused)
      else let b = expire_idle now b in
        case dget (pb_clients b) sid of
          None \<Rightarrow> (b, Refused)
        | Some c \<Rightarrow>
            if pc_session c \<noteq> session_id then (b, Refused)
            else let c = c\<lparr>pc_last_activity := active_at\<rparr> in
              (set_client c b, if pc_connected c then Serve c else AwaitNamespace))"

definition poll_resume :: "pystr \<Rightarrow> source \<Rightarrow> rat \<Rightarrow> rat \<Rightarrow> rat \<Rightarrow> (nat \<Rightarrow> principal option) \<Rightarrow> bridge
    \<Rightarrow> bridge \<times> (bridge_error + pystr option)" where
  "poll_resume sid src clock reading observed resolver b =
     (case dget (pb_clients b) sid of
        None \<Rightarrow> (b, Inr None)
      | Some c \<Rightarrow> poll_client sid src clock reading observed resolver c b)"

definition poll_bridge :: "pystr \<Rightarrow> pystr \<Rightarrow> principal option \<Rightarrow> rat \<Rightarrow> rat \<Rightarrow> (bridge \<Rightarrow> bridge) \<Rightarrow> source \<Rightarrow> rat \<Rightarrow> rat \<Rightarrow> rat
    \<Rightarrow> (nat \<Rightarrow> principal option) \<Rightarrow> bridge \<Rightarrow> bridge \<times> (bridge_error + pystr option)" where
  "poll_bridge sid session_id who now active_at meanwhile src clock reading observed resolver b =
     (case poll_enter sid session_id who now active_at b of
        (b, Refused) \<Rightarrow> (b, Inr None)
      | (b, Serve c) \<Rightarrow> poll_client sid src clock reading observed resolver c b
      | (b, AwaitNamespace) \<Rightarrow> poll_resume sid src clock reading observed resolver (meanwhile b))"

section \<open>Well-formed tables\<close>

text \<open>Every client sits under its own identifier, and has a gateway subscription of its own once it has one.\<close>

definition subscribed :: "bridge \<Rightarrow> bool" where
  "subscribed b \<longleftrightarrow> (\<forall>sid c s. dget (pb_clients b) sid = Some c \<longrightarrow> open_subscription c = Some s \<longrightarrow>
     dget (gw_clients (pb_gateway b)) s \<noteq> None \<and>
     (\<forall>sid' c'. dget (pb_clients b) sid' = Some c' \<longrightarrow> open_subscription c' = Some s \<longrightarrow> sid' = sid))"

definition bridge_ok :: "bridge \<Rightarrow> bool" where
  "bridge_ok b \<longleftrightarrow> dict_ok (pb_clients b) \<and> length (pb_clients b) \<le> pb_max_clients b \<and>
     (\<forall>sid c. dget (pb_clients b) sid = Some c \<longrightarrow> pc_sid c = sid) \<and> subscribed b \<and> gateway_ok (pb_gateway b)"

lemma bridge_okD:
  "bridge_ok b \<Longrightarrow> dget (pb_clients b) sid = Some c \<Longrightarrow> pc_sid c = sid"
  "bridge_ok b \<Longrightarrow> dget (pb_clients b) sid = Some c \<Longrightarrow> open_subscription c = Some s \<Longrightarrow>
     dget (gw_clients (pb_gateway b)) s \<noteq> None"
  "bridge_ok b \<Longrightarrow> dget (pb_clients b) sid = Some c \<Longrightarrow> open_subscription c = Some s \<Longrightarrow>
     dget (pb_clients b) sid' = Some c' \<Longrightarrow> open_subscription c' = Some s \<Longrightarrow> sid' = sid"
  unfolding bridge_ok_def subscribed_def by blast+

lemma bridge_ok_parts: "bridge_ok b \<Longrightarrow> dict_ok (pb_clients b)" "bridge_ok b \<Longrightarrow> length (pb_clients b) \<le> pb_max_clients b"
  "bridge_ok b \<Longrightarrow> gateway_ok (pb_gateway b)"
  by (simp_all add: bridge_ok_def)

lemma bridge_okI:
  assumes "dict_ok (pb_clients b)" and "length (pb_clients b) \<le> pb_max_clients b" and "gateway_ok (pb_gateway b)"
    and "\<And>sid c. dget (pb_clients b) sid = Some c \<Longrightarrow> pc_sid c = sid"
    and "\<And>sid c s. dget (pb_clients b) sid = Some c \<Longrightarrow> open_subscription c = Some s \<Longrightarrow>
      dget (gw_clients (pb_gateway b)) s \<noteq> None"
    and "\<And>sid c s sid' c'. dget (pb_clients b) sid = Some c \<Longrightarrow> open_subscription c = Some s \<Longrightarrow>
      dget (pb_clients b) sid' = Some c' \<Longrightarrow> open_subscription c' = Some s \<Longrightarrow> sid' = sid"
  shows "bridge_ok b"
  unfolding bridge_ok_def subscribed_def using assms by blast

lemma new_bridge_ok: "gateway_ok g \<Longrightarrow> bridge_ok (new_bridge g idle m)"
  by (simp add: bridge_ok_def new_bridge_def subscribed_def)

lemma close_sid_ok:
  assumes "bridge_ok b"
  shows "bridge_ok (close_sid sid b)"
proof (cases "dget (pb_clients b) sid")
  case None
  with assms show ?thesis by (simp add: close_sid_def)
next
  case (Some c)
  have size: "length (ddel sid (pb_clients b)) \<le> pb_max_clients b"
    using bridge_ok_parts(2) [OF assms] length_ddel_le [of sid "pb_clients b"] by simp
  have keep: "dget (gw_clients (pb_gateway (close_sid sid b))) s \<noteq> None"
    if k: "k \<noteq> sid" "dget (pb_clients b) k = Some d" "open_subscription d = Some s" for k d s
  proof -
    have "open_subscription c \<noteq> Some s" using bridge_okD(3) [OF assms Some _ k(2,3)] k(1) by blast
    with bridge_okD(2) [OF assms k(2,3)] Some show ?thesis
      by (auto simp: close_sid_def close_client_def dget_ddel split: option.split)
  qed
  have g: "gateway_ok (pb_gateway (close_sid sid b))"
    using bridge_ok_parts(3) [OF assms] Some close_client_ok by (auto simp: close_sid_def split: option.split)
  have clients: "pb_clients (close_sid sid b) = ddel sid (pb_clients b)" "pb_max_clients (close_sid sid b) = pb_max_clients b"
    using Some by (simp_all add: close_sid_def)
  have stays: "k \<noteq> sid \<and> dget (pb_clients b) k = Some d" if "dget (pb_clients (close_sid sid b)) k = Some d" for k d
    using that by (simp add: clients dget_ddel split: if_splits)
  show ?thesis
  proof (rule bridge_okI)
    show "dict_ok (pb_clients (close_sid sid b))" using bridge_ok_parts(1) [OF assms] by (simp add: clients)
    show "length (pb_clients (close_sid sid b)) \<le> pb_max_clients (close_sid sid b)" using size by (simp add: clients)
    show "pc_sid d = k" if "dget (pb_clients (close_sid sid b)) k = Some d" for k d
      using bridge_okD(1) [OF assms] stays [OF that] by blast
    show "dget (gw_clients (pb_gateway (close_sid sid b))) s \<noteq> None"
      if "dget (pb_clients (close_sid sid b)) k = Some d" "open_subscription d = Some s" for k d s
      using keep stays [OF that(1)] that(2) by blast
    show "k' = k" if "dget (pb_clients (close_sid sid b)) k = Some d" "open_subscription d = Some s"
      "dget (pb_clients (close_sid sid b)) k' = Some d'" "open_subscription d' = Some s" for k d s k' d'
      using bridge_okD(3) [OF assms _ that(2) _ that(4)] stays [OF that(1)] stays [OF that(3)] by blast
  qed (rule g)
qed


lemma fold_close_ok: "bridge_ok b \<Longrightarrow> bridge_ok (fold close_sid sids b)"
  by (induction sids arbitrary: b) (simp_all add: close_sid_ok)

lemma expire_idle_ok: "bridge_ok b \<Longrightarrow> bridge_ok (expire_idle now b)"
  by (simp add: expire_idle_def fold_close_ok)

lemma close_if_owned_ok: "bridge_ok b \<Longrightarrow> bridge_ok (close_if_owned sid session_id b)"
  by (simp add: close_if_owned_def close_sid_ok split: option.split)

text \<open>Replacing a client by one with the same subscription, or adding one without any.\<close>

lemma put_client_ok:
  assumes "bridge_ok b" and "length (dset (pc_sid c) c (pb_clients b)) \<le> pb_max_clients b"
    and "\<And>s. open_subscription c = Some s \<Longrightarrow> dget (gw_clients (pb_gateway b)) s \<noteq> None"
    and "\<And>s sid' c'. open_subscription c = Some s \<Longrightarrow> dget (pb_clients b) sid' = Some c' \<Longrightarrow>
      open_subscription c' = Some s \<Longrightarrow> sid' = pc_sid c"
  shows "bridge_ok (b\<lparr>pb_clients := dset (pc_sid c) c (pb_clients b)\<rparr>)"
proof -
  let ?b = "b\<lparr>pb_clients := dset (pc_sid c) c (pb_clients b)\<rparr>"
  have who: "k = pc_sid c \<and> d = c \<or> k \<noteq> pc_sid c \<and> dget (pb_clients b) k = Some d" if "dget (pb_clients ?b) k = Some d" for k d
    using that by (simp add: dget_dset split: if_splits)
  show ?thesis
  proof (rule bridge_okI)
    show "pc_sid d = k" if "dget (pb_clients ?b) k = Some d" for k d
      using who [OF that] bridge_okD(1) [OF assms(1)] by blast
    show "dget (gw_clients (pb_gateway ?b)) s \<noteq> None"
      if "dget (pb_clients ?b) k = Some d" "open_subscription d = Some s" for k d s
      using who [OF that(1)] that(2) bridge_okD(2) [OF assms(1)] assms(3) by (simp, blast)
    show "k' = k" if k: "dget (pb_clients ?b) k = Some d" and d: "open_subscription d = Some s"
      and k': "dget (pb_clients ?b) k' = Some d'" and d': "open_subscription d' = Some s" for k d s k' d'
      using who [OF k]
    proof (elim disjE conjE)
      assume 1: "k = pc_sid c" "d = c"
      show ?thesis using who [OF k'] assms(4) d d' 1 by blast
    next
      assume 2: "k \<noteq> pc_sid c" "dget (pb_clients b) k = Some d"
      show ?thesis using who [OF k'] assms(4) [OF _ 2(2) d] bridge_okD(3) [OF assms(1) 2(2) d] d d' 2(1) by blast
    qed
  qed (use assms(2) bridge_ok_parts [OF assms(1)] in simp_all)
qed

lemma set_client_ok:
  assumes "bridge_ok b" and "dget (pb_clients b) (pc_sid c) = Some c0" and "open_subscription c = open_subscription c0"
  shows "bridge_ok (set_client c b)"
proof -
  have "length (dset (pc_sid c) c (pb_clients b)) \<le> pb_max_clients b"
  proof -
    have "pc_sid c \<in> set (dkeys (pb_clients b))" using assms(2) dget_None_iff by (metis option.distinct(1))
    then show ?thesis using bridge_ok_parts(2) [OF assms(1)] by (simp add: length_dset del: set_map)
  qed
  then show ?thesis
    using assms bridge_okD(2,3) [OF assms(1,2)] put_client_ok [OF assms(1), of c] by (auto simp: set_client_def)
qed

lemma change_gateway_ok:
  assumes "bridge_ok b" and "gateway_ok g"
    and "\<And>s. dget (gw_clients (pb_gateway b)) s \<noteq> None \<Longrightarrow> dget (gw_clients g) s \<noteq> None"
  shows "bridge_ok (b\<lparr>pb_gateway := g\<rparr>)"
proof (rule bridge_okI)
  show "pc_sid c = sid" if "dget (pb_clients (b\<lparr>pb_gateway := g\<rparr>)) sid = Some c" for sid c
    using bridge_okD(1) [OF assms(1)] that by simp
  show "dget (gw_clients (pb_gateway (b\<lparr>pb_gateway := g\<rparr>))) s \<noteq> None"
    if "dget (pb_clients (b\<lparr>pb_gateway := g\<rparr>)) sid = Some c" "open_subscription c = Some s" for sid c s
    using assms(3) [OF bridge_okD(2) [OF assms(1) _ that(2)]] that(1) by simp
  show "sid' = sid" if "dget (pb_clients (b\<lparr>pb_gateway := g\<rparr>)) sid = Some c" "open_subscription c = Some s"
    "dget (pb_clients (b\<lparr>pb_gateway := g\<rparr>)) sid' = Some c'" "open_subscription c' = Some s" for sid c s sid' c'
    using bridge_okD(3) [OF assms(1) _ that(2) _ that(4)] that(1,3) by simp
qed (use assms(2) bridge_ok_parts [OF assms(1)] in simp_all)

lemma handshake_ok: "bridge_ok b \<Longrightarrow> handshake session_id who now sid b = (b', r) \<Longrightarrow> bridge_ok b'"
proof -
  assume ok: "bridge_ok b" and h: "handshake session_id who now sid b = (b', r)"
  let ?e = "expire_idle now b"
  let ?c = "\<lparr>pc_sid = sid, pc_session = session_id, pc_last_activity = now, pc_subscription = None,
                 pc_connected = False, pc_pending = []\<rparr>"
  have e: "bridge_ok ?e" by (rule expire_idle_ok [OF ok])
  have "bridge_ok (?e\<lparr>pb_clients := dset (pc_sid ?c) ?c (pb_clients ?e)\<rparr>)" if "length (pb_clients ?e) < pb_max_clients ?e"
    using that length_dset_le [of "pc_sid ?c" ?c "pb_clients ?e"]
    by (intro put_client_ok [OF e]) (simp_all add: open_subscription_def)
  with ok e h show ?thesis by (auto simp: handshake_def Let_def split: if_splits)
qed

text \<open>The client object of a \<open>post\<close> is the one in the table, or no longer in it; the identifiers of new
  subscriptions are not in use.\<close>

definition in_use :: "polling_client \<Rightarrow> bridge \<Rightarrow> bool" where
  "in_use c b \<longleftrightarrow> (case dget (pb_clients b) (pc_sid c) of None \<Rightarrow> True | Some d \<Rightarrow> d = c)"

definition unused_token :: "pystr \<Rightarrow> bridge \<Rightarrow> bool" where
  "unused_token t b \<longleftrightarrow> t \<noteq> [] \<and> dget (gw_clients (pb_gateway b)) t = None"

lemma open_client_effect:
  "open_client g p token clock = (g', r) \<Longrightarrow>
   dget (gw_clients g') s = (if r = Inr token \<and> s = token then dget (gw_clients g') s else dget (gw_clients g) s) \<and>
   (r = Inr token \<longrightarrow> dget (gw_clients g') token \<noteq> None) \<and> (\<forall>s. r = Inr s \<longrightarrow> s = token)"
  by (auto simp: open_client_def dget_dset split: if_splits)

lemma post_packet_ok:
  assumes "bridge_ok b" and "in_use c b" and "unused_token token b"
    and "post_packet p clock token packet c b = (b', r)"
  shows "bridge_ok b' \<and> (\<forall>c'. r = Some c' \<longrightarrow> in_use c' b' \<and> pc_sid c' = pc_sid c) \<and>
    (\<forall>t. t \<noteq> token \<longrightarrow> unused_token t b \<longrightarrow> unused_token t b')"
proof (cases "starts_with packet ''40'' \<and> (\<not> pc_connected c \<or> open_subscription c = None)")
  case False
  have "in_use c (close_sid (pc_sid c) b)" by (auto simp: in_use_def close_sid_def dget_ddel split: option.split)
  moreover have "unused_token t (close_sid (pc_sid c) b)" if "unused_token t b" for t
    using that by (auto simp: unused_token_def close_sid_def close_client_def dget_ddel split: option.split)
  ultimately show ?thesis
    using assms False close_sid_ok [OF assms(1)]
    by (auto simp: post_packet_def split: if_splits)
next
  case True
  obtain g q where o: "open_client (pb_gateway b) p token clock = (g, q)" by force
  note eff = open_client_effect [OF o]
  have gok: "gateway_ok g" using o bridge_ok_parts(3) [OF assms(1)] open_client_ok by blast
  let ?b = "b\<lparr>pb_gateway := g\<rparr>"
  have kept: "dget (gw_clients g) s \<noteq> None" if "dget (gw_clients (pb_gateway b)) s \<noteq> None" for s
    using that eff by (metis)
  have ok: "bridge_ok ?b" by (rule change_gateway_ok [OF assms(1) gok kept])
  have fresh: "unused_token t ?b" if "t \<noteq> token" "unused_token t b" for t
    using that eff by (simp add: unused_token_def) metis
  show ?thesis
  proof (cases q)
    case (Inl err)
    then have "b' = ?b \<and> r = None" using assms(4) True o by (simp add: post_packet_def)
    with ok fresh show ?thesis by simp
  next
    case (Inr s)
    then have s: "s = token" using eff by blast
    let ?c = "c\<lparr>pc_subscription := Some token, pc_connected := True, pc_pending := pc_pending c @ [lit ''40/telemetry,'']\<rparr>"
    have b': "b' = set_client ?c ?b" "r = Some ?c" using assms(4) True o Inr s by (simp_all add: post_packet_def Let_def)
    have sub: "open_subscription ?c = Some token" using assms(3) by (simp add: open_subscription_def unused_token_def)
    have tok: "dget (gw_clients g) token \<noteq> None" using eff Inr s by blast
    have new: "open_subscription d \<noteq> Some token" if "dget (pb_clients b) k = Some d" for k d
      using bridge_okD(2) [OF assms(1) that] assms(3) by (auto simp: unused_token_def)
    have "bridge_ok (set_client ?c ?b)"
    proof (cases "dget (pb_clients b) (pc_sid c)")
      case None
      with ok show ?thesis by (simp add: set_client_def)
    next
      case (Some d)
      have l: "length (dset (pc_sid ?c) ?c (pb_clients ?b)) \<le> pb_max_clients ?b"
      proof -
        have "pc_sid c \<in> set (dkeys (pb_clients b))" using Some dget_None_iff by (metis option.distinct(1))
        then show ?thesis using bridge_ok_parts(2) [OF assms(1)] by (simp add: length_dset del: set_map)
      qed
      have "bridge_ok (?b\<lparr>pb_clients := dset (pc_sid ?c) ?c (pb_clients ?b)\<rparr>)"
      proof (rule put_client_ok [OF ok l])
        show "dget (gw_clients (pb_gateway ?b)) u \<noteq> None" if "open_subscription ?c = Some u" for u
          using that sub tok by simp
        show "k = pc_sid ?c" if "open_subscription ?c = Some u" "dget (pb_clients ?b) k = Some d'" "open_subscription d' = Some u" for u k d'
          using that sub new by auto
      qed
      with Some show ?thesis by (simp add: set_client_def)
    qed
    moreover have "in_use ?c (set_client ?c ?b)" by (simp add: in_use_def set_client_def dget_dset split: option.split)
    moreover have "unused_token t (set_client ?c ?b)" if "t \<noteq> token" "unused_token t b" for t
      using fresh [OF that] by (simp add: unused_token_def set_client_def)
    ultimately show ?thesis using b' by simp
  qed
qed


lemma post_packets_ok:
  "bridge_ok b \<Longrightarrow> in_use c b \<Longrightarrow> inj tokens \<Longrightarrow> (\<And>k. n \<le> k \<Longrightarrow> unused_token (tokens k) b) \<Longrightarrow>
   post_packets p clock tokens n packets c b = (b', r) \<Longrightarrow> bridge_ok b'"
proof (induction packets arbitrary: n c b)
  case (Cons packet packets)
  obtain d q where d: "post_packet p clock (tokens n) packet c b = (d, q)" by force
  note ok = post_packet_ok [OF Cons.prems(1,2) Cons.prems(4) [of n] d, OF order_refl]
  show ?case
  proof (cases q)
    case None
    with Cons.prems(5) d ok show ?thesis by simp
  next
    case (Some c')
    have "unused_token (tokens k) d" if "n + 1 \<le> k" for k
    proof -
      have "tokens k \<noteq> tokens n" using that injD [OF Cons.prems(3), of k n] by auto
      then show ?thesis using ok Cons.prems(4) [of k] that by simp
    qed
    with Cons.IH [of d c' "n + 1"] ok Some Cons.prems(3,5) d show ?thesis by simp
  qed
qed simp

lemma touch_client_ok:
  assumes "bridge_ok b" and "dget (pb_clients b) sid = Some c"
  shows "bridge_ok (set_client (c\<lparr>pc_last_activity := t\<rparr>) b) \<and> in_use (c\<lparr>pc_last_activity := t\<rparr>) (set_client (c\<lparr>pc_last_activity := t\<rparr>) b)"
proof -
  have "pc_sid c = sid" using bridge_okD(1) [OF assms] .
  then show ?thesis
    using set_client_ok [OF assms(1), of "c\<lparr>pc_last_activity := t\<rparr>" c] assms(2)
    by (simp add: open_subscription_def in_use_def set_client_def dget_dset)
qed

definition fresh_tokens_for :: "(nat \<Rightarrow> pystr) \<Rightarrow> bridge \<Rightarrow> bool" where
  "fresh_tokens_for tokens b \<longleftrightarrow> inj tokens \<and> (\<forall>k. unused_token (tokens k) b)"

lemma close_sid_token: "unused_token t b \<Longrightarrow> unused_token t (close_sid sid b)"
  by (auto simp: unused_token_def close_sid_def close_client_def dget_ddel split: option.split)

lemma expire_idle_token: "unused_token t b \<Longrightarrow> unused_token t (expire_idle now b)"
proof -
  have "unused_token t b \<Longrightarrow> unused_token t (fold close_sid sids b)" for sids b
    by (induction sids arbitrary: b) (simp_all add: close_sid_token)
  then show "unused_token t b \<Longrightarrow> unused_token t (expire_idle now b)" by (simp add: expire_idle_def)
qed

lemma post_ok:
  assumes "bridge_ok b" and "fresh_tokens_for tokens b"
    and "post sid session_id body who now active_at clock tokens b = (b', r)"
  shows "bridge_ok b'"
proof -
  let ?e = "expire_idle now b"
  have e: "bridge_ok ?e" by (rule expire_idle_ok [OF assms(1)])
  show ?thesis
  proof (cases "streams who \<and> (\<exists>c. dget (pb_clients ?e) sid = Some c \<and> pc_session c = session_id)")
    case False
    with assms e show ?thesis by (auto simp: post_def Let_def close_if_owned_ok split: if_splits option.splits)
  next
    case True
    then obtain c where c: "dget (pb_clients ?e) sid = Some c" "pc_session c = session_id" by blast
    let ?c = "c\<lparr>pc_last_activity := active_at\<rparr>"
    note t = touch_client_ok [OF e c(1), of active_at]
    have "unused_token (tokens k) (set_client ?c ?e)" for k
      using assms(2) expire_idle_token by (simp add: fresh_tokens_for_def unused_token_def set_client_def)
    then show ?thesis
      using post_packets_ok [of "set_client ?c ?e" ?c tokens 0] t True c assms(2,3)
      by (simp add: post_def Let_def fresh_tokens_for_def)
  qed
qed

section \<open>Polling\<close>

lemma poll_keeps_clients:
  assumes "poll g src s cursor clock reading observed = (g', r)"
  shows "dget (gw_clients g') k = None \<longleftrightarrow> dget (gw_clients g) k = None"
  using assms
proof (cases rule: poll_cases)
  case (recovered sub entry)
  then show ?thesis by (simp add: deliver_def Let_def dget_dset)
next
  case (replayed sub pending)
  then show ?thesis by (simp add: deliver_def Let_def dget_dset)
qed simp_all

lemma send_frames_ok:
  "bridge_ok b \<Longrightarrow> send_frames sid resolver n fs packets b = (b', r) \<Longrightarrow> bridge_ok b'"
  by (induction fs arbitrary: n packets) (auto simp: close_sid_ok split: if_splits option.splits)

text \<open>The redaction of the gateway never answers that a subscription is unknown.\<close>

lemma ebind_not: "r \<noteq> Inl e \<Longrightarrow> (\<And>x. f x \<noteq> Inl e) \<Longrightarrow> ebind r f \<noteq> Inl e"
  by (cases r) (auto simp: err_simps)

lemma emap_not: "(\<And>x. f x \<noteq> Inl e) \<Longrightarrow> emap f xs \<noteq> Inl e"
  by (induction xs) (auto simp: err_simps)

lemma project_not: "(\<And>k v. check k v \<noteq> Inl e) \<Longrightarrow> project check keys d \<noteq> Inl e"
  unfolding project_def by (intro emap_not ebind_not) auto

lemma checks_not:
  "bounded_text v \<noteq> Inl NotSubscribed" "bounded_counter v \<noteq> Inl NotSubscribed" "bounded_number m v \<noteq> Inl NotSubscribed"
  "bounded_sequence v \<noteq> Inl NotSubscribed" "bounded_flag v \<noteq> Inl NotSubscribed"
  by (auto simp: bounded_text_def bounded_counter_def bounded_number_def bounded_sequence_def bounded_flag_def
      split: jval.split option.split)

lemma redactions_not:
  "redact_session v \<noteq> Inl NotSubscribed" "redact_interface v \<noteq> Inl NotSubscribed"
  "check_metric_field k v \<noteq> Inl NotSubscribed" "check_reset_field k v \<noteq> Inl NotSubscribed"
proof -
  have "check_session_field k v \<noteq> Inl NotSubscribed" "check_interface_field k v \<noteq> Inl NotSubscribed" for k v
    by (simp_all add: check_session_field_def check_interface_field_def checks_not)
  then show "redact_session v \<noteq> Inl NotSubscribed" "redact_interface v \<noteq> Inl NotSubscribed"
    unfolding redact_session_def redact_interface_def by (intro ebind_not project_not; simp)+
  show "check_metric_field k v \<noteq> Inl NotSubscribed" by (simp add: check_metric_field_def checks_not)
  have "ebind (bounded_text v) (\<lambda>s. if s = JStr (lit ''session'') \<or> s = JStr (lit ''interface'') then Inr s else Inl ResetScopeInvalid)
      \<noteq> Inl NotSubscribed"
    by (intro ebind_not checks_not) simp
  then show "check_reset_field k v \<noteq> Inl NotSubscribed"
    unfolding check_reset_field_def by (auto simp: checks_not split: jval.split)
qed

lemma snapshot_payload_not: "snapshot_payload d \<noteq> Inl NotSubscribed"
proof -
  have inner: "(case dget d (lit ''interfaces'') of
               None \<Rightarrow> Inr (JDict [(lit ''sessions'', JList ss)])
             | Some (JList interfaces) \<Rightarrow>
                 if max_cached_interfaces < length interfaces then Inl TooManyInterfaces
                 else ebind (emap redact_interface interfaces)
                   (\<lambda>is. Inr (JDict [(lit ''sessions'', JList ss), (lit ''interfaces'', JList is)]))
             | Some _ \<Rightarrow> Inl TooManyInterfaces) \<noteq> Inl NotSubscribed" for ss
  proof -
    have "ebind (emap redact_interface is) (\<lambda>is. Inr (JDict [(lit ''sessions'', JList ss), (lit ''interfaces'', JList is)]))
        \<noteq> Inl NotSubscribed" for "is"
      by (intro ebind_not emap_not redactions_not) simp
    then show ?thesis by (simp split: jval.split option.split)
  qed
  have "ebind (emap redact_session sessions) (\<lambda>ss. f ss) \<noteq> Inl NotSubscribed" if "\<And>ss. f ss \<noteq> Inl NotSubscribed" for f sessions
    using that by (intro ebind_not emap_not redactions_not)
  from this [OF inner] show ?thesis unfolding snapshot_payload_def by (simp split: jval.split)
qed

lemma safe_payload_not: "safe_payload name d \<noteq> Inl NotSubscribed"
proof -
  have "ebind (project check keys d) (\<lambda>d. Inr (JDict d)) \<noteq> Inl NotSubscribed"
    if "\<And>k v. check k v \<noteq> Inl NotSubscribed" for check keys
    using that by (intro ebind_not project_not) auto
  then show ?thesis unfolding safe_payload_def by (simp add: snapshot_payload_not redactions_not)
qed

lemma snapshot_entry_not: "snapshot_entry g src clock reading \<noteq> Inl NotSubscribed"
proof -
  have "build_frame e \<noteq> Inl NotSubscribed" for e
  proof -
    have "(case json_size (frame_json f) of None \<Rightarrow> Inl NotSerializable
         | Some n \<Rightarrow> if max_frame_bytes < n then Inl FrameTooLarge else Inr (f, n)) \<noteq> Inl NotSubscribed" for f
      by (simp split: option.split)
    then have "ebind (bounded_sequence s) (\<lambda>sequence. ebind (bounded_sequence t) (\<lambda>timestamp.
        let f = \<lparr>fr_event = ge_name e, fr_sequence = sequence, fr_timestamp = timestamp, fr_payload = payload\<rparr> in
        (case json_size (frame_json f) of None \<Rightarrow> Inl NotSerializable
         | Some n \<Rightarrow> if max_frame_bytes < n then Inl FrameTooLarge else Inr (f, n)))) \<noteq> Inl NotSubscribed" for s t payload
      unfolding Let_def by (intro ebind_not checks_not)
    note b = ebind_not [OF safe_payload_not this]
    show ?thesis unfolding build_frame_def using b by simp
  qed
  then have "bounded_frame g e \<noteq> Inl NotSubscribed" for e
    unfolding bounded_frame_def by (intro ebind_not) (auto split: prod.split)
  then have "ebind (bounded_frame g e) (\<lambda>(f, n). Inr (f, reading, n)) \<noteq> Inl NotSubscribed" for e
    by (intro ebind_not) (auto split: prod.split)
  then show ?thesis unfolding snapshot_entry_def by (simp split: prod.split)
qed

lemma poll_client_ok:
  assumes "bridge_ok b" and "dget (pb_clients b) sid = Some c"
    and "poll_client sid src clock reading observed resolver c b = (b', r)"
  shows "bridge_ok b' \<and> r \<noteq> Inl (GatewayRaised NotSubscribed)"
proof (cases "pc_pending c = []")
  case False
  have "pc_sid c = sid" using bridge_okD(1) [OF assms(1,2)] .
  then have "bridge_ok (set_client (c\<lparr>pc_pending := []\<rparr>) b)"
    using assms(2) by (intro set_client_ok [OF assms(1)]) (simp_all add: open_subscription_def)
  with assms(3) False show ?thesis by (auto simp: poll_client_def)
next
  case True
  show ?thesis
  proof (cases "pc_connected c \<and> open_subscription c \<noteq> None")
    case False
    with True assms show ?thesis by (auto simp: poll_client_def split: bool.splits option.splits)
  next
    case sub: True
    then obtain s where s: "open_subscription c = Some s" by blast
    obtain g q where p: "poll (pb_gateway b) src s None clock reading observed = (g, q)" by force
    have g: "gateway_ok g" using poll_ok p bridge_ok_parts(3) [OF assms(1)] by blast
    have ok: "bridge_ok (b\<lparr>pb_gateway := g\<rparr>)"
      using poll_keeps_clients [OF p] by (intro change_gateway_ok [OF assms(1) g]) simp
    have known: "q \<noteq> Inl NotSubscribed"
    proof
      assume "q = Inl NotSubscribed"
      with p bridge_okD(2) [OF assms(1,2) s] show False
        by (cases rule: poll_cases) (auto simp: snapshot_entry_not)
    qed
    show ?thesis
    proof (cases q)
      case (Inl err)
      with assms(3) True sub s p ok known show ?thesis by (auto simp: poll_client_def)
    next
      case (Inr frames)
      obtain d x where x: "send_frames sid resolver 0 frames [] (b\<lparr>pb_gateway := g\<rparr>) = (d, x)" by force
      have "x \<noteq> Inl (GatewayRaised NotSubscribed)"
      proof -
        have "send_frames sid resolver n fs packets e \<noteq> (d, Inl (GatewayRaised NotSubscribed))" for n fs packets e
          by (induction fs arbitrary: n packets) (auto split: option.splits)
        with x show ?thesis by metis
      qed
      with assms(3) True sub s p Inr x send_frames_ok [OF ok x] show ?thesis
        by (auto simp: poll_client_def split: sum.splits)
    qed
  qed
qed

section \<open>Runs\<close>

text \<open>A bridge in use. \<open>gateway_moves\<close> is any other use of the gateway (publishing, the streams of other
  transports) that leaves the subscriptions of the table open. A \<open>poll\<close> that waits is a \<open>poll_enters\<close> and
  later a \<open>poll_resumes\<close>; one that does not wait is a \<open>polls\<close>.\<close>

inductive bridge_run :: "bridge \<Rightarrow> bool" where
  bridge_start: "gateway_run g out \<Longrightarrow> bridge_run (new_bridge g idle_timeout max_clients)"
| handshakes: "bridge_run b \<Longrightarrow> handshake session_id who now sid b = (b', hs) \<Longrightarrow> bridge_run b'"
| posts: "bridge_run b \<Longrightarrow> fresh_tokens_for tokens b \<Longrightarrow>
    post sid session_id body who now active_at clock tokens b = (b', ok) \<Longrightarrow> bridge_run b'"
| polls: "bridge_run b \<Longrightarrow>
    poll_bridge sid session_id who now active_at id src clock reading observed resolver b = (b', answer) \<Longrightarrow> bridge_run b'"
| poll_enters: "bridge_run b \<Longrightarrow> poll_enter sid session_id who now active_at b = (b', stage) \<Longrightarrow> bridge_run b'"
| poll_resumes: "bridge_run b \<Longrightarrow>
    poll_resume sid src clock reading observed resolver b = (b', answer) \<Longrightarrow> bridge_run b'"
| closes: "bridge_run b \<Longrightarrow> bridge_run (close_sid sid b)"
| gateway_moves: "bridge_run b \<Longrightarrow> gateway_step (pb_gateway b) frames g \<Longrightarrow>
    (\<forall>(sid, c)\<in>set (pb_clients b). \<forall>s. open_subscription c = Some s \<longrightarrow> dget (gw_clients g) s \<noteq> None) \<Longrightarrow>
    bridge_run (b\<lparr>pb_gateway := g\<rparr>)"

lemma poll_resume_ok:
  assumes "bridge_ok b" and "poll_resume sid src clock reading observed resolver b = (b', r)"
  shows "bridge_ok b' \<and> r \<noteq> Inl (GatewayRaised NotSubscribed)"
proof (cases "dget (pb_clients b) sid")
  case (Some c)
  with assms poll_client_ok [OF assms(1) Some, of src clock reading observed resolver b' r] show ?thesis
    by (simp add: poll_resume_def)
qed (use assms in \<open>auto simp: poll_resume_def\<close>)

lemma poll_enter_ok:
  assumes "bridge_ok b" and "poll_enter sid session_id who now active_at b = (b', stage)"
  shows "bridge_ok b' \<and> (\<forall>c. stage = Serve c \<longrightarrow> dget (pb_clients b') sid = Some c)"
proof -
  let ?e = "expire_idle now b"
  have e: "bridge_ok ?e" by (rule expire_idle_ok [OF assms(1)])
  show ?thesis
  proof (cases "streams who \<and> (\<exists>c. dget (pb_clients ?e) sid = Some c \<and> pc_session c = session_id)")
    case False
    with assms e show ?thesis by (auto simp: poll_enter_def Let_def close_if_owned_ok split: if_splits option.splits)
  next
    case True
    then obtain c where c: "dget (pb_clients ?e) sid = Some c" "pc_session c = session_id" by blast
    note touch_client_ok [OF e c(1), of active_at]
    moreover have "pc_sid c = sid" using bridge_okD(1) [OF e c(1)] .
    moreover have "b' = set_client (c\<lparr>pc_last_activity := active_at\<rparr>) ?e \<and> (\<forall>d. stage = Serve d \<longrightarrow> d = c\<lparr>pc_last_activity := active_at\<rparr>)"
      using assms(2) True c by (auto simp: poll_enter_def Let_def split: if_splits)
    ultimately show ?thesis using c(1) by (auto simp: set_client_def dget_dset)
  qed
qed

lemma poll_bridge_ok:
  assumes "bridge_ok b" and "\<And>b. bridge_ok b \<Longrightarrow> bridge_ok (meanwhile b)"
    and "poll_bridge sid session_id who now active_at meanwhile src clock reading observed resolver b = (b', r)"
  shows "bridge_ok b' \<and> r \<noteq> Inl (GatewayRaised NotSubscribed)"
proof -
  obtain d stage where d: "poll_enter sid session_id who now active_at b = (d, stage)" by force
  note ok = poll_enter_ok [OF assms(1) d]
  show ?thesis
  proof (cases stage)
    case Refused
    with assms(3) d ok show ?thesis by (auto simp: poll_bridge_def)
  next
    case (Serve c)
    with assms(3) d ok poll_client_ok [of d sid c src clock reading observed resolver b' r] show ?thesis
      by (simp add: poll_bridge_def)
  next
    case AwaitNamespace
    then have "poll_resume sid src clock reading observed resolver (meanwhile d) = (b', r)"
      using assms(3) d by (simp add: poll_bridge_def)
    with poll_resume_ok assms(2) ok show ?thesis by blast
  qed
qed

lemma bridge_run_ok: "bridge_run b \<Longrightarrow> bridge_ok b"
proof (induction rule: bridge_run.induct)
  case (bridge_start g out idle_timeout max_clients)
  then show ?case using gateway_run_ok new_bridge_ok by blast
next
  case (polls b sid session_id who now active_at src clock reading observed resolver b' answer)
  then show ?case using poll_bridge_ok [OF polls.IH, of id] by auto
next
  case (gateway_moves b frames g)
  have g: "gateway_ok g" using gateway_step_ok gateway_moves.hyps(2) bridge_ok_parts(3) [OF gateway_moves.IH] by blast
  show ?case
  proof (rule bridge_okI)
    show "dget (gw_clients (pb_gateway (b\<lparr>pb_gateway := g\<rparr>))) s \<noteq> None"
      if "dget (pb_clients (b\<lparr>pb_gateway := g\<rparr>)) sid = Some c" "open_subscription c = Some s" for sid c s
      using gateway_moves.hyps(3) dget_Some_in [of "pb_clients b" sid c] that by force
    show "pc_sid c = sid" if "dget (pb_clients (b\<lparr>pb_gateway := g\<rparr>)) sid = Some c" for sid c
      using bridge_okD(1) [OF gateway_moves.IH] that by simp
    show "sid' = sid" if "dget (pb_clients (b\<lparr>pb_gateway := g\<rparr>)) sid = Some c" "open_subscription c = Some s"
      "dget (pb_clients (b\<lparr>pb_gateway := g\<rparr>)) sid' = Some c'" "open_subscription c' = Some s" for sid c s sid' c'
      using bridge_okD(3) [OF gateway_moves.IH _ that(2) _ that(4)] that(1,3) by simp
  qed (use g bridge_ok_parts [OF gateway_moves.IH] in simp_all)
next
  case (handshakes b session_id who now sid b' hs)
  then show ?case using handshake_ok by blast
next
  case (posts b tokens sid session_id body who now active_at clock b' ok)
  then show ?case using post_ok by blast
next
  case (poll_enters b sid session_id who now active_at b' stage)
  then show ?case using poll_enter_ok by blast
next
  case (poll_resumes b sid src clock reading observed resolver b' answer)
  then show ?case using poll_resume_ok by blast
next
  case (closes b sid)
  then show ?case by (simp add: close_sid_ok)
qed

section \<open>What a poll sends\<close>

lemma close_sid_gone: "dict_ok (pb_clients b) \<Longrightarrow> dget (pb_clients (close_sid sid b)) sid = None"
  by (auto simp: close_sid_def dget_ddel split: option.split)

lemma close_sid_keeps: "dget (pb_clients (close_sid sid b)) k \<in> {None, dget (pb_clients b) k}"
  by (auto simp: close_sid_def dget_ddel split: option.split)

lemma expire_idle_keeps: "dget (pb_clients (expire_idle now b)) k \<in> {None, dget (pb_clients b) k}"
proof -
  have "dget (pb_clients (fold close_sid sids b)) k \<in> {None, dget (pb_clients b) k}" for sids
  proof (induction sids arbitrary: b)
    case (Cons sid sids)
    show ?case using Cons.IH [of "close_sid sid b"] close_sid_keeps [of sid b k] by auto
  qed simp
  then show ?thesis by (simp add: expire_idle_def)
qed

lemma send_frames_prefix:
  assumes "send_frames sid resolver n fs packets b = (b', Inr sent)"
  shows "\<exists>k\<le>length fs. map Some sent = map Some packets @ map frame_packet (take k fs) \<and> (\<forall>i<k. streams (resolver (n + i))) \<and>
    (if k = length fs then b' = b else \<not> streams (resolver (n + k)) \<and> b' = close_sid sid b)"
  using assms
proof (induction fs arbitrary: n packets)
  case (Cons f fs)
  show ?case
  proof (cases "streams (resolver n)")
    case False
    with Cons.prems show ?thesis by (intro exI [of _ 0]) auto
  next
    case True
    with Cons.prems obtain p where p: "frame_packet f = Some p" by (cases "frame_packet f") auto
    with Cons.prems True have "send_frames sid resolver (n + 1) fs (packets @ [p]) b = (b', Inr sent)" by simp
    from Cons.IH [OF this] obtain k where k: "k \<le> length fs"
      "map Some sent = map Some (packets @ [p]) @ map frame_packet (take k fs)" "\<forall>i<k. streams (resolver (n + 1 + i))"
      "if k = length fs then b' = b else \<not> streams (resolver (n + 1 + k)) \<and> b' = close_sid sid b" by blast
    have "\<forall>i<Suc k. streams (resolver (n + i))"
      using k(3) True by (auto simp: less_Suc_eq_0_disj)
    with k p show ?thesis by (intro exI [of _ "Suc k"]) auto
  qed
qed simp

section \<open>Properties\<close>

text \<open>C6: a transport identifier is worth nothing outside the session that made the handshake. A \<open>post\<close>
  or \<open>poll\<close> with the identifier of another session's client is refused, opens and polls no
  subscription, and leaves the bridge as it is, apart from the expiry of idle clients.\<close>

theorem polling_clients_keep_to_their_session:
  assumes "dget (pb_clients b) sid = Some c" and "pc_session c \<noteq> session_id"
  shows "post sid session_id body who now active_at clock tokens b = (if streams who then expire_idle now b else b, False) \<and>
    poll_bridge sid session_id who now active_at meanwhile src clock reading observed resolver b =
      (if streams who then expire_idle now b else b, Inr None)"
proof (cases "streams who")
  case False
  with assms show ?thesis by (simp add: post_def poll_bridge_def poll_enter_def close_if_owned_def)
next
  case True
  with assms expire_idle_keeps [of now b sid] show ?thesis
    by (auto simp: post_def poll_bridge_def poll_enter_def Let_def)
qed

text \<open>C28: every frame a poll sends was preceded by an authorisation check of its own. The answer holds
  the packets of a prefix of the gateway's frames, the session could stream before each of them, and if the prefix is
  proper the session could not stream any more and its client has left the table.\<close>

theorem polled_frames_are_authorised:
  assumes "send_frames sid resolver 0 frames [] b = (b', Inr packets)" and "dict_ok (pb_clients b)"
  shows "\<exists>k\<le>length frames. map Some packets = map frame_packet (take k frames) \<and> (\<forall>i<k. streams (resolver i)) \<and>
    (k < length frames \<longrightarrow> \<not> streams (resolver k) \<and> dget (pb_clients b') sid = None)"
proof -
  from send_frames_prefix [OF assms(1)] obtain k where "k \<le> length frames"
    "map Some packets = map frame_packet (take k frames)" "\<forall>i<k. streams (resolver i)"
    "if k = length frames then b' = b else \<not> streams (resolver (0 + k)) \<and> b' = close_sid sid b"
    by (auto simp only: list.map append_Nil add_0)
  with close_sid_gone [OF assms(2)] show ?thesis by (intro exI [of _ k]) auto
qed

text \<open>in every run the table of polling clients stays within its bound, every client sits under
  its own identifier, its subscription is open at the gateway and belongs to no other client; so a poll of the bridge
  never fails because the gateway does not know the subscription.\<close>

theorem polling_table_is_consistent:
  assumes "bridge_run b"
  shows "length (pb_clients b) \<le> pb_max_clients b \<and>
    (\<forall>sid c. dget (pb_clients b) sid = Some c \<longrightarrow> pc_sid c = sid) \<and> subscribed b \<and>
    snd (poll_bridge sid session_id who now active_at id src clock reading observed resolver b) \<noteq> Inl (GatewayRaised NotSubscribed)"
proof -
  note ok = bridge_run_ok [OF assms]
  obtain b' r where r: "poll_bridge sid session_id who now active_at id src clock reading observed resolver b = (b', r)" by force
  with poll_bridge_ok [OF ok _ r] ok show ?thesis by (simp add: bridge_ok_def)
qed

section \<open>Witnesses\<close>

definition demo_streamer :: principal where
  "demo_streamer = \<lparr>pr_authenticated = True, pr_auth_method = lit ''routeros'', pr_role = [],
     pr_capabilities = Some [lit ''sessions.read'']\<rparr>"

lemma demo_streams: "streams (Some demo_streamer)" "may_stream demo_streamer" "\<not> streams None"
  by (simp_all add: streams_def may_stream_def can_read_sessions_def demo_streamer_def)

definition demo_bridge :: bridge where
  "demo_bridge = fst (handshake [7] (Some demo_streamer) 0 [1] (new_bridge (new_gateway 2 1 1000 1000) 45 1))"

lemma demo_bridge_clients:
  "pb_clients demo_bridge = [([1], \<lparr>pc_sid = [1], pc_session = [7], pc_last_activity = 0, pc_subscription = None,
     pc_connected = False, pc_pending = []\<rparr>)]"
  "pb_idle_timeout demo_bridge = 45" "pb_gateway demo_bridge = new_gateway 2 1 1000 1000" "pb_max_clients demo_bridge = 1"
  by (simp_all add: demo_bridge_def handshake_def demo_streams new_bridge_def expire_idle_def Let_def)

lemma demo_bridge_run: "bridge_run demo_bridge"
proof -
  obtain r where "handshake [7] (Some demo_streamer) 0 [1] (new_bridge (new_gateway 2 1 1000 1000) 45 1) = (demo_bridge, r)"
    unfolding demo_bridge_def by (metis prod.collapse)
  with handshakes [OF bridge_start [OF gateway_start]] show ?thesis by blast
qed

theorem polling_clients_keep_to_their_session_witness:
  "post [1] [8] [] (Some demo_streamer) 0 0 0 (\<lambda>k. []) demo_bridge = (expire_idle 0 demo_bridge, False)"
proof -
  have "dget (pb_clients demo_bridge) [1] = Some (snd (hd (pb_clients demo_bridge)))" by (simp add: demo_bridge_clients)
  moreover have "pc_session (snd (hd (pb_clients demo_bridge))) \<noteq> [8]" by (simp add: demo_bridge_clients)
  ultimately have "post [1] [8] [] (Some demo_streamer) 0 0 0 (\<lambda>k. []) demo_bridge =
      (if streams (Some demo_streamer) then expire_idle 0 demo_bridge else demo_bridge, False)"
    by (rule polling_clients_keep_to_their_session [THEN conjunct1])
  then show ?thesis by (simp add: demo_streams)
qed

definition bridge_frame :: frame where
  "bridge_frame = \<lparr>fr_event = [65], fr_sequence = 1, fr_timestamp = 0, fr_payload = JDict []\<rparr>"

theorem polled_frames_are_authorised_witness:
  "\<exists>k\<le>2. [the (frame_packet bridge_frame)] = map (\<lambda>f. the (frame_packet f)) (take k [bridge_frame, bridge_frame]) \<and> k < 2"
proof -
  have p: "frame_packet bridge_frame \<noteq> None"
    by (simp add: frame_packet_def bridge_frame_def frame_json_def)
  then have "send_frames [1] (\<lambda>n. if n = 0 then Some demo_streamer else None) 0 [bridge_frame, bridge_frame] [] demo_bridge =
      (close_sid [1] demo_bridge, Inr [the (frame_packet bridge_frame)])"
    by (auto simp: demo_streams)
  note sent = polled_frames_are_authorised [OF this]
  have "dict_ok (pb_clients demo_bridge)" by (simp add: demo_bridge_clients dict_ok_def)
  from sent [OF this] obtain k where k: "k \<le> length [bridge_frame, bridge_frame]"
    "map Some [the (frame_packet bridge_frame)] = map frame_packet (take k [bridge_frame, bridge_frame])" by blast
  from arg_cong [OF k(2), of length] have "k = 1" using k(1) by (simp add: min_def split: if_splits)
  then show ?thesis by (intro exI [of _ 1]) simp
qed

theorem polling_table_is_consistent_witness:
  "subscribed demo_bridge \<and> snd (poll_bridge [1] [7] (Some demo_streamer) 0 0 id (broker_source (\<lambda>r. []) (new_broker 1 1)) 0 0 0
     (\<lambda>n. None) demo_bridge) \<noteq> Inl (GatewayRaised NotSubscribed)"
  using polling_table_is_consistent [OF demo_bridge_run] by blast

text \<open>A client that closes itself and opens the namespace in the same request body leaves a subscription at the
  gateway that no client of the table owns: nothing closes it, and it keeps one of the gateway's places.\<close>

lemma closed_client_leaks_a_subscription:
  "post [1] [7] [49, 30, 52, 48] (Some demo_streamer) 0 0 0 (\<lambda>k. [5]) demo_bridge = (b', r) \<Longrightarrow>
     r \<and> pb_clients b' = [] \<and> dkeys (gw_clients (pb_gateway b')) = [[5]]"
  by (auto simp: post_def demo_streams Let_def expire_idle_def demo_bridge_clients set_client_def
      post_packet_def starts_with_def close_sid_def open_subscription_def open_client_def new_gateway_def lit_def of_char_def AList.delete_eq)

end
