(* ===== verification/Qr_Codewords.thy ===== *)
theory Qr_Codewords
  imports Prelude
begin

text \<open>
  \<open>qr.py\<close>, the code words of a symbol: multiplication in the field of 256 elements, the Reed-Solomon
  remainder, the data code words of a URL and the protected format value. Code words are natural numbers; \<open>codewords\<close>
  says that they are bytes.
\<close>

unbundle bit_operations_syntax

section \<open>Arithmetic of code words\<close>

definition qr_version :: nat where "qr_version = 5"
definition qr_size :: nat where "qr_size = 17 + qr_version * 4"
definition data_codewords_limit :: nat where "data_codewords_limit = 108"
definition ecc_codewords :: nat where "ecc_codewords = 26"

text \<open>\<open>((a << 1) ^ 0x11D) if a & 0x80 else (a << 1)\<close>, and the loop of \<open>_gf_mul\<close>.\<close>

definition gf_double :: "nat \<Rightarrow> nat" where
  "gf_double a = (if a AND 128 \<noteq> 0 then push_bit 1 a XOR 285 else push_bit 1 a)"

fun gf_loop :: "nat \<Rightarrow> nat \<Rightarrow> nat \<Rightarrow> nat" where
  "gf_loop result a b =
     (if b = 0 then result
      else gf_loop (if b AND 1 \<noteq> 0 then result XOR a else result) (gf_double a) (b div 2))"

declare gf_loop.simps [simp del]

definition gf_mul :: "nat \<Rightarrow> nat \<Rightarrow> nat" where
  "gf_mul left right = gf_loop 0 left right AND 255"

text \<open>\<open>xs[i] ^= v\<close>, and the loops of \<open>_ecc\<close>.\<close>

definition xor_at :: "nat \<Rightarrow> nat \<Rightarrow> nat list \<Rightarrow> nat list" where
  "xor_at i v xs = xs[i := xs ! i XOR v]"

definition expand :: "nat list \<Rightarrow> nat \<Rightarrow> nat list" where
  "expand generator rt =
     fold (\<lambda>(index, coefficient) expanded.
         xor_at (index + 1) (gf_mul coefficient rt) (xor_at index coefficient expanded))
       (enumerate 0 generator) (replicate (length generator + 1) 0)"

definition generator_step :: "nat list \<times> nat \<Rightarrow> nat list \<times> nat" where
  "generator_step = (\<lambda>(generator, rt). (expand generator rt, gf_mul rt 2))"

definition ecc_generator :: "nat list" where
  "ecc_generator = fst ((generator_step ^^ ecc_codewords) ([1], 1))"

definition reduce :: "nat list \<Rightarrow> nat \<Rightarrow> nat list \<Rightarrow> nat list" where
  "reduce generator index remainder =
     (let factor = remainder ! index in
      if factor \<noteq> 0 then
        fold (\<lambda>(offset, coefficient) remainder. xor_at (index + offset) (gf_mul coefficient factor) remainder)
          (enumerate 0 generator) remainder
      else remainder)"

definition ecc :: "nat list \<Rightarrow> nat list" where
  "ecc data =
     (let remainder = fold (reduce ecc_generator) [0..<length data] (data @ replicate ecc_codewords 0) in
      drop (length remainder - ecc_codewords) remainder)"

section \<open>The code words of a URL\<close>

text \<open>\<open>(value >> shift) & 1 for shift in range(7, -1, -1)\<close>.\<close>

definition byte_bits :: "nat \<Rightarrow> nat list" where
  "byte_bits v = map (\<lambda>shift. drop_bit shift v AND 1) (rev [0..<8])"

fun words_of_bits :: "nat list \<Rightarrow> nat list" where
  "words_of_bits (b7 # b6 # b5 # b4 # b3 # b2 # b1 # b0 # bits) =
     (push_bit 7 b7 + push_bit 6 b6 + push_bit 5 b5 + push_bit 4 b4 + push_bit 3 b3 + push_bit 2 b2 + push_bit 1 b1 + b0)
       # words_of_bits bits"
| "words_of_bits _ = []"

datatype qr_error = NotEncodable | UrlTooLong

definition pad_words :: "nat list \<Rightarrow> nat list" where
  "pad_words ws = ws @ map (\<lambda>i. if i AND 1 = 0 then 236 else 17) [0..<data_codewords_limit - length ws]"

definition data_codewords :: "pystr \<Rightarrow> qr_error + nat list" where
  "data_codewords v =
     (case utf8_encode v of
        None \<Rightarrow> Inl NotEncodable
      | Some payload \<Rightarrow>
          if 100 < length payload then Inl UrlTooLong
          else
            let bits = [0, 1, 0, 0] @ byte_bits (length payload) @ concat (map (\<lambda>b. byte_bits (unat b)) payload);
                capacity = data_codewords_limit * 8;
                bits = bits @ replicate (min 4 (capacity - length bits)) 0;
                bits = bits @ replicate (nat ((- int (length bits)) mod 8)) 0 in
            Inr (pad_words (words_of_bits bits)))"

section \<open>The format value\<close>

fun bit_length :: "nat \<Rightarrow> nat" where
  "bit_length n = (if n = 0 then 0 else bit_length (n div 2) + 1)"

declare bit_length.simps [simp del]

definition format_generator :: nat where "format_generator = 1335"

lemma bit_length_le_iff: "bit_length n \<le> k \<longleftrightarrow> n < 2 ^ k"
proof (induction k arbitrary: n)
  case (Suc k)
  show ?case
  proof (cases "n = 0")
    case False
    then have "bit_length n \<le> Suc k \<longleftrightarrow> bit_length (n div 2) \<le> k" by (subst bit_length.simps) simp
    also have "\<dots> \<longleftrightarrow> n < 2 ^ Suc k" using Suc.IH [of "n div 2"] by auto
    finally show ?thesis .
  qed (simp add: bit_length.simps)
qed (subst bit_length.simps, simp)


lemma top_bit: "n < 2 ^ Suc k \<Longrightarrow> \<not> n < 2 ^ k \<Longrightarrow> bit (n :: nat) k"
proof -
  assume n: "n < 2 ^ Suc k" "\<not> n < 2 ^ k"
  then have "n div 2 ^ k = 1" by (intro div_nat_eqI) simp_all
  then show ?thesis by (simp add: bit_iff_odd)
qed

lemma below_top: "(n :: nat) < 2 ^ Suc k \<Longrightarrow> \<not> bit n k \<Longrightarrow> n < 2 ^ k"
  using top_bit by blast

lemma xor_below:
  assumes "(a :: nat) < 2 ^ Suc k" "\<not> a < 2 ^ k" "b < 2 ^ Suc k" "\<not> b < 2 ^ k"
  shows "a XOR b < 2 ^ k"
proof (rule below_top)
  have "take_bit (Suc k) (a XOR b) = a XOR b"
    using assms(1,3) by (simp add: take_bit_xor take_bit_nat_eq_self)
  then show "a XOR b < 2 ^ Suc k" by (metis take_bit_nat_less_exp)
  show "\<not> bit (a XOR b) k" using top_bit assms by (simp add: bit_xor_iff)
qed

text \<open>The loop takes away the highest bit of the remainder, so it ends.\<close>

function bch_loop :: "nat \<Rightarrow> nat" where
  "bch_loop remainder =
     (if bit_length remainder < bit_length format_generator then remainder
      else bch_loop (remainder XOR push_bit (bit_length remainder - bit_length format_generator) format_generator))"
  by auto

lemma bit_length_generator: "bit_length format_generator = 11"
proof (rule antisym)
  show "bit_length format_generator \<le> 11" by (simp add: bit_length_le_iff format_generator_def)
  have "\<not> bit_length format_generator \<le> 10" by (simp add: bit_length_le_iff format_generator_def)
  then show "11 \<le> bit_length format_generator" by simp
qed

termination bch_loop
proof (relation "measure id")
  fix r assume l: "\<not> bit_length r < bit_length format_generator"
  define k where "k = bit_length r - 1"
  have k: "bit_length r = Suc k" "10 \<le> k" using l by (simp_all add: k_def bit_length_generator)
  have r: "r < 2 ^ Suc k" "\<not> r < 2 ^ k"
    using bit_length_le_iff [of r "Suc k"] bit_length_le_iff [of r k] k(1) by simp_all
  have "(2 :: nat) ^ Suc k = 2 ^ (k - 10) * 2048" "(2 :: nat) ^ k = 2 ^ (k - 10) * 1024"
    using power_add [of "2 :: nat" "k - 10" 10] k(2) by simp_all
  then have "push_bit (k - 10) format_generator < 2 ^ Suc k" "\<not> push_bit (k - 10) format_generator < 2 ^ k"
    by (simp_all add: push_bit_eq_mult format_generator_def)
  with r have "r XOR push_bit (k - 10) format_generator < 2 ^ k" by (intro xor_below)
  with r(2) show "(r XOR push_bit (bit_length r - bit_length format_generator) format_generator, r) \<in> measure id"
    by (simp add: k(1) bit_length_generator)
qed simp

declare bch_loop.simps [simp del]

text \<open>The remainder of the shifted value under the generator is its check part.\<close>

definition bch_format :: "nat \<Rightarrow> nat" where
  "bch_format v = (push_bit 10 v OR bch_loop (push_bit 10 v)) XOR 21522"

lemma bch_formats: "map bch_format [8..<16] = [30660, 29427, 32170, 30877, 26159, 25368, 27713, 26998]"
  by (simp add: upt_rec bch_format_def bit_length_generator push_bit_eq_mult bch_loop.simps bit_length.simps format_generator_def)

section \<open>The field of 256 elements\<close>

abbreviation codewords :: "nat list \<Rightarrow> bool" where
  "codewords xs \<equiv> \<forall>x\<in>set xs. x < 256"

lemma bit_above: "(x :: nat) < 2 ^ k \<Longrightarrow> k \<le> n \<Longrightarrow> \<not> bit x n"
  by (metis bit_take_bit_iff take_bit_nat_eq_self not_le)

lemma less_256_iff: "(x :: nat) < 256 \<longleftrightarrow> (\<forall>n\<ge>8. \<not> bit x n)"
proof
  assume "x < 256"
  then show "\<forall>n\<ge>8. \<not> bit x n" using bit_above [of x 8] by simp
next
  assume "\<forall>n\<ge>8. \<not> bit x n"
  then have "take_bit 8 x = x" by (intro bit_eqI) (use not_less in \<open>auto simp: bit_take_bit_iff\<close>)
  then show "x < 256" using take_bit_nat_less_exp [of 8 x] by simp
qed

lemma xor_less_256 [simp, intro]: "a < 256 \<Longrightarrow> b < 256 \<Longrightarrow> (a :: nat) XOR b < 256"
  by (simp add: less_256_iff bit_simps)

lemma gf_double_bit: "gf_double a = (if bit a 7 then push_bit 1 a XOR 285 else push_bit 1 a)"
proof -
  have "a AND 128 \<noteq> 0 \<longleftrightarrow> bit a 7" using bit_iff_and_push_bit_not_eq_0 [of a 7] by simp
  then show ?thesis by (simp add: gf_double_def)
qed

lemma gf_double_less [simp]: "a < 256 \<Longrightarrow> gf_double a < 256"
proof -
  assume a: "a < 256"
  have 285: "bit (285 :: nat) n \<longleftrightarrow> n = 8" if "8 \<le> n" for n
  proof (cases "n = 8")
    case False
    with that have "\<not> bit (285 :: nat) n" by (intro bit_above [of _ 9]) simp_all
    with False show ?thesis by simp
  qed (simp add: bit_0)
  have "\<not> bit (gf_double a) n" if n: "8 \<le> n" for n
  proof -
    have "bit (push_bit 1 a) n \<longleftrightarrow> n = 8 \<and> bit a 7"
    proof -
      have "\<not> bit a (n - 1)" if "n \<noteq> 8" using a n that by (simp add: less_256_iff)
      moreover have "n = 8 \<Longrightarrow> n - 1 = 7" by simp
      ultimately show ?thesis using n unfolding bit_push_bit_iff by (cases "n = 8") auto
    qed
    then show ?thesis using n 285 [OF n] by (auto simp: gf_double_bit bit_simps)
  qed
  then show ?thesis by (simp add: less_256_iff)
qed

lemma gf_double_xor: "gf_double (a XOR b) = gf_double a XOR gf_double b"
  by (simp add: gf_double_bit bit_xor_iff push_bit_xor xor.assoc xor.left_commute [of 285] xor.commute [of 285])

lemma xor_cancel [simp]: "(a :: nat) XOR (a XOR b) = b"
  by (simp flip: xor.assoc)

lemma xor_swap: "((a :: nat) XOR b) XOR c = (a XOR c) XOR b"
  by (metis xor.assoc xor.commute)

lemma gf_double_0 [simp]: "gf_double 0 = 0"
  by (simp add: gf_double_def)

lemma gf_loop_0 [simp]: "gf_loop r a 0 = r"
  by (simp add: gf_loop.simps)

lemma odd_and_1: "(b :: nat) AND 1 \<noteq> 0 \<longleftrightarrow> odd b"
  by (simp add: and_one_eq odd_iff_mod_2_eq_one)

lemma gf_loop_step:
  "b \<noteq> 0 \<Longrightarrow> gf_loop r a b = gf_loop (if odd b then r XOR a else r) (gf_double a) (b div 2)"
  using odd_and_1 by (subst gf_loop.simps) (simp only: if_False)

lemma gf_loop_result: "gf_loop r a b = r XOR gf_loop 0 a b"
proof (induction b arbitrary: r a rule: less_induct)
  case (less b)
  show ?case
  proof (cases "b = 0")
    case False
    then have l: "b div 2 < b" by simp
    have "gf_loop r a b = (if odd b then r XOR a else r) XOR gf_loop 0 (gf_double a) (b div 2)"
      unfolding gf_loop_step [OF False, of r] by (rule less.IH [OF l])
    moreover have "gf_loop 0 a b = (if odd b then a else 0) XOR gf_loop 0 (gf_double a) (b div 2)"
      unfolding gf_loop_step [OF False, of 0] using less.IH [OF l, of a "gf_double a"] by simp
    ultimately show ?thesis by (simp add: xor.assoc)
  qed simp
qed

text \<open>Multiplication before the final mask, one bit of the right operand at a time.\<close>

lemma gf_loop_bits: "gf_loop 0 a b = (if odd b then a else 0) XOR gf_loop 0 (gf_double a) (b div 2)"
  by (cases "b = 0") (simp, subst gf_loop_step, simp_all add: gf_loop_result [of a])

lemma gf_loop_less: "a < 256 \<Longrightarrow> gf_loop 0 a b < 256"
proof (induction b arbitrary: a rule: less_induct)
  case (less b)
  then show ?case by (cases "b = 0") (simp, subst gf_loop_bits, auto)
qed

lemma gf_loop_xor_left: "gf_loop 0 (a XOR c) b = gf_loop 0 a b XOR gf_loop 0 c b"
proof (induction b arbitrary: a c rule: less_induct)
  case (less b)
  show ?case
  proof (cases "b = 0")
    case False
    then have "b div 2 < b" by simp
    from less.IH [OF this, of "gf_double a" "gf_double c"] show ?thesis
      by (subst (1 2 3) gf_loop_bits) (simp add: gf_double_xor xor.assoc xor.left_commute)
  qed simp
qed

lemma gf_loop_xor_right: "gf_loop 0 a (b XOR c) = gf_loop 0 a b XOR gf_loop 0 a c"
proof (induction b arbitrary: a c rule: less_induct)
  case (less b)
  show ?case
  proof (cases "b = 0")
    case False
    then have "b div 2 < b" by simp
    moreover have "(b XOR c) div 2 = (b div 2) XOR (c div 2)"
      using drop_bit_xor [of 1 b c] by (simp add: drop_bit_eq_div)
    moreover have "odd (b XOR c) \<longleftrightarrow> odd b \<noteq> odd c" by (metis bit_0 bit_xor_iff)
    ultimately show ?thesis
      using less.IH [of "b div 2" "gf_double a" "c div 2"]
      by (subst (1 2 3) gf_loop_bits) (simp add: xor.assoc xor.left_commute)
  qed simp
qed

lemma gf_loop_0_left [simp]: "gf_loop 0 0 b = 0"
  using gf_loop_xor_left [of 0 0 b] by simp

lemma gf_loop_double: "gf_loop 0 (gf_double a) b = gf_double (gf_loop 0 a b)"
proof (induction b arbitrary: a rule: less_induct)
  case (less b)
  show ?case
  proof (cases "b = 0")
    case False
    then have "b div 2 < b" by simp
    from less.IH [OF this, of "gf_double a"] show ?thesis
      by (subst (1 2) gf_loop_bits) (simp add: gf_double_xor)
  qed simp
qed

lemma gf_loop_Suc_even: "gf_loop 0 a b = (if odd b then a else 0) XOR gf_double (gf_loop 0 a (b div 2))"
  by (subst gf_loop_bits) (simp add: gf_loop_double)

lemma byte_split: "b < 256 \<Longrightarrow> b = (if odd b then 1 else 0) XOR gf_double (b div 2)"
proof -
  assume b: "b < 256"
  then have "b div 2 < 2 ^ 7" by simp
  then have "gf_double (b div 2) = 2 * (b div 2)" using bit_above [of "b div 2" 7 7] by (simp add: gf_double_bit push_bit_eq_mult)
  moreover have "b = (if odd b then 1 else 0) XOR 2 * (b div 2)"
  proof (cases "odd b")
    case True
    then obtain k where "b = 2 * k + 1" by (rule oddE)
    moreover have "1 XOR 2 * k = 2 * k + 1" unfolding one_xor_eq by simp
    ultimately show ?thesis by simp
  qed simp
  ultimately show ?thesis by simp
qed


lemma gf_loop_1: "b < 256 \<Longrightarrow> gf_loop 0 1 b = b"
proof (induction b rule: less_induct)
  case (less b)
  show ?case
  proof (cases "b = 0")
    case False
    with less have "gf_loop 0 1 (b div 2) = b div 2" by simp
    then show ?thesis using byte_split [OF less.prems] by (subst gf_loop_Suc_even) simp
  qed simp
qed

lemma gf_loop_commute: "a < 256 \<Longrightarrow> b < 256 \<Longrightarrow> gf_loop 0 a b = gf_loop 0 b a"
proof (induction b rule: less_induct)
  case (less b)
  show ?case
  proof (cases "b = 0")
    case False
    with less have ih: "gf_loop 0 a (b div 2) = gf_loop 0 (b div 2) a" by simp
    have "gf_loop 0 b a = gf_loop 0 ((if odd b then 1 else 0) XOR gf_double (b div 2)) a"
      using byte_split [OF less.prems(2)] by simp
    also have "\<dots> = (if odd b then a else 0) XOR gf_double (gf_loop 0 (b div 2) a)"
      using gf_loop_1 [OF less.prems(1)] by (simp add: gf_loop_xor_left gf_loop_double)
    also have "\<dots> = gf_loop 0 a b" unfolding ih [symmetric] by (rule gf_loop_Suc_even [symmetric])
    finally show ?thesis ..
  qed simp
qed

lemma gf_loop_assoc: "a < 256 \<Longrightarrow> b < 256 \<Longrightarrow> gf_loop 0 a (gf_loop 0 b c) = gf_loop 0 (gf_loop 0 a b) c"
proof (induction c rule: less_induct)
  case (less c)
  show ?case
  proof (cases "c = 0")
    case False
    let ?h = "gf_loop 0 b (c div 2)"
    have h: "?h < 256" using less.prems by (simp add: gf_loop_less)
    have "gf_loop 0 a (gf_double ?h) = gf_double (gf_loop 0 a ?h)"
      using less.prems h by (simp add: gf_loop_commute [of a] gf_loop_double)
    with False less show ?thesis
      by (subst (1 2) gf_loop_Suc_even [of _ c]) (simp add: gf_loop_xor_right)
  qed simp
qed

text \<open>The laws of \<open>gf_mul\<close> on bytes.\<close>

lemma gf_mul_loop: "a < 256 \<Longrightarrow> gf_mul a b = gf_loop 0 a b"
proof -
  assume "a < 256"
  then have "gf_loop 0 a b < 2 ^ 8" using gf_loop_less by simp
  then have "take_bit 8 (gf_loop 0 a b) = gf_loop 0 a b" by (rule take_bit_nat_eq_self)
  moreover have "gf_loop 0 a b AND 255 = take_bit 8 (gf_loop 0 a b)" by (simp add: take_bit_eq_mask mask_eq_exp_minus_1)
  ultimately show ?thesis by (simp add: gf_mul_def)
qed

lemma gf_mul_less [simp]: "gf_mul a b < 256"
proof -
  have "gf_loop 0 a b AND 255 = take_bit 8 (gf_loop 0 a b)" by (simp add: take_bit_eq_mask mask_eq_exp_minus_1)
  then show ?thesis using take_bit_nat_less_exp [of 8 "gf_loop 0 a b"] by (simp add: gf_mul_def)
qed

lemma gf_mul_0 [simp]: "gf_mul 0 b = 0" "gf_mul a 0 = 0"
  by (simp_all add: gf_mul_def)

lemma gf_mul_1 [simp]: "b < 256 \<Longrightarrow> gf_mul 1 b = b"
  using gf_mul_loop [of 1 b] gf_loop_1 by simp

lemma gf_mul_1_right [simp]: "b < 256 \<Longrightarrow> gf_mul b 1 = b"
  using gf_mul_loop [of b 1] gf_loop_commute [of b 1] gf_loop_1 by simp

lemmas gf_mul_Suc_0 [simp] = gf_mul_1 [unfolded One_nat_def] gf_mul_1_right [unfolded One_nat_def]

lemma gf_mul_xor_left: "a < 256 \<Longrightarrow> c < 256 \<Longrightarrow> gf_mul (a XOR c) b = gf_mul a b XOR gf_mul c b"
  by (simp add: gf_mul_loop gf_loop_xor_left)

lemma gf_mul_xor_right: "a < 256 \<Longrightarrow> gf_mul a (b XOR c) = gf_mul a b XOR gf_mul a c"
  by (simp add: gf_mul_loop gf_loop_xor_right)

lemma gf_mul_commute: "a < 256 \<Longrightarrow> b < 256 \<Longrightarrow> gf_mul a b = gf_mul b a"
  by (simp add: gf_mul_loop gf_loop_commute)

lemma gf_mul_assoc: "a < 256 \<Longrightarrow> b < 256 \<Longrightarrow> gf_mul a (gf_mul b c) = gf_mul (gf_mul a b) c"
  by (simp add: gf_mul_loop gf_loop_assoc gf_loop_less)

section \<open>The field of the standard\<close>

text \<open>ISO/IEC 18004 computes with polynomials over two elements modulo \<open>x^8 + x^4 + x^3 + x^2 + 1\<close>, each written as the number whose bits are
  its coefficients. The definitions of this section are taken from there and share nothing with the code's: a product without carries, its
  residue by long division, the powers of the generator 2 and the syndromes of a block.\<close>

definition field_polynomial :: nat where "field_polynomial = 2 ^ 8 + 2 ^ 4 + 2 ^ 3 + 2 ^ 2 + 1"

definition carryless :: "nat \<Rightarrow> nat \<Rightarrow> nat" where
  "carryless a b = fold (\<lambda>i v. if bit b i then v XOR push_bit i a else v) [0..<8] 0"

primrec residue :: "nat \<Rightarrow> nat \<Rightarrow> nat" where
  "residue 0 v = v"
| "residue (Suc k) v = residue k (if bit v (8 + k) then v XOR push_bit k field_polynomial else v)"

definition field_product :: "nat \<Rightarrow> nat \<Rightarrow> nat" where
  "field_product a b = residue 8 (carryless a b)"

primrec power_of_2 :: "nat \<Rightarrow> nat" where
  "power_of_2 0 = 1"
| "power_of_2 (Suc i) = field_product (power_of_2 i) 2"

definition syndrome :: "nat list \<Rightarrow> nat \<Rightarrow> nat" where
  "syndrome block i = fold (\<lambda>c v. field_product v (power_of_2 i) XOR c) block 0"

lemma field_polynomial: "field_polynomial = 285"
  by (simp add: field_polynomial_def)

lemma residue_xor: "residue k (u XOR v) = residue k u XOR residue k v"
proof (induction k arbitrary: u v)
  case (Suc k)
  let ?p = "push_bit k field_polynomial"
  have "u XOR v XOR ?p = (u XOR ?p) XOR v" "(u XOR ?p) XOR (v XOR ?p) = u XOR v" by (simp_all add: ac_simps xor_swap)
  then show ?case by (cases "bit u (8 + k)"; cases "bit v (8 + k)") (simp_all add: bit_xor_iff Suc.IH [symmetric] xor.assoc)
qed simp

text \<open>Doubling and taking the residue commute.\<close>

lemma residue_double: "residue (Suc k) (push_bit 1 v) = gf_double (residue k v)"
proof (induction k arbitrary: v)
  case 0
  have "bit (push_bit 1 v) (8 + 0) \<longleftrightarrow> bit v 7" unfolding bit_push_bit_iff_nat by simp
  then show ?case unfolding residue.simps gf_double_bit field_polynomial by simp
next
  case (Suc k)
  have "(if bit (push_bit 1 v) (8 + Suc k) then push_bit 1 v XOR push_bit (Suc k) field_polynomial else push_bit 1 v) =
      push_bit 1 (if bit v (8 + k) then v XOR push_bit k field_polynomial else v)"
  proof -
    have "bit (push_bit 1 v) (8 + Suc k) \<longleftrightarrow> bit v (8 + k)" unfolding bit_push_bit_iff_nat by simp
    moreover have "push_bit (Suc k) field_polynomial = push_bit 1 (push_bit k field_polynomial)" by simp
    ultimately show ?thesis by (cases "bit v (8 + k)") (simp_all only: push_bit_xor if_True if_False)
  qed
  then show ?case using Suc.IH by (metis residue.simps(2))
qed

lemma residue_small: "v < 2 ^ (8 + k) \<Longrightarrow> residue (k + n) v = residue k v"
proof (induction n)
  case (Suc n)
  then have "\<not> bit v (8 + (k + n))" by (intro bit_above [of _ "8 + k"]) simp_all
  with Suc show ?case by simp
qed simp

lemma residue_shifted: "residue n (push_bit n a) = (gf_double ^^ n) a"
proof (induction n)
  case (Suc n)
  have "push_bit (Suc n) a = push_bit 1 (push_bit n a)" by simp
  with residue_double [of n "push_bit n a"] Suc show ?case by simp
qed simp

lemma gf_loop_power: "gf_loop 0 a (2 ^ n) = (gf_double ^^ n) a"
proof (induction n)
  case 0
  show ?case using gf_loop_bits [of a 1] by simp
qed (simp add: gf_loop_Suc_even [of a "2 * _"])

lemma carryless_residue:
  assumes "a < 256" and "n \<le> 8"
  shows "residue 8 (fold (\<lambda>i v. if bit b i then v XOR push_bit i a else v) [0..<n] 0) = gf_loop 0 a (take_bit n b)"
  using assms(2)
proof (induction n)
  case 0
  show ?case using residue_small [of 0 0 8] by simp
next
  case (Suc n)
  have "push_bit n a < 2 ^ (8 + n)" using assms(1) by (simp add: push_bit_eq_mult power_add mult.commute)
  from residue_small [OF this, of "8 - n"] have "residue 8 (push_bit n a) = gf_loop 0 a (2 ^ n)"
    using Suc.prems by (simp add: residue_shifted gf_loop_power)
  moreover have "take_bit (Suc n) b = (if bit b n then take_bit n b XOR 2 ^ n else take_bit n b)"
  proof (rule bit_eqI)
    show "bit (take_bit (Suc n) b) m = bit (if bit b n then take_bit n b XOR 2 ^ n else take_bit n b) m" for m
      by (cases "m = n") (auto simp: bit_simps less_Suc_eq)
  qed
  ultimately show ?case using Suc by (simp add: residue_xor gf_loop_xor_right)
qed

text \<open>So the multiplication of the code is the product in the field of the standard.\<close>

lemma gf_mul_is_field_product:
  assumes "a < 256" and "b < 256"
  shows "gf_mul a b = field_product a b"
proof -
  have "take_bit 8 b = b" using assms(2) by (simp add: take_bit_nat_eq_self)
  then show ?thesis using carryless_residue [OF assms(1), of 8 b] by (simp add: field_product_def carryless_def gf_mul_loop assms(1))
qed

section \<open>Polynomials\<close>

text \<open>The value of a code word list, highest coefficient first, at a field element: what a decoder computes as a
  syndrome.\<close>

definition poly_at :: "nat list \<Rightarrow> nat \<Rightarrow> nat" where
  "poly_at cs x = fold (\<lambda>c acc. gf_mul acc x XOR c) cs 0"

primrec gf_pow :: "nat \<Rightarrow> nat \<Rightarrow> nat" where
  "gf_pow x 0 = 1"
| "gf_pow x (Suc n) = gf_mul (gf_pow x n) x"

lemma gf_pow_less [simp]: "gf_pow x n < 256"
  by (cases n) simp_all

lemma gf_pow_add: "x < 256 \<Longrightarrow> gf_pow x (m + n) = gf_mul (gf_pow x m) (gf_pow x n)"
  by (induction n) (simp_all add: gf_mul_assoc)

lemma poly_fold:
  "x < 256 \<Longrightarrow> codewords cs \<Longrightarrow> acc < 256 \<Longrightarrow>
   fold (\<lambda>c acc. gf_mul acc x XOR c) cs acc = gf_mul acc (gf_pow x (length cs)) XOR poly_at cs x"
proof (induction cs arbitrary: acc)
  case Nil
  then show ?case by (simp add: poly_at_def)
next
  case (Cons c cs)
  have "gf_mul (gf_mul acc x) (gf_pow x (length cs)) = gf_mul acc (gf_pow x (Suc (length cs)))"
    using gf_mul_assoc [of acc x "gf_pow x (length cs)"] gf_mul_assoc [of acc "gf_pow x (length cs)" x]
      gf_mul_commute [of x "gf_pow x (length cs)"] Cons.prems by simp
  then show ?case
    using Cons.prems Cons.IH [of "gf_mul acc x XOR c"] Cons.IH [of c]
    by (simp add: poly_at_def gf_mul_xor_left xor.assoc)
qed

lemma poly_at_Nil [simp]: "poly_at [] x = 0"
  by (simp add: poly_at_def)

lemma poly_at_Cons:
  "x < 256 \<Longrightarrow> codewords (c # cs) \<Longrightarrow> poly_at (c # cs) x = gf_mul c (gf_pow x (length cs)) XOR poly_at cs x"
  using poly_fold [of x cs c] by (simp add: poly_at_def)

lemma poly_at_less: "x < 256 \<Longrightarrow> codewords cs \<Longrightarrow> poly_at cs x < 256"
  by (induction cs) (simp_all add: poly_at_Cons)

lemma poly_at_append:
  "x < 256 \<Longrightarrow> codewords (as @ bs) \<Longrightarrow>
   poly_at (as @ bs) x = gf_mul (poly_at as x) (gf_pow x (length bs)) XOR poly_at bs x"
  using poly_fold [of x bs "poly_at as x"] poly_at_less [of x as] by (simp add: poly_at_def)

lemma poly_at_zeros [simp]: "poly_at (replicate n 0) x = 0"
  by (induction n) (simp_all add: poly_at_def)

lemma length_xor_at [simp]: "length (xor_at i v xs) = length xs"
  by (simp add: xor_at_def)

lemma xor_at_Nil [simp]: "xor_at i v xs = [] \<longleftrightarrow> xs = []"
  by (simp add: xor_at_def)

lemma codewords_xor_at: "codewords xs \<Longrightarrow> v < 256 \<Longrightarrow> i < length xs \<Longrightarrow> codewords (xor_at i v xs)"
  using set_update_subset_insert [of xs i "xs ! i XOR v"] by (auto simp: xor_at_def)

lemma poly_at_xor_at:
  "x < 256 \<Longrightarrow> codewords cs \<Longrightarrow> v < 256 \<Longrightarrow> i < length cs \<Longrightarrow>
   poly_at (xor_at i v cs) x = poly_at cs x XOR gf_mul v (gf_pow x (length cs - 1 - i))"
proof (induction cs arbitrary: i)
  case (Cons c cs)
  show ?case
  proof (cases i)
    case 0
    have "xor_at i v (c # cs) = (c XOR v) # cs" using 0 by (simp add: xor_at_def)
    then have "poly_at (xor_at i v (c # cs)) x =
        (gf_mul c (gf_pow x (length cs)) XOR gf_mul v (gf_pow x (length cs))) XOR poly_at cs x"
      using Cons.prems(2,3) poly_at_Cons [OF Cons.prems(1), of "c XOR v" cs] by (simp add: gf_mul_xor_left)
    also have "\<dots> = (gf_mul c (gf_pow x (length cs)) XOR poly_at cs x) XOR gf_mul v (gf_pow x (length cs))"
      by (rule xor_swap)
    also have "gf_mul c (gf_pow x (length cs)) XOR poly_at cs x = poly_at (c # cs) x"
      by (rule poly_at_Cons [OF Cons.prems(1,2), symmetric])
    also have "length cs = length (c # cs) - 1 - i" using 0 by simp
    finally show ?thesis .
  next
    case (Suc j)
    have j: "j < length cs" using Suc Cons.prems(4) by simp
    have "xor_at i v (c # cs) = c # xor_at j v cs" unfolding Suc xor_at_def by simp
    moreover have "codewords (c # xor_at j v cs)"
      using codewords_xor_at [OF _ Cons.prems(3) j] Cons.prems(2) by simp
    note cw = poly_at_Cons [OF Cons.prems(1) this]
    ultimately have "poly_at (xor_at i v (c # cs)) x = gf_mul c (gf_pow x (length cs)) XOR poly_at (xor_at j v cs) x"
      using cw by (simp only: length_xor_at)
    also have "poly_at (xor_at j v cs) x = poly_at cs x XOR gf_mul v (gf_pow x (length cs - 1 - j))"
      using Cons.IH [OF Cons.prems(1) _ Cons.prems(3) j] Cons.prems(2) by simp
    also have "gf_mul c (gf_pow x (length cs)) XOR (poly_at cs x XOR gf_mul v (gf_pow x (length cs - 1 - j))) =
        poly_at (c # cs) x XOR gf_mul v (gf_pow x (length cs - 1 - j))"
      unfolding poly_at_Cons [OF Cons.prems(1,2)] by (rule xor.assoc [symmetric])
    finally show ?thesis by (simp add: Suc)
  qed
qed simp

lemma power_of_2: "power_of_2 i = gf_pow 2 i"
  by (induction i) (simp_all add: gf_mul_is_field_product [symmetric])

lemma syndrome_poly_at:
  assumes "codewords block"
  shows "syndrome block i = poly_at block (gf_pow 2 i)"
proof -
  have "fold (\<lambda>c v. field_product v (power_of_2 i) XOR c) block v = fold (\<lambda>c v. gf_mul v (gf_pow 2 i) XOR c) block v" if "v < 256" for v
    using assms that by (induction block arbitrary: v) (simp_all add: power_of_2 gf_mul_is_field_product [symmetric])
  then show ?thesis by (simp add: syndrome_def poly_at_def)
qed

section \<open>The Reed-Solomon remainder\<close>

lemma gf_mul_swap: "a < 256 \<Longrightarrow> b < 256 \<Longrightarrow> c < 256 \<Longrightarrow> gf_mul (gf_mul a b) c = gf_mul (gf_mul a c) b"
  using gf_mul_assoc [of a b c] gf_mul_assoc [of a c b] gf_mul_commute [of b c] by simp

lemma shifted_coefficient:
  assumes "c < 256" and "p < 256" and "x < 256" and "r < 256" and "q < 256"
  shows "gf_mul c (gf_mul (gf_mul p x) q) XOR gf_mul (gf_mul c r) (gf_mul p q) = gf_mul (gf_mul (gf_mul c p) (x XOR r)) q"
proof -
  have "gf_mul c (gf_mul (gf_mul p x) q) = gf_mul (gf_mul (gf_mul c p) x) q"
    using assms by (simp add: gf_mul_assoc)
  moreover have "gf_mul (gf_mul c r) (gf_mul p q) = gf_mul (gf_mul (gf_mul c p) r) q"
    using assms gf_mul_swap [of c p r] by (simp add: gf_mul_assoc)
  ultimately show ?thesis using assms by (simp add: gf_mul_xor_right gf_mul_xor_left)
qed

lemma expand_loop:
  assumes "x < 256" and "r < 256" and "codewords cs" and "codewords e" and "k + length cs < length e"
  defines "e' \<equiv> fold (\<lambda>(i, c) e. xor_at (i + 1) (gf_mul c r) (xor_at i c e)) (enumerate k cs) e"
  shows "length e' = length e \<and> codewords e' \<and>
    poly_at e' x = poly_at e x XOR gf_mul (gf_mul (poly_at cs x) (x XOR r)) (gf_pow x (length e - 1 - k - length cs))"
  using assms(3-5) unfolding e'_def
proof (induction cs arbitrary: k e)
  case (Cons c cs)
  let ?e = "xor_at (k + 1) (gf_mul c r) (xor_at k c e)"
  let ?q = "gf_pow x (length e - 1 - (k + 1) - length cs)" and ?p = "gf_pow x (length cs)"
  have c: "c < 256" and cs: "codewords cs" and l: "k + 1 < length e" "Suc k + length cs < length ?e"
    using Cons.prems by auto
  have e1: "codewords (xor_at k c e)" using Cons.prems(2) c l by (intro codewords_xor_at) auto
  have e2: "codewords ?e" using codewords_xor_at [OF e1 gf_mul_less, of "k + 1" c r] l by simp
  have px: "gf_pow x (length e - 1 - k) = gf_mul (gf_mul ?p x) ?q"
  proof -
    have "length e - 1 - k = Suc (length cs) + (length e - 1 - (k + 1) - length cs)" using Cons.prems(3) by simp
    then show ?thesis by (simp only: gf_pow_add [OF assms(1)] gf_pow.simps)
  qed
  have "length e - 1 - (k + 1) = length cs + (length e - 1 - (k + 1) - length cs)" using Cons.prems(3) by simp
  then have pr: "gf_pow x (length e - 1 - (k + 1)) = gf_mul ?p ?q" using gf_pow_add [OF assms(1)] by metis
  have "poly_at ?e x = (poly_at e x XOR gf_mul c (gf_pow x (length e - 1 - k))) XOR gf_mul (gf_mul c r) (gf_pow x (length e - 1 - (k + 1)))"
    using poly_at_xor_at [OF assms(1) e1, of "gf_mul c r" "k + 1"] poly_at_xor_at [OF assms(1) Cons.prems(2) c, of k] l by simp
  also have "\<dots> = poly_at e x XOR gf_mul (gf_mul (gf_mul c ?p) (x XOR r)) ?q"
    unfolding px pr xor.assoc using shifted_coefficient [OF c, of ?p x r ?q] assms(1,2) by simp
  finally have step: "poly_at ?e x = poly_at e x XOR gf_mul (gf_mul (gf_mul c ?p) (x XOR r)) ?q" .
  have "gf_mul (gf_mul (poly_at (c # cs) x) (x XOR r)) ?q =
      gf_mul (gf_mul (gf_mul c ?p) (x XOR r)) ?q XOR gf_mul (gf_mul (poly_at cs x) (x XOR r)) ?q"
    using Cons.prems(1) assms(1) poly_at_less [OF assms(1) cs] by (simp only: poly_at_Cons) (simp add: gf_mul_xor_left)
  with step Cons.IH [OF cs e2 l(2)] show ?case by (simp add: xor.assoc)
qed simp

lemma expand_ok:
  assumes "x < 256" and "r < 256" and "codewords g"
  shows "length (expand g r) = length g + 1 \<and> codewords (expand g r) \<and> poly_at (expand g r) x = gf_mul (poly_at g x) (x XOR r)"
  using expand_loop [OF assms, of "replicate (length g + 1) 0" 0] poly_at_less [OF assms(1,3)]
  unfolding expand_def poly_at_zeros by simp

text \<open>The generator has degree 26, leading coefficient 1, and the first 26 powers of 2 as roots.\<close>

lemma expand_head: "g \<noteq> [] \<Longrightarrow> codewords g \<Longrightarrow> hd (expand g r) = hd g"
proof -
  have keep: "hd (fold (\<lambda>(i, c) e. xor_at (i + 1) (gf_mul c r) (xor_at i c e)) (enumerate (Suc k) cs) e) = hd e \<and>
      (e \<noteq> [] \<longrightarrow> fold (\<lambda>(i, c) e. xor_at (i + 1) (gf_mul c r) (xor_at i c e)) (enumerate (Suc k) cs) e \<noteq> [])" for k cs e
  proof (induction cs arbitrary: k e)
    case (Cons c cs)
    have "hd (xor_at (Suc j) v e) = hd e" for j v e by (cases e) (simp_all add: xor_at_def)
    with Cons.IH show ?case by simp
  qed simp
  assume "g \<noteq> []" "codewords g"
  then obtain c cs where g: "g = c # cs" by (cases g) auto
  have "hd (xor_at (0 + 1) (gf_mul c r) (xor_at 0 c (replicate (length g + 1) 0))) = c" by (simp add: xor_at_def g)
  with keep show ?thesis unfolding expand_def g by simp
qed

lemma generator_steps:
  "let (g, rt) = (generator_step ^^ n) ([1], 1) in
     length g = n + 1 \<and> codewords g \<and> hd g = 1 \<and> rt = gf_pow 2 n \<and> (\<forall>i<n. poly_at g (gf_pow 2 i) = 0)"
proof (induction n)
  case (Suc n)
  obtain g rt where g: "(generator_step ^^ n) ([1], 1) = (g, rt)" by force
  with Suc have ih: "length g = n + 1" "codewords g" "hd g = 1" "rt = gf_pow 2 n" "\<forall>i<n. poly_at g (gf_pow 2 i) = 0" by simp_all
  have rt: "rt < 256" using ih(4) by simp
  have "g \<noteq> []" using ih(1) by auto
  from expand_head [OF this ih(2)] have "hd (expand g rt) = 1" using ih(3) by simp
  moreover have "poly_at (expand g rt) (gf_pow 2 i) = 0" if "i < Suc n" for i
    using expand_ok [OF gf_pow_less rt ih(2), of 2 i] ih(4,5) that by (cases "i = n") simp_all
  moreover have "length (expand g rt) = Suc n + 1 \<and> codewords (expand g rt)"
    using expand_ok [OF _ rt ih(2), of 0] ih(1) by simp
  ultimately show ?case using g ih(4) by (simp add: generator_step_def)
qed simp

lemma ecc_generator_ok:
  "length ecc_generator = 27" "codewords ecc_generator" "hd ecc_generator = 1"
  "i < 26 \<Longrightarrow> poly_at ecc_generator (gf_pow 2 i) = 0"
  using generator_steps [of ecc_codewords] by (auto simp: ecc_generator_def ecc_codewords_def split: prod.splits)

lemma reduce_loop:
  assumes "x < 256" and "f < 256" and "codewords cs" and "codewords e" and "k + length cs \<le> length e" and "k = i + j"
  defines "e' \<equiv> fold (\<lambda>(n, c) e. xor_at (i + n) (gf_mul c f) e) (enumerate j cs) e"
  shows "length e' = length e \<and> codewords e' \<and> (\<forall>n<k. e' ! n = e ! n) \<and>
    (cs \<noteq> [] \<longrightarrow> e' ! k = e ! k XOR gf_mul (hd cs) f) \<and>
    poly_at e' x = poly_at e x XOR gf_mul (gf_mul (poly_at cs x) f) (gf_pow x (length e - k - length cs))"
  using assms(3-6) unfolding e'_def
proof (induction cs arbitrary: k j e)
  case (Cons c cs)
  let ?e = "xor_at k (gf_mul c f) e"
  let ?q = "gf_pow x (length e - (k + 1) - length cs)" and ?p = "gf_pow x (length cs)"
  have c: "c < 256" and cs: "codewords cs" and l: "k < length e" "k + 1 + length cs \<le> length ?e"
    using Cons.prems by auto
  have e1: "codewords ?e" using Cons.prems(2) l by (intro codewords_xor_at) auto
  have "length e - 1 - k = length cs + (length e - (k + 1) - length cs)" using Cons.prems(3) by simp
  then have "gf_pow x (length e - 1 - k) = gf_mul ?p ?q" using gf_pow_add [OF assms(1)] by metis
  then have "poly_at ?e x = poly_at e x XOR gf_mul (gf_mul c f) (gf_mul ?p ?q)"
    using poly_at_xor_at [OF assms(1) Cons.prems(2), of "gf_mul c f" k] l by simp
  also have "gf_mul (gf_mul c f) (gf_mul ?p ?q) = gf_mul (gf_mul (gf_mul c ?p) f) ?q"
    using gf_mul_swap [of c ?p f] c assms(2) by (simp add: gf_mul_assoc)
  finally have step: "poly_at ?e x = poly_at e x XOR gf_mul (gf_mul (gf_mul c ?p) f) ?q" .
  have "gf_mul (gf_mul (poly_at (c # cs) x) f) ?q = gf_mul (gf_mul (gf_mul c ?p) f) ?q XOR gf_mul (gf_mul (poly_at cs x) f) ?q"
    using Cons.prems(1) assms(1) poly_at_less [OF assms(1) cs] by (simp only: poly_at_Cons) (simp add: gf_mul_xor_left)
  with step Cons.IH [OF cs e1 l(2), of "Suc j"] Cons.prems(4) l(1) show ?case
    by (auto simp: xor.assoc xor_at_def)
qed simp

lemma reduce_ok:
  assumes "codewords e" and "length e = m + 26" and "n < m" and "\<forall>k<n. e ! k = 0"
  shows "length (reduce ecc_generator n e) = length e \<and> codewords (reduce ecc_generator n e) \<and>
    (\<forall>k<Suc n. reduce ecc_generator n e ! k = 0) \<and>
    (\<forall>i<26. poly_at (reduce ecc_generator n e) (gf_pow 2 i) = poly_at e (gf_pow 2 i))"
proof (cases "e ! n = 0")
  case True
  with assms show ?thesis by (auto simp: reduce_def less_Suc_eq)
next
  case False
  have f: "e ! n < 256" using assms(1-3) by simp
  have ne: "ecc_generator \<noteq> []" using ecc_generator_ok(1) by auto
  have r: "reduce ecc_generator n e =
      fold (\<lambda>(k, c) e'. xor_at (n + k) (gf_mul c (e ! n)) e') (enumerate 0 ecc_generator) e"
    using False by (simp add: reduce_def)
  note l = reduce_loop [OF _ f ecc_generator_ok(2) assms(1), of _ n n 0, folded r]
  have l': "length (reduce ecc_generator n e) = length e \<and> codewords (reduce ecc_generator n e) \<and>
      (\<forall>k<n. reduce ecc_generator n e ! k = e ! k) \<and> reduce ecc_generator n e ! n = e ! n XOR gf_mul (hd ecc_generator) (e ! n)"
    using l [of 0] ne assms(2,3) ecc_generator_ok(1) by simp
  moreover have "poly_at (reduce ecc_generator n e) (gf_pow 2 i) = poly_at e (gf_pow 2 i)" if "i < 26" for i
    using l [of "gf_pow 2 i"] assms(2,3) ecc_generator_ok(1) ecc_generator_ok(4) [OF that] by simp
  ultimately show ?thesis using assms(4) f ecc_generator_ok(3) by (auto simp: less_Suc_eq)
qed

lemma reduce_all:
  assumes "codewords data" and "n \<le> length data"
  defines "e \<equiv> data @ replicate 26 0"
  shows "let r = fold (reduce ecc_generator) [0..<n] e in length r = length e \<and> codewords r \<and> (\<forall>k<n. r ! k = 0) \<and>
    (\<forall>i<26. poly_at r (gf_pow 2 i) = poly_at e (gf_pow 2 i))"
  using assms(2)
proof (induction n)
  case 0
  show ?case using assms(1) by (auto simp: e_def)
next
  case (Suc n)
  define r where "r = fold (reduce ecc_generator) [0..<n] e"
  have r: "length r = length e" "codewords r" "\<forall>k<n. r ! k = 0" "\<forall>i<26. poly_at r (gf_pow 2 i) = poly_at e (gf_pow 2 i)"
    using Suc by (simp_all add: r_def Let_def)
  have "length r = length data + 26" using r(1) by (simp add: e_def)
  from reduce_ok [OF r(2) this _ r(3)] Suc.prems r show ?case by (simp add: Let_def flip: r_def)
qed

lemma ecc_ok:
  assumes "codewords data"
  shows "length (ecc data) = 26 \<and> codewords (ecc data) \<and>
    (\<forall>i<26. poly_at (data @ ecc data) (gf_pow 2 i) = 0)"
proof -
  define e where "e = data @ replicate 26 0"
  define r where "r = fold (reduce ecc_generator) [0..<length data] e"
  have r: "length r = length e" "codewords r" "\<forall>k<length data. r ! k = 0" "\<forall>i<26. poly_at r (gf_pow 2 i) = poly_at e (gf_pow 2 i)"
    using reduce_all [OF assms order_refl] by (simp_all add: Let_def r_def e_def)
  have ecc: "ecc data = drop (length data) r"
    using r(1) by (simp add: ecc_def Let_def r_def e_def ecc_codewords_def)
  have l: "length r = length data + 26" using r(1) by (simp add: e_def)
  have "take (length data) r = replicate (length data) 0"
    using r(3) l by (intro nth_equalityI) simp_all
  then have split: "r = replicate (length data) 0 @ ecc data" by (metis append_take_drop_id ecc)
  have c: "codewords (ecc data)" using r(2) ecc by (simp add: in_set_dropD)
  have "poly_at (data @ ecc data) (gf_pow 2 i) = 0" if i: "i < 26" for i
  proof -
    let ?x = "gf_pow 2 i"
    have "poly_at r ?x = gf_mul (poly_at (replicate (length data) 0) ?x) (gf_pow ?x (length (ecc data))) XOR poly_at (ecc data) ?x"
      using r(2) by (subst split, intro poly_at_append) (simp_all flip: split)
    then have "poly_at (ecc data) ?x = poly_at e ?x" using r(4) i by simp
    also have "\<dots> = gf_mul (poly_at data ?x) (gf_pow ?x 26)"
      using poly_at_append [of ?x data "replicate 26 0"] assms by (simp add: e_def)
    finally have s: "poly_at (ecc data) ?x = gf_mul (poly_at data ?x) (gf_pow ?x 26)" .
    have "poly_at (data @ ecc data) ?x = gf_mul (poly_at data ?x) (gf_pow ?x (length (ecc data))) XOR poly_at (ecc data) ?x"
      using assms c by (intro poly_at_append) auto
    then show ?thesis using s ecc l by simp
  qed
  with c ecc l show ?thesis by simp
qed

section \<open>Bits and code words\<close>

text \<open>The value of a bit list, highest bit first.\<close>

definition bits_value :: "nat list \<Rightarrow> nat" where
  "bits_value bs = foldl (\<lambda>v b. 2 * v + b) 0 bs"

abbreviation bits :: "nat list \<Rightarrow> bool" where
  "bits bs \<equiv> \<forall>b\<in>set bs. b < 2"

lemma bits_value_snoc [simp]: "bits_value (bs @ [b]) = 2 * bits_value bs + b"
  by (simp add: bits_value_def)

lemma bits_value_less: "bits bs \<Longrightarrow> bits_value bs < 2 ^ length bs"
  by (induction bs rule: rev_induct) (auto simp: bits_value_def)

lemma bits_value_bit: "bits bs \<Longrightarrow> i < length bs \<Longrightarrow> bits_value bs div 2 ^ i mod 2 = rev bs ! i"
proof (induction bs arbitrary: i rule: rev_induct)
  case (snoc b bs)
  show ?case
  proof (cases i)
    case 0
    with snoc.prems show ?thesis by simp
  next
    case (Suc j)
    have "(2 * bits_value bs + b) div 2 = bits_value bs" using snoc.prems(1) by simp
    then have "(2 * bits_value bs + b) div 2 ^ Suc j = bits_value bs div 2 ^ j" by (simp add: div_mult2_eq)
    with Suc snoc show ?thesis by simp
  qed
qed simp

lemma byte_bits_digits: "byte_bits v = map (\<lambda>i. v div 2 ^ i mod 2) (rev [0..<8])"
  by (simp add: byte_bits_def drop_bit_eq_div and_one_eq)

lemma length_byte_bits [simp]: "length (byte_bits v) = 8"
  by (simp add: byte_bits_def)

lemma bits_byte_bits: "bits (byte_bits v)"
  by (auto simp: byte_bits_digits)

lemma byte_bits_value: "bits bs \<Longrightarrow> length bs = 8 \<Longrightarrow> byte_bits (bits_value bs) = bs"
proof -
  assume bs: "bits bs" "length bs = 8"
  have "byte_bits (bits_value bs) = map ((!) (rev bs)) (rev [0..<8])"
    unfolding byte_bits_digits using bits_value_bit [OF bs(1)] bs(2) by (intro map_cong) auto
  also have "\<dots> = rev (map ((!) (rev bs)) [0..<length (rev bs)])" by (simp add: rev_map bs(2))
  also have "\<dots> = bs" by (simp only: map_nth rev_rev_ident)
  finally show ?thesis .
qed

lemma bits_value_digits: "bits_value (map (\<lambda>i. v div 2 ^ i mod 2) (rev [0..<n])) = v mod 2 ^ n"
proof -
  have "foldl (\<lambda>v b. 2 * v + b) a (map (\<lambda>i. v div 2 ^ i mod 2) (rev [0..<n])) = a * 2 ^ n + v mod 2 ^ n" for a
  proof (induction n arbitrary: a)
    case (Suc n)
    have "v mod 2 ^ Suc n = 2 ^ n * (v div 2 ^ n mod 2) + v mod 2 ^ n"
      using mod_mult2_eq [of v "2 ^ n" 2] by (simp add: mult.commute)
    with Suc show ?case by (simp add: algebra_simps)
  qed simp
  from this [of 0] show ?thesis by (simp add: bits_value_def)
qed

lemma value_byte_bits: "v < 256 \<Longrightarrow> bits_value (byte_bits v) = v"
  unfolding byte_bits_digits bits_value_digits by simp

lemma words_of_bits_append: "bits bs \<Longrightarrow> length bs = 8 \<Longrightarrow> words_of_bits (bs @ cs) = bits_value bs # words_of_bits cs"
proof -
  assume "length bs = 8"
  then obtain b7 b6 b5 b4 b3 b2 b1 b0 where "bs = [b7, b6, b5, b4, b3, b2, b1, b0]"
    by (auto simp: numeral_eq_Suc length_Suc_conv)
  then show ?thesis by (simp add: bits_value_def push_bit_eq_mult)
qed

text \<open>A bit list of whole bytes is the bits of its words.\<close>

lemma words_of_bits_ok:
  "length bs = 8 * n \<Longrightarrow> bits bs \<Longrightarrow>
   concat (map byte_bits (words_of_bits bs)) = bs \<and> length (words_of_bits bs) = n \<and> codewords (words_of_bits bs)"
proof (induction n arbitrary: bs)
  case (Suc n)
  define as cs where "as = take 8 bs" and "cs = drop 8 bs"
  have bs: "bs = as @ cs" "length as = 8" "length cs = 8 * n" using Suc.prems(1) by (simp_all add: as_def cs_def)
  then have "bits as" "bits cs" using Suc.prems(2) by auto
  then show ?case
    using Suc.IH [OF bs(3)] words_of_bits_append [of as cs] byte_bits_value [of as] bits_value_less [of as] bs(2)
    by (simp add: bs(1))
qed simp

lemma pad_words_ok:
  assumes "length ws \<le> 108" and "codewords ws"
  shows "length (pad_words ws) = 108" and "codewords (pad_words ws)" and "take (length ws) (pad_words ws) = ws"
  using assms by (auto simp: pad_words_def data_codewords_limit_def)

text \<open>The data code words start with the mode, the number of bytes and the bytes.\<close>

lemma data_codewords_ok:
  assumes "data_codewords v = Inr ws"
  obtains payload rest where "utf8_encode v = Some payload" and "length payload \<le> 100" and "length ws = 108" and "codewords ws"
    and "concat (map byte_bits ws) =
      [0, 1, 0, 0] @ byte_bits (length payload) @ concat (map (\<lambda>b. byte_bits (unat b)) payload) @ rest"
proof -
  from assms obtain payload where p: "utf8_encode v = Some payload" "length payload \<le> 100"
    by (auto simp: data_codewords_def split: option.splits if_splits)
  define bs where "bs = [0, 1, 0, 0] @ byte_bits (length payload) @ concat (map (\<lambda>b. byte_bits (unat b)) payload)"
  have l: "length (concat (map (\<lambda>b. byte_bits (unat b)) payload)) = 8 * length payload"
    by (induction payload) simp_all
  then have lb: "length bs = 12 + 8 * length payload" by (simp add: bs_def)
  have bits: "bits (bs @ replicate 4 0)" using bits_byte_bits by (auto simp: bs_def)
  have four: "min 4 (data_codewords_limit * 8 - length bs) = 4" using lb p(2) by (simp add: data_codewords_limit_def)
  have len: "length (bs @ replicate 4 0) = 8 * (length payload + 2)" using lb by simp
  then have pad: "nat ((- int (length (bs @ replicate 4 0))) mod 8) = 0"
    by (simp only: len zmod_zminus1_eq_if) simp
  note w = words_of_bits_ok [OF len bits]
  have ws: "ws = pad_words (words_of_bits (bs @ replicate 4 0))"
  proof -
    have "\<not> 100 < length payload" using p(2) by simp
    with assms have "Inr (pad_words (words_of_bits ((bs @ replicate (min 4 (data_codewords_limit * 8 - length bs)) 0) @
        replicate (nat ((- int (length (bs @ replicate (min 4 (data_codewords_limit * 8 - length bs)) 0))) mod 8)) 0))) = (Inr ws :: qr_error + nat list)"
      unfolding data_codewords_def Let_def p(1) option.case bs_def by (simp only: if_False)
    then show ?thesis unfolding four pad by simp
  qed
  have short: "length (words_of_bits (bs @ replicate 4 0)) \<le> 108" using w p(2) by simp
  note pw = pad_words_ok [OF short, folded ws]
  have "concat (map byte_bits ws) = concat (map byte_bits (take (length payload + 2) ws)) @ concat (map byte_bits (drop (length payload + 2) ws))"
    by (metis append_take_drop_id concat_append map_append)
  also have "concat (map byte_bits (take (length payload + 2) ws)) = bs @ replicate 4 0"
    using pw(3) w by simp
  finally show thesis using that [OF p] pw(1,2) w by (auto simp: bs_def)
qed

section \<open>Properties\<close>

lemma gf_pow_1 [simp]: "gf_pow (Suc 0) n = 1"
  by (induction n) simp_all

text \<open>The 26 powers of 2 that the syndromes are taken at are different.\<close>

primrec doublings :: "nat \<Rightarrow> nat \<Rightarrow> nat list" where
  "doublings 0 a = []"
| "doublings (Suc n) a = a # doublings n (gf_double a)"

lemma gf_mul_2: "a < 256 \<Longrightarrow> gf_mul a 2 = gf_double a"
  using gf_loop_power [of a 1] by (simp add: gf_mul_loop)

lemma doublings_powers: "doublings n (power_of_2 k) = map power_of_2 [k..<k + n]"
proof (induction n arbitrary: k)
  case (Suc n)
  have "gf_double (power_of_2 k) = power_of_2 (Suc k)"
    by (simp add: power_of_2 gf_mul_2)
  with Suc [of "Suc k"] show ?case by (simp add: upt_conv_Cons del: power_of_2.simps upt_Suc)
qed simp

lemma powers_distinct: "distinct (map power_of_2 [0..<26])"
proof -
  have "distinct (doublings 26 1)" by code_simp
  then show ?thesis using doublings_powers [of 26 0] by (simp del: upt_Suc)
qed

text \<open>C31: the error correction is the Reed-Solomon code of the standard. In the field of polynomials modulo \<open>x^8 + x^4 + x^3 + x^2 + 1\<close>, the
  data with its 26 check words vanishes at the first 26 powers of 2, which are all different: the syndromes that a reader computes
  are zero, and after a change of any one code word they are not. The field is given by products without carries and long division, not by the
  code's multiplication, which is shown to be the field's on all bytes.\<close>

theorem ecc_is_reed_solomon:
  assumes "codewords data"
  shows "length (ecc data) = 26 \<and> codewords (ecc data) \<and> distinct (map power_of_2 [0..<26]) \<and>
    (\<forall>i<26. syndrome (data @ ecc data) i = 0) \<and>
    (\<forall>j<length data + 26. \<forall>d<256. syndrome (xor_at j d (data @ ecc data)) 0 = d) \<and>
    (\<forall>a<256. \<forall>b<256. gf_mul a b = field_product a b)"
proof -
  note e = ecc_ok [OF assms]
  have c: "codewords (data @ ecc data)" using e assms by auto
  have "syndrome (xor_at j d (data @ ecc data)) 0 = d" if "j < length data + 26" "d < 256" for j d
  proof -
    have "codewords (xor_at j d (data @ ecc data))" using e that by (intro codewords_xor_at c) auto
    then have "syndrome (xor_at j d (data @ ecc data)) 0 = poly_at (xor_at j d (data @ ecc data)) 1" by (simp add: syndrome_poly_at)
    also have "\<dots> = poly_at (data @ ecc data) 1 XOR gf_mul d (gf_pow 1 (length (data @ ecc data) - 1 - j))"
      using e that c by (intro poly_at_xor_at) auto
    finally show ?thesis using e [THEN conjunct2, THEN conjunct2, rule_format, of 0] that by simp
  qed
  with e powers_distinct show ?thesis by (simp add: syndrome_poly_at [OF c] gf_mul_is_field_product del: upt_Suc)
qed

theorem ecc_is_reed_solomon_witness:
  "length (ecc [64, 1]) = 26 \<and> syndrome ([64, 1] @ ecc [64, 1]) 3 = 0 \<and> syndrome (xor_at 1 7 ([64, 1] @ ecc [64, 1])) 0 = 7"
proof -
  have "codewords [64, 1]" by simp
  from ecc_is_reed_solomon [OF this] show ?thesis by simp
qed

end
