(* ===== verification/Qr_Matrix.thy ===== *)
theory Qr_Matrix
  imports Qr_Codewords
begin

text \<open>
  \<open>qr.py\<close>, the symbol: the function patterns, the placement of the code words under a mask, the choice of the
  mask, and the drawing as SVG. A module matrix is a list of rows; \<open>True\<close> is dark.
\<close>

unbundle bit_operations_syntax

type_synonym modules = "bool list list"

section \<open>Function patterns\<close>

definition set_module :: "nat \<Rightarrow> nat \<Rightarrow> bool \<Rightarrow> modules \<Rightarrow> modules" where
  "set_module x y dark m = m[y := (m ! y)[x := dark]]"

definition set_function :: "int \<Rightarrow> int \<Rightarrow> bool \<Rightarrow> modules \<times> modules \<Rightarrow> modules \<times> modules" where
  "set_function x y dark = (\<lambda>(modules, function).
     if 0 \<le> x \<and> x < int qr_size \<and> 0 \<le> y \<and> y < int qr_size
     then (set_module (nat x) (nat y) dark modules, set_module (nat x) (nat y) True function)
     else (modules, function))"

definition finder :: "int \<Rightarrow> int \<Rightarrow> modules \<times> modules \<Rightarrow> modules \<times> modules" where
  "finder x0 y0 g =
     fold (\<lambda>(dx, dy). set_function (x0 + dx) (y0 + dy)
         (0 \<le> dx \<and> dx \<le> 6 \<and> 0 \<le> dy \<and> dy \<le> 6 \<and>
          (dx = 0 \<or> dx = 6 \<or> dy = 0 \<or> dy = 6 \<or> 2 \<le> dx \<and> dx \<le> 4 \<and> 2 \<le> dy \<and> dy \<le> 4)))
       [(dx, dy). dy \<leftarrow> [-1..7], dx \<leftarrow> [-1..7]] g"

definition timing :: "nat \<Rightarrow> modules \<times> modules \<Rightarrow> modules \<times> modules" where
  "timing index g =
     (let g = (if snd g ! 6 ! index then g else set_function (int index) 6 (even index) g) in
      if snd g ! index ! 6 then g else set_function 6 (int index) (even index) g)"

definition alignment :: "int \<times> int \<Rightarrow> modules \<times> modules \<Rightarrow> modules \<times> modules" where
  "alignment = (\<lambda>(center_x, center_y) g.
     if snd g ! nat center_y ! nat center_x then g
     else fold (\<lambda>(dx, dy). set_function (center_x + dx) (center_y + dy) (max \<bar>dx\<bar> \<bar>dy\<bar> \<noteq> 1))
            [(dx, dy). dy \<leftarrow> [-2..2], dx \<leftarrow> [-2..2]] g)"

definition format_first :: "nat \<Rightarrow> nat \<times> nat" where
  "format_first index =
     (if index < 6 then (8, index) else if index < 8 then (8, index + 1) else (8, qr_size - 15 + index))"

definition format_second :: "nat \<Rightarrow> nat \<times> nat" where
  "format_second index =
     (if index < 8 then (qr_size - index - 1, 8) else if index < 9 then (15 - index, 8) else (15 - index - 1, 8))"

definition base_matrix :: "modules \<times> modules" where
  "base_matrix =
     (let g = (replicate qr_size (replicate qr_size False), replicate qr_size (replicate qr_size False));
          g = finder 0 (int qr_size - 7) (finder (int qr_size - 7) 0 (finder 0 0 g));
          g = fold timing [8..<qr_size - 8] g;
          g = fold alignment [(6, 6), (6, 30), (30, 6), (30, 30)] g;
          g = set_function 8 (int qr_size - 8) True g in
      fold (\<lambda>(x, y). set_function (int x) (int y) False) (map format_first [0..<15] @ map format_second [0..<15]) g)"

section \<open>Placement of the code words\<close>

definition mask_bit :: "nat \<Rightarrow> nat \<Rightarrow> nat \<Rightarrow> bool" where
  "mask_bit pattern row column =
     (if pattern = 0 then (row + column) mod 2 = 0
      else if pattern = 1 then row mod 2 = 0
      else if pattern = 2 then column mod 3 = 0
      else if pattern = 3 then (row + column) mod 3 = 0
      else if pattern = 4 then (row div 2 + column div 3) mod 2 = 0
      else if pattern = 5 then (row * column) mod 2 + (row * column) mod 3 = 0
      else if pattern = 6 then ((row * column) mod 2 + (row * column) mod 3) mod 2 = 0
      else ((row * column) mod 3 + (row + column) mod 2) mod 2 = 0)"

definition place_bit :: "modules \<Rightarrow> nat list \<Rightarrow> nat \<Rightarrow> nat \<times> nat \<Rightarrow> nat \<times> modules \<Rightarrow> nat \<times> modules" where
  "place_bit function stream pattern = (\<lambda>(row, column) (bit_index, modules).
     if function ! row ! column then (bit_index, modules)
     else let bit = (if bit_index < length stream then stream ! bit_index else 0) in
       (bit_index + 1, set_module column row ((bit \<noteq> 0) \<noteq> mask_bit pattern row column) modules))"

definition column_cells :: "int \<Rightarrow> int \<Rightarrow> int \<Rightarrow> (nat \<times> nat) list" where
  "column_cells row direction column =
     [(nat (row + direction * int offset), nat c). offset \<leftarrow> [0..<qr_size], c \<leftarrow> [column, column - 1]]"

function draw_columns :: "(nat \<times> nat \<Rightarrow> 's \<Rightarrow> 's) \<Rightarrow> int \<Rightarrow> int \<Rightarrow> int \<Rightarrow> 's \<Rightarrow> 's" where
  "draw_columns place column row direction s =
     (if column > 0 then
        let column = (if column = 6 then column - 1 else column) in
        draw_columns place (column - 2) (row + direction * (int qr_size - 1)) (- direction)
          (fold place (column_cells row direction column) s)
      else s)"
  by auto
termination by (relation "measure (\<lambda>(_, column, _). nat column)") auto

declare draw_columns.simps [simp del]

definition draw_format :: "nat \<Rightarrow> modules \<Rightarrow> modules" where
  "draw_format pattern modules =
     (let format_bits = bch_format (push_bit 3 1 OR pattern) in
      fold (\<lambda>(index, (x, y)). set_module x y (drop_bit index format_bits AND 1 \<noteq> 0))
        (enumerate 0 (map format_first [0..<15]) @ enumerate 0 (map format_second [0..<15])) modules)"

definition draw_data :: "modules \<Rightarrow> modules \<Rightarrow> nat list \<Rightarrow> nat \<Rightarrow> modules" where
  "draw_data base function words pattern =
     (let stream = concat (map byte_bits words) in
      draw_format pattern (snd (draw_columns (place_bit function stream pattern) (int qr_size - 1) (int qr_size - 1) (-1) (0, base))))"

section \<open>The choice of the mask\<close>

fun run_loop :: "bool \<Rightarrow> int \<Rightarrow> bool list \<Rightarrow> int \<Rightarrow> int" where
  "run_loop run_value run_length [] score = (if run_length \<ge> 5 then score + (run_length - 2) else score)"
| "run_loop run_value run_length (v # vs) score =
     (if v = run_value then run_loop run_value (run_length + 1) vs score
      else run_loop v 1 vs (if run_length \<ge> 5 then score + (run_length - 2) else score))"

definition line_penalty :: "bool list \<Rightarrow> int \<Rightarrow> int" where
  "line_penalty line score = run_loop (hd line) 1 (tl line) score"

definition columns :: "modules \<Rightarrow> bool list list" where
  "columns modules = map (\<lambda>column. map (\<lambda>row. modules ! row ! column) [0..<qr_size]) [0..<qr_size]"

definition square_penalty :: "modules \<Rightarrow> nat \<Rightarrow> nat \<Rightarrow> int" where
  "square_penalty modules row column =
     (let square = modules ! row ! column in
      if modules ! row ! (column + 1) = square \<and> modules ! (row + 1) ! column = square \<and> modules ! (row + 1) ! (column + 1) = square
      then 3 else 0)"

definition penalty_patterns :: "bool list list" where
  "penalty_patterns =
     [[True, False, True, True, True, False, True, False, False, False, False],
      [False, False, False, False, True, False, True, True, True, False, True]]"

definition pattern_penalty :: "bool list \<Rightarrow> int" where
  "pattern_penalty line =
     (\<Sum>p\<leftarrow>penalty_patterns. \<Sum>index\<leftarrow>[0..<length line - length p + 1]. if take (length p) (drop index line) = p then 40 else 0)"

definition penalty :: "modules \<Rightarrow> int" where
  "penalty modules =
     (let score = fold line_penalty (columns modules) (fold line_penalty modules 0);
          score = score + (\<Sum>row\<leftarrow>[0..<qr_size - 1]. \<Sum>column\<leftarrow>[0..<qr_size - 1]. square_penalty modules row column);
          score = score + (\<Sum>line\<leftarrow>modules @ columns modules. pattern_penalty line);
          dark = (\<Sum>row\<leftarrow>modules. \<Sum>v\<leftarrow>row. of_bool v);
          cells = int qr_size * int qr_size in
      score + \<bar>dark * 20 - cells * 10\<bar> div cells * 10)"

definition matrix_of :: "nat list \<Rightarrow> modules" where
  "matrix_of words =
     (let (base, function) = base_matrix; words = words @ ecc words in
      arg_min_list penalty (map (draw_data base function words) [0..<8]))"

definition matrix :: "pystr \<Rightarrow> qr_error + modules" where
  "matrix v = ebind (data_codewords v) (\<lambda>words. Inr (matrix_of words))"

section \<open>The drawing\<close>

declare le_imp_less_Suc [OF length_dropWhile_le, termination_simp]

fun row_runs :: "nat \<Rightarrow> bool list \<Rightarrow> (nat \<times> nat) list" where
  "row_runs column [] = []"
| "row_runs column (v # vs) =
     (if \<not> v then row_runs (column + 1) vs
      else let n = length (takeWhile id vs) in (column, n + 1) # row_runs (column + 1 + n) (dropWhile id vs))"

definition run_path :: "nat \<Rightarrow> nat \<times> nat \<Rightarrow> pystr" where
  "run_path row = (\<lambda>(start, n).
     lit ''M'' @ dec_of_nat (start + 4) @ lit '' '' @ dec_of_nat (row + 4) @ lit ''h'' @ dec_of_nat n @ lit ''v1h-'' @ dec_of_nat n @ lit ''z'')"

definition svg_path :: "modules \<Rightarrow> pystr" where
  "svg_path modules = concat (map (\<lambda>(row, vs). concat (map (run_path row) (row_runs 0 vs))) (enumerate 0 modules))"

definition html_escape :: "pystr \<Rightarrow> pystr" where
  "html_escape s = concat (map (\<lambda>c.
     if c = 38 then lit ''&amp;'' else if c = 60 then lit ''&lt;'' else if c = 62 then lit ''&gt;''
     else if c = 34 then lit ''&quot;'' else if c = 39 then lit ''&#x27;'' else [c]) s)"

definition svg :: "pystr \<Rightarrow> qr_error + pystr" where
  "svg v = ebind (matrix v) (\<lambda>modules. Inr (
     lit ''<svg xmlns=\"http://www.w3.org/2000/svg\" viewBox=\"0 0 '' @ dec_of_nat (qr_size + 8) @ lit '' '' @ dec_of_nat (qr_size + 8) @
     lit ''\" role=\"img\" aria-label=\"OpenVPN profile download QR code\"><rect width=\"100%\" height=\"100%\" fill=\"#fff\"/>'' @
     lit ''<path d=\"'' @ html_escape (svg_path modules) @ lit ''\" fill=\"#000\"/></svg>''))"

section \<open>Square matrices\<close>

definition grid :: "modules \<Rightarrow> bool" where
  "grid m \<longleftrightarrow> length m = qr_size \<and> (\<forall>row\<in>set m. length row = qr_size)"

lemma qr_size: "qr_size = 37"
  by (simp add: qr_size_def qr_version_def)

lemma grid_row: "grid m \<Longrightarrow> y < qr_size \<Longrightarrow> length (m ! y) = qr_size"
  by (simp add: grid_def)

lemma grid_set_module [simp]: "grid m \<Longrightarrow> y < qr_size \<Longrightarrow> grid (set_module x y d m)"
  using set_update_subset_insert [of m y "(m ! y)[x := d]"] by (auto simp: grid_def set_module_def)

lemma set_module_nth:
  "grid m \<Longrightarrow> x < qr_size \<Longrightarrow> y < qr_size \<Longrightarrow>
   set_module x y d m ! r ! c = (if r = y \<and> c = x then d else m ! r ! c)"
  by (auto simp: set_module_def grid_def nth_list_update)

section \<open>The order of the cells\<close>

lemma draw_columns_fold:
  "draw_columns place column row direction (fold place xs s) =
   fold place (draw_columns (\<lambda>cell cells. cells @ [cell]) column row direction xs) s"
proof (induction place column row direction "fold place xs s" arbitrary: xs s rule: draw_columns.induct)
  case (1 place column row direction)
  show ?case
  proof (cases "column > 0")
    case True
    let ?c = "if column = 6 then column - 1 else column"
    have app: "fold (\<lambda>cell cells. cells @ [cell]) ys zs = zs @ ys" for ys zs :: "'c list"
      by (induction ys arbitrary: zs) simp_all
    have "fold place (column_cells row direction ?c) (fold place xs s) = fold place (xs @ column_cells row direction ?c) s" by simp
    from "1" [OF True refl this] show ?thesis
      by (subst (1 2) draw_columns.simps) (simp add: True app Let_def)
  qed (subst (1 2) draw_columns.simps, simp)
qed

text \<open>All cells in the order of the code: column pairs from the right, upwards and downwards in turn.\<close>

definition placement :: "(nat \<times> nat) list" where
  "placement = draw_columns (\<lambda>cell cells. cells @ [cell]) (int qr_size - 1) (int qr_size - 1) (-1) []"

lemma draw_columns_placement:
  "draw_columns place (int qr_size - 1) (int qr_size - 1) (-1) s = fold place placement s"
  using draw_columns_fold [of place _ _ _ "[]" s] by (simp add: placement_def)

section \<open>Drawing into free cells\<close>

definition free_cells :: "modules \<Rightarrow> (nat \<times> nat) list \<Rightarrow> (nat \<times> nat) list" where
  "free_cells function path = filter (\<lambda>(row, column). \<not> function ! row ! column) path"

definition stream_bit :: "nat list \<Rightarrow> nat \<Rightarrow> bool" where
  "stream_bit stream j \<longleftrightarrow> j < length stream \<and> stream ! j \<noteq> 0"

lemma place_bit_step:
  "place_bit function stream pattern (row, column) (k, m) =
     (if function ! row ! column then (k, m)
      else (k + 1, set_module column row (stream_bit stream k \<noteq> mask_bit pattern row column) m))"
  by (auto simp: place_bit_def stream_bit_def Let_def)

lemma place_bits:
  assumes "distinct path" and "\<forall>(r, c)\<in>set path. r < qr_size \<and> c < qr_size" and "grid m"
    and "fold (place_bit function stream pattern) path (k, m) = (k', m')"
  shows "grid m' \<and> (\<forall>r c. (r, c) \<notin> set (free_cells function path) \<longrightarrow> m' ! r ! c = m ! r ! c) \<and>
    map (\<lambda>(r, c). m' ! r ! c \<noteq> mask_bit pattern r c) (free_cells function path) =
      map (stream_bit stream) [k..<k + length (free_cells function path)]"
  using assms
proof (induction path arbitrary: k m)
  case (Cons cell path)
  obtain r c where cell: "cell = (r, c)" by force
  show ?case
  proof (cases "function ! r ! c")
    case True
    with Cons cell show ?thesis by (simp add: place_bit_step free_cells_def)
  next
    case False
    let ?m = "set_module c r (stream_bit stream k \<noteq> mask_bit pattern r c) m"
    have rc: "r < qr_size" "c < qr_size" using Cons.prems(2) cell by auto
    have fresh: "(r, c) \<notin> set (free_cells function path)" using Cons.prems(1) cell by (auto simp: free_cells_def)
    have "grid ?m" using Cons.prems(3) rc by simp
    with Cons.IH [of ?m "k + 1"] Cons.prems False cell
    have ih: "grid m'" "\<forall>r c. (r, c) \<notin> set (free_cells function path) \<longrightarrow> m' ! r ! c = ?m ! r ! c"
      "map (\<lambda>(r, c). m' ! r ! c \<noteq> mask_bit pattern r c) (free_cells function path) =
        map (stream_bit stream) [k + 1..<k + 1 + length (free_cells function path)]"
      by (simp_all add: place_bit_step)
    have free: "free_cells function (cell # path) = (r, c) # free_cells function path" using False cell by (simp add: free_cells_def)
    have "m' ! r ! c = (stream_bit stream k \<noteq> mask_bit pattern r c)"
      using ih(2) fresh set_module_nth [OF Cons.prems(3) rc(2,1)] by simp
    moreover have "m' ! i ! j = m ! i ! j" if "(i, j) \<notin> set (free_cells function (cell # path))" for i j
      using ih(2) that free set_module_nth [OF Cons.prems(3) rc(2,1)] by auto
    moreover have "[k..<k + length (free_cells function (cell # path))] = k # [k + 1..<k + 1 + length (free_cells function path)]"
      by (simp add: free upt_conv_Cons del: upt_Suc)
    ultimately show ?thesis using ih(1,3) unfolding free by (auto simp del: upt_Suc)
  qed
qed (simp add: free_cells_def)

text \<open>Drawing a list of cells with a value each.\<close>

lemma draw_cells:
  fixes f :: "nat \<Rightarrow> bool"
  assumes "distinct (map snd cells)" and "\<forall>(i, x, y)\<in>set cells. x < qr_size \<and> y < qr_size" and "grid m"
  defines "m' \<equiv> fold (\<lambda>(i, x, y). set_module x y (f i)) cells m"
  shows "grid m' \<and> (\<forall>x y. (x, y) \<notin> snd ` set cells \<longrightarrow> m' ! y ! x = m ! y ! x) \<and> (\<forall>(i, x, y)\<in>set cells. m' ! y ! x = f i)"
  using assms(1-3) unfolding m'_def
proof (induction cells arbitrary: m)
  case (Cons cell cells)
  obtain i x y where cell: "cell = (i, x, y)" by (cases cell) auto
  let ?m = "set_module x y (f i) m"
  have xy: "x < qr_size" "y < qr_size" "(x, y) \<notin> snd ` set cells" using Cons.prems(1,2) cell by auto
  have "grid ?m" using Cons.prems(3) xy by simp
  with Cons.IH [of ?m] Cons.prems(1,2)
  have ih: "grid (fold (\<lambda>(i, x, y). set_module x y (f i)) cells ?m)"
    "\<forall>u v. (u, v) \<notin> snd ` set cells \<longrightarrow> fold (\<lambda>(i, x, y). set_module x y (f i)) cells ?m ! v ! u = ?m ! v ! u"
    "\<forall>(j, u, v)\<in>set cells. fold (\<lambda>(i, x, y). set_module x y (f i)) cells ?m ! v ! u = f j" by simp_all
  then show ?case using xy set_module_nth [OF Cons.prems(3) xy(1,2)] by (auto simp: cell)
qed simp

end
