(* ===== verification/Qr_Scan.thy ===== *)
theory Qr_Scan
  imports Qr_Matrix
begin

text \<open>
  What \<open>qr.py\<close> is for: a phone that scans the symbol gets the URL. \<open>scan\<close> is a reader of version 5-L
  symbols after the QR standard, written without the definitions of the encoder: it checks the function patterns,
  reads both copies of the format value, takes the mask off, reads the cells column by column, checks the Reed-Solomon
  syndromes in the field of the standard (\<open>syndrome\<close> of \<open>Qr_Codewords\<close>, which the encoder does not use) and decodes the byte segment. \<open>symbols_scan_back\<close> says that it reads every symbol the program
  draws.
\<close>

unbundle bit_operations_syntax

section \<open>The reader\<close>

text \<open>Cells that carry no data: the finders with their borders and the format value, the timing lines and the
  alignment pattern.\<close>

definition function_cell :: "nat \<Rightarrow> nat \<Rightarrow> bool" where
  "function_cell x y \<longleftrightarrow> x \<le> 8 \<and> y \<le> 8 \<or> 29 \<le> x \<and> y \<le> 8 \<or> x \<le> 8 \<and> 29 \<le> y \<or> x = 6 \<or> y = 6 \<or>
     28 \<le> x \<and> x \<le> 32 \<and> 28 \<le> y \<and> y \<le> 32"

definition ring :: "int \<Rightarrow> int \<Rightarrow> nat \<Rightarrow> nat \<Rightarrow> int" where
  "ring center_x center_y x y = max \<bar>int x - center_x\<bar> \<bar>int y - center_y\<bar>"

definition expected_module :: "nat \<Rightarrow> nat \<Rightarrow> bool" where
  "expected_module x y =
     (if x \<le> 7 \<and> y \<le> 7 then ring 3 3 x y \<notin> {2, 4}
      else if 29 \<le> x \<and> y \<le> 7 then ring 33 3 x y \<notin> {2, 4}
      else if x \<le> 7 \<and> 29 \<le> y then ring 3 33 x y \<notin> {2, 4}
      else if 28 \<le> x \<and> x \<le> 32 \<and> 28 \<le> y \<and> y \<le> 32 then ring 30 30 x y \<noteq> 1
      else if y = 6 then even x else if x = 6 then even y else True)"

text \<open>The two copies of the format value, lowest bit first.\<close>

definition format_copy1 :: "(nat \<times> nat) list" where
  "format_copy1 = map (\<lambda>i. (8, i)) [0, 1, 2, 3, 4, 5, 7, 8] @ map (\<lambda>i. (i, 8)) [7, 5, 4, 3, 2, 1, 0]"

definition format_copy2 :: "(nat \<times> nat) list" where
  "format_copy2 = map (\<lambda>i. (i, 8)) [36, 35, 34, 33, 32, 31, 30, 29] @ map (\<lambda>i. (8, i)) [30, 31, 32, 33, 34, 35, 36]"

definition pattern_cell :: "nat \<Rightarrow> nat \<Rightarrow> bool" where
  "pattern_cell x y \<longleftrightarrow> function_cell x y \<and> (x, y) \<notin> set format_copy1 \<and> (x, y) \<notin> set format_copy2"

definition patterns_ok :: "modules \<Rightarrow> bool" where
  "patterns_ok m \<longleftrightarrow> (\<forall>x<37. \<forall>y<37. pattern_cell x y \<longrightarrow> m ! y ! x = expected_module x y)"

text \<open>The standard's table of masked format values for level L and masks 0 to 7.\<close>

definition format_table :: "nat list" where
  "format_table = [30660, 29427, 32170, 30877, 26159, 25368, 27713, 26998]"

definition read_format :: "modules \<Rightarrow> (nat \<times> nat) list \<Rightarrow> nat" where
  "read_format m cells = bits_value (rev (map (\<lambda>(x, y). of_bool (m ! y ! x)) cells))"

definition read_mask :: "modules \<Rightarrow> nat option" where
  "read_mask m =
     (if read_format m format_copy1 \<noteq> read_format m format_copy2 then None
      else List.find (\<lambda>p. format_table ! p = read_format m format_copy1) [0..<8])"

definition standard_mask :: "nat \<Rightarrow> nat \<Rightarrow> nat \<Rightarrow> bool" where
  "standard_mask p i j =
     ([(i + j) mod 2, i mod 2, j mod 3, (i + j) mod 3, (i div 2 + j div 3) mod 2, (i * j) mod 2 + (i * j) mod 3,
       ((i * j) mod 2 + (i * j) mod 3) mod 2, ((i + j) mod 2 + (i * j) mod 3) mod 2] ! p = 0)"

text \<open>The columns of the standard's path, two at a time from the right without the timing column.\<close>

definition scan_path :: "(nat \<times> nat) list" where
  "scan_path = concat (map (\<lambda>k. let c = (if k < 15 then 36 - 2 * k else 35 - 2 * k) in
     concat (map (\<lambda>i. let r = (if even k then 36 - i else i) in [(r, c), (r, c - 1)]) [0..<37])) [0..<18])"

definition read_stream :: "modules \<Rightarrow> nat \<Rightarrow> nat list" where
  "read_stream m p =
     map (\<lambda>(r, c). of_bool (m ! r ! c \<noteq> standard_mask p r c)) (filter (\<lambda>(r, c). \<not> function_cell c r) scan_path)"

definition bit_words :: "nat \<Rightarrow> nat list \<Rightarrow> nat list" where
  "bit_words n stream = map (\<lambda>i. bits_value (take 8 (drop (8 * i) stream))) [0..<n]"

definition decode_segment :: "nat list \<Rightarrow> byte list option" where
  "decode_segment stream =
     (if take 4 stream \<noteq> [0, 1, 0, 0] then None
      else Some (map of_nat (bit_words (bits_value (take 8 (drop 4 stream))) (drop 12 stream))))"

definition scan :: "modules \<Rightarrow> byte list option" where
  "scan m =
     (if \<not> patterns_ok m then None
      else case read_mask m of
        None \<Rightarrow> None
      | Some p \<Rightarrow>
          let stream = read_stream m p in
          if \<exists>i\<in>set [0..<26]. syndrome (bit_words 134 stream) i \<noteq> 0 then None
          else decode_segment (take 864 stream))"

section \<open>The fixed parts of the symbol\<close>

lemma base_function: "list_all (\<lambda>y. list_all (\<lambda>x. snd base_matrix ! y ! x = function_cell x y) [0..<37]) [0..<37]"
  by code_simp

lemma base_patterns: "list_all (\<lambda>y. list_all (\<lambda>x. pattern_cell x y \<longrightarrow> fst base_matrix ! y ! x = expected_module x y) [0..<37]) [0..<37]"
  by code_simp

lemma column_up:
  "1 \<le> c \<Longrightarrow> column_cells 36 (-1) (int c) = concat (map (\<lambda>i. [(36 - i, c), (36 - i, c - 1)]) [0..<37])"
proof -
  have "nat (36 - int i) = 36 - i" for i by simp
  moreover assume "1 \<le> c"
  ultimately show ?thesis by (simp add: column_cells_def qr_size nat_diff_distrib)
qed

lemma column_down:
  "1 \<le> c \<Longrightarrow> column_cells 0 1 (int c) = concat (map (\<lambda>i. [(i, c), (i, c - 1)]) [0..<37])"
  by (simp add: column_cells_def qr_size nat_diff_distrib)

lemma append_cells: "fold (\<lambda>cell cells. cells @ [cell]) ys zs = zs @ ys"
  by (induction ys arbitrary: zs) simp_all

lemma placement_path: "placement = scan_path"
proof -
  have "[0..<18] = [0, 1, 2, 3, 4, 5, 6, 7, 8, 9, 10, 11, 12, 13, 14, 15, 16, 17 :: nat]"
    by (simp add: upt_rec)
  then have "scan_path = column_cells 36 (-1) 36 @ column_cells 0 1 34 @ column_cells 36 (-1) 32 @ column_cells 0 1 30 @
      column_cells 36 (-1) 28 @ column_cells 0 1 26 @ column_cells 36 (-1) 24 @ column_cells 0 1 22 @
      column_cells 36 (-1) 20 @ column_cells 0 1 18 @ column_cells 36 (-1) 16 @ column_cells 0 1 14 @
      column_cells 36 (-1) 12 @ column_cells 0 1 10 @ column_cells 36 (-1) 8 @ column_cells 0 1 5 @
      column_cells 36 (-1) 3 @ column_cells 0 1 1"
    using column_up [of "numeral _"] column_down [of "numeral _"] column_down [of 1] by (simp add: scan_path_def Let_def)
  moreover have "placement = \<dots>"
    by (simp add: placement_def qr_size append_cells draw_columns.simps)
  ultimately show ?thesis by simp
qed

lemma format_places:
  "distinct (map snd (enumerate 0 (map format_first [0..<15]) @ enumerate 0 (map format_second [0..<15])))"
  by code_simp

lemma format_in_copies:
  "list_all (\<lambda>(x, y). x < 37 \<and> y < 37 \<and> function_cell x y \<and> (x, y) \<in> set format_copy1 \<union> set format_copy2)
     (map format_first [0..<15] @ map format_second [0..<15])"
  by code_simp

text \<open>The number of free cells, column by column.\<close>

definition free_rows :: "nat \<Rightarrow> nat" where
  "free_rows c = length (filter (\<lambda>r. \<not> function_cell c r) [0..<37])"

lemma free_rows: "map free_rows [0..<37] =
    [20, 20, 20, 20, 20, 20, 0, 20, 20, 36, 36, 36, 36, 36, 36, 36, 36, 36, 36, 36, 36, 36, 36, 36, 36, 36, 36, 36, 31,
     23, 23, 23, 23, 28, 28, 28, 28]"
  by code_simp

lemma free_in_columns:
  "length (filter (\<lambda>(r, c). \<not> function_cell c r) (concat (map (\<lambda>i. [(i, c), (i, d)]) rows))) =
   length (filter (\<lambda>r. \<not> function_cell c r) rows) + length (filter (\<lambda>r. \<not> function_cell d r) rows)"
  by (induction rows) simp_all

lemma free_in_columns_up:
  "length (filter (\<lambda>(r, c). \<not> function_cell c r) (concat (map (\<lambda>i. [(36 - i, c), (36 - i, d)]) [0..<37]))) = free_rows c + free_rows d"
proof -
  have up: "map (\<lambda>i. 36 - i) [0..<37] = rev [0..<37 :: nat]" by (intro nth_equalityI) (simp_all add: rev_nth)
  have "concat (map (\<lambda>i. [(36 - i, c), (36 - i, d)]) [0..<37]) = concat (map (\<lambda>i. [(i, c), (i, d)]) (map (\<lambda>i. 36 - i) [0..<37]))"
    by (simp add: comp_def)
  then show ?thesis by (simp only: up free_in_columns flip: rev_filter) (simp add: free_rows_def)
qed

lemma free_count: "length (filter (\<lambda>(r, c). \<not> function_cell c r) scan_path) = 1079"
proof -
  have ks: "[0..<18] = [0, 1, 2, 3, 4, 5, 6, 7, 8, 9, 10, 11, 12, 13, 14, 15, 16, 17 :: nat]"
    by (simp add: upt_rec)
  have "free_rows c = map free_rows [0..<37] ! c" if "c < 37" for c using that by simp
  then show ?thesis
    unfolding free_rows by (simp add: scan_path_def ks Let_def free_in_columns_up free_in_columns flip: free_rows_def)
qed


lemma mask_cases:
  assumes "(p :: nat) < 8"
  obtains "p = 0" | "p = 1" | "p = 2" | "p = 3" | "p = 4" | "p = 5" | "p = 6" | "p = 7"
  using assms by linarith

lemma masks_agree: "p < 8 \<Longrightarrow> standard_mask p r c = mask_bit p r c"
proof -
  assume "p < 8"
  then show ?thesis by (cases rule: mask_cases) (simp_all add: standard_mask_def mask_bit_def add.commute)
qed

lemma base_grids: "grid (fst base_matrix)" "grid (snd base_matrix)"
proof -
  have "list_all (\<lambda>m. length m = 37 \<and> list_all (\<lambda>row. length row = 37) m) [fst base_matrix, snd base_matrix]"
    by code_simp
  then show "grid (fst base_matrix)" "grid (snd base_matrix)" by (simp_all add: grid_def qr_size list_all_iff)
qed

lemma base_function_at: "x < 37 \<Longrightarrow> y < 37 \<Longrightarrow> snd base_matrix ! y ! x = function_cell x y"
  using base_function by (simp add: list_all_iff)

lemma base_pattern_at: "x < 37 \<Longrightarrow> y < 37 \<Longrightarrow> pattern_cell x y \<Longrightarrow> fst base_matrix ! y ! x = expected_module x y"
  using base_patterns by (simp add: list_all_iff)

lemma column_distinct:
  "distinct rows \<Longrightarrow> inj_on g (set rows) \<Longrightarrow> c \<noteq> d \<Longrightarrow> distinct (concat (map (\<lambda>i. [(g i, c), (g i, d)]) rows))"
  by (induction rows) (auto simp: inj_on_def)

lemma path_distinct: "distinct scan_path"
proof -
  define col where "col k = (if k < 15 then 36 - 2 * k else 35 - 2 * k)" for k :: nat
  define g where "g k i = (if even k then 36 - i else i)" for k i :: nat
  define f where "f k = concat (map (\<lambda>i. [(g k i, col k), (g k i, col k - 1)]) [0..<37])" for k
  have path: "scan_path = concat (map f [0..<18])" by (simp add: scan_path_def f_def [abs_def] col_def g_def Let_def)
  have cols: "c = col k \<or> c = col k - 1" if "(r, c) \<in> set (f k)" for r c k using that by (auto simp: f_def)
  have apart: "{col k, col k - 1} \<inter> {col j, col j - 1} = {}" if "k < 18" "j < 18" "k \<noteq> j" for k j
  proof -
    have "col k \<noteq> col j" "col k - 1 \<noteq> col j" "col k \<noteq> col j - 1" "col k - 1 \<noteq> col j - 1"
      using that unfolding col_def by (simp_all split: if_splits) presburger+
    then show ?thesis by simp
  qed
  have disj: "set (f k) \<inter> set (f j) = {}" if "k < 18" "j < 18" "k \<noteq> j" for k j
  proof (rule equals0I)
    fix rc assume rc: "rc \<in> set (f k) \<inter> set (f j)"
    obtain r c where "rc = (r, c)" by force
    with rc cols [of r c k] cols [of r c j] apart [OF that] show False by auto
  qed
  have "distinct (f k)" if "k < 18" for k
    unfolding f_def using that by (intro column_distinct) (auto simp: g_def col_def inj_on_def)
  then have "distinct (concat (map f [0..<n]))" if "n \<le> 18" for n
    using that
  proof (induction n)
    case (Suc n)
    then have "set (f n) \<inter> set (f k) = {}" if "k < n" for k using disj that by auto
    then have "set (concat (map f [0..<n])) \<inter> set (f n) = {}" by fastforce
    with Suc show ?case by simp
  qed simp
  then show ?thesis by (simp add: path)
qed

lemma path_bounds: "(r, c) \<in> set scan_path \<Longrightarrow> r < 37 \<and> c < 37"
  by (auto simp: scan_path_def Let_def split: if_splits)

lemma free_path: "free_cells (snd base_matrix) scan_path = filter (\<lambda>(r, c). \<not> function_cell c r) scan_path"
  unfolding free_cells_def by (rule filter_cong) (auto simp: base_function_at dest!: path_bounds)


lemma format_copies:
  "format_copy1 = map format_first [0..<8] @ map format_second [8..<15]"
  "format_copy2 = map format_second [0..<8] @ map format_first [8..<15]"
  by code_simp+

definition format_cells :: "(nat \<times> nat \<times> nat) list" where
  "format_cells = enumerate 0 (map format_first [0..<15]) @ enumerate 0 (map format_second [0..<15])"

lemma format_cells_set: "set format_cells = (\<lambda>i. (i, format_first i)) ` {..<15} \<union> (\<lambda>i. (i, format_second i)) ` {..<15}"
  unfolding format_cells_def enumerate_map_upt by auto

lemma format_cells_bounds: "(i, x, y) \<in> set format_cells \<Longrightarrow> x < 37 \<and> y < 37 \<and> function_cell x y \<and> \<not> pattern_cell x y"
proof -
  assume "(i, x, y) \<in> set format_cells"
  then have "(x, y) \<in> set (map format_first [0..<15] @ map format_second [0..<15])" by (force simp: format_cells_set simp del: upt_Suc)
  with format_in_copies show ?thesis unfolding list_all_iff pattern_cell_def by blast
qed

lemma format_value: "p < 8 \<Longrightarrow> bch_format (push_bit 3 1 OR p) = format_table ! p"
proof -
  assume p: "p < 8"
  then have "push_bit 3 1 OR p = 8 + p"
  proof -
    from p show ?thesis by (cases rule: mask_cases) (simp_all add: push_bit_eq_mult)
  qed
  moreover have "map bch_format [8..<16] ! p = bch_format (8 + p)"
    using p nth_map [of p "[8..<16]" bch_format] nth_upt [of 8 p 16] by simp
  ultimately show ?thesis by (simp only: bch_formats format_table_def)
qed

lemma find_mask: "p < 8 \<Longrightarrow> List.find (\<lambda>q. format_table ! q = format_table ! p) [0..<8] = Some p"
proof -
  assume "p < 8"
  then show ?thesis by (cases rule: mask_cases) (simp_all add: format_table_def upt_rec)
qed

lemma table_less: "p < 8 \<Longrightarrow> format_table ! p < 2 ^ 15"
proof -
  assume "p < 8"
  then show ?thesis by (cases rule: mask_cases) (simp_all add: format_table_def)
qed

section \<open>Reading what was drawn\<close>

lemma bit_words_ok: "codewords ws \<Longrightarrow> bit_words (length ws) (concat (map byte_bits ws) @ rest) = ws"
proof (induction ws)
  case (Cons w ws)
  let ?s = "concat (map byte_bits ws) @ rest"
  have "bit_words (Suc (length ws)) (byte_bits w @ ?s) = bits_value (byte_bits w) # map (\<lambda>i. bits_value (take 8 (drop (8 * Suc i) (byte_bits w @ ?s)))) [0..<length ws]"
    by (simp add: bit_words_def upt_conv_Cons map_Suc_upt [symmetric] del: upt_Suc)
  also have "\<dots> = w # bit_words (length ws) ?s"
    using Cons.prems by (simp add: bit_words_def value_byte_bits)
  finally show ?case using Cons by simp
qed (simp add: bit_words_def)

lemma draw_data_ok:
  assumes "p < 8" and "length stream = 1072" and "bits stream" and "stream = concat (map byte_bits cw)"
  defines "m \<equiv> draw_data (fst base_matrix) (snd base_matrix) cw p"
  shows "patterns_ok m" and "read_mask m = Some p" and "read_stream m p = stream @ replicate 7 0"
proof -
  let ?free = "filter (\<lambda>(r, c). \<not> function_cell c r) scan_path"
  obtain k m1 where m1: "fold (place_bit (snd base_matrix) stream p) scan_path (0, fst base_matrix) = (k, m1)" by force
  have bounds: "\<forall>(r, c)\<in>set scan_path. r < qr_size \<and> c < qr_size" using path_bounds by (auto simp: qr_size)
  note placed = place_bits [OF path_distinct bounds base_grids(1) m1, unfolded free_path free_count]
  have m: "m = fold (\<lambda>(i, x, y). set_module x y (drop_bit i (format_table ! p) AND 1 \<noteq> 0)) format_cells m1"
    unfolding m_def draw_data_def Let_def draw_columns_placement placement_path assms(4) [symmetric] m1 snd_conv draw_format_def
      format_value [OF assms(1)] format_cells_def by (simp add: case_prod_unfold)
  have cells: "\<forall>(i, x, y)\<in>set format_cells. x < qr_size \<and> y < qr_size" using format_cells_bounds by (auto simp: qr_size)
  note drawn = draw_cells [OF format_places [folded format_cells_def] cells, of m1 "\<lambda>i. drop_bit i (format_table ! p) AND 1 \<noteq> 0", folded m]
  have keep: "m ! y ! x = m1 ! y ! x" if "(x, y) \<notin> snd ` set format_cells" for x y using drawn placed that by blast
  have format: "m ! y ! x = (drop_bit i (format_table ! p) AND 1 \<noteq> 0)" if "(i, x, y) \<in> set format_cells" for i x y
    using drawn placed that by blast
  show "patterns_ok m"
    unfolding patterns_ok_def
  proof (intro allI impI)
    fix x y assume xy: "x < 37" "y < 37" "pattern_cell x y"
    have "(x, y) \<notin> snd ` set format_cells" using format_cells_bounds xy(3) by auto
    moreover have "(y, x) \<notin> set ?free" using xy(3) by (auto simp: pattern_cell_def)
    ultimately show "m ! y ! x = expected_module x y" using keep placed base_pattern_at [OF xy] by simp
  qed
  have digit: "of_bool (drop_bit i v AND 1 \<noteq> 0) = v div 2 ^ i mod 2" for i v :: nat
    by (simp add: drop_bit_eq_div and_one_eq)
  have at: "(case format_first i of (x, y) \<Rightarrow> of_bool (m ! y ! x)) = format_table ! p div 2 ^ i mod 2"
    "(case format_second i of (x, y) \<Rightarrow> of_bool (m ! y ! x)) = format_table ! p div 2 ^ i mod 2" if "i < 15" for i
  proof -
    have "(i, format_first i) \<in> set format_cells" "(i, format_second i) \<in> set format_cells"
      using that by (simp_all add: format_cells_set)
    then show "(case format_first i of (x, y) \<Rightarrow> of_bool (m ! y ! x)) = format_table ! p div 2 ^ i mod 2"
      "(case format_second i of (x, y) \<Rightarrow> of_bool (m ! y ! x)) = format_table ! p div 2 ^ i mod 2"
      using format digit by (cases "format_first i", simp, cases "format_second i", simp)
  qed
  have copies: "map (\<lambda>(x, y). of_bool (m ! y ! x)) format_copy1 = map (\<lambda>i. format_table ! p div 2 ^ i mod 2) [0..<15]"
    "map (\<lambda>(x, y). of_bool (m ! y ! x)) format_copy2 = map (\<lambda>i. format_table ! p div 2 ^ i mod 2) [0..<15]"
  proof -
    have "[0..<15] = [0..<8] @ [8..<15 :: nat]" by (simp add: upt_rec)
    then show "map (\<lambda>(x, y). of_bool (m ! y ! x)) format_copy1 = map (\<lambda>i. format_table ! p div 2 ^ i mod 2) [0..<15]"
      "map (\<lambda>(x, y). of_bool (m ! y ! x)) format_copy2 = map (\<lambda>i. format_table ! p div 2 ^ i mod 2) [0..<15]"
      unfolding format_copies by (simp_all add: at del: upt_Suc)
  qed
  have "read_format m format_copy1 = format_table ! p" "read_format m format_copy2 = format_table ! p"
    unfolding read_format_def copies using table_less [OF assms(1)] bits_value_digits [of "format_table ! p" 15]
    by (simp_all add: rev_map)
  then show "read_mask m = Some p" by (simp add: read_mask_def find_mask [OF assms(1)])
  have "map (\<lambda>(r, c). m ! r ! c \<noteq> standard_mask p r c) ?free = map (\<lambda>(r, c). m1 ! r ! c \<noteq> mask_bit p r c) ?free"
  proof (rule map_cong [OF refl], clarify)
    fix r c assume "(r, c) \<in> set ?free"
    then have "(c, r) \<notin> snd ` set format_cells" using format_cells_bounds by auto
    then show "(m ! r ! c \<noteq> standard_mask p r c) = (m1 ! r ! c \<noteq> mask_bit p r c)" by (simp add: keep masks_agree [OF assms(1)])
  qed
  also have "\<dots> = map (stream_bit stream) [0..<1079]" using placed by simp
  finally have "map of_bool (map (\<lambda>(r, c). m ! r ! c \<noteq> standard_mask p r c) ?free) = map of_bool (map (stream_bit stream) [0..<1079])"
    by (rule arg_cong)
  then have "read_stream m p = map (\<lambda>j. of_bool (stream_bit stream j)) [0..<1079]"
    by (simp add: read_stream_def case_prod_unfold comp_def)
  also have "\<dots> = stream @ replicate 7 0"
  proof (intro nth_equalityI)
    show "map (\<lambda>j. of_bool (stream_bit stream j)) [0..<1079] ! i = (stream @ replicate 7 0) ! i"
      if "i < length (map (\<lambda>j. of_bool (stream_bit stream j) :: nat) [0..<1079])" for i
    proof -
      have "stream ! i < 2" if "i < 1072" using that assms(2,3) by simp
      then show ?thesis using that assms(2) by (auto simp: stream_bit_def nth_append simp del: upt_Suc)
    qed
  qed (simp add: assms(2))
  finally show "read_stream m p = stream @ replicate 7 0" .
qed


section \<open>Properties\<close>

lemma byte_stream: "bits (concat (map byte_bits ws))" "length (concat (map byte_bits ws)) = 8 * length ws"
  using bits_byte_bits by (induction ws) auto

lemma drawn_symbols_scan:
  assumes "p < 8" and "length ws = 108" and "codewords ws"
    and "concat (map byte_bits ws) =
      [0, 1, 0, 0] @ byte_bits (length payload) @ concat (map (\<lambda>b. byte_bits (unat b)) payload) @ rest"
    and "length payload \<le> 100"
  shows "scan (draw_data (fst base_matrix) (snd base_matrix) (ws @ ecc ws) p) = Some payload"
proof -
  let ?m = "draw_data (fst base_matrix) (snd base_matrix) (ws @ ecc ws) p"
  define stream where "stream = concat (map byte_bits (ws @ ecc ws))"
  note e = ecc_ok [OF assms(3)]
  have l: "length stream = 1072" using byte_stream(2) [of "ws @ ecc ws"] assms(2) e by (simp add: stream_def)
  note drawn = draw_data_ok [OF assms(1) l byte_stream(1) [of "ws @ ecc ws", folded stream_def] stream_def]
  have words: "bit_words 134 (stream @ replicate 7 0) = ws @ ecc ws"
    using bit_words_ok [of "ws @ ecc ws" "replicate 7 0"] assms(2,3) e by (auto simp: stream_def)
  have data: "take 864 (stream @ replicate 7 0) = concat (map byte_bits ws)"
    using byte_stream(2) [of ws] assms(2) by (simp add: stream_def)
  have n: "bits_value (byte_bits (length payload)) = length payload" using assms(5) by (intro value_byte_bits) simp
  have payload: "bit_words (length payload) (concat (map byte_bits (map unat payload)) @ rest) = map unat payload"
  proof -
    have "unat (b :: byte) < 256" for b using unsigned_less [of b] by simp
    then have "codewords (map unat payload)" by simp
    from bit_words_ok [OF this, of rest] show ?thesis by simp
  qed
  have "decode_segment (concat (map byte_bits ws)) = Some payload"
    using n payload unfolding decode_segment_def assms(4) by (simp add: comp_def)
  moreover have "syndrome (ws @ ecc ws) i = 0" if "i < 26" for i
    using e that assms(3) syndrome_poly_at [of "ws @ ecc ws" i] by auto
  ultimately show ?thesis unfolding scan_def by (simp add: drawn words data Let_def del: take_append)
qed

text \<open>The mask is one with the smallest penalty.\<close>

lemma arg_min_list_least: "xs \<noteq> [] \<Longrightarrow> x \<in> set xs \<Longrightarrow> f (arg_min_list f xs) \<le> f x" for f :: "'a \<Rightarrow> int"
  using f_arg_min_list_f [of xs f] by simp

lemma mask_has_least_penalty:
  "p < 8 \<Longrightarrow> penalty (matrix_of ws) \<le> penalty (draw_data (fst base_matrix) (snd base_matrix) (ws @ ecc ws) p)"
  unfolding matrix_of_def case_prod_unfold Let_def by (rule arg_min_list_least) (simp_all del: upt_Suc)

text \<open>The drawing paints exactly the dark modules of a row, and its path needs no escaping.\<close>

lemma row_runs_cover:
  "(\<exists>(start, n)\<in>set (row_runs c row). start \<le> i \<and> i < start + n) \<longleftrightarrow> c \<le> i \<and> i < c + length row \<and> row ! (i - c)"
proof (induction c row rule: row_runs.induct)
  case (2 c v vs)
  show ?case
  proof (cases v)
    case False
    with "2"(1) show ?thesis by (auto simp: nth_Cons' not_less_eq_eq le_Suc_eq)
  next
    case True
    define n where "n = length (takeWhile id vs)"
    have ih: "(\<exists>(start, n)\<in>set (row_runs (c + 1 + n) (dropWhile id vs)). start \<le> i \<and> i < start + n) \<longleftrightarrow>
        c + 1 + n \<le> i \<and> i < c + 1 + n + length (dropWhile id vs) \<and> dropWhile id vs ! (i - (c + 1 + n))"
      using "2"(2) True n_def by simp
    have vs: "vs = takeWhile id vs @ dropWhile id vs" by simp
    have l: "length vs = n + length (dropWhile id vs)" unfolding n_def by (metis length_append vs)
    have front: "vs ! j" if "j < n" for j
      using that nth_mem [of j "takeWhile id vs"] set_takeWhileD [of "takeWhile id vs ! j" id vs] takeWhile_nth [of j id vs]
      by (simp add: n_def)
    have rest: "vs ! j = dropWhile id vs ! (j - n)" if "n \<le> j" for j
      using that nth_append [of "takeWhile id vs" "dropWhile id vs" j] by (simp add: n_def)
    have "row_runs c (v # vs) = (c, n + 1) # row_runs (c + 1 + n) (dropWhile id vs)" using True by (simp add: n_def Let_def)
    then have "(\<exists>(start, n)\<in>set (row_runs c (v # vs)). start \<le> i \<and> i < start + n) \<longleftrightarrow>
        c \<le> i \<and> i < c + 1 + n \<or> c + 1 + n \<le> i \<and> i < c + 1 + n + length (dropWhile id vs) \<and> dropWhile id vs ! (i - (c + 1 + n))"
      using ih by simp
    also have "\<dots> \<longleftrightarrow> c \<le> i \<and> i < c + length (v # vs) \<and> (v # vs) ! (i - c)"
      using True l front [of "i - c - 1"] rest [of "i - c - 1"] by (cases "i = c") (auto simp: nth_Cons')
    finally show ?thesis .
  qed
qed simp

text \<open>C15: the symbols of the program can be read. For every string, \<open>matrix\<close> either refuses it, because it has no
  UTF-8 form or more than 100 bytes, or draws a symbol from which a standard reader (function patterns, both format values,
  mask, cell order, Reed-Solomon check, byte segment) gets back exactly the UTF-8 bytes of the string.\<close>

theorem symbols_scan_back:
  "case matrix v of
     Inl NotEncodable \<Rightarrow> utf8_encode v = None
   | Inl UrlTooLong \<Rightarrow> (\<exists>payload. utf8_encode v = Some payload \<and> 100 < length payload)
   | Inr m \<Rightarrow> utf8_encode v \<noteq> None \<and> scan m = utf8_encode v"
proof (cases "data_codewords v")
  case (Inl e)
  then show ?thesis by (auto simp: matrix_def data_codewords_def Let_def split: option.splits if_splits)
next
  case (Inr ws)
  from data_codewords_ok [OF this] obtain payload rest where p: "utf8_encode v = Some payload" "length payload \<le> 100"
    "length ws = 108" "codewords ws"
    "concat (map byte_bits ws) = [0, 1, 0, 0] @ byte_bits (length payload) @ concat (map (\<lambda>b. byte_bits (unat b)) payload) @ rest"
    by blast
  let ?candidates = "map (draw_data (fst base_matrix) (snd base_matrix) (ws @ ecc ws)) [0..<8]"
  have "matrix_of ws = arg_min_list penalty ?candidates" by (simp add: matrix_of_def case_prod_unfold Let_def del: upt_Suc)
  also have "\<dots> \<in> set ?candidates" by (rule arg_min_list_in) simp
  finally obtain k where "k < 8" "matrix_of ws = draw_data (fst base_matrix) (snd base_matrix) (ws @ ecc ws) k" by auto
  with drawn_symbols_scan [OF _ p(3-5,2)] Inr p(1) show ?thesis by (simp add: matrix_def)
qed

end
