(* ===== verification/Profile_Shares.thy ===== *)
theory Profile_Shares
  imports Prelude
begin

text \<open>
  \<open>ProfileShareStore\<close> of \<open>app.py\<close>: profiles that may be downloaded a few times with a
  separate access code. SHA-256 is a parameter \<open>sha\<close>; identifiers, the random number of a code and clock readings
  are arguments. Method bodies hold the lock; the clean-up thread is the step \<open>purge_shares\<close>.
\<close>

section \<open>The store\<close>

record shared_profile =
  sp_payload :: "byte list"
  sp_filename :: pystr
  sp_digest :: "byte list"
  sp_expires_at :: rat
  sp_downloads :: nat
  sp_failed :: nat
  sp_locked_until :: rat

record share_store =
  sh_items :: "(pystr, shared_profile) dict"
  sh_closed :: bool

datatype share_error = ShareStoreClosed

definition share_ttl :: rat where "share_ttl = 600"
definition max_downloads :: nat where "max_downloads = 3"
definition max_failed_attempts :: nat where "max_failed_attempts = 5"
definition lockout_seconds :: rat where "lockout_seconds = 60"
definition access_code_digits :: nat where "access_code_digits = 12"

definition new_share_store :: share_store where
  "new_share_store = \<lparr>sh_items = [], sh_closed = False\<rparr>"

definition purge_shares :: "rat \<Rightarrow> share_store \<Rightarrow> share_store" where
  "purge_shares now st = st\<lparr>sh_items := filter (\<lambda>(_, item). \<not> sp_expires_at item \<le> now) (sh_items st)\<rparr>"

definition close_shares :: "share_store \<Rightarrow> share_store" where
  "close_shares st = st\<lparr>sh_closed := True, sh_items := []\<rparr>"

text \<open>The number with leading zeros; \<open>code.encode("ascii")\<close> of digits.\<close>

definition access_code :: "nat \<Rightarrow> pystr" where
  "access_code n = (let d = dec_of_nat n in replicate (access_code_digits - length d) 48 @ d)"

definition ascii_bytes :: "pystr \<Rightarrow> byte list" where
  "ascii_bytes s = map of_nat s"

definition put_share :: "(byte list \<Rightarrow> byte list) \<Rightarrow> pystr \<Rightarrow> nat \<Rightarrow> byte list \<Rightarrow> pystr \<Rightarrow> rat \<Rightarrow> share_store
    \<Rightarrow> share_store \<times> (share_error + pystr \<times> pystr \<times> rat)" where
  "put_share sha share_id n payload filename now st =
     (if sh_closed st then (st, Inl ShareStoreClosed)
      else let st = purge_shares now st in
        (st\<lparr>sh_items := dset share_id
             \<lparr>sp_payload = payload, sp_filename = filename, sp_digest = sha (ascii_bytes (access_code n)),
              sp_expires_at = now + share_ttl, sp_downloads = 0, sp_failed = 0, sp_locked_until = 0\<rparr> (sh_items st)\<rparr>,
         Inr (share_id, access_code n, share_ttl)))"

section \<open>Taking a profile\<close>

text \<open>\<open>[0-9]{12}|[0-9]{4}-[0-9]{4}-[0-9]{4}\<close>.\<close>

definition plain_code :: "pystr \<Rightarrow> bool" where
  "plain_code c \<longleftrightarrow> length c = 12 \<and> list_all is_digit c"

definition grouped_code :: "pystr \<Rightarrow> bool" where
  "grouped_code c \<longleftrightarrow> length c = 14 \<and> list_all is_digit (take 4 c) \<and> c ! 4 = 45 \<and> list_all is_digit (take 4 (drop 5 c)) \<and>
     c ! 9 = 45 \<and> list_all is_digit (drop 10 c)"

definition normalized_code :: "pystr \<Rightarrow> pystr" where
  "normalized_code c = (if plain_code c \<or> grouped_code c then filter (\<lambda>x. x \<noteq> 45) c else [])"

definition code_accepted :: "(byte list \<Rightarrow> byte list) \<Rightarrow> shared_profile \<Rightarrow> pystr \<Rightarrow> bool" where
  "code_accepted sha item c \<longleftrightarrow>
     plain_code (normalized_code c) \<and> sp_digest item = sha (ascii_bytes (normalized_code c))"

definition refuse_code :: "rat \<Rightarrow> shared_profile \<Rightarrow> shared_profile" where
  "refuse_code now item =
     (if sp_locked_until item > now then item
      else
        let item = (if sp_locked_until item \<noteq> 0 then item\<lparr>sp_failed := 0, sp_locked_until := 0\<rparr> else item);
            item = item\<lparr>sp_failed := sp_failed item + 1\<rparr> in
        if max_failed_attempts \<le> sp_failed item
        then item\<lparr>sp_failed := 0, sp_locked_until := min (now + lockout_seconds) (sp_expires_at item)\<rparr>
        else item)"

definition take_share :: "(byte list \<Rightarrow> byte list) \<Rightarrow> pystr \<Rightarrow> pystr \<Rightarrow> rat \<Rightarrow> share_store \<Rightarrow> share_store \<times> shared_profile option" where
  "take_share sha share_id code now st =
     (let st = purge_shares now st in
      case dget (sh_items st) share_id of
        None \<Rightarrow> (st, None)
      | Some item \<Rightarrow>
          if \<not> code_accepted sha item code
          then (st\<lparr>sh_items := dset share_id (refuse_code now item) (sh_items st)\<rparr>, None)
          else
            let item = item\<lparr>sp_failed := 0, sp_locked_until := 0, sp_downloads := sp_downloads item + 1\<rparr> in
            (st\<lparr>sh_items := (if max_downloads \<le> sp_downloads item then ddel share_id (sh_items st)
               else dset share_id item (sh_items st))\<rparr>, Some item))"

definition share_available :: "pystr \<Rightarrow> rat \<Rightarrow> share_store \<Rightarrow> share_store \<times> bool" where
  "share_available share_id now st =
     (let st = purge_shares now st in
      (st, case dget (sh_items st) share_id of None \<Rightarrow> False | Some item \<Rightarrow> sp_expires_at item > now))"

text \<open>The result says whether \<open>publish\<close> ran; it runs under the lock.\<close>

definition publish_if_open :: "pystr \<Rightarrow> rat \<Rightarrow> share_store \<Rightarrow> share_store \<times> bool" where
  "publish_if_open share_id now st =
     (let st = purge_shares now st in
      (st, \<not> sh_closed st \<and> dget (sh_items st) share_id \<noteq> None))"

definition share_locked :: "pystr \<Rightarrow> rat \<Rightarrow> share_store \<Rightarrow> bool" where
  "share_locked share_id now st =
     (case dget (sh_items st) share_id of None \<Rightarrow> False | Some item \<Rightarrow> sp_locked_until item > now)"

section \<open>Access codes\<close>

lemma length_dec_of_nat: "n < 10 ^ k \<Longrightarrow> 0 < k \<Longrightarrow> length (dec_of_nat n) \<le> k"
proof (induction k arbitrary: n)
  case (Suc k)
  show ?case
  proof (cases "n < 10")
    case True
    then show ?thesis by (subst dec_of_nat.simps) simp
  next
    case False
    with Suc.prems have "n div 10 < 10 ^ k" "0 < k" by (cases k; simp)+
    with Suc.IH [of "n div 10"] False show ?thesis by (subst dec_of_nat.simps) simp
  qed
qed simp

lemma access_code_plain: "n < 10 ^ 12 \<Longrightarrow> plain_code (access_code n)"
  using length_dec_of_nat [of n 12] dec_of_nat_digits [of n]
  by (auto simp: plain_code_def access_code_def access_code_digits_def Let_def is_digit_def list_all_iff)

text \<open>The code with a dash after each group of four digits is read as the same code.\<close>

definition grouped :: "pystr \<Rightarrow> pystr" where
  "grouped c = take 4 c @ [45] @ take 4 (drop 4 c) @ [45] @ drop 8 c"

lemma digits_no_dash: "list_all is_digit c \<Longrightarrow> filter (\<lambda>x. x \<noteq> 45) c = c"
  by (induction c) (auto simp: is_digit_def)

lemma normalized_plain: "plain_code c \<Longrightarrow> normalized_code c = c"
  by (simp add: normalized_code_def plain_code_def digits_no_dash)

lemma normalized_grouped: "plain_code c \<Longrightarrow> normalized_code (grouped c) = c"
proof -
  assume c: "plain_code c"
  then have l: "length c = 12" "list_all is_digit c" by (simp_all add: plain_code_def)
  have parts: "list_all is_digit (take 4 c)" "list_all is_digit (take 4 (drop 4 c))" "list_all is_digit (drop 8 c)"
    using l(2) by (auto simp: list_all_iff dest: in_set_takeD in_set_dropD)
  then have "grouped_code (grouped c)"
    using l(1) by (simp add: grouped_code_def grouped_def nth_append)
  moreover have "filter (\<lambda>x. x \<noteq> 45) (grouped c) = take 4 c @ take 4 (drop 4 c) @ drop 8 c"
    using parts by (simp add: grouped_def digits_no_dash)
  moreover have "take 4 c @ take 4 (drop 4 c) @ drop 8 c = c"
    by (metis append_take_drop_id drop_drop numeral_Bit0)
  ultimately show ?thesis by (simp add: normalized_code_def)
qed

section \<open>Runs\<close>

text \<open>A store in use and its history: what was shared, and what was handed out. Identifiers are random, so a share never gets
  the identifier of another.\<close>

datatype share_event =
    Shared pystr nat "byte list" rat
  | Taken pystr pystr "byte list" rat

definition taken :: "pystr \<Rightarrow> share_event list \<Rightarrow> nat" where
  "taken sid h = length (filter (\<lambda>e. case e of Taken s _ _ _ \<Rightarrow> s = sid | _ \<Rightarrow> False) h)"

lemma taken_simps [simp]:
  "taken sid [] = 0" "taken sid (h @ [Shared s n p t]) = taken sid h"
  "taken sid (h @ [Taken s c p t]) = taken sid h + (if s = sid then 1 else 0)"
  by (simp_all add: taken_def)

lemma taken_0_iff: "taken sid h = 0 \<longleftrightarrow> (\<forall>c p t. Taken sid c p t \<notin> set h)"
  by (auto simp: taken_def filter_empty_conv split: share_event.splits)

inductive share_run :: "(byte list \<Rightarrow> byte list) \<Rightarrow> share_store \<Rightarrow> share_event list \<Rightarrow> bool" for sha where
  shares_start: "share_run sha new_share_store []"
| shares_put: "share_run sha st h \<Longrightarrow> n < 10 ^ 12 \<Longrightarrow> (\<And>n p t. Shared sid n p t \<notin> set h) \<Longrightarrow>
    put_share sha sid n payload filename now st = (st', Inr answer) \<Longrightarrow> share_run sha st' (h @ [Shared sid n payload now])"
| shares_taken: "share_run sha st h \<Longrightarrow> take_share sha sid code now st = (st', Some item) \<Longrightarrow>
    share_run sha st' (h @ [Taken sid code (sp_payload item) now])"
| shares_refused: "share_run sha st h \<Longrightarrow> take_share sha sid code now st = (st', None) \<Longrightarrow> share_run sha st' h"
| shares_purged: "share_run sha st h \<Longrightarrow> share_run sha (purge_shares now st) h"
| shares_asked: "share_run sha st h \<Longrightarrow> share_available sid now st = (st', answer) \<Longrightarrow> share_run sha st' h"
| shares_published: "share_run sha st h \<Longrightarrow> publish_if_open sid now st = (st', published) \<Longrightarrow> share_run sha st' h"
| shares_closed: "share_run sha st h \<Longrightarrow> share_run sha (close_shares st) h"

text \<open>Every item comes from its share, has been taken less than three times, and the history is as it should be.\<close>

definition item_ok :: "(byte list \<Rightarrow> byte list) \<Rightarrow> share_event list \<Rightarrow> pystr \<Rightarrow> shared_profile \<Rightarrow> bool" where
  "item_ok sha h sid item \<longleftrightarrow>
     (\<exists>n t. n < 10 ^ 12 \<and> Shared sid n (sp_payload item) t \<in> set h \<and> sp_digest item = sha (ascii_bytes (access_code n)) \<and>
        sp_expires_at item = t + share_ttl) \<and>
     sp_downloads item = taken sid h \<and> sp_downloads item < max_downloads"

definition handed_out :: "(byte list \<Rightarrow> byte list) \<Rightarrow> share_event list \<Rightarrow> pystr \<Rightarrow> pystr \<Rightarrow> byte list \<Rightarrow> rat \<Rightarrow> bool" where
  "handed_out sha h sid code payload now \<longleftrightarrow>
     (\<exists>n t. n < 10 ^ 12 \<and> Shared sid n payload t \<in> set h \<and> now < t + share_ttl \<and>
        sha (ascii_bytes (normalized_code code)) = sha (ascii_bytes (access_code n)))"

definition share_ok :: "(byte list \<Rightarrow> byte list) \<Rightarrow> share_store \<Rightarrow> share_event list \<Rightarrow> bool" where
  "share_ok sha st h \<longleftrightarrow> dict_ok (sh_items st) \<and> (\<forall>sid item. dget (sh_items st) sid = Some item \<longrightarrow> item_ok sha h sid item) \<and>
     (\<forall>sid code payload now. Taken sid code payload now \<in> set h \<longrightarrow> handed_out sha h sid code payload now) \<and>
     (\<forall>sid. taken sid h \<le> max_downloads)"

lemma share_okD:
  "share_ok sha st h \<Longrightarrow> dict_ok (sh_items st)"
  "share_ok sha st h \<Longrightarrow> dget (sh_items st) sid = Some item \<Longrightarrow> item_ok sha h sid item"
  "share_ok sha st h \<Longrightarrow> Taken sid code payload now \<in> set h \<Longrightarrow> handed_out sha h sid code payload now"
  "share_ok sha st h \<Longrightarrow> taken sid h \<le> max_downloads"
  by (simp_all add: share_ok_def)

lemma purge_dget: "dict_ok (sh_items st) \<Longrightarrow> dget (sh_items (purge_shares now st)) sid = Some item \<Longrightarrow>
    dget (sh_items st) sid = Some item \<and> now < sp_expires_at item"
  by (auto simp: purge_shares_def dget_filter split: option.splits if_splits)

lemma purge_ok: "share_ok sha st h \<Longrightarrow> share_ok sha (purge_shares now st) h"
proof -
  assume ok: "share_ok sha st h"
  note d = share_okD(1) [OF ok]
  have "dict_ok (sh_items (purge_shares now st))" by (simp add: purge_shares_def dict_ok_filter d)
  moreover have "item_ok sha h sid item" if "dget (sh_items (purge_shares now st)) sid = Some item" for sid item
    using purge_dget [OF d that] share_okD(2) [OF ok] by blast
  ultimately show ?thesis using ok unfolding share_ok_def by blast
qed

lemma item_ok_more: "item_ok sha h sid item \<Longrightarrow> item_ok sha (h @ [Shared s n p t]) sid item"
  by (fastforce simp: item_ok_def)

lemma handed_out_more: "handed_out sha h sid code payload now \<Longrightarrow> handed_out sha (h @ e) sid code payload now"
  by (fastforce simp: handed_out_def)

lemma put_ok:
  assumes "share_ok sha st h" and "n < 10 ^ 12" and "\<And>n p t. Shared sid n p t \<notin> set h"
    and "put_share sha sid n payload filename now st = (st', Inr answer)"
  shows "share_ok sha st' (h @ [Shared sid n payload now])"
proof -
  let ?h = "h @ [Shared sid n payload now]"
  let ?item = "\<lparr>sp_payload = payload, sp_filename = filename, sp_digest = sha (ascii_bytes (access_code n)),
              sp_expires_at = now + share_ttl, sp_downloads = 0, sp_failed = 0, sp_locked_until = 0\<rparr>"
  note ok = purge_ok [OF assms(1), of now]
  have st': "st' = (purge_shares now st)\<lparr>sh_items := dset sid ?item (sh_items (purge_shares now st))\<rparr>"
    using assms(4) by (simp add: put_share_def Let_def split: if_splits)
  have "taken sid h = 0"
    unfolding taken_0_iff using share_okD(3) [OF ok] assms(3) unfolding handed_out_def by blast
  then have new: "item_ok sha ?h sid ?item" using assms(2) by (auto simp: item_ok_def max_downloads_def)
  have "item_ok sha ?h k item" if "dget (sh_items st') k = Some item" for k item
    using that new share_okD(2) [OF ok, of k item] item_ok_more by (simp add: st' dget_dset split: if_splits)
  moreover have "dict_ok (sh_items st')" using share_okD(1) [OF ok] by (simp add: st')
  ultimately show ?thesis
    using share_okD(3,4) [OF ok] handed_out_more by (simp add: share_ok_def)
qed

lemma take_refused_ok:
  assumes "share_ok sha st h" and "take_share sha sid code now st = (st', None)"
  shows "share_ok sha st' h"
proof -
  note ok = purge_ok [OF assms(1), of now]
  show ?thesis
  proof (cases "dget (sh_items (purge_shares now st)) sid")
    case None
    with assms(2) ok show ?thesis by (auto simp: take_share_def Let_def)
  next
    case (Some item)
    then have st': "st' = (purge_shares now st)\<lparr>sh_items := dset sid (refuse_code now item) (sh_items (purge_shares now st))\<rparr>"
      using assms(2) by (auto simp: take_share_def Let_def split: if_splits)
    have "item_ok sha h sid (refuse_code now item)"
      using share_okD(2) [OF ok Some] by (simp add: item_ok_def refuse_code_def Let_def)
    then have "item_ok sha h k d" if "dget (sh_items st') k = Some d" for k d
      using that share_okD(2) [OF ok, of k d] by (simp add: st' dget_dset split: if_splits)
    moreover have "dict_ok (sh_items st')" using share_okD(1) [OF ok] by (simp add: st')
    ultimately show ?thesis using ok unfolding share_ok_def by blast
  qed
qed

lemma take_cases:
  assumes "take_share sha sid code now st = (st', Some item)"
  obtains old where "dget (sh_items (purge_shares now st)) sid = Some old" and "code_accepted sha old code"
    and "item = old\<lparr>sp_failed := 0, sp_locked_until := 0, sp_downloads := sp_downloads old + 1\<rparr>"
    and "st' = (purge_shares now st)\<lparr>sh_items := (if max_downloads \<le> sp_downloads item then ddel sid (sh_items (purge_shares now st))
               else dset sid item (sh_items (purge_shares now st)))\<rparr>"
proof (cases "dget (sh_items (purge_shares now st)) sid")
  case None
  with assms show thesis by (simp add: take_share_def Let_def)
next
  case (Some old)
  with assms have a: "code_accepted sha old code" by (auto simp: take_share_def Let_def split: if_splits)
  with assms Some have i: "item = old\<lparr>sp_failed := 0, sp_locked_until := 0, sp_downloads := sp_downloads old + 1\<rparr>"
    by (auto simp: take_share_def Let_def)
  show thesis by (rule that [OF Some a i]) (use assms Some a i in \<open>auto simp: take_share_def Let_def\<close>)
qed

lemma take_ok:
  assumes "share_ok sha st h" and "take_share sha sid code now st = (st', Some item)"
  shows "share_ok sha st' (h @ [Taken sid code (sp_payload item) now])"
  using assms(2)
proof (cases rule: take_cases)
  case (1 old)
  let ?p = "purge_shares now st" and ?h = "h @ [Taken sid code (sp_payload item) now]"
  note ok = purge_ok [OF assms(1), of now]
  have io: "item_ok sha h sid old" using share_okD(2) [OF ok 1(1)] .
  have exp: "now < sp_expires_at old" using purge_dget [OF share_okD(1) [OF assms(1)] 1(1)] by blast
  have few: "taken sid h < max_downloads" using io by (simp add: item_ok_def)
  have new: "handed_out sha ?h sid code (sp_payload item) now"
    using io exp 1(2,3) unfolding handed_out_def item_ok_def code_accepted_def by fastforce
  have kept: "item_ok sha ?h k d" if k: "dget (sh_items st') k = Some d" for k d
  proof (cases "k = sid")
    case True
    with k 1(4) have d: "d = item" "\<not> max_downloads \<le> sp_downloads item" by (auto simp: dget_dset dget_ddel split: if_splits)
    then show ?thesis using io True 1(3) by (auto simp: item_ok_def)
  next
    case False
    with k 1(4) have "dget (sh_items ?p) k = Some d" by (auto simp: dget_dset dget_ddel split: if_splits)
    from share_okD(2) [OF ok this] False show ?thesis by (auto simp: item_ok_def)
  qed
  have "dict_ok (sh_items st')" using share_okD(1) [OF ok] 1(4) by simp
  moreover have "handed_out sha ?h s c p t" if "Taken s c p t \<in> set ?h" for s c p t
    using that new share_okD(3) [OF ok] handed_out_more by auto
  moreover have "taken s ?h \<le> max_downloads" for s using share_okD(4) [OF ok, of s] few by auto
  ultimately show ?thesis using kept unfolding share_ok_def by blast
qed

lemma share_run_ok: "share_run sha st h \<Longrightarrow> share_ok sha st h"
proof (induction rule: share_run.induct)
  case shares_start
  show ?case by (simp add: share_ok_def new_share_store_def)
next
  case (shares_closed st h)
  then show ?case by (simp add: share_ok_def close_shares_def)
next
  case (shares_asked st h sid now st' answer)
  then show ?case by (auto simp: share_available_def Let_def purge_ok)
next
  case (shares_published st h sid now st' published)
  then show ?case by (auto simp: publish_if_open_def Let_def purge_ok)
qed (blast intro: put_ok take_ok take_refused_ok purge_ok)+

section \<open>Properties\<close>

text \<open>C14: what a share gives away. In every run, whatever identifiers, codes and clock readings are tried: each profile that is
  handed out was put under that identifier, within its ten minutes, for a code with the digest of the share's own code; and
  no share is handed out more than three times.\<close>

theorem shares_need_their_code:
  assumes "share_run sha st h"
  shows "(\<forall>sid code payload now. Taken sid code payload now \<in> set h \<longrightarrow>
      (\<exists>n t. n < 10 ^ 12 \<and> Shared sid n payload t \<in> set h \<and> now < t + 600 \<and>
        sha (ascii_bytes (normalized_code code)) = sha (ascii_bytes (access_code n)))) \<and>
    (\<forall>sid. taken sid h \<le> 3)"
  using share_run_ok [OF assms] unfolding share_ok_def handed_out_def share_ttl_def max_downloads_def by blast

text \<open>Attempts with wrong codes.\<close>

definition attempt :: "(byte list \<Rightarrow> byte list) \<Rightarrow> pystr \<times> pystr \<times> rat \<Rightarrow> share_store \<Rightarrow> share_store" where
  "attempt sha = (\<lambda>(sid, code, now) st. fst (take_share sha sid code now st))"

definition waiting :: "(byte list \<Rightarrow> byte list) \<Rightarrow> pystr \<Rightarrow> byte list \<Rightarrow> byte list \<Rightarrow> rat \<Rightarrow> share_store \<Rightarrow> bool" where
  "waiting sha sid payload digest expires st \<longleftrightarrow> dict_ok (sh_items st) \<and>
     (\<exists>item. dget (sh_items st) sid = Some item \<and> sp_payload item = payload \<and> sp_digest item = digest \<and>
        sp_expires_at item = expires)"

lemma purge_waiting: "waiting sha sid payload digest expires st \<Longrightarrow> now < expires \<Longrightarrow> waiting sha sid payload digest expires (purge_shares now st)"
  by (auto simp: waiting_def purge_shares_def dget_filter dict_ok_filter)

lemma attempt_waiting:
  assumes "waiting sha sid payload digest expires st" and "now < expires"
    and "s = sid \<Longrightarrow> plain_code (normalized_code c) \<Longrightarrow> sha (ascii_bytes (normalized_code c)) \<noteq> digest"
  shows "waiting sha sid payload digest expires (attempt sha (s, c, now) st)"
proof -
  note w = purge_waiting [OF assms(1,2)]
  have refuse: "sp_payload (refuse_code now i) = sp_payload i" "sp_digest (refuse_code now i) = sp_digest i"
    "sp_expires_at (refuse_code now i) = sp_expires_at i" for i
    by (simp_all add: refuse_code_def Let_def)
  show ?thesis
  proof (cases "s = sid")
    case True
    obtain item where item: "dget (sh_items (purge_shares now st)) sid = Some item" "sp_payload item = payload" "sp_digest item = digest"
      "sp_expires_at item = expires" "dict_ok (sh_items (purge_shares now st))" using w by (auto simp: waiting_def)
    have "\<not> code_accepted sha item c" using assms(3) [OF True] item(3) unfolding code_accepted_def by metis
    then show ?thesis using True item refuse by (auto simp: attempt_def take_share_def Let_def waiting_def dget_dset)
  next
    case False
    then show ?thesis
      using w by (auto simp: attempt_def take_share_def Let_def waiting_def dget_dset dget_ddel split: option.split)
  qed
qed

lemma attempts_waiting:
  "waiting sha sid payload digest expires st \<Longrightarrow>
   (\<And>s c t. (s, c, t) \<in> set attempts \<Longrightarrow> t < expires \<and> (s = sid \<longrightarrow> plain_code (normalized_code c) \<longrightarrow> sha (ascii_bytes (normalized_code c)) \<noteq> digest)) \<Longrightarrow>
   waiting sha sid payload digest expires (fold (attempt sha) attempts st)"
proof (induction attempts arbitrary: st)
  case (Cons a attempts)
  obtain s c t where a: "a = (s, c, t)" by (cases a)
  then have "(s, c, t) \<in> set (a # attempts)" by simp
  note Cons.prems(2) [OF this]
  then have "waiting sha sid payload digest expires (attempt sha a st)"
    unfolding a by (intro attempt_waiting [OF Cons.prems(1)]) simp_all
  from Cons.IH [OF this Cons.prems(2)] show ?case by simp
qed simp

lemma waiting_take:
  assumes "waiting sha sid payload digest expires st" and "now < expires" and "plain_code (normalized_code c)"
    and "sha (ascii_bytes (normalized_code c)) = digest"
  shows "\<exists>item. snd (take_share sha sid c now st) = Some item \<and> sp_payload item = payload"
  using purge_waiting [OF assms(1,2)] assms(3,4) by (auto simp: waiting_def take_share_def Let_def code_accepted_def)

text \<open>C24: nobody can lock the intended recipient out. After any number of attempts with other codes, and any traffic on
  other shares, the access code of a share, plain or in groups of four, still gets the profile while the share has not expired.\<close>

theorem wrong_codes_never_lock_out:
  assumes "dict_ok (sh_items st)" and "n < 10 ^ 12" and "put_share sha sid n payload filename t0 st = (st1, Inr (sid', code, ttl))"
    and "\<And>s c t. (s, c, t) \<in> set attempts \<Longrightarrow>
      t < t0 + 600 \<and> (s = sid \<longrightarrow> sha (ascii_bytes (normalized_code c)) \<noteq> sha (ascii_bytes code))"
    and "now < t0 + 600" and "c \<in> {code, grouped code}"
  shows "\<exists>item. snd (take_share sha sid c now (fold (attempt sha) attempts st1)) = Some item \<and> sp_payload item = payload"
proof -
  have code: "code = access_code n" using assms(3) by (simp add: put_share_def Let_def split: if_splits)
  have plain: "plain_code code" using access_code_plain [OF assms(2)] code by simp
  have "dict_ok (sh_items (purge_shares t0 st))" by (simp add: purge_shares_def dict_ok_filter assms(1))
  then have "waiting sha sid payload (sha (ascii_bytes code)) (t0 + 600) st1"
    using assms(3) by (auto simp: put_share_def Let_def waiting_def dget_dset share_ttl_def split: if_splits)
  then have w: "waiting sha sid payload (sha (ascii_bytes code)) (t0 + 600) (fold (attempt sha) attempts st1)"
    using assms(4) by (intro attempts_waiting) auto
  have "normalized_code c = code" using assms(6) plain normalized_plain normalized_grouped by auto
  with waiting_take [OF w assms(5), of c] plain show ?thesis by simp
qed

text \<open>Five wrong codes in a row start the cool-down, which ends after a minute or with the share; a wrong code does not prolong it.\<close>

lemma fifth_wrong_code_locks:
  assumes "sp_locked_until item \<le> now" and "sp_failed (if sp_locked_until item \<noteq> 0 then item\<lparr>sp_failed := 0\<rparr> else item) = 4"
  shows "sp_locked_until (refuse_code now item) = min (now + 60) (sp_expires_at item) \<and> sp_failed (refuse_code now item) = 0"
  using assms by (auto simp: refuse_code_def Let_def max_failed_attempts_def lockout_seconds_def split: if_splits)

lemma locked_share_ignores_wrong_codes: "now < sp_locked_until item \<Longrightarrow> refuse_code now item = item"
  by (simp add: refuse_code_def)

section \<open>Witnesses\<close>

definition demo_share :: share_store where
  "demo_share = fst (put_share rev [1] 5 [9] [2] 0 new_share_store)"

lemma demo_put: "put_share rev [1] 5 [9] [2] 0 new_share_store = (demo_share, Inr ([1], access_code 5, 600))"
  by (simp add: demo_share_def put_share_def new_share_store_def Let_def share_ttl_def)

theorem shares_need_their_code_witness:
  "\<exists>st. share_run rev st [Shared [1] 5 [9] 0] \<and> taken [1] [Shared [1] 5 [9] 0] \<le> 3"
proof -
  have "share_run rev demo_share ([] @ [Shared [1] 5 [9] 0])"
    by (rule shares_put [OF shares_start _ _ demo_put]) simp_all
  then have r: "share_run rev demo_share [Shared [1] 5 [9] 0]" by simp
  with shares_need_their_code [OF r] show ?thesis by blast
qed

theorem wrong_codes_never_lock_out_witness:
  "\<exists>item. snd (take_share rev [1] (grouped (access_code 5)) 7 (fold (attempt rev) [([1], [48], 3), ([1], [], 4)] demo_share)) = Some item \<and>
     sp_payload item = [9]"
proof -
  have ne: "ascii_bytes (access_code 5) \<noteq> []" using dec_of_nat_digits [of 5] by (simp add: ascii_bytes_def access_code_def Let_def)
  have bad: "normalized_code [48] = []" "normalized_code [] = []"
    by (simp_all add: normalized_code_def plain_code_def grouped_code_def)
  have "t < 0 + 600 \<and> (s = [1] \<longrightarrow> rev (ascii_bytes (normalized_code c)) \<noteq> rev (ascii_bytes (access_code 5)))"
    if "(s, c, t) \<in> set [([1], [48], 3), ([1], [], 4)]" for s c :: pystr and t :: rat
    using that bad ne by (auto simp: ascii_bytes_def)
  then show ?thesis
    using wrong_codes_never_lock_out [OF _ _ demo_put, of "[([1], [48], 3), ([1], [], 4)]" 7 "grouped (access_code 5)"]
    by (simp add: new_share_store_def)
qed

end
