(* ===== verification/Review_Coordinator.thy ===== *)
theory Review_Coordinator
  imports Prelude
begin

text \<open>
  \<open>RedisReviewCoordinator\<close> and \<open>_RedisReviewLock\<close> of \<open>integrations.py\<close>: revisions and leases that
  several processes share through Redis. The Redis client is a parameter, a record of its calls on an abstract world
  \<open>'w\<close>; nothing is assumed of its answers. A call that raises answers \<open>None\<close>. The Lua scripts are
  the constructors of \<open>script\<close>. \<open>hex_digest\<close> is SHA-256 of the UTF-8 form in hexadecimal.
\<close>

section \<open>The client\<close>

datatype script = AdvanceRevision | RenewLease | AssertOwner | RetainLease | ReleaseLease

record 'w redis =
  rd_run_id :: "'w \<Rightarrow> 'w \<times> pystr option"
  rd_get :: "pystr \<Rightarrow> 'w \<Rightarrow> 'w \<times> pystr option option"
  rd_set_nx :: "pystr \<Rightarrow> pystr \<Rightarrow> int option \<Rightarrow> 'w \<Rightarrow> 'w \<times> bool option"
  rd_eval :: "script \<Rightarrow> pystr list \<Rightarrow> pystr list \<Rightarrow> 'w \<Rightarrow> 'w \<times> int option option"

datatype coordination_error = StateChanged | Unavailable | LeaseLost | Busy

section \<open>Epoch and revisions\<close>

record coordinator =
  co_epoch :: "pystr option"
  co_run_id :: "pystr option"
  co_keys :: "pystr set"
  co_high :: "(pystr, int) dict"

definition new_coordinator :: coordinator where
  "new_coordinator = \<lparr>co_epoch = None, co_run_id = None, co_keys = {}, co_high = []\<rparr>"

definition epoch_key :: pystr where "epoch_key = lit ''vpn-dashboard.review.epoch''"

definition revision_key :: "(pystr \<Rightarrow> pystr) \<Rightarrow> pystr \<Rightarrow> pystr" where
  "revision_key hex_digest resource = lit ''vpn-dashboard.review.revision:'' @ hex_digest resource"

definition lock_key :: "(pystr \<Rightarrow> pystr) \<Rightarrow> pystr \<Rightarrow> pystr" where
  "lock_key hex_digest resource = lit ''vpn-dashboard.review.lock:'' @ hex_digest resource"

definition high_water :: "coordinator \<Rightarrow> pystr \<Rightarrow> int" where
  "high_water co key = dget_or (co_high co) key (-1)"

text \<open>\<open>get\<close>, and once more after \<open>set(nx=True)\<close> of a first value when that is allowed and needed.\<close>

definition get_or_set :: "'w redis \<Rightarrow> pystr \<Rightarrow> pystr \<Rightarrow> bool \<Rightarrow> 'w \<Rightarrow> 'w \<times> pystr option" where
  "get_or_set r key first may_set w =
     (case rd_get r key w of
        (w, None) \<Rightarrow> (w, None)
      | (w, Some (Some v)) \<Rightarrow> (w, Some v)
      | (w, Some None) \<Rightarrow>
          if \<not> may_set then (w, None)
          else (case rd_set_nx r key first None w of
                  (w, None) \<Rightarrow> (w, None)
                | (w, Some _) \<Rightarrow> (case rd_get r key w of (w, None) \<Rightarrow> (w, None) | (w, Some v) \<Rightarrow> (w, v))))"

text \<open>\<open>new_epoch\<close> is the \<open>uuid4\<close> of a first epoch.\<close>

definition current_epoch :: "'w redis \<Rightarrow> pystr \<Rightarrow> coordinator \<times> 'w \<Rightarrow> (coordinator \<times> 'w) \<times> (coordination_error + pystr)" where
  "current_epoch r new_epoch = (\<lambda>(co, w).
     case rd_run_id r w of
       (w, None) \<Rightarrow> ((co, w), Inl StateChanged)
     | (w, Some run) \<Rightarrow>
         if run = [] \<or> (co_run_id co \<noteq> None \<and> co_run_id co \<noteq> Some run) then ((co, w), Inl StateChanged)
         else let co = co\<lparr>co_run_id := Some run\<rparr> in
           (case get_or_set r epoch_key new_epoch (co_epoch co = None) w of
              (w, None) \<Rightarrow> ((co, w), Inl StateChanged)
            | (w, Some epoch) \<Rightarrow>
                if co_epoch co \<noteq> None \<and> co_epoch co \<noteq> Some epoch then ((co, w), Inl StateChanged)
                else ((co\<lparr>co_epoch := Some epoch\<rparr>, w), Inr epoch)))"

text \<open>The two methods take the state lock once for the epoch and once more for the rest.\<close>

definition revision_section :: "'w redis \<Rightarrow> pystr \<Rightarrow> coordinator \<times> 'w \<Rightarrow> (coordinator \<times> 'w) \<times> (coordination_error + int)" where
  "revision_section r key = (\<lambda>(co, w).
     case get_or_set r key (lit ''0'') (key \<notin> co_keys co) w of
       (w, None) \<Rightarrow> ((co, w), Inl StateChanged)
     | (w, Some v) \<Rightarrow>
         (case py_int v of
            None \<Rightarrow> ((co, w), Inl StateChanged)
          | Some revision \<Rightarrow>
              if revision < 0 \<or> revision < high_water co key then ((co, w), Inl StateChanged)
              else ((co\<lparr>co_keys := insert key (co_keys co), co_high := dset key revision (co_high co)\<rparr>, w), Inr revision)))"

definition current_revision :: "'w redis \<Rightarrow> (pystr \<Rightarrow> pystr) \<Rightarrow> pystr \<Rightarrow> pystr \<Rightarrow> coordinator \<times> 'w
    \<Rightarrow> (coordinator \<times> 'w) \<times> (coordination_error + int)" where
  "current_revision r hex_digest new_epoch resource s =
     (case current_epoch r new_epoch s of
        (s, Inl e) \<Rightarrow> (s, Inl e)
      | (s, Inr _) \<Rightarrow> revision_section r (revision_key hex_digest resource) s)"

definition advance_section :: "'w redis \<Rightarrow> pystr \<Rightarrow> int \<Rightarrow> pystr \<Rightarrow> coordinator \<times> 'w
    \<Rightarrow> (coordinator \<times> 'w) \<times> (coordination_error + bool)" where
  "advance_section r key expected epoch = (\<lambda>(co, w).
     if expected < high_water co key then ((co, w), Inl StateChanged)
     else case rd_eval r AdvanceRevision [epoch_key, key] [epoch, str_of_int expected] w of
       (w, None) \<Rightarrow> ((co, w), Inl Unavailable)
     | (w, Some result) \<Rightarrow>
         if (case result of None \<Rightarrow> 0 | Some n \<Rightarrow> n) = expected + 1
         then ((co\<lparr>co_high := dset key (max (high_water co key) (expected + 1)) (co_high co), co_keys := insert key (co_keys co)\<rparr>, w),
               Inr True)
         else ((co, w), Inr False))"

definition advance_if_current :: "'w redis \<Rightarrow> (pystr \<Rightarrow> pystr) \<Rightarrow> pystr \<Rightarrow> pystr \<Rightarrow> int \<Rightarrow> pystr \<Rightarrow> coordinator \<times> 'w
    \<Rightarrow> (coordinator \<times> 'w) \<times> (coordination_error + bool)" where
  "advance_if_current r hex_digest new_epoch resource expected epoch s =
     (case current_epoch r new_epoch s of
        (s, Inl e) \<Rightarrow> (s, Inl e)
      | (s, Inr _) \<Rightarrow> advance_section r (revision_key hex_digest resource) expected epoch s)"

section \<open>Leases\<close>

record lease =
  le_key :: pystr
  le_token :: pystr
  le_ms :: int
  le_lost :: bool

definition lease_reply :: "lease \<Rightarrow> coordination_error \<Rightarrow> int option option \<Rightarrow> lease \<times> (coordination_error + unit)" where
  "lease_reply le lost reply =
     (case reply of
        None \<Rightarrow> (le\<lparr>le_lost := True\<rparr>, Inl Unavailable)
      | Some v \<Rightarrow> if (case v of None \<Rightarrow> 0 | Some n \<Rightarrow> n) \<noteq> 1 then (le\<lparr>le_lost := True\<rparr>, Inl lost) else (le, Inr ()))"

definition renew :: "'w redis \<Rightarrow> lease \<Rightarrow> 'w \<Rightarrow> 'w \<times> lease \<times> (coordination_error + unit)" where
  "renew r le w =
     (if le_lost le then (w, le, Inl Unavailable)
      else case rd_eval r RenewLease [le_key le] [le_token le, str_of_int (le_ms le)] w of
        (w, reply) \<Rightarrow> (w, lease_reply le LeaseLost reply))"

definition assert_owned :: "'w redis \<Rightarrow> lease \<Rightarrow> 'w \<Rightarrow> 'w \<times> lease \<times> (coordination_error + unit)" where
  "assert_owned r le w =
     (if le_lost le then (w, le, Inl LeaseLost)
      else case rd_eval r AssertOwner [le_key le] [le_token le] w of
        (w, reply) \<Rightarrow> (w, lease_reply le LeaseLost reply))"

text \<open>\<open>close\<close> after the heartbeat has stopped: which script it runs. A failure of the script is ignored.\<close>

definition closing_script :: "lease \<Rightarrow> script" where
  "closing_script le = (if le_lost le then RetainLease else ReleaseLease)"

definition close_lease :: "'w redis \<Rightarrow> lease \<Rightarrow> 'w \<Rightarrow> 'w" where
  "close_lease r le w =
     fst (rd_eval r (closing_script le) [le_key le]
       (if le_lost le then [le_token le, str_of_int (le_ms le)] else [le_token le]) w)"

text \<open>\<open>resource_lock\<close> tries until the deadline; \<open>clock n\<close> is the reading after the \<open>n\<close>-th failure.\<close>

partial_function (option) acquire_lease :: "'w redis \<Rightarrow> lease \<Rightarrow> rat \<Rightarrow> (nat \<Rightarrow> rat) \<Rightarrow> nat \<Rightarrow> 'w \<Rightarrow> ('w \<times> (coordination_error + lease)) option"
  where
  "acquire_lease r le deadline clock n w =
     (case rd_set_nx r (le_key le) (le_token le) (Some (le_ms le)) w of
        (w, None) \<Rightarrow> Some (w, Inl Unavailable)
      | (w, Some acquired) \<Rightarrow>
          if acquired then Some (w, Inr le)
          else if deadline \<le> clock n then Some (w, Inl Busy) else acquire_lease r le deadline clock (n + 1) w)"

definition resource_lock :: "'w redis \<Rightarrow> (pystr \<Rightarrow> pystr) \<Rightarrow> rat \<Rightarrow> int \<Rightarrow> pystr \<Rightarrow> pystr \<Rightarrow> rat \<Rightarrow> (nat \<Rightarrow> rat) \<Rightarrow> 'w
    \<Rightarrow> ('w \<times> (coordination_error + lease)) option" where
  "resource_lock r hex_digest lock_wait lease_ms token resource started clock w =
     acquire_lease r \<lparr>le_key = lock_key hex_digest resource, le_token = token, le_ms = max 60000 lease_ms, le_lost = False\<rparr>
       (started + max (1 / 10) lock_wait) clock 0 w"

section \<open>What one process observes\<close>

lemma high_water_dset: "high_water (co\<lparr>co_keys := ks, co_high := dset key v (co_high co)\<rparr>) k = (if k = key then v else high_water co k)"
  by (simp add: high_water_def dget_or_dset)

lemma current_epoch_effect:
  assumes "current_epoch r new_epoch (co, w) = ((co', w'), res)"
  shows "co_high co' = co_high co" and "co_epoch co \<noteq> None \<Longrightarrow> co_epoch co' = co_epoch co"
    and "res = Inr epoch \<Longrightarrow> co_epoch co' = Some epoch"
  using assms by (auto simp: current_epoch_def Let_def split: prod.splits option.splits if_splits)

lemma revision_section_effect:
  assumes "revision_section r key (co, w) = ((co', w'), res)"
  shows "co_epoch co' = co_epoch co" and "high_water co k \<le> high_water co' k"
    and "res = Inr revision \<Longrightarrow> high_water co key \<le> revision \<and> high_water co' key = revision"
  using assms by (auto simp: revision_section_def high_water_dset split: prod.splits option.splits if_splits)

lemma high_water_advance:
  "high_water (co\<lparr>co_high := dset key v (co_high co), co_keys := ks\<rparr>) k = (if k = key then v else high_water co k)"
  by (simp add: high_water_def dget_or_dset)

lemma advance_section_effect:
  assumes "advance_section r key expected epoch (co, w) = ((co', w'), res)"
  shows "co_epoch co' = co_epoch co" and "high_water co k \<le> high_water co' k"
    and "res = Inr True \<Longrightarrow> high_water co key \<le> expected \<and> high_water co' key = expected + 1"
  using assms by (auto simp: advance_section_def high_water_advance split: prod.splits option.splits if_splits)

text \<open>Any order of the critical sections, with the answers they gave. \<open>others\<close> is what other processes do to Redis.\<close>

datatype observation = SawEpoch pystr | SawRevision pystr int | Advanced pystr int

inductive coordinator_run :: "'w redis \<Rightarrow> coordinator \<times> 'w \<Rightarrow> observation list \<Rightarrow> bool" for r where
  coordinator_start: "coordinator_run r (new_coordinator, w) []"
| epoch_seen: "coordinator_run r s h \<Longrightarrow> current_epoch r new_epoch s = (s', Inr epoch) \<Longrightarrow> coordinator_run r s' (h @ [SawEpoch epoch])"
| epoch_failed: "coordinator_run r s h \<Longrightarrow> current_epoch r new_epoch s = (s', Inl e) \<Longrightarrow> coordinator_run r s' h"
| revision_seen: "coordinator_run r s h \<Longrightarrow> revision_section r key s = (s', Inr n) \<Longrightarrow> coordinator_run r s' (h @ [SawRevision key n])"
| revision_failed: "coordinator_run r s h \<Longrightarrow> revision_section r key s = (s', Inl e) \<Longrightarrow> coordinator_run r s' h"
| advanced: "coordinator_run r s h \<Longrightarrow> advance_section r key n epoch s = (s', Inr True) \<Longrightarrow> coordinator_run r s' (h @ [Advanced key n])"
| not_advanced: "coordinator_run r s h \<Longrightarrow> advance_section r key n epoch s = (s', res) \<Longrightarrow> res \<noteq> Inr True \<Longrightarrow> coordinator_run r s' h"
| others: "coordinator_run r (co, w) h \<Longrightarrow> coordinator_run r (co, w') h"

text \<open>What an answer tells of the revision of a key, and what it claims.\<close>

fun proves :: "pystr \<Rightarrow> observation \<Rightarrow> int option" where
  "proves k (SawEpoch e) = None"
| "proves k (SawRevision key n) = (if key = k then Some n else None)"
| "proves k (Advanced key n) = (if key = k then Some (n + 1) else None)"

fun claims :: "pystr \<Rightarrow> observation \<Rightarrow> int option" where
  "claims k (SawEpoch e) = None"
| "claims k (SawRevision key n) = (if key = k then Some n else None)"
| "claims k (Advanced key n) = (if key = k then Some n else None)"

definition observed :: "coordinator \<Rightarrow> observation list \<Rightarrow> bool" where
  "observed co h \<longleftrightarrow>
     (\<forall>e. SawEpoch e \<in> set h \<longrightarrow> co_epoch co = Some e) \<and>
     (\<forall>a\<in>set h. \<forall>k m. proves k a = Some m \<longrightarrow> m \<le> high_water co k) \<and>
     sorted_wrt (\<lambda>a b. \<forall>k m n. proves k a = Some m \<longrightarrow> claims k b = Some n \<longrightarrow> m \<le> n) h"

lemma observedD:
  "observed co h \<Longrightarrow> SawEpoch e \<in> set h \<Longrightarrow> co_epoch co = Some e"
  "observed co h \<Longrightarrow> a \<in> set h \<Longrightarrow> proves k a = Some m \<Longrightarrow> m \<le> high_water co k"
  "observed co h \<Longrightarrow> sorted_wrt (\<lambda>a b. \<forall>k m n. proves k a = Some m \<longrightarrow> claims k b = Some n \<longrightarrow> m \<le> n) h"
  by (simp_all add: observed_def)

lemma observed_keep:
  assumes "observed co h" and "co_epoch co \<noteq> None \<Longrightarrow> co_epoch co' = co_epoch co" and "\<And>k. high_water co k \<le> high_water co' k"
  shows "observed co' h"
  unfolding observed_def
proof (intro conjI allI impI ballI)
  show "co_epoch co' = Some e" if "SawEpoch e \<in> set h" for e using observedD(1) [OF assms(1) that] assms(2) by simp
  show "m \<le> high_water co' k" if "a \<in> set h" "proves k a = Some m" for a k m
    using observedD(2) [OF assms(1) that] assms(3) [of k] by (rule order_trans)
qed (rule observedD(3) [OF assms(1)])

lemma observed_snoc:
  assumes "observed co' h" and "\<And>e. a = SawEpoch e \<Longrightarrow> co_epoch co' = Some e"
    and "\<And>k m. proves k a = Some m \<Longrightarrow> m \<le> high_water co' k"
    and "\<And>k n. claims k a = Some n \<Longrightarrow> high_water co k \<le> n" and "observed co h"
  shows "observed co' (h @ [a])"
proof -
  have "m \<le> n" if "b \<in> set h" "proves k b = Some m" "claims k a = Some n" for b k m n
    using assms(4) [OF that(3)] assms(5) that(1,2) unfolding observed_def by force
  with assms(1,2,3) show ?thesis by (auto simp: observed_def sorted_wrt_append)
qed

lemma coordinator_run_observed: "coordinator_run r s h \<Longrightarrow> observed (fst s) h"
proof (induction rule: coordinator_run.induct)
  case (coordinator_start w)
  show ?case by (simp add: observed_def)
next
  case (epoch_seen s h new_epoch s' epoch)
  obtain co w co' w' where s: "s = (co, w)" "s' = (co', w')" by (cases s, cases s')
  note e = current_epoch_effect [OF epoch_seen.hyps(2) [unfolded s]]
  have "high_water co k \<le> high_water co' k" for k using e(1) by (simp add: high_water_def)
  then have "observed co' h" using observed_keep [OF _ e(2)] epoch_seen.IH s by simp
  then show ?case unfolding s fst_conv
    by (rule observed_snoc [of _ _ _ co]) (use e(3) epoch_seen.IH s in auto)
next
  case (epoch_failed s h new_epoch s' e)
  obtain co w co' w' where s: "s = (co, w)" "s' = (co', w')" by (cases s, cases s')
  note e = current_epoch_effect [OF epoch_failed.hyps(2) [unfolded s]]
  have "high_water co k \<le> high_water co' k" for k using e(1) by (simp add: high_water_def)
  then show ?case using observed_keep [OF _ e(2)] epoch_failed.IH s by simp
next
  case (revision_seen s h key s' n)
  obtain co w co' w' where s: "s = (co, w)" "s' = (co', w')" by (cases s, cases s')
  note e = revision_section_effect [OF revision_seen.hyps(2) [unfolded s]]
  have "observed co' h" using observed_keep [of co h co'] e(1,2) revision_seen.IH s by simp
  then show ?case unfolding s fst_conv
  proof (rule observed_snoc [of _ _ _ co])
    show "m \<le> high_water co' k" if "proves k (SawRevision key n) = Some m" for k m
      using that e(3) [OF refl] by (simp split: if_splits)
    show "high_water co k \<le> m" if "claims k (SawRevision key n) = Some m" for k m
      using that e(3) [OF refl] by (simp split: if_splits)
    show "observed co h" using revision_seen.IH s by simp
  qed simp
next
  case (revision_failed s h key s' e)
  obtain co w co' w' where s: "s = (co, w)" "s' = (co', w')" by (cases s, cases s')
  note e = revision_section_effect [OF revision_failed.hyps(2) [unfolded s]]
  show ?case using observed_keep [of co h co'] e(1,2) revision_failed.IH s by simp
next
  case (advanced s h key n epoch s')
  obtain co w co' w' where s: "s = (co, w)" "s' = (co', w')" by (cases s, cases s')
  note e = advance_section_effect [OF advanced.hyps(2) [unfolded s]]
  have "observed co' h" using observed_keep [of co h co'] e(1,2) advanced.IH s by simp
  then show ?case unfolding s fst_conv
  proof (rule observed_snoc [of _ _ _ co])
    show "m \<le> high_water co' k" if "proves k (Advanced key n) = Some m" for k m
      using that e(3) [OF refl] by (simp split: if_splits)
    show "high_water co k \<le> m" if "claims k (Advanced key n) = Some m" for k m
      using that e(3) [OF refl] by (simp split: if_splits)
    show "observed co h" using advanced.IH s by simp
  qed simp
next
  case (not_advanced s h key n epoch s' res)
  obtain co w co' w' where s: "s = (co, w)" "s' = (co', w')" by (cases s, cases s')
  note e = advance_section_effect [OF not_advanced.hyps(2) [unfolded s]]
  show ?case using observed_keep [of co h co'] e(1,2) not_advanced.IH s by simp
qed simp

section \<open>Leases that are lost, and waiting for one\<close>

text \<open>A lease that was lost once stays lost: every later check raises, and closing does not release the key, because a write to the router may
  still be under way.\<close>

lemma lost_lease:
  assumes "le_lost le"
  shows "renew r le w = (w, le, Inl Unavailable)" and "assert_owned r le w = (w, le, Inl LeaseLost)"
    and "closing_script le = RetainLease"
  using assms by (simp_all add: renew_def assert_owned_def closing_script_def)

lemma failed_check_loses:
  "renew r le w = (w', le', Inl e) \<Longrightarrow> le_lost le'" "assert_owned r le w = (w', le', Inl e) \<Longrightarrow> le_lost le'"
  by (auto simp: renew_def assert_owned_def lease_reply_def split: if_splits prod.splits option.splits)

lemma acquire_lease_returns: "deadline \<le> clock m \<Longrightarrow> n \<le> m \<Longrightarrow> \<exists>res. acquire_lease r le deadline clock n w = Some res"
proof (induction "m - n" arbitrary: n w)
  case 0
  then show ?case by (subst acquire_lease.simps) (auto split: prod.split option.split)
next
  case (Suc d)
  then have "\<exists>res. acquire_lease r le deadline clock (n + 1) w = Some res" for w by simp
  then show ?case by (subst acquire_lease.simps) (auto split: prod.split option.split)
qed

section \<open>Properties\<close>

text \<open>C23: what a process believes of the shared revisions is consistent whatever Redis answers, after a restore or a
  restart of Redis too. In every run, in any interleaving with other processes, all epochs it saw are the same, the revisions of
  a key it saw never go back, and a revision that it advanced is never seen or advanced again.\<close>

theorem observed_revisions_never_go_back:
  assumes "coordinator_run r s h"
  shows "(\<forall>e e'. {SawEpoch e, SawEpoch e'} \<subseteq> set h \<longrightarrow> e = e') \<and>
    sorted_wrt (\<lambda>a b. \<forall>k m n. proves k a = Some m \<longrightarrow> claims k b = Some n \<longrightarrow> m \<le> n) h"
proof (rule conjI)
  note o = coordinator_run_observed [OF assms]
  show "\<forall>e e'. {SawEpoch e, SawEpoch e'} \<subseteq> set h \<longrightarrow> e = e'"
    using observedD(1) [OF o] by (metis insert_subset option.inject)
qed (rule observedD(3) [OF coordinator_run_observed [OF assms]])

text \<open>A Redis that knows the run identifier 1, the epoch 2 and the revision 0 of every key.\<close>

definition demo_redis :: "nat redis" where
  "demo_redis = \<lparr>rd_run_id = (\<lambda>w. (w, Some [49])), rd_get = (\<lambda>k w. (w, Some (Some (if k = epoch_key then [50] else [48])))),
     rd_set_nx = (\<lambda>k v ms w. (w, Some True)), rd_eval = (\<lambda>s ks args w. (w + 1, Some (Some 1)))\<rparr>"

theorem observed_revisions_never_go_back_witness:
  "\<exists>s h. coordinator_run demo_redis s h \<and> set h = {SawEpoch [50], SawRevision [7] 0, Advanced [7] 0} \<and>
     sorted_wrt (\<lambda>a b. \<forall>k m n. proves k a = Some m \<longrightarrow> claims k b = Some n \<longrightarrow> m \<le> n) h"
proof -
  have ek: "[7] \<noteq> epoch_key" by (simp add: epoch_key_def lit_def)
  let ?s1 = "(new_coordinator\<lparr>co_run_id := Some [49], co_epoch := Some [50]\<rparr>, 0 :: nat)"
  let ?s2 = "((fst ?s1)\<lparr>co_keys := {[7]}, co_high := [([7], 0)]\<rparr>, 0 :: nat)"
  have "current_epoch demo_redis [] (new_coordinator, 0) = (?s1, Inr [50])"
    by (simp add: current_epoch_def demo_redis_def new_coordinator_def get_or_set_def)
  from epoch_seen [OF coordinator_start this] have 1: "coordinator_run demo_redis ?s1 [SawEpoch [50]]" by simp
  have "py_int [48] = Some 0" by (simp add: py_int_def py_strip_def py_space_def is_digit_def)
  then have "revision_section demo_redis [7] ?s1 = (?s2, Inr 0)"
    using ek by (simp add: revision_section_def demo_redis_def get_or_set_def high_water_def new_coordinator_def dget_or_def)
  from revision_seen [OF 1 this] have 2: "coordinator_run demo_redis ?s2 [SawEpoch [50], SawRevision [7] 0]" by simp
  obtain s3 where "advance_section demo_redis [7] 0 [50] ?s2 = (s3, Inr True)"
    by (simp add: advance_section_def demo_redis_def high_water_def dget_or_def)
  from advanced [OF 2 this] have 3: "coordinator_run demo_redis s3 [SawEpoch [50], SawRevision [7] 0, Advanced [7] 0]" by simp
  from observed_revisions_never_go_back [OF 3] 3 show ?thesis by (intro exI [of _ s3] exI [of _ "[SawEpoch [50], SawRevision [7] 0, Advanced [7] 0]"]) auto
qed

end
