(* ===== verification/Review_Receipts.thy ===== *)
theory Review_Receipts
  imports Review_Coordinator
begin

text \<open>
  \<open>ReviewReceiptStore\<close> of \<open>app.py\<close>: receipts of reviewed changes. A receipt is bound to the session
  and the reviewed intent, is good for one use within ten minutes, and goes stale when the reviewed resource changes. Where the revisions
  of resources live depends on the configuration: in a dictionary of the store, or in Redis through a coordinator. The
  store is therefore over a state \<open>'s\<close> of revisions with the operations that its methods use there, given for both
  configurations; the locale \<open>revision_authority\<close> is what the store needs of them. Tokens, digests and clock
  readings are arguments; \<open>issue\<close> and \<open>consume\<close> hold the lock.
\<close>

section \<open>Receipts\<close>

record receipt =
  rc_session :: pystr
  rc_intent :: pystr
  rc_expires_at :: rat
  rc_resource :: "pystr option"
  rc_revision :: "int option"
  rc_epoch :: "pystr option"

record 's receipt_store =
  rr_items :: "(pystr, receipt) dict"
  rr_state :: 's

definition receipt_ttl :: rat where "receipt_ttl = 600"
definition max_receipts :: nat where "max_receipts = 4096"

definition new_receipt_store :: "'s \<Rightarrow> 's receipt_store" where
  "new_receipt_store s = \<lparr>rr_items = [], rr_state = s\<rparr>"

definition purge_receipts :: "rat \<Rightarrow> (pystr, receipt) dict \<Rightarrow> (pystr, receipt) dict" where
  "purge_receipts now items = filter (\<lambda>(_, rc). \<not> rc_expires_at rc \<le> now) items"

definition issue :: "(pystr \<Rightarrow> 's \<Rightarrow> 's \<times> (coordination_error + pystr option \<times> int)) \<Rightarrow> pystr \<Rightarrow> pystr \<Rightarrow> pystr option \<Rightarrow> rat
    \<Rightarrow> pystr \<Rightarrow> 's receipt_store \<Rightarrow> 's receipt_store \<times> (coordination_error + pystr)" where
  "issue stamp session intent resource now token st =
     (let items = purge_receipts now (rr_items st);
          items = (if max_receipts \<le> length items then tl items else items);
          add = (\<lambda>epoch revision. dset token
            \<lparr>rc_session = session, rc_intent = intent, rc_expires_at = now + receipt_ttl, rc_resource = resource,
             rc_revision = revision, rc_epoch = epoch\<rparr> items) in
      case resource of
        None \<Rightarrow> (st\<lparr>rr_items := add None None\<rparr>, Inr token)
      | Some key \<Rightarrow>
          (case stamp key (rr_state st) of
             (s, Inl e) \<Rightarrow> (st\<lparr>rr_items := items, rr_state := s\<rparr>, Inl e)
           | (s, Inr (epoch, revision)) \<Rightarrow> (st\<lparr>rr_items := add epoch (Some revision), rr_state := s\<rparr>, Inr token)))"

definition consume :: "(pystr \<Rightarrow> receipt \<Rightarrow> 's \<Rightarrow> 's \<times> (coordination_error + bool)) \<Rightarrow> pystr \<Rightarrow> pystr \<Rightarrow> pystr \<Rightarrow> pystr option
    \<Rightarrow> rat \<Rightarrow> 's receipt_store \<Rightarrow> 's receipt_store \<times> (coordination_error + bool)" where
  "consume claim token session intent resource now st =
     (let items = purge_receipts now (rr_items st); st = st\<lparr>rr_items := items\<rparr> in
      case dget items token of
        None \<Rightarrow> (st, Inr False)
      | Some rc \<Rightarrow>
          if rc_expires_at rc \<le> now \<or> rc_session rc \<noteq> session \<or> rc_intent rc \<noteq> intent \<or> rc_resource rc \<noteq> resource
          then (st, Inr False)
          else case resource of
            None \<Rightarrow> (st\<lparr>rr_items := ddel token items\<rparr>, Inr True)
          | Some key \<Rightarrow>
              (case claim key rc (rr_state st) of
                 (s, Inr True) \<Rightarrow> (st\<lparr>rr_items := ddel token items, rr_state := s\<rparr>, Inr True)
               | (s, answer) \<Rightarrow> (st\<lparr>rr_state := s\<rparr>, answer)))"

section \<open>Revisions in the store itself\<close>

definition local_revision :: "(pystr, int) dict \<Rightarrow> pystr \<Rightarrow> int" where
  "local_revision s key = dget_or s key 0"

definition local_stamp :: "pystr \<Rightarrow> (pystr, int) dict \<Rightarrow> (pystr, int) dict \<times> (coordination_error + pystr option \<times> int)" where
  "local_stamp key s = (s, Inr (None, local_revision s key))"

definition local_claim :: "pystr \<Rightarrow> receipt \<Rightarrow> (pystr, int) dict \<Rightarrow> (pystr, int) dict \<times> (coordination_error + bool)" where
  "local_claim key rc s =
     (if rc_revision rc \<noteq> Some (local_revision s key) then (s, Inr False)
      else (dset key (local_revision s key + 1) s, Inr True))"

definition local_invalidate :: "pystr \<Rightarrow> (pystr, int) dict \<Rightarrow> (pystr, int) dict \<times> (coordination_error + unit)" where
  "local_invalidate key s = (dset key (local_revision s key + 1) s, Inr ())"

section \<open>Revisions in Redis\<close>

definition redis_stamp :: "'w redis \<Rightarrow> (pystr \<Rightarrow> pystr) \<Rightarrow> pystr \<Rightarrow> pystr \<Rightarrow> coordinator \<times> 'w
    \<Rightarrow> (coordinator \<times> 'w) \<times> (coordination_error + pystr option \<times> int)" where
  "redis_stamp r hex_digest new_epoch key s =
     (case current_epoch r new_epoch s of
        (s, Inl e) \<Rightarrow> (s, Inl e)
      | (s, Inr epoch) \<Rightarrow>
          (case current_revision r hex_digest new_epoch key s of
             (s, Inl e) \<Rightarrow> (s, Inl e)
           | (s, Inr revision) \<Rightarrow> (s, Inr (Some epoch, revision))))"

definition redis_claim :: "'w redis \<Rightarrow> (pystr \<Rightarrow> pystr) \<Rightarrow> pystr \<Rightarrow> pystr \<Rightarrow> receipt \<Rightarrow> coordinator \<times> 'w
    \<Rightarrow> (coordinator \<times> 'w) \<times> (coordination_error + bool)" where
  "redis_claim r hex_digest new_epoch key rc s =
     (case current_epoch r new_epoch s of
        (s, Inl e) \<Rightarrow> (s, Inl e)
      | (s, Inr epoch) \<Rightarrow>
          if rc_epoch rc \<noteq> Some epoch then (s, Inr False)
          else (case current_revision r hex_digest new_epoch key s of
            (s, Inl e) \<Rightarrow> (s, Inl e)
          | (s, Inr revision) \<Rightarrow>
              if rc_revision rc \<noteq> Some revision then (s, Inr False)
              else advance_if_current r hex_digest new_epoch key revision epoch s))"

definition redis_invalidate :: "'w redis \<Rightarrow> (pystr \<Rightarrow> pystr) \<Rightarrow> pystr \<Rightarrow> pystr \<Rightarrow> coordinator \<times> 'w
    \<Rightarrow> (coordinator \<times> 'w) \<times> (coordination_error + unit)" where
  "redis_invalidate r hex_digest new_epoch key s =
     (case current_epoch r new_epoch s of
        (s, Inl e) \<Rightarrow> (s, Inl e)
      | (s, Inr epoch) \<Rightarrow>
          (case current_revision r hex_digest new_epoch key s of
             (s, Inl e) \<Rightarrow> (s, Inl e)
           | (s, Inr revision) \<Rightarrow>
               (case advance_if_current r hex_digest new_epoch key revision epoch s of
                  (s, Inl e) \<Rightarrow> (s, Inl e)
                | (s, Inr True) \<Rightarrow> (s, Inr ())
                | (s, Inr False) \<Rightarrow> (s, Inl StateChanged))))"

definition redis_others :: "coordinator \<times> 'w \<Rightarrow> coordinator \<times> 'w \<Rightarrow> bool" where
  "redis_others s s' \<longleftrightarrow> fst s' = fst s"

section \<open>Histories\<close>

datatype review_event =
    Issued pystr pystr pystr "pystr option" rat
  | Consumed pystr pystr pystr "pystr option" rat
  | Invalidated pystr

text \<open>Events after which reviews of a resource are stale.\<close>

fun spends :: "pystr \<Rightarrow> review_event \<Rightarrow> bool" where
  "spends key (Issued _ _ _ _ _) = False"
| "spends key (Consumed _ _ _ resource _) = (resource = Some key)"
| "spends key (Invalidated k) = (k = key)"

fun issues :: "pystr \<Rightarrow> review_event \<Rightarrow> bool" where
  "issues token (Issued t _ _ _ _) = (t = token)"
| "issues token _ = False"

fun consumes :: "pystr \<Rightarrow> review_event \<Rightarrow> bool" where
  "consumes token (Consumed t _ _ _ _) = (t = token)"
| "consumes token _ = False"

text \<open>The resource changed after the receipt was issued.\<close>

fun overtaken :: "pystr \<Rightarrow> pystr \<Rightarrow> review_event list \<Rightarrow> bool" where
  "overtaken key token [] = False"
| "overtaken key token (e # h) = ((issues token e \<and> (\<exists>d\<in>set h. spends key d)) \<or> overtaken key token h)"

lemma overtaken_snoc:
  "overtaken key token (h @ [e]) \<longleftrightarrow> overtaken key token h \<or> spends key e \<and> (\<exists>d\<in>set h. issues token d)"
  by (induction h) auto

definition uses_ok :: "review_event list \<Rightarrow> bool" where
  "uses_ok h \<longleftrightarrow> (\<forall>h1 h2 token session intent resource now. h = h1 @ Consumed token session intent resource now # h2 \<longrightarrow>
     (\<exists>t. Issued token session intent resource t \<in> set h1 \<and> now < t + receipt_ttl) \<and>
     (\<forall>e\<in>set h1. \<not> consumes token e) \<and>
     (\<forall>key. resource = Some key \<longrightarrow> \<not> overtaken key token h1))"

lemma uses_ok_snoc:
  "uses_ok (h @ [e]) \<longleftrightarrow> uses_ok h \<and> (\<forall>token session intent resource now. e = Consumed token session intent resource now \<longrightarrow>
     (\<exists>t. Issued token session intent resource t \<in> set h \<and> now < t + receipt_ttl) \<and>
     (\<forall>e\<in>set h. \<not> consumes token e) \<and> (\<forall>key. resource = Some key \<longrightarrow> \<not> overtaken key token h))"
  (is "_ \<longleftrightarrow> _ \<and> ?last")
proof (intro iffI conjI)
  assume ok: "uses_ok (h @ [e])"
  show "uses_ok h" unfolding uses_ok_def
  proof (intro allI impI)
    fix h1 h2 token session intent resource now
    assume "h = h1 @ Consumed token session intent resource now # h2"
    then have "h @ [e] = h1 @ Consumed token session intent resource now # (h2 @ [e])" by simp
    with ok show "(\<exists>t. Issued token session intent resource t \<in> set h1 \<and> now < t + receipt_ttl) \<and>
       (\<forall>e\<in>set h1. \<not> consumes token e) \<and> (\<forall>key. resource = Some key \<longrightarrow> \<not> overtaken key token h1)"
      unfolding uses_ok_def by blast
  qed
  show ?last using ok unfolding uses_ok_def by blast
next
  assume ok: "uses_ok h \<and> ?last"
  show "uses_ok (h @ [e])" unfolding uses_ok_def
  proof (intro allI impI)
    fix h1 h2 token session intent resource now
    assume eq: "h @ [e] = h1 @ Consumed token session intent resource now # h2"
    show "(\<exists>t. Issued token session intent resource t \<in> set h1 \<and> now < t + receipt_ttl) \<and>
       (\<forall>e\<in>set h1. \<not> consumes token e) \<and> (\<forall>key. resource = Some key \<longrightarrow> \<not> overtaken key token h1)"
    proof (cases h2 rule: rev_cases)
      case Nil
      with eq have "h = h1" "e = Consumed token session intent resource now" by simp_all
      with ok show ?thesis by blast
    next
      case (snoc h3 d)
      with eq have "h = h1 @ Consumed token session intent resource now # h3" by simp
      with ok show ?thesis unfolding uses_ok_def by blast
    qed
  qed
qed

section \<open>Runs\<close>

text \<open>A store in use. Tokens are random, so no token is issued twice; \<open>others\<close> is what else happens to the revisions.\<close>

inductive receipt_run :: "(pystr \<Rightarrow> 's \<Rightarrow> 's \<times> (coordination_error + pystr option \<times> int)) \<Rightarrow>
    (pystr \<Rightarrow> receipt \<Rightarrow> 's \<Rightarrow> 's \<times> (coordination_error + bool)) \<Rightarrow>
    (pystr \<Rightarrow> 's \<Rightarrow> 's \<times> (coordination_error + unit)) \<Rightarrow> ('s \<Rightarrow> 's \<Rightarrow> bool) \<Rightarrow> 's receipt_store \<Rightarrow> review_event list \<Rightarrow> bool"
  for stamp claim invalidate others where
  receipts_start: "receipt_run stamp claim invalidate others (new_receipt_store s) []"
| issued: "receipt_run stamp claim invalidate others st h \<Longrightarrow> (\<forall>e\<in>set h. \<not> issues token e) \<Longrightarrow>
    issue stamp session intent resource now token st = (st', Inr token) \<Longrightarrow>
    receipt_run stamp claim invalidate others st' (h @ [Issued token session intent resource now])"
| not_issued: "receipt_run stamp claim invalidate others st h \<Longrightarrow> (\<forall>e\<in>set h. \<not> issues token e) \<Longrightarrow>
    issue stamp session intent resource now token st = (st', Inl e) \<Longrightarrow> receipt_run stamp claim invalidate others st' h"
| consumed: "receipt_run stamp claim invalidate others st h \<Longrightarrow>
    consume claim token session intent resource now st = (st', Inr True) \<Longrightarrow>
    receipt_run stamp claim invalidate others st' (h @ [Consumed token session intent resource now])"
| not_consumed: "receipt_run stamp claim invalidate others st h \<Longrightarrow>
    consume claim token session intent resource now st = (st', answer) \<Longrightarrow> answer \<noteq> Inr True \<Longrightarrow>
    receipt_run stamp claim invalidate others st' h"
| invalidated: "receipt_run stamp claim invalidate others st h \<Longrightarrow> invalidate key (rr_state st) = (s, Inr ()) \<Longrightarrow>
    receipt_run stamp claim invalidate others (st\<lparr>rr_state := s\<rparr>) (h @ [Invalidated key])"
| not_invalidated: "receipt_run stamp claim invalidate others st h \<Longrightarrow> invalidate key (rr_state st) = (s, Inl e) \<Longrightarrow>
    receipt_run stamp claim invalidate others (st\<lparr>rr_state := s\<rparr>) h"
| elsewhere: "receipt_run stamp claim invalidate others st h \<Longrightarrow> others (rr_state st) s \<Longrightarrow>
    receipt_run stamp claim invalidate others (st\<lparr>rr_state := s\<rparr>) h"

text \<open>What the store needs of its revisions: a bound \<open>high\<close> that never sinks, that lies above every revision handed out and
  rises above each revision that is claimed or invalidated.\<close>

locale revision_authority =
  fixes high :: "'s \<Rightarrow> pystr \<Rightarrow> int"
    and stamp :: "pystr \<Rightarrow> 's \<Rightarrow> 's \<times> (coordination_error + pystr option \<times> int)"
    and claim :: "pystr \<Rightarrow> receipt \<Rightarrow> 's \<Rightarrow> 's \<times> (coordination_error + bool)"
    and invalidate :: "pystr \<Rightarrow> 's \<Rightarrow> 's \<times> (coordination_error + unit)"
    and others :: "'s \<Rightarrow> 's \<Rightarrow> bool"
  assumes stamp_law: "stamp k s = (s', answer) \<Longrightarrow> high s j \<le> high s' j \<and> (\<forall>e n. answer = Inr (e, n) \<longrightarrow> n \<le> high s' k)"
    and claim_law: "claim k rc s = (s', claimed) \<Longrightarrow>
      high s j \<le> high s' j \<and> (claimed = Inr True \<longrightarrow> (\<exists>n. rc_revision rc = Some n \<and> high s k \<le> n \<and> n < high s' k))"
    and invalidate_law: "invalidate k s = (s', ok) \<Longrightarrow> high s j \<le> high s' j \<and> (ok = Inr () \<longrightarrow> high s k < high s' k)"
    and others_law: "others s s' \<Longrightarrow> high s j \<le> high s' j"
begin

text \<open>A receipt in the store is unused; its revision is not above the bound, and below it once the resource has changed.\<close>

definition kept :: "'s \<Rightarrow> review_event list \<Rightarrow> pystr \<Rightarrow> receipt \<Rightarrow> bool" where
  "kept s h token rc \<longleftrightarrow>
     (\<exists>t. Issued token (rc_session rc) (rc_intent rc) (rc_resource rc) t \<in> set h \<and> rc_expires_at rc = t + receipt_ttl) \<and>
     (\<forall>e\<in>set h. \<not> consumes token e) \<and>
     (\<forall>k. rc_resource rc = Some k \<longrightarrow> (\<exists>n. rc_revision rc = Some n \<and> n \<le> high s k \<and> (overtaken k token h \<longrightarrow> n < high s k)))"

definition review_ok :: "'s receipt_store \<Rightarrow> review_event list \<Rightarrow> bool" where
  "review_ok st h \<longleftrightarrow> dict_ok (rr_items st) \<and> (\<forall>token rc. dget (rr_items st) token = Some rc \<longrightarrow> kept (rr_state st) h token rc) \<and>
     uses_ok h"

lemma kept_mono: "kept s h token rc \<Longrightarrow> (\<And>j. high s j \<le> high s' j) \<Longrightarrow> kept s' h token rc"
  unfolding kept_def by (meson order_trans order_less_le_trans)

lemma kept_event:
  assumes "kept s h token rc" and "\<And>j. high s j \<le> high s' j" and "\<And>k. spends k e \<Longrightarrow> high s k < high s' k" and "\<not> consumes token e"
  shows "kept s' (h @ [e]) token rc"
  unfolding kept_def
proof (intro conjI allI impI)
  show "\<exists>t. Issued token (rc_session rc) (rc_intent rc) (rc_resource rc) t \<in> set (h @ [e]) \<and> rc_expires_at rc = t + receipt_ttl"
    using assms(1) by (auto simp: kept_def)
  show "\<forall>d\<in>set (h @ [e]). \<not> consumes token d" using assms(1,4) by (auto simp: kept_def)
  fix k assume k: "rc_resource rc = Some k"
  then obtain n where n: "rc_revision rc = Some n" "n \<le> high s k" "overtaken k token h \<longrightarrow> n < high s k"
    using assms(1) by (auto simp: kept_def)
  have "n < high s' k" if "overtaken k token (h @ [e])"
    using that n(2,3) assms(2) [of k] assms(3) [of k] unfolding overtaken_snoc by linarith
  then show "\<exists>n. rc_revision rc = Some n \<and> n \<le> high s' k \<and> (overtaken k token (h @ [e]) \<longrightarrow> n < high s' k)"
    using n(1,2) assms(2) [of k] by auto
qed

lemma review_okD:
  "review_ok st h \<Longrightarrow> dict_ok (rr_items st)"
  "review_ok st h \<Longrightarrow> dget (rr_items st) token = Some rc \<Longrightarrow> kept (rr_state st) h token rc"
  "review_ok st h \<Longrightarrow> uses_ok h"
  by (simp_all add: review_ok_def)

lemma review_okI:
  "dict_ok (rr_items st) \<Longrightarrow> (\<And>token rc. dget (rr_items st) token = Some rc \<Longrightarrow> kept (rr_state st) h token rc) \<Longrightarrow> uses_ok h \<Longrightarrow> review_ok st h"
  by (simp add: review_ok_def)

lemma purged_kept:
  assumes "review_ok st h" and "dget (purge_receipts now (rr_items st)) token = Some rc"
  shows "kept (rr_state st) h token rc \<and> now < rc_expires_at rc"
  using assms(2) dget_filter [OF review_okD(1) [OF assms(1)]] review_okD(2) [OF assms(1)]
  by (auto simp: purge_receipts_def split: option.splits if_splits)

lemma dget_tl: "dict_ok d \<Longrightarrow> dget (tl d) k = Some v \<Longrightarrow> dget d k = Some v"
  by (cases d) (auto simp: dict_ok_def dest: map_of_SomeD intro: rev_image_eqI)

lemma issue_ok:
  assumes "review_ok st h" and "\<forall>e\<in>set h. \<not> issues token e" and "issue stamp session intent resource now token st = (st', answer)"
  shows "if answer = Inr token then review_ok st' (h @ [Issued token session intent resource now]) else review_ok st' h"
proof -
  let ?e = "Issued token session intent resource now"
  define items where "items = (let items = purge_receipts now (rr_items st) in if max_receipts \<le> length items then tl items else items)"
  have d: "dict_ok items"
    using review_okD(1) [OF assms(1)] by (simp add: items_def Let_def purge_receipts_def dict_ok_def distinct_tl map_tl distinct_map_filter)
  have keep: "kept (rr_state st) h k rc" if "dget items k = Some rc" for k rc
  proof -
    have "dict_ok (purge_receipts now (rr_items st))" using review_okD(1) [OF assms(1)] by (simp add: purge_receipts_def)
    with that dget_tl have "dget (purge_receipts now (rr_items st)) k = Some rc" by (auto simp: items_def Let_def split: if_splits)
    then show ?thesis using purged_kept [OF assms(1)] by blast
  qed
  have unused: "\<not> consumes token d" if "d \<in> set h" for d
  proof
    assume c: "consumes token d"
    then obtain s i r t where d: "d = Consumed token s i r t" by (cases d) auto
    with that obtain h1 h2 where "h = h1 @ Consumed token s i r t # h2" by (metis split_list)
    with review_okD(3) [OF assms(1)] have "\<exists>t. Issued token s i r t \<in> set h1" unfolding uses_ok_def by blast
    with \<open>h = _\<close> obtain t' where "Issued token s i r t' \<in> set h" by auto
    with assms(2) have "\<not> issues token (Issued token s i r t')" by blast
    then show False by simp
  qed
  have fresh: "\<not> overtaken k token (h @ [?e])" for k
  proof -
    have "\<not> overtaken k token h" using assms(2) by (induction h) auto
    then show ?thesis by (simp add: overtaken_snoc)
  qed
  have uses: "uses_ok (h @ [?e])" using review_okD(3) [OF assms(1)] by (simp add: uses_ok_snoc)
  have others: "kept s' (h @ [?e]) k rc" if "dget items k = Some rc" "\<And>j. high (rr_state st) j \<le> high s' j" for k rc s'
    using kept_event [OF keep [OF that(1)] that(2), of ?e] by simp
  have new: "kept s' (h @ [?e]) token \<lparr>rc_session = session, rc_intent = intent, rc_expires_at = now + receipt_ttl,
      rc_resource = resource, rc_revision = rev, rc_epoch = ep\<rparr>"
    if "\<And>k. resource = Some k \<Longrightarrow> \<exists>n. rev = Some n \<and> n \<le> high s' k" for s' rev ep
    unfolding kept_def using that fresh unused by auto
  show ?thesis
  proof (cases resource)
    case None
    then have "answer = Inr token" "st' = st\<lparr>rr_items := dset token \<lparr>rc_session = session, rc_intent = intent, rc_expires_at = now + receipt_ttl,
        rc_resource = resource, rc_revision = None, rc_epoch = None\<rparr> items\<rparr>"
      using assms(3) by (simp_all add: issue_def items_def Let_def)
    moreover have "review_ok \<dots> (h @ [?e])"
      by (rule review_okI) (use d others [OF _ order_refl] new [of None "rr_state st" None] None uses in \<open>auto simp: dget_dset split: if_splits\<close>)
    ultimately show ?thesis by simp
  next
    case (Some k)
    obtain s r where sr: "stamp k (rr_state st) = (s, r)" by force
    note law = stamp_law [OF sr]
    then have mono: "\<And>j. high (rr_state st) j \<le> high s j" by blast
    show ?thesis
    proof (cases r)
      case (Inl e)
      then have "answer = Inl e" "st' = st\<lparr>rr_items := items, rr_state := s\<rparr>"
        using assms(3) Some sr by (simp_all add: issue_def items_def Let_def)
      moreover have "review_ok (st\<lparr>rr_items := items, rr_state := s\<rparr>) h"
        by (rule review_okI) (use d kept_mono [OF keep mono] review_okD(3) [OF assms(1)] in auto)
      ultimately show ?thesis by simp
    next
      case (Inr en)
      obtain e n where en: "en = (e, n)" by force
      then have a: "answer = Inr token" "st' = st\<lparr>rr_items := dset token \<lparr>rc_session = session, rc_intent = intent,
          rc_expires_at = now + receipt_ttl, rc_resource = resource, rc_revision = Some n, rc_epoch = e\<rparr> items, rr_state := s\<rparr>"
        using assms(3) Some sr Inr by (simp_all add: issue_def items_def Let_def)
      have "n \<le> high s k" using law Inr en by blast
      then have "review_ok st' (h @ [?e])" unfolding a(2)
        by (intro review_okI) (use d others [OF _ mono] new [of "Some n" s e] Some uses in \<open>auto simp: dget_dset split: if_splits\<close>)
      with a(1) show ?thesis by simp
    qed
  qed
qed

lemma consume_ok:
  assumes "review_ok st h" and "consume claim token session intent resource now st = (st', answer)"
  shows "if answer = Inr True then review_ok st' (h @ [Consumed token session intent resource now]) else review_ok st' h"
proof -
  let ?e = "Consumed token session intent resource now"
  define items where "items = purge_receipts now (rr_items st)"
  have d: "dict_ok items" using review_okD(1) [OF assms(1)] by (simp add: items_def purge_receipts_def)
  have keep: "kept (rr_state st) h k rc" "now < rc_expires_at rc" if "dget items k = Some rc" for k rc
    using purged_kept [OF assms(1)] that by (auto simp: items_def)
  have same: "review_ok (st\<lparr>rr_items := items\<rparr>) h"
    by (rule review_okI) (use d keep(1) review_okD(3) [OF assms(1)] in auto)
  have moved: "review_ok (st\<lparr>rr_items := items, rr_state := s\<rparr>) h" if "\<And>j. high (rr_state st) j \<le> high s j" for s
    by (rule review_okI) (use d kept_mono [OF keep(1) that] review_okD(3) [OF assms(1)] in auto)
  show ?thesis
  proof (cases "dget items token")
    case None
    with assms(2) same show ?thesis by (auto simp: consume_def Let_def items_def)
  next
    case (Some rc)
    show ?thesis
    proof (cases "rc_session rc = session \<and> rc_intent rc = intent \<and> rc_resource rc = resource")
      case False
      with assms(2) Some same show ?thesis by (auto simp: consume_def Let_def items_def)
    next
      case True
      note k = keep [OF Some]
      then have basic: "(\<exists>t. Issued token session intent resource t \<in> set h \<and> now < t + receipt_ttl) \<and> (\<forall>e\<in>set h. \<not> consumes token e)"
        using True by (auto simp: kept_def)
      have live: "\<not> rc_expires_at rc \<le> now" using k(2) by simp
      have rest: "kept s (h @ [?e]) j rc'" if "dget (ddel token items) j = Some rc'" "\<And>j. high (rr_state st) j \<le> high s j"
        "\<And>k. resource = Some k \<Longrightarrow> high (rr_state st) k < high s k" for j rc' s
        using kept_event [OF keep(1) that(2), of j rc' ?e] that(1,3) by (auto simp: dget_ddel split: if_splits)
      show ?thesis
      proof (cases resource)
        case None
        then have a: "answer = Inr True" "st' = st\<lparr>rr_items := ddel token items\<rparr>"
          using assms(2) Some True live by (simp_all add: consume_def Let_def items_def [symmetric])
        have "uses_ok (h @ [?e])" using review_okD(3) [OF assms(1)] basic None by (simp add: uses_ok_snoc)
        then have "review_ok st' (h @ [?e])" unfolding a(2)
          by (intro review_okI) (use d rest [of _ _ "rr_state st"] None in auto)
        with a(1) show ?thesis by simp
      next
        case (Some key)
        obtain s c where sc: "claim key rc (rr_state st) = (s, c)" by force
        note law = claim_law [OF sc]
        then have mono: "\<And>j. high (rr_state st) j \<le> high s j" by blast
        have out: "(st', answer) = (if c = Inr True then (st\<lparr>rr_items := ddel token items, rr_state := s\<rparr>, Inr True)
            else (st\<lparr>rr_items := items, rr_state := s\<rparr>, c))"
          using assms(2) \<open>dget items token = Some rc\<close> True live Some sc
          by (auto simp: consume_def Let_def items_def [symmetric] split: sum.splits bool.splits)
        show ?thesis
        proof (cases "c = Inr True")
          case False
          with out moved [OF mono] show ?thesis by simp
        next
          case c: True
          with law obtain n where n: "rc_revision rc = Some n" "high (rr_state st) key \<le> n" "n < high s key" by blast
          have "\<not> overtaken key token h" using k(1) n(1,2) True Some by (auto simp: kept_def)
          then have "uses_ok (h @ [?e])" using review_okD(3) [OF assms(1)] basic Some by (simp add: uses_ok_snoc)
          moreover have "high (rr_state st) j < high s j" if "resource = Some j" for j using that Some n(2,3) by simp
          ultimately have "review_ok (st\<lparr>rr_items := ddel token items, rr_state := s\<rparr>) (h @ [?e])"
            by (intro review_okI) (use d rest [OF _ mono] in auto)
          with out c show ?thesis by simp
        qed
      qed
    qed
  qed
qed

lemma state_ok: "review_ok st h \<Longrightarrow> (\<And>j. high (rr_state st) j \<le> high s j) \<Longrightarrow> review_ok (st\<lparr>rr_state := s\<rparr>) h"
proof (rule review_okI)
  assume ok: "review_ok st h" and mono: "\<And>j. high (rr_state st) j \<le> high s j"
  show "kept (rr_state (st\<lparr>rr_state := s\<rparr>)) h token rc" if "dget (rr_items (st\<lparr>rr_state := s\<rparr>)) token = Some rc" for token rc
    using kept_mono [OF review_okD(2) [OF ok] mono] that by simp
qed (simp_all add: review_okD)

lemma receipt_run_ok: "receipt_run stamp claim invalidate others st h \<Longrightarrow> review_ok st h"
proof (induction rule: receipt_run.induct)
  case (receipts_start s)
  show ?case by (simp add: review_ok_def new_receipt_store_def uses_ok_def)
next
  case (issued st h token session intent resource now st')
  then show ?case using issue_ok by fastforce
next
  case (not_issued st h token session intent resource now st' e)
  then show ?case using issue_ok by fastforce
next
  case (consumed st h token session intent resource now st')
  then show ?case using consume_ok by fastforce
next
  case (not_consumed st h token session intent resource now st' answer)
  then show ?case using consume_ok [OF not_consumed.IH not_consumed.hyps(2)] by simp
next
  case (invalidated st h key s)
  note law = invalidate_law [OF invalidated.hyps(2)]
  show ?case
  proof (rule review_okI)
    show "kept (rr_state (st\<lparr>rr_state := s\<rparr>)) (h @ [Invalidated key]) token rc"
      if "dget (rr_items (st\<lparr>rr_state := s\<rparr>)) token = Some rc" for token rc
      using kept_event [OF review_okD(2) [OF invalidated.IH], of token rc s "Invalidated key"] law that by auto
    show "uses_ok (h @ [Invalidated key])" using review_okD(3) [OF invalidated.IH] by (simp add: uses_ok_snoc)
  qed (use review_okD(1) [OF invalidated.IH] in simp)
next
  case (not_invalidated st h key s e)
  then show ?case using state_ok invalidate_law by blast
next
  case (elsewhere st h s)
  then show ?case using state_ok others_law by blast
qed

end

section \<open>Both configurations keep the contract\<close>

interpretation local_revisions: revision_authority local_revision local_stamp local_claim local_invalidate "(=)"
proof
  fix k j :: pystr and rc s s' answer claimed ok
  show "local_stamp k s = (s', answer) \<Longrightarrow> local_revision s j \<le> local_revision s' j \<and> (\<forall>e n. answer = Inr (e, n) \<longrightarrow> n \<le> local_revision s' k)"
    by (auto simp: local_stamp_def)
  show "local_claim k rc s = (s', claimed) \<Longrightarrow> local_revision s j \<le> local_revision s' j \<and>
      (claimed = Inr True \<longrightarrow> (\<exists>n. rc_revision rc = Some n \<and> local_revision s k \<le> n \<and> n < local_revision s' k))"
    by (auto simp: local_claim_def local_revision_def dget_or_dset split: if_splits)
  show "local_invalidate k s = (s', ok) \<Longrightarrow> local_revision s j \<le> local_revision s' j \<and> (ok = Inr () \<longrightarrow> local_revision s k < local_revision s' k)"
    by (auto simp: local_invalidate_def local_revision_def dget_or_dset)
qed simp

definition redis_high :: "(pystr \<Rightarrow> pystr) \<Rightarrow> coordinator \<times> 'w \<Rightarrow> pystr \<Rightarrow> int" where
  "redis_high hex_digest s k = high_water (fst s) (revision_key hex_digest k)"

lemma epoch_high: "current_epoch r new_epoch s = (s', res) \<Longrightarrow> redis_high dg s' k = redis_high dg s k"
proof -
  assume e: "current_epoch r new_epoch s = (s', res)"
  obtain co w co' w' where "s = (co, w)" "s' = (co', w')" by (cases s, cases s')
  with current_epoch_effect(1) [of r new_epoch co w co' w' res] e show ?thesis by (simp add: redis_high_def high_water_def)
qed

lemma revision_high:
  assumes "current_revision r dg new_epoch key s = (s', res)"
  shows "redis_high dg s k \<le> redis_high dg s' k" and "res = Inr n \<Longrightarrow> redis_high dg s' key = n"
proof -
  obtain s1 e where e: "current_epoch r new_epoch s = (s1, e)" by (metis surj_pair)
  obtain co w co' w' where s: "s1 = (co, w)" "s' = (co', w')" by (cases s1, cases s')
  have "redis_high dg s1 k \<le> redis_high dg s' k \<and> (res = Inr n \<longrightarrow> redis_high dg s' key = n)"
  proof (cases e)
    case (Inl x)
    with assms e show ?thesis by (auto simp: current_revision_def)
  next
    case (Inr x)
    with assms e s have "revision_section r (revision_key dg key) (co, w) = ((co', w'), res)" by (simp add: current_revision_def)
    from revision_section_effect(2,3) [OF this] s show ?thesis by (auto simp: redis_high_def)
  qed
  with epoch_high [OF e] show "redis_high dg s k \<le> redis_high dg s' k" "res = Inr n \<Longrightarrow> redis_high dg s' key = n" by auto
qed

lemma advance_high:
  assumes "advance_if_current r dg new_epoch key n epoch s = (s', res)"
  shows "redis_high dg s k \<le> redis_high dg s' k" and "res = Inr True \<Longrightarrow> redis_high dg s key \<le> n \<and> redis_high dg s' key = n + 1"
proof -
  obtain s1 e where e: "current_epoch r new_epoch s = (s1, e)" by (metis surj_pair)
  obtain co w co' w' where s: "s1 = (co, w)" "s' = (co', w')" by (cases s1, cases s')
  have "redis_high dg s1 k \<le> redis_high dg s' k \<and> (res = Inr True \<longrightarrow> redis_high dg s1 key \<le> n \<and> redis_high dg s' key = n + 1)"
  proof (cases e)
    case (Inl x)
    with assms e show ?thesis by (auto simp: advance_if_current_def)
  next
    case (Inr x)
    with assms e s have "advance_section r (revision_key dg key) n epoch (co, w) = ((co', w'), res)" by (simp add: advance_if_current_def)
    from advance_section_effect(2,3) [OF this] s show ?thesis by (auto simp: redis_high_def)
  qed
  with epoch_high [OF e] show "redis_high dg s k \<le> redis_high dg s' k"
    "res = Inr True \<Longrightarrow> redis_high dg s key \<le> n \<and> redis_high dg s' key = n + 1" by auto
qed

interpretation redis_revisions: revision_authority "redis_high hex_digest" "redis_stamp r hex_digest new_epoch"
  "redis_claim r hex_digest new_epoch" "redis_invalidate r hex_digest new_epoch" redis_others for r hex_digest new_epoch
proof
  fix k j rc and s s' :: "coordinator \<times> 'a" and answer claimed ok
  show "redis_high hex_digest s j \<le> redis_high hex_digest s' j \<and> (\<forall>e n. answer = Inr (e, n) \<longrightarrow> n \<le> redis_high hex_digest s' k)"
    if stamp: "redis_stamp r hex_digest new_epoch k s = (s', answer)"
  proof -
    obtain s1 e where e: "current_epoch r new_epoch s = (s1, e)" by (metis surj_pair)
    obtain s2 n where n: "current_revision r hex_digest new_epoch k s1 = (s2, n)" by (metis surj_pair)
    note 1 = epoch_high [OF e, of hex_digest j] and 2 = revision_high [OF n]
    show ?thesis using stamp e n 1 2(1) [of j] 2(2)
      by (cases e; cases n) (auto simp: redis_stamp_def)
  qed
  show "redis_high hex_digest s j \<le> redis_high hex_digest s' j \<and>
      (claimed = Inr True \<longrightarrow> (\<exists>n. rc_revision rc = Some n \<and> redis_high hex_digest s k \<le> n \<and> n < redis_high hex_digest s' k))"
    if claim: "redis_claim r hex_digest new_epoch k rc s = (s', claimed)"
  proof -
    obtain s1 e where e: "current_epoch r new_epoch s = (s1, e)" by (metis surj_pair)
    obtain s2 n where n: "current_revision r hex_digest new_epoch k s1 = (s2, n)" by (metis surj_pair)
    note 1 = epoch_high [OF e, of hex_digest] and 2 = revision_high [OF n]
    show ?thesis
    proof (cases "\<exists>ep i. e = Inr ep \<and> rc_epoch rc = Some ep \<and> n = Inr i \<and> rc_revision rc = Some i")
      case True
      then obtain ep i where t: "e = Inr ep" "rc_epoch rc = Some ep" "n = Inr i" "rc_revision rc = Some i" by blast
      then have "advance_if_current r hex_digest new_epoch k i ep s2 = (s', claimed)" using claim e n by (simp add: redis_claim_def)
      from advance_high [OF this] show ?thesis using 1 2(1) t by (auto intro: order_trans)
    next
      case False
      then show ?thesis using claim e n 1 2(1) [of j] by (cases e; cases n) (auto simp: redis_claim_def split: if_splits)
    qed
  qed
  show "redis_high hex_digest s j \<le> redis_high hex_digest s' j \<and> (ok = Inr () \<longrightarrow> redis_high hex_digest s k < redis_high hex_digest s' k)"
    if inv: "redis_invalidate r hex_digest new_epoch k s = (s', ok)"
  proof -
    obtain s1 e where e: "current_epoch r new_epoch s = (s1, e)" by (metis surj_pair)
    obtain s2 n where n: "current_revision r hex_digest new_epoch k s1 = (s2, n)" by (metis surj_pair)
    note 1 = epoch_high [OF e, of hex_digest] and 2 = revision_high [OF n]
    show ?thesis
    proof (cases "\<exists>ep i. e = Inr ep \<and> n = Inr i")
      case True
      then obtain ep i where t: "e = Inr ep" "n = Inr i" by blast
      obtain s3 a where a: "advance_if_current r hex_digest new_epoch k i ep s2 = (s3, a)" by (metis surj_pair)
      from inv e n t a have "s' = s3 \<and> (ok = Inr () \<longrightarrow> a = Inr True)"
        by (auto simp: redis_invalidate_def split: sum.splits bool.splits)
      with advance_high [OF a] 1 2(1) 2(2) [of i] t show ?thesis by (auto intro: order_trans)
    next
      case False
      then show ?thesis using inv e n 1 2(1) [of j] by (cases e; cases n) (auto simp: redis_invalidate_def)
    qed
  qed
qed (simp add: redis_others_def redis_high_def)

section \<open>Properties\<close>

text \<open>C9: a reviewed change is applied as it was reviewed, once, by the session that reviewed it, and never against a
  resource that changed since. In every run of the store on its own revisions, a receipt that \<open>consume\<close> accepts was issued
  less than ten minutes before to the same session for the same intent and resource, it was not accepted before, and since it was
  issued no other change of its resource was accepted or announced by \<open>invalidate\<close>.\<close>

theorem local_reviews_are_one_time:
  assumes "receipt_run local_stamp local_claim local_invalidate (=) st h"
    and "h = before @ Consumed token session intent resource now # rest"
  shows "(\<exists>t. Issued token session intent resource t \<in> set before \<and> now < t + 600) \<and> (\<forall>e\<in>set before. \<not> consumes token e) \<and>
    (\<forall>key. resource = Some key \<longrightarrow> \<not> overtaken key token before)"
  using local_revisions.review_okD(3) [OF local_revisions.receipt_run_ok [OF assms(1)]] assms(2)
  unfolding uses_ok_def receipt_ttl_def by blast

section \<open>Witnesses\<close>

text \<open>A receipt of session 2 for intent 3 on resource 4.\<close>

definition demo_receipt :: "pystr option \<Rightarrow> receipt" where
  "demo_receipt epoch = \<lparr>rc_session = [2], rc_intent = [3], rc_expires_at = 600, rc_resource = Some [4], rc_revision = Some 0, rc_epoch = epoch\<rparr>"

definition demo_reviews :: "review_event list" where
  "demo_reviews = [Issued [1] [2] [3] (Some [4]) 0, Consumed [1] [2] [3] (Some [4]) 9]"

lemma demo_review_run:
  assumes "stamp [4] s0 = (s1, Inr (epoch, 0))" and "claim [4] (demo_receipt epoch) s1 = (s2, Inr True)"
  shows "\<exists>st. receipt_run stamp claim invalidate others st demo_reviews"
proof -
  let ?st = "\<lparr>rr_items = [([1], demo_receipt epoch)], rr_state = s1\<rparr>"
  have "issue stamp [2] [3] (Some [4]) 0 [1] (new_receipt_store s0) = (?st, Inr [1])"
    using assms(1) by (simp add: issue_def new_receipt_store_def purge_receipts_def max_receipts_def receipt_ttl_def demo_receipt_def)
  from issued [OF receipts_start _ this] have 1: "receipt_run stamp claim invalidate others ?st [Issued [1] [2] [3] (Some [4]) 0]" by simp
  obtain st where "consume claim [1] [2] [3] (Some [4]) 9 ?st = (st, Inr True)"
    using assms(2) by (simp add: consume_def purge_receipts_def demo_receipt_def)
  from consumed [OF 1 this] show ?thesis by (auto simp: demo_reviews_def)
qed

lemma demo_reviews_split: "demo_reviews = [Issued [1] [2] [3] (Some [4]) 0] @ Consumed [1] [2] [3] (Some [4]) 9 # []"
  by (simp add: demo_reviews_def)

theorem local_reviews_are_one_time_witness:
  "\<exists>st. receipt_run local_stamp local_claim local_invalidate (=) st demo_reviews \<and>
     (\<exists>t. Issued [1] [2] [3] (Some [4]) t \<in> set [Issued [1] [2] [3] (Some [4]) 0] \<and> 9 < t + 600)"
proof -
  have "local_stamp [4] [] = ([], Inr (None, 0))" "local_claim [4] (demo_receipt None) [] = ([([4], 1)], Inr True)"
    by (simp_all add: local_stamp_def local_claim_def local_revision_def dget_or_def demo_receipt_def)
  from demo_review_run [of local_stamp _ _ _ local_claim, OF this] obtain st
    where st: "receipt_run local_stamp local_claim local_invalidate (=) st demo_reviews" by blast
  with local_reviews_are_one_time [OF st demo_reviews_split] show ?thesis by blast
qed

end
