(* ===== verification/Review_Locks.thy ===== *)
theory Review_Locks
  imports Prelude "HOL-Library.List_Lexorder"
begin

text \<open>
  The process-local locks of \<open>ReviewReceiptStore\<close> in \<open>app.py\<close>: 64 re-entrant stripes, picked by a
  hash of the resource, so two resources may share one. A thread that changes a user takes the provisioning gate, then
  the stripes of its resources in the order of their names, and gives the gate back before it works (\<open>mutation_locks\<close>); one that
  creates a user keeps the gate (\<open>resource_locks\<close>). The stripes are not in the order of the names, so it is the gate that
  keeps the threads from waiting for each other in a circle. The Redis lease that follows each stripe in the distributed configuration
  gives up after a time and is not modelled here.
\<close>

section \<open>What threads do\<close>

datatype action = Acquire nat | Release nat | Work

definition provisioning_gate :: pystr where "provisioning_gate = lit ''vpn-user-provisioning-gate''"

definition username_resource :: "pystr \<Rightarrow> pystr" where
  "username_resource username = lit ''vpn-username:'' @ casefold (py_strip username)"

text \<open>\<open>sorted(set(resource_keys))\<close>; \<open>slot\<close> is the stripe of a resource.\<close>

definition lock_order :: "pystr list \<Rightarrow> pystr list" where
  "lock_order keys = sorted_list_of_set (set keys)"

definition resource_locks :: "(pystr \<Rightarrow> nat) \<Rightarrow> pystr list \<Rightarrow> action list" where
  "resource_locks slot keys =
     map (Acquire \<circ> slot) (lock_order keys) @ [Work] @ map (Release \<circ> slot) (rev (lock_order keys))"

definition mutation_locks :: "(pystr \<Rightarrow> nat) \<Rightarrow> pystr list \<Rightarrow> action list" where
  "mutation_locks slot keys =
     [Acquire (slot provisioning_gate)] @ map (Acquire \<circ> slot) (lock_order keys) @ [Release (slot provisioning_gate), Work] @
     map (Release \<circ> slot) (rev (lock_order keys))"

definition provisioning_locks :: "(pystr \<Rightarrow> nat) \<Rightarrow> pystr \<Rightarrow> action list" where
  "provisioning_locks slot username = resource_locks slot [provisioning_gate, username_resource username]"

section \<open>Stripes\<close>

text \<open>The owner of each stripe with its count, and what each thread has still to do.\<close>

record stripes =
  sr_owner :: "nat \<Rightarrow> (nat \<times> nat) option"
  sr_todo :: "action list list"

fun act :: "nat \<Rightarrow> action \<Rightarrow> (nat \<Rightarrow> (nat \<times> nat) option) \<Rightarrow> (nat \<Rightarrow> (nat \<times> nat) option) option" where
  "act i (Acquire s) owner =
     (case owner s of None \<Rightarrow> Some (owner(s := Some (i, 1)))
      | Some (j, n) \<Rightarrow> if j = i then Some (owner(s := Some (i, n + 1))) else None)"
| "act i (Release s) owner =
     (case owner s of None \<Rightarrow> None
      | Some (j, n) \<Rightarrow> if j = i then Some (owner(s := (if n = 1 then None else Some (i, n - 1)))) else None)"
| "act i Work owner = Some owner"

inductive stripe_step :: "stripes \<Rightarrow> stripes \<Rightarrow> bool" where
  stripe_step: "i < length (sr_todo w) \<Longrightarrow> sr_todo w ! i = a # p \<Longrightarrow> act i a (sr_owner w) = Some owner \<Longrightarrow>
    stripe_step w \<lparr>sr_owner = owner, sr_todo = (sr_todo w)[i := p]\<rparr>"

inductive_cases stripe_stepE: "stripe_step w w'"

definition starting :: "action list list \<Rightarrow> stripes" where
  "starting programs = \<lparr>sr_owner = (\<lambda>_. None), sr_todo = programs\<rparr>"

inductive stripe_run :: "action list list \<Rightarrow> stripes \<Rightarrow> bool" for programs where
  stripe_start: "stripe_run programs (starting programs)"
| stripe_more: "stripe_run programs w \<Longrightarrow> stripe_step w w' \<Longrightarrow> stripe_run programs w'"

section \<open>Programs behind the gate\<close>

text \<open>How often a stripe is held, read off what is still to be done.\<close>

fun held :: "nat \<Rightarrow> action list \<Rightarrow> int" where
  "held s [] = 0"
| "held s (Acquire t # p) = held s p - (if t = s then 1 else 0)"
| "held s (Release t # p) = held s p + (if t = s then 1 else 0)"
| "held s (Work # p) = held s p"

text \<open>A stripe is only waited for while the gate is held, and the gate only with empty hands.\<close>

fun gated :: "nat \<Rightarrow> action list \<Rightarrow> bool" where
  "gated g [] = True"
| "gated g (a # p) = (gated g p \<and> (\<forall>s. 0 \<le> held s (a # p)) \<and>
     (case a of Acquire s \<Rightarrow> 0 < held g (a # p) \<or> s = g \<and> (\<forall>t. held t (a # p) = 0) | _ \<Rightarrow> True))"

lemma gated_held: "gated g p \<Longrightarrow> 0 \<le> held s p"
  by (cases p) auto

lemma held_append: "held s (p @ q) = held s p + held s q"
  by (induction s p rule: held.induct) auto

lemma held_releases: "held s (map (Release \<circ> slot) keys) = int (length (filter (\<lambda>k. slot k = s) keys))"
  by (induction keys) auto

lemma held_acquires: "held s (map (Acquire \<circ> slot) keys) = - int (length (filter (\<lambda>k. slot k = s) keys))"
  by (induction keys) auto

lemma gated_releases: "gated g (map (Release \<circ> slot) keys)"
proof (induction keys)
  case (Cons k keys)
  then show ?case using gated_held [OF Cons.IH] by (simp add: comp_def)
qed simp

lemma gated_acquires:
  assumes "gated g q" and "\<And>s. int (length (filter (\<lambda>k. slot k = s) keys)) + (if s = g then 1 else 0) \<le> held s q"
  shows "gated g (map (Acquire \<circ> slot) keys @ q)"
  using assms(2)
proof (induction keys)
  case (Cons k keys)
  have "int (length (filter (\<lambda>k. slot k = s) keys)) + (if s = g then 1 else 0) \<le> held s q" for s
    using Cons.prems [of s] by (simp split: if_splits)
  from Cons.IH [OF this] have ih: "gated g (map (Acquire \<circ> slot) keys @ q)" .
  have "held s (map (Acquire \<circ> slot) (k # keys) @ q) = held s q - int (length (filter (\<lambda>k. slot k = s) (k # keys)))" for s
    unfolding held_append held_acquires by simp
  then have h: "(if s = g then 1 else 0) \<le> held s (map (Acquire \<circ> slot) (k # keys) @ q)" for s
    using Cons.prems [of s] by simp
  have "0 \<le> held s (map (Acquire \<circ> slot) (k # keys) @ q)" for s
    using h [of s] by (simp only: split: if_splits)
  moreover have "0 < held g (map (Acquire \<circ> slot) (k # keys) @ q)" using h [of g] by simp
  ultimately show ?case using ih by (simp add: comp_def)
qed (simp add: assms(1))

lemma lock_counts: "length (filter P (rev ks)) = length (filter P ks)"
  by (simp add: rev_filter [symmetric])

lemma gated_mutation: "gated (slot provisioning_gate) (mutation_locks slot keys)"
proof -
  let ?g = "slot provisioning_gate" and ?ks = "lock_order keys"
  let ?q = "[Release ?g, Work] @ map (Release \<circ> slot) (rev ?ks)"
  have q: "gated ?g ?q" using gated_releases [of ?g slot "rev ?ks"] gated_held [OF gated_releases [of ?g slot "rev ?ks"]]
    by (simp add: add_nonneg_nonneg)
  have "int (length (filter (\<lambda>k. slot k = s) ?ks)) + (if s = ?g then 1 else 0) \<le> held s ?q" for s
    using held_releases [of s slot "rev ?ks"] by (simp add: lock_counts)
  from gated_acquires [OF q this] have a: "gated ?g (map (Acquire \<circ> slot) ?ks @ ?q)" .
  have "held s (map (Acquire \<circ> slot) ?ks @ ?q) = (if s = ?g then 1 else 0)" for s
    unfolding held_append held_acquires using held_releases [of s slot "rev ?ks"] by (simp add: lock_counts)
  with a show ?thesis unfolding mutation_locks_def by simp
qed

lemma gated_provisioning: "gated (slot provisioning_gate) (provisioning_locks slot username)"
proof -
  let ?g = "slot provisioning_gate" and ?u = "username_resource username"
  have less: "provisioning_gate < ?u"
    by (simp add: provisioning_gate_def username_resource_def lit_def)
  then have "lock_order [provisioning_gate, ?u] = [provisioning_gate, ?u]"
    using less_imp_le [OF less] by (simp add: lock_order_def sorted_list_of_set_insert_remove)
  then show ?thesis by (auto simp: provisioning_locks_def resource_locks_def)
qed

section \<open>Requests\<close>

datatype request = Provision pystr | Mutate "pystr list"

fun locking :: "(pystr \<Rightarrow> nat) \<Rightarrow> request \<Rightarrow> action list" where
  "locking slot (Provision username) = provisioning_locks slot username"
| "locking slot (Mutate keys) = mutation_locks slot keys"

text \<open>The resources a request holds while it works.\<close>

fun guarded :: "request \<Rightarrow> pystr set" where
  "guarded (Provision username) = {provisioning_gate, username_resource username}"
| "guarded (Mutate keys) = set keys"

lemma gated_locking: "gated (slot provisioning_gate) (locking slot r)"
  by (cases r) (simp_all add: gated_mutation gated_provisioning)

text \<open>Held stripes and what threads have still to do agree.\<close>

fun owned :: "nat \<Rightarrow> (nat \<times> nat) option \<Rightarrow> int" where
  "owned i None = 0"
| "owned i (Some (j, n)) = (if j = i then int n else 0)"

definition stripes_fit :: "nat \<Rightarrow> stripes \<Rightarrow> bool" where
  "stripes_fit g w \<longleftrightarrow> (\<forall>i < length (sr_todo w). gated g (sr_todo w ! i) \<and> (\<forall>s. held s (sr_todo w ! i) = owned i (sr_owner w s))) \<and>
     (\<forall>s j n. sr_owner w s = Some (j, n) \<longrightarrow> j < length (sr_todo w) \<and> 0 < n)"

lemma stripes_fitD:
  assumes "stripes_fit g w"
  shows "i < length (sr_todo w) \<Longrightarrow> gated g (sr_todo w ! i)"
    and "i < length (sr_todo w) \<Longrightarrow> held s (sr_todo w ! i) = owned i (sr_owner w s)"
    and "sr_owner w s = Some (j, n) \<Longrightarrow> j < length (sr_todo w)"
    and "sr_owner w s = Some (j, n) \<Longrightarrow> 0 < n"
  using assms unfolding stripes_fit_def by blast+

lemma owned_pos: "0 < owned i x \<Longrightarrow> \<exists>n. 0 < n \<and> x = Some (i, n)"
  by (cases "(i, x)" rule: owned.cases) (auto split: if_splits)

lemma act_count:
  assumes "act i a owner = Some owner'" and "held s (a # p) = owned i (owner s)" and "\<And>j n. owner s = Some (j, n) \<Longrightarrow> 0 < n"
  shows "held s p = owned i (owner' s)"
  using assms by (cases a) (auto split: option.splits if_splits simp: of_nat_diff Suc_le_eq)

lemma act_others:
  assumes "act i a owner = Some owner'" and "k \<noteq> i" shows "owned k (owner' s) = owned k (owner s)"
  using assms by (cases a) (auto split: option.splits if_splits)

lemma act_owner:
  assumes "act i a owner = Some owner'" and "owner' s = Some (j, n)" and "\<And>j n. owner s = Some (j, n) \<Longrightarrow> 0 < n"
  shows "0 < n \<and> (j = i \<or> (\<exists>m. owner s = Some (j, m)))"
  using assms by (cases a) (auto split: option.splits if_splits)

lemma held_locking: "held s (locking slot r) = 0"
  using held_releases [of s slot] 
  by (cases r) (simp_all add: mutation_locks_def provisioning_locks_def resource_locks_def held_append held_acquires lock_counts)

lemma stripes_fit_start: "stripes_fit (slot provisioning_gate) (starting (map (locking slot) rs))"
  by (simp add: stripes_fit_def starting_def gated_locking held_locking)

lemma stripes_fit_step:
  assumes "stripes_fit g w" and "stripe_step w w'"
  shows "stripes_fit g w'"
proof -
  from assms(2) obtain i a p owner where
    1: "w' = \<lparr>sr_owner = owner, sr_todo = (sr_todo w)[i := p]\<rparr>" "i < length (sr_todo w)" "sr_todo w ! i = a # p"
      "act i a (sr_owner w) = Some owner"
    by (auto elim!: stripe_stepE)
  have g: "gated g p" using stripes_fitD(1) [OF assms(1) 1(2)] 1(3) by simp
  have mine: "held s p = owned i (owner s)" for s
    using act_count [OF 1(4), of s p] stripes_fitD(2) [OF assms(1) 1(2), of s] stripes_fitD(4) [OF assms(1)] 1(3) by metis
  have "gated g (sr_todo w' ! k) \<and> (\<forall>s. held s (sr_todo w' ! k) = owned k (sr_owner w' s))" if "k < length (sr_todo w')" for k
    using that g mine act_others [OF 1(4), of k] stripes_fitD(1,2) [OF assms(1), of k] 1(1,2) by (cases "k = i") auto
  moreover have "j < length (sr_todo w') \<and> 0 < n" if "sr_owner w' s = Some (j, n)" for s j n
    using that act_owner [OF 1(4), of s j n] stripes_fitD(3,4) [OF assms(1)] 1(1,2) by auto
  ultimately show ?thesis unfolding stripes_fit_def by blast
qed

lemma stripes_fit_run: "stripe_run (map (locking slot) rs) w \<Longrightarrow> stripes_fit (slot provisioning_gate) w"
  by (induction rule: stripe_run.induct) (simp_all add: stripes_fit_start stripes_fit_step)

section \<open>No deadlock, no shared work\<close>

lemma thread_steps: "i < length (sr_todo w) \<Longrightarrow> sr_todo w ! i = a # p \<Longrightarrow> act i a (sr_owner w) \<noteq> None \<Longrightarrow> \<exists>w'. stripe_step w w'"
  by (auto intro: stripe_step.intros)

text \<open>A thread that need not wait can go on.\<close>

lemma no_wait_steps:
  assumes "stripes_fit g w" and "i < length (sr_todo w)" and "sr_todo w ! i = a # p"
    and "\<And>s. a = Acquire s \<Longrightarrow> sr_owner w s = None \<or> (\<exists>n. sr_owner w s = Some (i, n))"
  shows "\<exists>w'. stripe_step w w'"
proof (rule thread_steps [OF assms(2,3)])
  have "\<exists>n. sr_owner w s = Some (i, n)" if "a = Release s" for s
  proof -
    have "0 \<le> held s p" using stripes_fitD(1) [OF assms(1,2)] assms(3) by (auto intro: gated_held)
    with that stripes_fitD(2) [OF assms(1,2), of s] assms(3) have "0 < owned i (sr_owner w s)" by simp
    then show ?thesis using owned_pos by blast
  qed
  then show "act i a (sr_owner w) \<noteq> None" using assms(4) by (cases a) (auto split: option.splits)
qed

text \<open>A thread with a stripe but without the gate never waits.\<close>

lemma past_gate_steps:
  assumes "stripes_fit g w" and "i < length (sr_todo w)" and "0 < held s (sr_todo w ! i)" and "held g (sr_todo w ! i) \<le> 0"
  shows "\<exists>w'. stripe_step w w'"
proof (cases "sr_todo w ! i")
  case Nil
  with assms(3) show ?thesis by simp
next
  case (Cons a p)
  have "a \<noteq> Acquire t" for t
  proof
    assume "a = Acquire t"
    with stripes_fitD(1) [OF assms(1,2)] Cons assms(4) have "held s (sr_todo w ! i) = 0" by auto
    with assms(3) show False by simp
  qed
  then show ?thesis using no_wait_steps [OF assms(1,2) Cons] by blast
qed

lemma stripes_fit_live:
  assumes "stripes_fit g w" and "i < length (sr_todo w)" and "sr_todo w ! i \<noteq> []"
  shows "\<exists>w'. stripe_step w w'"
proof (cases "\<exists>k n. sr_owner w g = Some (k, n)")
  case True
  then obtain k n where k: "sr_owner w g = Some (k, n)" by blast
  have len: "k < length (sr_todo w)" and n: "0 < n" using stripes_fitD(3,4) [OF assms(1) k] by auto
  then obtain a p where ap: "sr_todo w ! k = a # p"
    using stripes_fitD(2) [OF assms(1) len, of g] k by (cases "sr_todo w ! k") auto
  show ?thesis
  proof (cases "\<exists>s j m. a = Acquire s \<and> sr_owner w s = Some (j, m) \<and> j \<noteq> k")
    case True
    then obtain s j m where j: "sr_owner w s = Some (j, m)" "j \<noteq> k" by blast
    have jl: "j < length (sr_todo w)" and "0 < m" using stripes_fitD(3,4) [OF assms(1) j(1)] by auto
    then show ?thesis using past_gate_steps [OF assms(1) jl, of s] stripes_fitD(2) [OF assms(1) jl] j k by simp
  next
    case False
    then show ?thesis using no_wait_steps [OF assms(1) len ap] by (metis not_None_eq surj_pair)
  qed
next
  case False
  then have free: "sr_owner w g = None" by (metis not_None_eq surj_pair)
  obtain a p where ap: "sr_todo w ! i = a # p" using assms(3) by (cases "sr_todo w ! i") auto
  have "s = g" if "a = Acquire s" for s
    using that stripes_fitD(1) [OF assms(1,2)] stripes_fitD(2) [OF assms(1,2), of g] ap free by auto
  then show ?thesis using no_wait_steps [OF assms(1,2) ap] free by blast
qed

lemma run_todo:
  "stripe_run programs w \<Longrightarrow> length (sr_todo w) = length programs \<and> (\<forall>i < length programs. \<exists>d. programs ! i = d @ sr_todo w ! i)"
proof (induction rule: stripe_run.induct)
  case (stripe_more w w')
  from stripe_more(2) obtain i a p owner where
    w: "w' = \<lparr>sr_owner = owner, sr_todo = (sr_todo w)[i := p]\<rparr>" "i < length (sr_todo w)" "sr_todo w ! i = a # p"
    by (auto elim!: stripe_stepE)
  have "\<exists>d. programs ! k = d @ sr_todo w' ! k" if "k < length programs" for k
  proof (cases "k = i")
    case True
    from that stripe_more(3) obtain d where "programs ! k = d @ sr_todo w ! k" by blast
    with True w stripe_more(3) have "programs ! k = (d @ [a]) @ sr_todo w' ! k" by simp
    then show ?thesis by blast
  qed (use that w stripe_more(3) in simp)
  with w stripe_more(3) show ?case by simp
qed (simp add: starting_def)

lemma set_lock_order [simp]: "set (lock_order keys) = set keys"
  by (simp add: lock_order_def)

lemma held_while_working:
  assumes "locking slot r = d @ Work # p" and "k \<in> guarded r"
  shows "0 < held (slot k) p"
proof -
  obtain A ks where r: "locking slot r = A @ Work # map (Release \<circ> slot) (rev ks)" "Work \<notin> set A" "set ks = guarded r"
  proof (cases r)
    case (Provision username)
    with that [of "map (Acquire \<circ> slot) (lock_order [provisioning_gate, username_resource username])"
        "lock_order [provisioning_gate, username_resource username]"]
    show ?thesis by (auto simp: provisioning_locks_def resource_locks_def)
  next
    case (Mutate keys)
    with that [of "[Acquire (slot provisioning_gate)] @ map (Acquire \<circ> slot) (lock_order keys) @ [Release (slot provisioning_gate)]"
        "lock_order keys"]
    show ?thesis by (auto simp: mutation_locks_def)
  qed
  then have "A @ Work # map (Release \<circ> slot) (rev ks) = d @ Work # p" and "Work \<notin> set (map (Release \<circ> slot) (rev ks))"
    using assms(1) by auto
  then have "p = map (Release \<circ> slot) (rev ks)" using append_Cons_eq_iff [THEN iffD1, OF r(2)] by fast
  moreover have "0 < length (filter (\<lambda>x. slot x = slot k) ks)" using assms(2) r(3) by (auto simp: filter_empty_conv)
  ultimately show ?thesis using held_releases [of "slot k" slot "rev ks"] by (simp add: lock_counts)
qed

text \<open>C13: However many threads take the locks of their requests, and however the resources share stripes, some thread
  that is not done can always go on. A program runs to its end because each step uses up one of its actions.\<close>

theorem review_locks_never_deadlock:
  assumes "stripe_run (map (locking slot) rs) w"
  shows "(\<forall>p \<in> set (sr_todo w). p = []) \<or> (\<exists>w'. stripe_step w w')"
  using stripes_fit_live [OF stripes_fit_run [OF assms]] by (metis in_set_conv_nth)

lemma review_locks_steps_are_bounded:
  assumes "stripe_step w w'"
  shows "sum_list (map length (sr_todo w')) < sum_list (map length (sr_todo w))"
proof -
  from assms obtain i a p owner where w: "w' = \<lparr>sr_owner = owner, sr_todo = (sr_todo w)[i := p]\<rparr>"
    "i < length (sr_todo w)" "sr_todo w ! i = a # p"
    by (auto elim!: stripe_stepE)
  then have "Suc (length p) \<le> sum_list (map length (sr_todo w))"
    using elem_le_sum_list [of i "map length (sr_todo w)"] by simp
  with w show ?thesis by (simp add: map_update sum_list_update)
qed

text \<open>C22: Two threads that work at the same time hold no resource in common: two changes of one user never overlap, and
  nobody creates a user while another creation is under way.\<close>

theorem reviewed_work_is_exclusive:
  assumes "stripe_run (map (locking slot) rs) w" and "i < length rs" and "j < length rs" and "i \<noteq> j"
    and "sr_todo w ! i = Work # p" and "sr_todo w ! j = Work # q"
  shows "guarded (rs ! i) \<inter> guarded (rs ! j) = {}"
proof (rule ccontr)
  assume "\<not> ?thesis"
  then obtain k where k: "k \<in> guarded (rs ! i)" "k \<in> guarded (rs ! j)" by blast
  have len: "length (sr_todo w) = length rs"
    and todo: "\<And>m. m < length rs \<Longrightarrow> \<exists>d. locking slot (rs ! m) = d @ sr_todo w ! m"
    using run_todo [OF assms(1)] by auto
  have "0 < held (slot k) p" "0 < held (slot k) q"
    using held_while_working k todo [OF assms(2)] todo [OF assms(3)] assms(5,6) by metis+
  then have "0 < owned i (sr_owner w (slot k))" "0 < owned j (sr_owner w (slot k))"
    using stripes_fitD(2) [OF stripes_fit_run [OF assms(1)]] assms(2,3,5,6) len by (metis held.simps(4))+
  then show False using owned_pos assms(4) by fastforce
qed

section \<open>Two changes under way\<close>

fun scheduled :: "nat list \<Rightarrow> stripes \<Rightarrow> stripes" where
  "scheduled [] w = w"
| "scheduled (i # is) w =
     (if i < length (sr_todo w) then
        (case sr_todo w ! i of [] \<Rightarrow> scheduled is w
         | a # p \<Rightarrow> (case act i a (sr_owner w) of None \<Rightarrow> scheduled is w
             | Some owner \<Rightarrow> scheduled is \<lparr>sr_owner = owner, sr_todo = (sr_todo w)[i := p]\<rparr>))
      else scheduled is w)"

lemma scheduled_runs: "stripe_run programs w \<Longrightarrow> stripe_run programs (scheduled is w)"
proof (induction "is" arbitrary: w)
  case (Cons i "is")
  show ?case using Cons.prems stripe_more [OF Cons.prems stripe_step, of i] by (auto split: list.splits option.splits intro!: Cons.IH)
qed simp

definition two_changes :: "request list" where
  "two_changes = [Mutate [lit ''vpn-user:*1''], Mutate [lit ''vpn-user:*1A'']]"

definition both_working :: stripes where
  "both_working = scheduled [0, 1, 0, 0, 1, 1, 1] (starting (map (locking length) two_changes))"

lemma both_working_runs: "stripe_run (map (locking length) two_changes) both_working"
  unfolding both_working_def by (intro scheduled_runs stripe_start)

lemma both_working_todo: "sr_todo both_working = [[Work, Release 11], [Work, Release 12]]"
  by (simp add: both_working_def two_changes_def starting_def mutation_locks_def lock_order_def provisioning_gate_def)

lemma review_locks_never_deadlock_witness: "\<exists>w'. stripe_step both_working w'"
  using review_locks_never_deadlock [OF both_working_runs] by (simp add: both_working_todo)

lemma reviewed_work_is_exclusive_witness: "guarded (two_changes ! 0) \<inter> guarded (two_changes ! 1) = {}"
  using reviewed_work_is_exclusive [OF both_working_runs, of 0 1 "[Release 11]" "[Release 12]"]
  by (simp add: both_working_todo two_changes_def)

end
