(* ===== verification/Review_Redis.thy ===== *)
theory Review_Redis
  imports Review_Receipts
begin

text \<open>
  Receipts of several dashboards on one Redis. \<open>Review_Receipts\<close> takes the client's answers as they come; here they are those of a
  server that other dashboards use too: it stores the epoch and the revision numbers, runs the script \<open>_ADVANCE_REVISION\<close>, and writes down
  each revision that was advanced, with who did it. Before any call of ours the others may run any of their commands or the server may
  lose its data, and a call may fail before or after it took effect. So the histories here show the changes of all processes.
\<close>

section \<open>The server\<close>

record server =
  sv_run :: pystr
  sv_data :: "(pystr, pystr) dict"
  sv_epochs :: "pystr list"
  sv_log :: "(bool \<times> pystr) list"

text \<open>\<open>SET key value NX\<close>; \<open>sv_epochs\<close> are the epochs that there ever were.\<close>

definition set_nx :: "pystr \<Rightarrow> pystr \<Rightarrow> server \<Rightarrow> server \<times> bool" where
  "set_nx key v s =
     (if dget (sv_data s) key \<noteq> None then (s, False)
      else (s\<lparr>sv_data := dset key v (sv_data s), sv_epochs := (if key = epoch_key then v # sv_epochs s else sv_epochs s)\<rparr>, True))"

text \<open>\<open>_ADVANCE_REVISION\<close>, which Redis runs without interruption: \<open>tonumber\<close> on the decimal texts that \<open>INCR\<close> and the
  client write. The flag says whether the call is ours.\<close>

definition advance_script :: "bool \<Rightarrow> pystr \<Rightarrow> pystr \<Rightarrow> pystr \<Rightarrow> pystr \<Rightarrow> server \<Rightarrow> server \<times> int option" where
  "advance_script ours keys1 keys2 argv1 argv2 s =
     (if dget (sv_data s) keys1 \<noteq> Some argv1 then (s, Some (-1))
      else case Option.bind (dget (sv_data s) keys2) py_int of
        None \<Rightarrow> (s, Some 0)
      | Some current \<Rightarrow>
          if py_int argv2 \<noteq> Some current then (s, Some 0)
          else (s\<lparr>sv_data := dset keys2 (str_of_int (current + 1)) (sv_data s), sv_log := sv_log s @ [(ours, keys2)]\<rparr>, Some (current + 1)))"

text \<open>The lease scripts work on keys of their own, which the revisions do not depend on.\<close>

fun run_script :: "script \<Rightarrow> pystr list \<Rightarrow> pystr list \<Rightarrow> server \<Rightarrow> server \<times> int option" where
  "run_script AdvanceRevision [keys1, keys2] [argv1, argv2] s = advance_script True keys1 keys2 argv1 argv2 s"
| "run_script _ _ _ s = (s, None)"

lemma run_advance: "run_script AdvanceRevision [keys1, keys2] [argv1, argv2] = advance_script True keys1 keys2 argv1 argv2"
  by (rule ext) simp

text \<open>What else happens to the server. Epochs are drawn with \<open>uuid4\<close>, so nobody draws one twice.\<close>

datatype elsewhere =
    TheirEpoch pystr
  | TheirFirst pystr
  | TheirAdvance pystr pystr int
  | DataLoss

fun their :: "(pystr \<Rightarrow> pystr) \<Rightarrow> elsewhere \<Rightarrow> server \<Rightarrow> server" where
  "their hex_digest (TheirEpoch e) s = (if e \<in> set (sv_epochs s) then s else fst (set_nx epoch_key e s))"
| "their hex_digest (TheirFirst resource) s = fst (set_nx (revision_key hex_digest resource) (lit ''0'') s)"
| "their hex_digest (TheirAdvance resource e n) s =
     fst (advance_script False epoch_key (revision_key hex_digest resource) e (str_of_int n) s)"
| "their hex_digest DataLoss s = s\<lparr>sv_data := []\<rparr>"

section \<open>The client on this server\<close>

text \<open>The coming calls: what happens before each, and whether its answer arrives.\<close>

datatype fate = Answered | Unheard | Down

type_synonym world = "server \<times> (elsewhere list \<times> fate) list"

definition server_call :: "(pystr \<Rightarrow> pystr) \<Rightarrow> (server \<Rightarrow> server \<times> 'a) \<Rightarrow> world \<Rightarrow> world \<times> 'a option" where
  "server_call hex_digest f = (\<lambda>(s, coming).
     case coming of
       [] \<Rightarrow> ((fst (f s), []), Some (snd (f s)))
     | (cs, fate) # coming \<Rightarrow>
         let s = fold (their hex_digest) cs s in
         (case fate of
            Answered \<Rightarrow> ((fst (f s), coming), Some (snd (f s)))
          | Unheard \<Rightarrow> ((fst (f s), coming), None)
          | Down \<Rightarrow> ((s, coming), None)))"

definition shared_redis :: "(pystr \<Rightarrow> pystr) \<Rightarrow> world redis" where
  "shared_redis hex_digest =
     \<lparr>rd_run_id = server_call hex_digest (\<lambda>s. (s, sv_run s)),
      rd_get = (\<lambda>key. server_call hex_digest (\<lambda>s. (s, dget (sv_data s) key))),
      rd_set_nx = (\<lambda>key v ms. server_call hex_digest (set_nx key v)),
      rd_eval = (\<lambda>script keys args. server_call hex_digest (run_script script keys args))\<rparr>"

text \<open>The store's operations on this client; \<open>draw\<close> gives the \<open>uuid4\<close> of each call.\<close>

definition shared_stamp :: "(pystr \<Rightarrow> pystr) \<Rightarrow> (coordinator \<times> world \<Rightarrow> pystr) \<Rightarrow> pystr \<Rightarrow> coordinator \<times> world
    \<Rightarrow> (coordinator \<times> world) \<times> (coordination_error + pystr option \<times> int)" where
  "shared_stamp hex_digest draw key s = redis_stamp (shared_redis hex_digest) hex_digest (draw s) key s"

definition shared_claim :: "(pystr \<Rightarrow> pystr) \<Rightarrow> (coordinator \<times> world \<Rightarrow> pystr) \<Rightarrow> pystr \<Rightarrow> receipt \<Rightarrow> coordinator \<times> world
    \<Rightarrow> (coordinator \<times> world) \<times> (coordination_error + bool)" where
  "shared_claim hex_digest draw key rc s = redis_claim (shared_redis hex_digest) hex_digest (draw s) key rc s"

definition shared_invalidate :: "(pystr \<Rightarrow> pystr) \<Rightarrow> (coordinator \<times> world \<Rightarrow> pystr) \<Rightarrow> pystr \<Rightarrow> coordinator \<times> world
    \<Rightarrow> (coordinator \<times> world) \<times> (coordination_error + unit)" where
  "shared_invalidate hex_digest draw key s = redis_invalidate (shared_redis hex_digest) hex_digest (draw s) key s"

interpretation shared_revisions: revision_authority "redis_high hex_digest" "shared_stamp hex_digest draw" "shared_claim hex_digest draw"
  "shared_invalidate hex_digest draw" redis_others for hex_digest draw
proof
  fix k j rc and s s' :: "coordinator \<times> world" and answer claimed ok
  show "shared_stamp hex_digest draw k s = (s', answer) \<Longrightarrow>
      redis_high hex_digest s j \<le> redis_high hex_digest s' j \<and> (\<forall>e n. answer = Inr (e, n) \<longrightarrow> n \<le> redis_high hex_digest s' k)"
    unfolding shared_stamp_def by (rule redis_revisions.stamp_law)
  show "shared_claim hex_digest draw k rc s = (s', claimed) \<Longrightarrow> redis_high hex_digest s j \<le> redis_high hex_digest s' j \<and>
      (claimed = Inr True \<longrightarrow> (\<exists>n. rc_revision rc = Some n \<and> redis_high hex_digest s k \<le> n \<and> n < redis_high hex_digest s' k))"
    unfolding shared_claim_def by (rule redis_revisions.claim_law)
  show "shared_invalidate hex_digest draw k s = (s', ok) \<Longrightarrow>
      redis_high hex_digest s j \<le> redis_high hex_digest s' j \<and> (ok = Inr () \<longrightarrow> redis_high hex_digest s k < redis_high hex_digest s' k)"
    unfolding shared_invalidate_def by (rule redis_revisions.invalidate_law)
  show "redis_others s s' \<Longrightarrow> redis_high hex_digest s j \<le> redis_high hex_digest s' j"
    by (rule redis_revisions.others_law)
qed

section \<open>Histories of all processes\<close>

text \<open>An advance of the revision stored at a key, by us or by another process, and the events of our store.\<close>

datatype shared_event = Changed bool pystr | Ours review_event

fun changes :: "pystr \<Rightarrow> shared_event \<Rightarrow> bool" where
  "changes key (Changed ours k) \<longleftrightarrow> k = key"
| "changes key (Ours e) \<longleftrightarrow> False"

fun ours :: "shared_event \<Rightarrow> review_event list" where
  "ours (Changed b k) = []"
| "ours (Ours e) = [e]"

type_synonym shared_store = "(coordinator \<times> world) receipt_store"

definition server_of :: "shared_store \<Rightarrow> server" where
  "server_of st = fst (snd (rr_state st))"

definition news :: "shared_store \<Rightarrow> shared_store \<Rightarrow> shared_event list" where
  "news st st' = map (\<lambda>(b, k). Changed b k) (drop (length (sv_log (server_of st))) (sv_log (server_of st')))"

text \<open>A server that may have been in use before.\<close>

definition server_ok :: "server \<Rightarrow> bool" where
  "server_ok s \<longleftrightarrow> (\<forall>e. dget (sv_data s) epoch_key = Some e \<longrightarrow> e \<in> set (sv_epochs s))"

text \<open>The store in use. What the others do meanwhile, and what is to happen to the next calls, is arbitrary.\<close>

inductive shared_run :: "(pystr \<Rightarrow> pystr) \<Rightarrow> (coordinator \<times> world \<Rightarrow> pystr) \<Rightarrow> shared_store \<Rightarrow> shared_event list \<Rightarrow> bool"
  for hex_digest draw where
  shared_start: "server_ok s \<Longrightarrow> shared_run hex_digest draw (new_receipt_store (new_coordinator, s, coming)) []"
| shared_issued: "shared_run hex_digest draw st h \<Longrightarrow> (\<forall>e\<in>set h. \<forall>d\<in>set (ours e). \<not> issues token d) \<Longrightarrow>
    issue (shared_stamp hex_digest draw) session intent resource now token st = (st', answer) \<Longrightarrow>
    shared_run hex_digest draw st'
      (h @ news st st' @ (if answer = Inr token then [Ours (Issued token session intent resource now)] else []))"
| shared_consumed: "shared_run hex_digest draw st h \<Longrightarrow>
    consume (shared_claim hex_digest draw) token session intent resource now st = (st', answer) \<Longrightarrow>
    shared_run hex_digest draw st'
      (h @ news st st' @ (if answer = Inr True then [Ours (Consumed token session intent resource now)] else []))"
| shared_invalidated: "shared_run hex_digest draw st h \<Longrightarrow> shared_invalidate hex_digest draw key (rr_state st) = (s', answer) \<Longrightarrow>
    st' = st\<lparr>rr_state := s'\<rparr> \<Longrightarrow>
    shared_run hex_digest draw st' (h @ news st st' @ (if answer = Inr () then [Ours (Invalidated key)] else []))"
| shared_elsewhere: "shared_run hex_digest draw st h \<Longrightarrow> rr_state st = (co, s, coming) \<Longrightarrow>
    st' = st\<lparr>rr_state := (co, fold (their hex_digest) cs s, coming')\<rparr> \<Longrightarrow> shared_run hex_digest draw st' (h @ news st st')"

lemma ours_news [simp]: "concat (map ours (news st st')) = []"
  by (auto simp: news_def concat_eq_Nil_conv)

text \<open>The store's own part of such a history is one of \<open>Review_Receipts\<close>.\<close>

lemma own_history: "shared_run hex_digest draw st h \<Longrightarrow>
  receipt_run (shared_stamp hex_digest draw) (shared_claim hex_digest draw) (shared_invalidate hex_digest draw) redis_others st
    (concat (map ours h))"
proof (induction rule: shared_run.induct)
  case (shared_start s coming)
  show ?case by (simp add: receipts_start)
next
  case (shared_issued st h token session intent resource now st' answer)
  have fresh: "\<forall>e\<in>set (concat (map ours h)). \<not> issues token e" using shared_issued.hyps(2) by auto
  show ?case
  proof (cases answer)
    case (Inl e)
    with shared_issued.hyps(3) not_issued [OF shared_issued.IH fresh] show ?thesis by simp
  next
    case (Inr t)
    with shared_issued.hyps(3) have "t = token" by (auto simp: issue_def Let_def split: option.splits prod.splits sum.splits)
    with Inr shared_issued.hyps(3) issued [OF shared_issued.IH fresh] show ?thesis by simp
  qed
next
  case (shared_consumed st h token session intent resource now st' answer)
  then show ?case
    using consumed [OF shared_consumed.IH] not_consumed [OF shared_consumed.IH shared_consumed.hyps(2)] by auto
next
  case (shared_invalidated st h key s' answer st')
  then show ?case
    using invalidated [OF shared_invalidated.IH] not_invalidated [OF shared_invalidated.IH] by (cases answer) auto
next
  case (shared_elsewhere st h co s coming st' cs coming')
  have "redis_others (rr_state st) (co, fold (their hex_digest) cs s, coming')"
    by (simp add: redis_others_def shared_elsewhere.hyps(2))
  from elsewhere [OF shared_elsewhere.IH this] show ?case by (simp add: shared_elsewhere.hyps(3))
qed

section \<open>The number at a key\<close>

definition number :: "server \<Rightarrow> pystr \<Rightarrow> int option" where
  "number s key = Option.bind (dget (sv_data s) key) py_int"

definition advances :: "pystr \<Rightarrow> (bool \<times> pystr) list \<Rightarrow> int" where
  "advances key entries = int (length (filter (\<lambda>(_, k). k = key) entries))"

lemma advances_simps [simp]:
  "advances key [] = 0" "advances key (as @ bs) = advances key as + advances key bs"
  "advances key [(b, k)] = (if k = key then 1 else 0)"
  by (simp_all add: advances_def)

lemma advances_nonneg [simp]: "0 \<le> advances key entries"
  by (simp add: advances_def)

text \<open>A later state of the server: entries were added to its log, no old epoch came back, and as long as an epoch lasts, the
  numbers are the old ones plus the advances in the log.\<close>

definition later :: "server \<Rightarrow> server \<Rightarrow> bool" where
  "later s s' \<longleftrightarrow> (\<exists>entries. sv_log s' = sv_log s @ entries) \<and> set (sv_epochs s) \<subseteq> set (sv_epochs s') \<and> (server_ok s \<longrightarrow> server_ok s')"

definition follows :: "server \<Rightarrow> server \<Rightarrow> bool" where
  "follows s s' \<longleftrightarrow> later s s' \<and>
     (\<forall>e\<in>set (sv_epochs s). dget (sv_data s') epoch_key = Some e \<longrightarrow> dget (sv_data s) epoch_key = Some e \<and>
        (\<forall>key n. key \<noteq> epoch_key \<longrightarrow> number s key = Some n \<longrightarrow>
           number s' key = Some (n + advances key (drop (length (sv_log s)) (sv_log s')))))"

lemma follows_later: "follows s s' \<Longrightarrow> later s s'"
  by (simp add: follows_def)

lemma later_refl [simp]: "later s s"
  by (simp add: later_def)

lemma later_trans: "later s s' \<Longrightarrow> later s' s'' \<Longrightarrow> later s s''"
  by (auto simp: later_def)

lemma follows_refl [simp]: "follows s s"
  by (simp add: follows_def)

lemma later_log: "later s s' \<Longrightarrow> sv_log s' = sv_log s @ drop (length (sv_log s)) (sv_log s')"
  by (auto simp: later_def)

lemma follows_number:
  assumes "follows s s'" and "e \<in> set (sv_epochs s)" and "dget (sv_data s') epoch_key = Some e"
  shows "dget (sv_data s) epoch_key = Some e"
    and "key \<noteq> epoch_key \<Longrightarrow> number s key = Some n \<Longrightarrow> number s' key = Some (n + advances key (drop (length (sv_log s)) (sv_log s')))"
  using assms unfolding follows_def by blast+

lemma advances_later:
  "later s s' \<Longrightarrow> later s' s'' \<Longrightarrow> advances key (drop (length (sv_log s)) (sv_log s'')) =
     advances key (drop (length (sv_log s)) (sv_log s')) + advances key (drop (length (sv_log s')) (sv_log s''))"
  by (auto simp: later_def)

lemma follows_trans:
  assumes "follows s s'" and "follows s' s''"
  shows "follows s s''"
  unfolding follows_def
proof (intro conjI ballI impI allI)
  show "later s s''" using assms by (blast intro: later_trans follows_later)
  fix e assume e: "e \<in> set (sv_epochs s)" "dget (sv_data s'') epoch_key = Some e"
  then have e': "e \<in> set (sv_epochs s')" using assms(1) by (auto simp: follows_def later_def)
  note 2 = follows_number [OF assms(2) e' e(2)]
  note 1 = follows_number [OF assms(1) e(1) 2(1)]
  show "dget (sv_data s) epoch_key = Some e" by (rule 1(1))
  fix key n assume "key \<noteq> epoch_key" "number s key = Some n"
  with 1(2) 2(2) show "number s'' key = Some (n + advances key (drop (length (sv_log s)) (sv_log s'')))"
    using advances_later [OF assms [THEN follows_later], of key] by fastforce
qed

lemma set_nx_follows: "key \<noteq> epoch_key \<Longrightarrow> follows s (fst (set_nx key v s))"
  by (auto simp: follows_def later_def set_nx_def server_ok_def number_def dget_dset)

lemma set_nx_later: "later s (fst (set_nx key v s))"
  by (auto simp: later_def set_nx_def server_ok_def dget_dset)

lemma set_new_epoch_follows: "e \<notin> set (sv_epochs s) \<Longrightarrow> follows s (fst (set_nx epoch_key e s))"
  by (auto simp: follows_def later_def set_nx_def server_ok_def number_def dget_dset)

lemma advance_script_follows: "key \<noteq> epoch_key \<Longrightarrow> follows s (fst (advance_script b epoch_key key epoch expected s))"
  by (auto simp: follows_def later_def advance_script_def server_ok_def number_def dget_dset split: option.splits)

lemma revision_key_not_epoch [simp]: "revision_key hex_digest resource \<noteq> epoch_key"
  by (simp add: revision_key_def epoch_key_def lit_def)

lemma their_follows: "follows s (their hex_digest c s)"
proof (cases c)
  case DataLoss
  then show ?thesis by (simp add: follows_def later_def server_ok_def)
qed (simp_all add: set_nx_follows set_new_epoch_follows advance_script_follows)

lemma theirs_follow: "follows s (fold (their hex_digest) cs s)"
  by (induction cs arbitrary: s) (auto intro: follows_trans their_follows)

section \<open>Our calls\<close>

text \<open>A call acts on a state that follows the old one, and answers from there if at all.\<close>

lemma server_call_effect:
  assumes "server_call hex_digest f w = (w', res)"
  obtains s where "follows (fst w) s" and "fst w' = s \<and> res = None \<or> fst w' = fst (f s) \<and> (res = None \<or> res = Some (snd (f s)))"
proof -
  obtain s coming where w: "w = (s, coming)" by force
  show thesis
  proof (cases coming)
    case Nil
    with assms that [of s] show thesis by (auto simp: server_call_def w)
  next
    case (Cons c coming')
    then show thesis using assms that [OF theirs_follow [of "fst w" hex_digest "fst c"]]
      by (cases "snd c") (auto simp: server_call_def w Let_def split: prod.splits)
  qed
qed

lemma reading_call:
  assumes "server_call hex_digest (\<lambda>s. (s, g s)) w = (w', res)"
  shows "follows (fst w) (fst w')" and "res = Some v \<Longrightarrow> v = g (fst w')"
  using server_call_effect [OF assms] by auto

lemma setting_call:
  assumes "server_call hex_digest (set_nx key v) w = (w', res)"
  shows "later (fst w) (fst w')" and "key \<noteq> epoch_key \<Longrightarrow> follows (fst w) (fst w')"
proof -
  obtain s where s: "follows (fst w) s" "fst w' = s \<or> fst w' = fst (set_nx key v s)"
    using server_call_effect [OF assms] by metis
  then show "later (fst w) (fst w')" using set_nx_later later_trans follows_later by metis
  show "follows (fst w) (fst w')" if "key \<noteq> epoch_key" using s set_nx_follows [OF that] follows_trans by metis
qed

lemma get_or_set_effect:
  assumes "get_or_set (shared_redis hex_digest) key first may_set w = (w', res)"
  shows "later (fst w) (fst w')" and "key \<noteq> epoch_key \<or> \<not> may_set \<Longrightarrow> follows (fst w) (fst w')"
    and "res = Some v \<Longrightarrow> dget (sv_data (fst w')) key = Some v"
proof -
  obtain w1 r1 where 1: "rd_get (shared_redis hex_digest) key w = (w1, r1)" by (metis surj_pair)
  obtain w2 r2 where 2: "rd_set_nx (shared_redis hex_digest) key first None w1 = (w2, r2)" by (metis surj_pair)
  obtain w3 r3 where 3: "rd_get (shared_redis hex_digest) key w2 = (w3, r3)" by (metis surj_pair)
  note r = 1 [unfolded shared_redis_def, simplified, THEN reading_call(1)] 1 [unfolded shared_redis_def, simplified, THEN reading_call(2)]
    2 [unfolded shared_redis_def, simplified, THEN setting_call(1)] 2 [unfolded shared_redis_def, simplified, THEN setting_call(2)]
    3 [unfolded shared_redis_def, simplified, THEN reading_call(1)] 3 [unfolded shared_redis_def, simplified, THEN reading_call(2)]
  have cases: "w' = w1 \<and> (res = None \<or> r1 = Some (Some (the res))) \<or> may_set \<and> w' = w2 \<and> res = None \<or>
      may_set \<and> w' = w3 \<and> (res = None \<or> r3 = Some (Some (the res)))"
    using assms 1 2 3 by (auto simp: get_or_set_def split: option.splits if_splits)
  show "later (fst w) (fst w')" using cases r(1,3,5) by (metis later_trans follows_later)
  show "follows (fst w) (fst w')" if "key \<noteq> epoch_key \<or> \<not> may_set" using cases that r(1,4,5) by (metis follows_trans)
  show "dget (sv_data (fst w')) key = Some v" if "res = Some v" using cases that r(2,6) by fastforce
qed

section \<open>The coordinator on this server\<close>

abbreviation srv :: "coordinator \<times> world \<Rightarrow> server" where
  "srv s \<equiv> fst (snd s)"

text \<open>What a step of the coordinator may do: its epoch stays once it is known, and from then on the server is followed.\<close>

definition steady :: "coordinator \<times> world \<Rightarrow> coordinator \<times> world \<Rightarrow> bool" where
  "steady s s' \<longleftrightarrow> later (srv s) (srv s') \<and> (co_epoch (fst s) \<noteq> None \<longrightarrow> co_epoch (fst s') = co_epoch (fst s) \<and> follows (srv s) (srv s'))"

lemma steady_refl [simp]: "steady s s"
  by (simp add: steady_def)

lemma steady_trans: "steady s s' \<Longrightarrow> steady s' s'' \<Longrightarrow> steady s s''"
  by (auto simp: steady_def intro: later_trans follows_trans)

lemma steadyI: "follows (srv s) (srv s') \<Longrightarrow> co_epoch (fst s') = co_epoch (fst s) \<Longrightarrow> steady s s'"
  by (simp add: steady_def follows_later)

lemma epoch_steady:
  assumes "current_epoch (shared_redis hex_digest) new_epoch s = (s', res)"
  shows "steady s s'" and "res = Inr e \<Longrightarrow> co_epoch (fst s') = Some e \<and> (server_ok (srv s) \<longrightarrow> e \<in> set (sv_epochs (srv s')))"
proof -
  obtain co w co' w' where s: "s = (co, w)" "s' = (co', w')" by (cases s, cases s')
  obtain w1 r1 where 1: "rd_run_id (shared_redis hex_digest) w = (w1, r1)" by (metis surj_pair)
  obtain w2 r2 where 2: "get_or_set (shared_redis hex_digest) epoch_key new_epoch (co_epoch co = None) w1 = (w2, r2)" by (metis surj_pair)
  note f1 = 1 [unfolded shared_redis_def, simplified, THEN reading_call(1)]
  note f2 = get_or_set_effect [OF 2]
  have out: "w' = w1 \<and> res \<noteq> Inr e \<or> w' = w2 \<and> (res = Inr e \<longrightarrow> r2 = Some e)" for e
    using assms 1 2 by (auto simp: s current_epoch_def Let_def split: option.splits if_splits)
  note eff = current_epoch_effect [OF assms [unfolded s]]
  have "later (fst w) (fst w')" using out f1 f2(1) by (metis later_trans follows_later)
  moreover have "co_epoch co' = co_epoch co \<and> follows (fst w) (fst w')" if "co_epoch co \<noteq> None"
    using that out f1 f2(2) eff(2) by (metis follows_trans)
  ultimately show "steady s s'" by (simp add: s steady_def)
  assume res: "res = Inr e"
  then have w': "w' = w2" "dget (sv_data (fst w2)) epoch_key = Some e" using out [of e] f2(3) by auto
  have "server_ok (fst w2)" if "server_ok (fst w)" using that f1 f2(1) follows_later by (auto simp: later_def)
  with eff(3) [OF res] w' show "co_epoch (fst s') = Some e \<and> (server_ok (srv s) \<longrightarrow> e \<in> set (sv_epochs (srv s')))"
    by (auto simp: s server_ok_def)
qed

lemma revision_section_steady:
  assumes "revision_section (shared_redis hex_digest) key s = (s', res)" and "key \<noteq> epoch_key"
  shows "steady s s'" and "res = Inr n \<Longrightarrow> number (srv s') key = Some n \<and> 0 \<le> n"
proof -
  obtain co w co' w' where s: "s = (co, w)" "s' = (co', w')" by (cases s, cases s')
  obtain w1 r1 where 1: "get_or_set (shared_redis hex_digest) key (lit ''0'') (key \<notin> co_keys co) w = (w1, r1)" by (metis surj_pair)
  have out: "w' = w1 \<and> (res = Inr n \<longrightarrow> Option.bind r1 py_int = Some n \<and> 0 \<le> n)" for n
    using assms(1) 1 by (auto simp: s revision_section_def split: option.splits if_splits)
  with get_or_set_effect(2) [OF 1] revision_section_effect(1) [OF assms(1) [unfolded s]] assms(2)
  show "steady s s'" by (intro steadyI) (simp_all add: s)
  show "res = Inr n \<Longrightarrow> number (srv s') key = Some n \<and> 0 \<le> n"
    using out [of n] get_or_set_effect(3) [OF 1] by (cases r1) (auto simp: s number_def)
qed

lemma revision_steady:
  assumes "current_revision (shared_redis hex_digest) hex_digest new_epoch resource s = (s', res)"
  shows "steady s s'" and "res = Inr n \<Longrightarrow> number (srv s') (revision_key hex_digest resource) = Some n \<and> 0 \<le> n"
proof -
  obtain s1 e where e: "current_epoch (shared_redis hex_digest) new_epoch s = (s1, e)" by (metis surj_pair)
  obtain s2 r where r: "revision_section (shared_redis hex_digest) (revision_key hex_digest resource) s1 = (s2, r)" by (metis surj_pair)
  note 1 = epoch_steady(1) [OF e] and 2 = revision_section_steady [OF r revision_key_not_epoch]
  have "(s' = s1 \<and> (\<forall>n. res \<noteq> Inr n)) \<or> (s' = s2 \<and> res = r)"
    using assms e r by (cases e) (auto simp: current_revision_def)
  then show "steady s s'" "res = Inr n \<Longrightarrow> number (srv s') (revision_key hex_digest resource) = Some n \<and> 0 \<le> n"
    using 1 2 by (auto intro: steady_trans)
qed

text \<open>The script is where a receipt is accepted: on a state with the expected epoch and number, of which it logs the advance.\<close>

definition advanced_at :: "server \<Rightarrow> pystr \<Rightarrow> pystr \<Rightarrow> int \<Rightarrow> server \<Rightarrow> bool" where
  "advanced_at s key epoch n s' \<longleftrightarrow>
     dget (sv_data s) epoch_key = Some epoch \<and> number s key = Some n \<and> sv_log s' = sv_log s @ [(True, key)]"

lemma advance_section_steady:
  assumes "advance_section (shared_redis hex_digest) key n epoch s = (s', res)" and "key \<noteq> epoch_key"
  shows "steady s s'" and "res = Inr True \<Longrightarrow> 0 \<le> n \<Longrightarrow> \<exists>t. follows (srv s) t \<and> advanced_at t key epoch n (srv s')"
proof -
  obtain co w co' w' where s: "s = (co, w)" "s' = (co', w')" by (cases s, cases s')
  obtain w1 r1 where call: "server_call hex_digest (advance_script True epoch_key key epoch (str_of_int n)) w = (w1, r1)" by (metis surj_pair)
  have r1: "rd_eval (shared_redis hex_digest) AdvanceRevision [epoch_key, key] [epoch, str_of_int n] w = (w1, r1)"
    using call by (simp add: shared_redis_def run_advance)
  obtain t where t: "follows (fst w) t" "fst w1 = t \<and> r1 = None \<or> fst w1 = fst (advance_script True epoch_key key epoch (str_of_int n) t) \<and>
      (r1 = None \<or> r1 = Some (snd (advance_script True epoch_key key epoch (str_of_int n) t)))"
    using server_call_effect [OF call] by metis
  have "follows (fst w) (fst w1)" using t advance_script_follows [OF assms(2)] by (metis follows_trans)
  moreover have "w' = w \<or> w' = w1" using assms(1) r1 by (auto simp: s advance_section_def split: option.splits if_splits)
  ultimately show "steady s s'" using advance_section_effect(1) [OF assms(1) [unfolded s]] by (intro steadyI) (auto simp: s)
  assume "res = Inr True" "0 \<le> n"
  then have "w' = w1" "\<exists>x. r1 = Some x \<and> (case x of None \<Rightarrow> 0 | Some m \<Rightarrow> m) = n + 1"
    using assms(1) r1 by (auto simp: s advance_section_def split: option.splits if_splits)
  with t(2) \<open>0 \<le> n\<close> have "advanced_at t key epoch n (fst w')"
    by (auto simp: advanced_at_def advance_script_def number_def split: option.splits if_splits)
  with t(1) show "\<exists>t. follows (srv s) t \<and> advanced_at t key epoch n (srv s')" by (auto simp: s)
qed

lemma advance_steady:
  assumes "advance_if_current (shared_redis hex_digest) hex_digest new_epoch resource n epoch s = (s', res)"
  defines "key \<equiv> revision_key hex_digest resource"
  shows "steady s s'"
    and "res = Inr True \<Longrightarrow> 0 \<le> n \<Longrightarrow> co_epoch (fst s) \<noteq> None \<Longrightarrow> \<exists>t. follows (srv s) t \<and> advanced_at t key epoch n (srv s')"
proof -
  obtain s1 e where e: "current_epoch (shared_redis hex_digest) new_epoch s = (s1, e)" by (metis surj_pair)
  obtain s2 r where r: "advance_section (shared_redis hex_digest) key n epoch s1 = (s2, r)" by (metis surj_pair)
  note 1 = epoch_steady(1) [OF e] and 2 = advance_section_steady [OF r, unfolded key_def, OF revision_key_not_epoch, folded key_def]
  have out: "(s' = s1 \<and> res \<noteq> Inr True) \<or> (s' = s2 \<and> res = r)"
    using assms(1) e r by (cases e) (auto simp: advance_if_current_def key_def)
  then show "steady s s'" using 1 2(1) by (auto intro: steady_trans)
  assume "res = Inr True" "0 \<le> n" "co_epoch (fst s) \<noteq> None"
  then have "follows (srv s) (srv s1)" "r = Inr True" "s' = s2" using 1 out by (auto simp: steady_def)
  with 2(2) \<open>0 \<le> n\<close> show "\<exists>t. follows (srv s) t \<and> advanced_at t key epoch n (srv s')" by (blast intro: follows_trans)
qed

section \<open>The operations of the store\<close>

lemma stamp_steady:
  assumes "shared_stamp hex_digest draw key s = (s', res)"
  shows "steady s s'"
    and "res = Inr (ep, n) \<Longrightarrow> server_ok (srv s) \<Longrightarrow> \<exists>e. ep = Some e \<and> co_epoch (fst s') = Some e \<and>
      e \<in> set (sv_epochs (srv s')) \<and> number (srv s') (revision_key hex_digest key) = Some n"
proof -
  obtain s1 e where e: "current_epoch (shared_redis hex_digest) (draw s) s = (s1, e)" by (metis surj_pair)
  obtain s2 r where r: "current_revision (shared_redis hex_digest) hex_digest (draw s) key s1 = (s2, r)" by (metis surj_pair)
  note 1 = epoch_steady [OF e] and 2 = revision_steady [OF r]
  have out: "(s' = s1 \<and> res \<noteq> Inr (ep, n)) \<or> (s' = s2 \<and> (res = Inr (ep, n) \<longrightarrow> r = Inr n \<and> (\<exists>x. e = Inr x \<and> ep = Some x)))" for ep n
    using assms e r by (cases e; cases r) (auto simp: shared_stamp_def redis_stamp_def)
  then show "steady s s'" using 1(1) 2(1) by (metis steady_trans)
  assume "res = Inr (ep, n)" "server_ok (srv s)"
  with out [of ep n] obtain x where x: "s' = s2" "r = Inr n" "e = Inr x" "ep = Some x" by blast
  with 1(2) \<open>server_ok (srv s)\<close> have "co_epoch (fst s1) = Some x" "x \<in> set (sv_epochs (srv s1))" by blast+
  with 2(1) have "co_epoch (fst s2) = Some x" "x \<in> set (sv_epochs (srv s2))" by (auto simp: steady_def later_def)
  with x 2(2) show "\<exists>e. ep = Some e \<and> co_epoch (fst s') = Some e \<and>
      e \<in> set (sv_epochs (srv s')) \<and> number (srv s') (revision_key hex_digest key) = Some n" by blast
qed

lemma claim_steady:
  assumes "shared_claim hex_digest draw key rc s = (s', res)"
  shows "steady s s'"
    and "res = Inr True \<Longrightarrow> co_epoch (fst s) \<noteq> None \<Longrightarrow> \<exists>t e n. follows (srv s) t \<and> rc_epoch rc = Some e \<and> rc_revision rc = Some n \<and>
      advanced_at t (revision_key hex_digest key) e n (srv s')"
proof -
  obtain s1 e where e: "current_epoch (shared_redis hex_digest) (draw s) s = (s1, e)" by (metis surj_pair)
  obtain s2 r where r: "current_revision (shared_redis hex_digest) hex_digest (draw s) key s1 = (s2, r)" by (metis surj_pair)
  note 1 = epoch_steady(1) [OF e] and 2 = revision_steady [OF r]
  have out: "((s' = s1 \<or> s' = s2) \<and> res \<noteq> Inr True) \<or> (\<exists>ep n. e = Inr ep \<and> rc_epoch rc = Some ep \<and> r = Inr n \<and> rc_revision rc = Some n \<and>
      advance_if_current (shared_redis hex_digest) hex_digest (draw s) key n ep s2 = (s', res))"
    using assms e r by (cases e; cases r) (auto simp: shared_claim_def redis_claim_def split: if_splits)
  have 12: "steady s s2" using 1 2(1) by (rule steady_trans)
  with out 1 show "steady s s'" using advance_steady(1) by (metis steady_trans)
  assume "res = Inr True" "co_epoch (fst s) \<noteq> None"
  with out obtain ep n where a: "rc_epoch rc = Some ep" "r = Inr n" "rc_revision rc = Some n"
      "advance_if_current (shared_redis hex_digest) hex_digest (draw s) key n ep s2 = (s', res)" by blast
  have "co_epoch (fst s2) \<noteq> None" "follows (srv s) (srv s2)" using 12 \<open>co_epoch (fst s) \<noteq> None\<close> by (auto simp: steady_def)
  with advance_steady(2) [OF a(4) \<open>res = Inr True\<close>] 2(2) [OF a(2)] a(1,3)
  show "\<exists>t e n. follows (srv s) t \<and> rc_epoch rc = Some e \<and> rc_revision rc = Some n \<and>
      advanced_at t (revision_key hex_digest key) e n (srv s')" by (blast intro: follows_trans)
qed

lemma invalidate_steady:
  assumes "shared_invalidate hex_digest draw key s = (s', res)"
  shows "steady s s'"
proof -
  obtain s1 e where e: "current_epoch (shared_redis hex_digest) (draw s) s = (s1, e)" by (metis surj_pair)
  obtain s2 r where r: "current_revision (shared_redis hex_digest) hex_digest (draw s) key s1 = (s2, r)" by (metis surj_pair)
  have "s' = s1 \<or> s' = s2 \<or> (\<exists>ep n a. advance_if_current (shared_redis hex_digest) hex_digest (draw s) key n ep s2 = (s', a))"
    using assms e r by (cases e; cases r) (auto simp: shared_invalidate_def redis_invalidate_def split: prod.splits sum.splits bool.splits)
  with epoch_steady(1) [OF e] revision_steady(1) [OF r] show ?thesis using advance_steady(1) by (metis steady_trans)
qed

text \<open>What \<open>issue\<close> and \<open>consume\<close> do to the receipts and to the revisions.\<close>

lemma purged_receipt:
  "dict_ok items \<Longrightarrow> dget (purge_receipts now items) k = Some rc \<Longrightarrow> dget items k = Some rc \<and> now < rc_expires_at rc"
  using dget_filter [of items "\<lambda>rc. \<not> rc_expires_at rc \<le> now" k] by (auto simp: purge_receipts_def split: option.splits if_splits)

lemma issue_effect:
  assumes "issue stamp session intent resource now token st = (st', answer)" and "dict_ok (rr_items st)"
  shows "dict_ok (rr_items st')"
    and "rr_state st' = rr_state st \<or> (\<exists>key r. stamp key (rr_state st) = (rr_state st', r))"
    and "dget (rr_items st') k = Some rc \<Longrightarrow> dget (rr_items st) k = Some rc \<or>
      k = token \<and> answer = Inr token \<and> rc_session rc = session \<and> rc_intent rc = intent \<and> rc_expires_at rc = now + receipt_ttl \<and>
      rc_resource rc = resource \<and> (\<forall>key. resource = Some key \<longrightarrow>
        (\<exists>e n. stamp key (rr_state st) = (rr_state st', Inr (e, n)) \<and> rc_epoch rc = e \<and> rc_revision rc = Some n))"
proof -
  define items where "items = (let items = purge_receipts now (rr_items st) in if max_receipts \<le> length items then tl items else items)"
  have d: "dict_ok items"
    using assms(2) by (simp add: items_def Let_def purge_receipts_def dict_ok_def distinct_tl map_tl distinct_map_filter)
  have purged: "dict_ok (purge_receipts now (rr_items st))" using assms(2) by (simp add: purge_receipts_def)
  have old: "dget (rr_items st) j = Some rc'" if "dget items j = Some rc'" for j rc'
  proof -
    have "dget (purge_receipts now (rr_items st)) j = Some rc'"
      using that local_revisions.dget_tl [OF purged] by (auto simp: items_def Let_def split: if_splits)
    then show ?thesis using purged_receipt [OF assms(2)] by blast
  qed
  note i = assms(1) [unfolded issue_def Let_def, folded items_def [unfolded Let_def]]
  show "dict_ok (rr_items st')" using i d by (auto split: option.splits prod.splits sum.splits)
  show "rr_state st' = rr_state st \<or> (\<exists>key r. stamp key (rr_state st) = (rr_state st', r))"
    using i by (auto split: option.splits prod.splits sum.splits)
  assume rc: "dget (rr_items st') k = Some rc"
  show "dget (rr_items st) k = Some rc \<or>
      k = token \<and> answer = Inr token \<and> rc_session rc = session \<and> rc_intent rc = intent \<and> rc_expires_at rc = now + receipt_ttl \<and>
      rc_resource rc = resource \<and> (\<forall>key. resource = Some key \<longrightarrow>
        (\<exists>e n. stamp key (rr_state st) = (rr_state st', Inr (e, n)) \<and> rc_epoch rc = e \<and> rc_revision rc = Some n))"
  proof (cases resource)
    case None
    with i rc old show ?thesis by (auto simp: dget_dset split: if_splits)
  next
    case (Some key)
    obtain s r where sr: "stamp key (rr_state st) = (s, r)" by force
    show ?thesis
    proof (cases r)
      case (Inl e)
      with i Some sr rc old show ?thesis by auto
    next
      case (Inr en)
      with i Some sr have "answer = Inr token" "rr_state st' = s" "rr_items st' = dset token \<lparr>rc_session = session, rc_intent = intent,
          rc_expires_at = now + receipt_ttl, rc_resource = Some key, rc_revision = Some (snd en), rc_epoch = fst en\<rparr> items"
        by (auto simp: case_prod_unfold)
      with Some sr Inr rc old show ?thesis by (cases "k = token") (auto simp: dget_dset)
    qed
  qed
qed

lemma consume_effect:
  assumes "consume claim token session intent resource now st = (st', answer)" and "dict_ok (rr_items st)"
  shows "dict_ok (rr_items st')"
    and "rr_state st' = rr_state st \<or> (\<exists>key rc r. claim key rc (rr_state st) = (rr_state st', r))"
    and "dget (rr_items st') k = Some rc \<Longrightarrow> dget (rr_items st) k = Some rc"
    and "answer = Inr True \<Longrightarrow> resource = Some key \<Longrightarrow> \<exists>rc. dget (rr_items st) token = Some rc \<and> rc_session rc = session \<and>
      rc_intent rc = intent \<and> rc_resource rc = Some key \<and> now < rc_expires_at rc \<and> claim key rc (rr_state st) = (rr_state st', Inr True)"
proof -
  define items where "items = purge_receipts now (rr_items st)"
  have d: "dict_ok items" using assms(2) by (simp add: items_def purge_receipts_def)
  have old: "dget (rr_items st) j = Some rc' \<and> now < rc_expires_at rc'" if "dget items j = Some rc'" for j rc'
    using that purged_receipt [OF assms(2)] by (simp add: items_def)
  note c = assms(1) [unfolded consume_def Let_def, folded items_def]
  show "dict_ok (rr_items st')" using c d by (auto split: option.splits prod.splits sum.splits bool.splits if_splits)
  show "rr_state st' = rr_state st \<or> (\<exists>key rc r. claim key rc (rr_state st) = (rr_state st', r))"
    using c by (auto split: option.splits prod.splits sum.splits bool.splits if_splits)
  show "dget (rr_items st) k = Some rc" if "dget (rr_items st') k = Some rc"
    using c that old by (auto simp: dget_ddel split: option.splits prod.splits sum.splits bool.splits if_splits)
  show "\<exists>rc. dget (rr_items st) token = Some rc \<and> rc_session rc = session \<and>
      rc_intent rc = intent \<and> rc_resource rc = Some key \<and> now < rc_expires_at rc \<and> claim key rc (rr_state st) = (rr_state st', Inr True)"
    if "answer = Inr True" "resource = Some key"
    using c that old [of token] by (auto split: option.splits prod.splits sum.splits bool.splits if_splits)
qed

section \<open>The invariant\<close>

definition changed :: "pystr \<Rightarrow> shared_event list \<Rightarrow> int" where
  "changed key h = int (length (filter (changes key) h))"

lemma changed_append [simp]: "changed key (as @ bs) = changed key as + changed key bs"
  by (simp add: changed_def)

lemma changed_Nil [simp]: "changed key [] = 0"
  by (simp add: changed_def)

lemma changed_news: "changed key (news st st') = advances key (drop (length (sv_log (server_of st))) (sv_log (server_of st')))"
  by (simp add: news_def changed_def advances_def filter_map comp_def case_prod_unfold)

lemma changed_ours [simp]: "changed key (if b then [Ours e] else []) = 0"
  by (simp add: changed_def)

text \<open>A stored receipt for a resource: where it was issued, and that as long as its epoch lasts, the number is the one it carries plus
  the changes in the history since.\<close>

definition tracked :: "(pystr \<Rightarrow> pystr) \<Rightarrow> coordinator \<times> world \<Rightarrow> shared_event list \<Rightarrow> pystr \<Rightarrow> receipt \<Rightarrow> bool" where
  "tracked hex_digest s h token rc \<longleftrightarrow> (\<forall>key. rc_resource rc = Some key \<longrightarrow>
     (\<exists>e n h1 t h2. rc_epoch rc = Some e \<and> rc_revision rc = Some n \<and> co_epoch (fst s) = Some e \<and> e \<in> set (sv_epochs (srv s)) \<and>
        h = h1 @ Ours (Issued token (rc_session rc) (rc_intent rc) (Some key) t) # h2 \<and> rc_expires_at rc = t + receipt_ttl \<and>
        (dget (sv_data (srv s)) epoch_key = Some e \<longrightarrow>
           number (srv s) (revision_key hex_digest key) = Some (n + changed (revision_key hex_digest key) h2))))"

lemma tracked_step:
  assumes "tracked hex_digest (rr_state st) h token rc" and "steady (rr_state st) (rr_state st')" and "\<And>k. changed k own = 0"
  shows "tracked hex_digest (rr_state st') (h @ news st st' @ own) token rc"
  unfolding tracked_def
proof (intro allI impI)
  fix key assume "rc_resource rc = Some key"
  with assms(1) obtain e n h1 t h2 where o: "rc_epoch rc = Some e" "rc_revision rc = Some n" "co_epoch (fst (rr_state st)) = Some e"
      "e \<in> set (sv_epochs (srv (rr_state st)))" "h = h1 @ Ours (Issued token (rc_session rc) (rc_intent rc) (Some key) t) # h2"
      "rc_expires_at rc = t + receipt_ttl"
      "dget (sv_data (srv (rr_state st))) epoch_key = Some e \<longrightarrow>
        number (srv (rr_state st)) (revision_key hex_digest key) = Some (n + changed (revision_key hex_digest key) h2)"
    unfolding tracked_def by blast
  let ?h2 = "h2 @ news st st' @ own"
  have f: "follows (srv (rr_state st)) (srv (rr_state st'))" "co_epoch (fst (rr_state st')) = Some e"
    using assms(2) o(3) by (auto simp: steady_def)
  have "number (srv (rr_state st')) (revision_key hex_digest key) = Some (n + changed (revision_key hex_digest key) ?h2)"
    if "dget (sv_data (srv (rr_state st'))) epoch_key = Some e"
    using follows_number [OF f(1) o(4) that] o(7) assms(3) by (simp add: changed_news server_of_def add.assoc)
  moreover have "e \<in> set (sv_epochs (srv (rr_state st')))" using f(1) o(4) by (auto simp: follows_def later_def)
  moreover have "h @ news st st' @ own = h1 @ Ours (Issued token (rc_session rc) (rc_intent rc) (Some key) t) # ?h2" using o(5) by simp
  ultimately show "\<exists>e n h1 t h2. rc_epoch rc = Some e \<and> rc_revision rc = Some n \<and> co_epoch (fst (rr_state st')) = Some e \<and>
        e \<in> set (sv_epochs (srv (rr_state st'))) \<and>
        h @ news st st' @ own = h1 @ Ours (Issued token (rc_session rc) (rc_intent rc) (Some key) t) # h2 \<and>
        rc_expires_at rc = t + receipt_ttl \<and> (dget (sv_data (srv (rr_state st'))) epoch_key = Some e \<longrightarrow>
           number (srv (rr_state st')) (revision_key hex_digest key) = Some (n + changed (revision_key hex_digest key) h2))"
    using o(1,2,6) f(2) by blast
qed

text \<open>An accepted receipt for a resource: the one change since it was issued is its own.\<close>

definition accepted_once :: "(pystr \<Rightarrow> pystr) \<Rightarrow> shared_event list \<Rightarrow> shared_event \<Rightarrow> bool" where
  "accepted_once hex_digest before d \<longleftrightarrow> (\<forall>token session intent key now. d = Ours (Consumed token session intent (Some key) now) \<longrightarrow>
     (\<exists>h1 t h2. before = h1 @ Ours (Issued token session intent (Some key) t) # h2 \<and> now < t + receipt_ttl \<and>
        filter (changes (revision_key hex_digest key)) h2 = [Changed True (revision_key hex_digest key)]))"

definition all_accepted_once :: "(pystr \<Rightarrow> pystr) \<Rightarrow> shared_event list \<Rightarrow> bool" where
  "all_accepted_once hex_digest h \<longleftrightarrow> (\<forall>before d rest. h = before @ d # rest \<longrightarrow> accepted_once hex_digest before d)"

lemma all_accepted_snoc:
  "all_accepted_once hex_digest h \<Longrightarrow> accepted_once hex_digest h d \<Longrightarrow> all_accepted_once hex_digest (h @ [d])"
  unfolding all_accepted_once_def
proof (intro allI impI)
  fix before c rest
  assume ok: "\<forall>before d rest. h = before @ d # rest \<longrightarrow> accepted_once hex_digest before d" "accepted_once hex_digest h d"
    and eq: "h @ [d] = before @ c # rest"
  show "accepted_once hex_digest before c"
  proof (cases rest rule: rev_cases)
    case Nil
    with eq ok(2) show ?thesis by simp
  next
    case (snoc rest' x)
    with eq have "h = before @ c # rest'" by simp
    with ok(1) show ?thesis by blast
  qed
qed

lemma all_accepted_changes:
  "all_accepted_once hex_digest h \<Longrightarrow> all_accepted_once hex_digest (h @ map (\<lambda>(b, k). Changed b k) entries)"
proof (induction entries rule: rev_induct)
  case (snoc x entries)
  then have "all_accepted_once hex_digest ((h @ map (\<lambda>(b, k). Changed b k) entries) @ [Changed (fst x) (snd x)])"
    by (intro all_accepted_snoc) (simp_all add: accepted_once_def)
  then show ?case by (simp add: case_prod_unfold)
qed simp

definition shared_ok :: "(pystr \<Rightarrow> pystr) \<Rightarrow> shared_store \<Rightarrow> shared_event list \<Rightarrow> bool" where
  "shared_ok hex_digest st h \<longleftrightarrow> dict_ok (rr_items st) \<and> server_ok (server_of st) \<and>
     (\<forall>token rc. dget (rr_items st) token = Some rc \<longrightarrow> tracked hex_digest (rr_state st) h token rc) \<and> all_accepted_once hex_digest h"

lemma shared_okD:
  "shared_ok hex_digest st h \<Longrightarrow> dict_ok (rr_items st)"
  "shared_ok hex_digest st h \<Longrightarrow> server_ok (server_of st)"
  "shared_ok hex_digest st h \<Longrightarrow> dget (rr_items st) token = Some rc \<Longrightarrow> tracked hex_digest (rr_state st) h token rc"
  "shared_ok hex_digest st h \<Longrightarrow> all_accepted_once hex_digest h"
  by (simp_all add: shared_ok_def)

lemma steady_server: "steady (rr_state st) (rr_state st') \<Longrightarrow> server_ok (server_of st) \<Longrightarrow> server_ok (server_of st')"
  by (auto simp: steady_def later_def server_of_def)

lemma shared_ok_step:
  assumes "shared_ok hex_digest st h" and "steady (rr_state st) (rr_state st')" and "dict_ok (rr_items st')"
    and "\<And>k. changed k own = 0" and "own = [] \<or> (\<exists>e. own = [Ours e] \<and> accepted_once hex_digest (h @ news st st') (Ours e))"
    and "\<And>token rc. dget (rr_items st') token = Some rc \<Longrightarrow> dget (rr_items st) token = Some rc \<or>
      tracked hex_digest (rr_state st') (h @ news st st' @ own) token rc"
  shows "shared_ok hex_digest st' (h @ news st st' @ own)"
  unfolding shared_ok_def
proof (intro conjI allI impI)
  show "server_ok (server_of st')" using steady_server [OF assms(2)] shared_okD(2) [OF assms(1)] by blast
  show "tracked hex_digest (rr_state st') (h @ news st st' @ own) token rc" if "dget (rr_items st') token = Some rc" for token rc
    using assms(6) [OF that] tracked_step [OF shared_okD(3) [OF assms(1)] assms(2,4)] by blast
  have "all_accepted_once hex_digest (h @ news st st')"
    unfolding news_def by (intro all_accepted_changes shared_okD(4) [OF assms(1)])
  with assms(5) all_accepted_snoc show "all_accepted_once hex_digest (h @ news st st' @ own)" by fastforce
qed (rule assms(3))

lemma shared_issue_ok:
  assumes "shared_ok hex_digest st h" and "issue (shared_stamp hex_digest draw) session intent resource now token st = (st', answer)"
  shows "shared_ok hex_digest st' (h @ news st st' @ (if answer = Inr token then [Ours (Issued token session intent resource now)] else []))"
proof -
  let ?own = "if answer = Inr token then [Ours (Issued token session intent resource now)] else []"
  note i = issue_effect [OF assms(2) shared_okD(1) [OF assms(1)]]
  have steady: "steady (rr_state st) (rr_state st')" using i(2) stamp_steady(1) steady_refl by metis
  show ?thesis
  proof (rule shared_ok_step [OF assms(1) steady i(1)])
    show "?own = [] \<or> (\<exists>e. ?own = [Ours e] \<and> accepted_once hex_digest (h @ news st st') (Ours e))"
      by (simp add: accepted_once_def)
    fix k rc assume rc: "dget (rr_items st') k = Some rc"
    have "tracked hex_digest (rr_state st') (h @ news st st' @ ?own) k rc"
      if "k = token" "answer = Inr token" "rc_session rc = session" "rc_intent rc = intent" "rc_expires_at rc = now + receipt_ttl"
        "rc_resource rc = resource" "\<forall>key. resource = Some key \<longrightarrow>
          (\<exists>e n. shared_stamp hex_digest draw key (rr_state st) = (rr_state st', Inr (e, n)) \<and> rc_epoch rc = e \<and> rc_revision rc = Some n)"
      unfolding tracked_def
    proof (intro allI impI)
      fix key assume "rc_resource rc = Some key"
      with that obtain e n where sr: "shared_stamp hex_digest draw key (rr_state st) = (rr_state st', Inr (e, n))"
          "rc_epoch rc = e" "rc_revision rc = Some n" by auto
      from stamp_steady(2) [OF sr(1) refl] shared_okD(2) [OF assms(1)] obtain x where x: "e = Some x" "co_epoch (fst (rr_state st')) = Some x"
          "x \<in> set (sv_epochs (srv (rr_state st')))" "number (srv (rr_state st')) (revision_key hex_digest key) = Some n"
        by (auto simp: server_of_def)
      have "h @ news st st' @ ?own = (h @ news st st') @ Ours (Issued k (rc_session rc) (rc_intent rc) (Some key) now) # []"
        using that \<open>rc_resource rc = Some key\<close> by simp
      with x sr(2,3) that(5) show "\<exists>e n h1 t h2. rc_epoch rc = Some e \<and> rc_revision rc = Some n \<and> co_epoch (fst (rr_state st')) = Some e \<and>
          e \<in> set (sv_epochs (srv (rr_state st'))) \<and>
          h @ news st st' @ ?own = h1 @ Ours (Issued k (rc_session rc) (rc_intent rc) (Some key) t) # h2 \<and>
          rc_expires_at rc = t + receipt_ttl \<and> (dget (sv_data (srv (rr_state st'))) epoch_key = Some e \<longrightarrow>
             number (srv (rr_state st')) (revision_key hex_digest key) = Some (n + changed (revision_key hex_digest key) h2))"
        by (intro exI [of _ x] exI [of _ n] exI [of _ "h @ news st st'"] exI [of _ now] exI [of _ "[]"]) (simp add: changed_def)
    qed
    with i(3) [OF rc] show "dget (rr_items st) k = Some rc \<or> tracked hex_digest (rr_state st') (h @ news st st' @ ?own) k rc" by blast
  qed simp
qed

lemma single_change:
  assumes "changed key h = 1" and "Changed b key \<in> set h"
  shows "filter (changes key) h = [Changed b key]"
proof -
  have "length (filter (changes key) h) = 1" using assms(1) by (simp add: changed_def)
  then obtain d where "filter (changes key) h = [d]" by (auto simp: length_Suc_conv)
  moreover have "Changed b key \<in> set (filter (changes key) h)" using assms(2) by simp
  ultimately show ?thesis by simp
qed

text \<open>The receipt accepted by the script.\<close>

lemma claim_accepts:
  assumes "tracked hex_digest (rr_state st) h token rc" and "rc_resource rc = Some key"
    and "shared_claim hex_digest draw key rc (rr_state st) = (rr_state st', Inr True)" and "now < rc_expires_at rc"
  shows "accepted_once hex_digest (h @ news st st') (Ours (Consumed token (rc_session rc) (rc_intent rc) (Some key) now))"
proof -
  let ?k = "revision_key hex_digest key"
  from assms(1,2) obtain e n h1 t h2 where o: "rc_epoch rc = Some e" "rc_revision rc = Some n" "co_epoch (fst (rr_state st)) = Some e"
      "e \<in> set (sv_epochs (srv (rr_state st)))" "h = h1 @ Ours (Issued token (rc_session rc) (rc_intent rc) (Some key) t) # h2"
      "rc_expires_at rc = t + receipt_ttl"
      "dget (sv_data (srv (rr_state st))) epoch_key = Some e \<longrightarrow> number (srv (rr_state st)) ?k = Some (n + changed ?k h2)"
    unfolding tracked_def by blast
  from claim_steady(2) [OF assms(3) refl] o(1-3) obtain s where s: "follows (srv (rr_state st)) s"
      "advanced_at s ?k e n (srv (rr_state st'))" by auto
  note a = s(2) [unfolded advanced_at_def]
  note f = follows_number [OF s(1) o(4) a [THEN conjunct1]]
  have "number s ?k = Some (n + changed ?k h2 + advances ?k (drop (length (sv_log (srv (rr_state st)))) (sv_log s)))"
    using f o(7) by simp
  with a have zero: "changed ?k h2 + advances ?k (drop (length (sv_log (srv (rr_state st)))) (sv_log s)) = 0" by simp
  have log: "drop (length (sv_log (srv (rr_state st)))) (sv_log (srv (rr_state st'))) =
      drop (length (sv_log (srv (rr_state st)))) (sv_log s) @ [(True, ?k)]"
    using a later_log [OF follows_later [OF s(1)]] by (metis append.assoc append_eq_conv_conj)
  have "changed ?k (h2 @ news st st') = 1" using zero by (simp add: changed_news server_of_def log)
  moreover have "Changed True ?k \<in> set (h2 @ news st st')" by (simp add: news_def server_of_def log)
  ultimately have "filter (changes ?k) (h2 @ news st st') = [Changed True ?k]" by (rule single_change)
  moreover have "h @ news st st' = h1 @ Ours (Issued token (rc_session rc) (rc_intent rc) (Some key) t) # (h2 @ news st st')" by (simp add: o(5))
  moreover have "now < t + receipt_ttl" using assms(4) o(6) by simp
  ultimately show ?thesis unfolding accepted_once_def by blast
qed

lemma shared_run_ok: "shared_run hex_digest draw st h \<Longrightarrow> shared_ok hex_digest st h"
proof (induction rule: shared_run.induct)
  case (shared_start s coming)
  then show ?case by (simp add: shared_ok_def new_receipt_store_def server_of_def all_accepted_once_def)
next
  case (shared_issued st h token session intent resource now st' answer)
  then show ?case by (intro shared_issue_ok)
next
  case (shared_consumed st h token session intent resource now st' answer)
  note c = consume_effect [OF shared_consumed.hyps(2) shared_okD(1) [OF shared_consumed.IH]]
  have steady: "steady (rr_state st) (rr_state st')" using c(2) claim_steady(1) steady_refl by metis
  show ?case
  proof (rule shared_ok_step [OF shared_consumed.IH steady c(1)])
    have "accepted_once hex_digest (h @ news st st') (Ours (Consumed token session intent resource now))" if "answer = Inr True"
    proof (cases resource)
      case (Some key)
      from c(4) [OF that this] obtain rc where rc: "dget (rr_items st) token = Some rc" "rc_session rc = session" "rc_intent rc = intent"
          "rc_resource rc = Some key" "now < rc_expires_at rc"
          "shared_claim hex_digest draw key rc (rr_state st) = (rr_state st', Inr True)" by blast
      from claim_accepts [OF shared_okD(3) [OF shared_consumed.IH rc(1)] rc(4,6,5)] rc(2,3) Some show ?thesis by simp
    qed (simp add: accepted_once_def)
    then show "(if answer = Inr True then [Ours (Consumed token session intent resource now)] else []) = [] \<or>
        (\<exists>e. (if answer = Inr True then [Ours (Consumed token session intent resource now)] else []) = [Ours e] \<and>
          accepted_once hex_digest (h @ news st st') (Ours e))" by simp
  qed (use c(3) in simp_all)
next
  case (shared_invalidated st h key s' answer st')
  then have "steady (rr_state st) (rr_state st')" using invalidate_steady by simp
  from shared_ok_step [OF shared_invalidated.IH this, of "if answer = Inr () then [Ours (Invalidated key)] else []"]
  show ?case using shared_okD(1) [OF shared_invalidated.IH] shared_invalidated.hyps(3) by (simp add: accepted_once_def)
next
  case (shared_elsewhere st h co s coming st' cs coming')
  then have "steady (rr_state st) (rr_state st')" by (simp add: steadyI theirs_follow)
  from shared_ok_step [OF shared_elsewhere.IH this, of "[]"]
  show ?case using shared_okD(1) [OF shared_elsewhere.IH] shared_elsewhere.hyps(3) by simp
qed

section \<open>Properties\<close>

lemma ours_split:
  assumes "h = before @ Ours e # rest"
  shows "concat (map ours h) = concat (map ours before) @ e # concat (map ours rest)"
  using assms by simp

lemma in_ours: "e \<in> set (concat (map ours h)) \<longleftrightarrow> Ours e \<in> set h"
proof (induction h)
  case (Cons d h)
  then show ?case by (cases d) auto
qed simp

text \<open>C10: reviews are one-time across processes. Several dashboards share a Redis, which may also lose its data, and whose calls may fail
  before or after they took effect; a history shows the events of our store and every advance of a shared revision, by whomever. In every
  history, a receipt that \<open>consume\<close> accepts was issued less than ten minutes before to the same session for the same intent and resource,
  none of ours was accepted with its token before, and the revision of its resource was advanced exactly once since it was issued: by
  the very script call that accepted it. So no process changed the resource, or accepted another review of it, in
  between.\<close>

theorem shared_reviews_are_one_time:
  assumes "shared_run hex_digest draw st h" and "h = before @ Ours (Consumed token session intent resource now) # rest"
  shows "(\<exists>h1 t h2. before = h1 @ Ours (Issued token session intent resource t) # h2 \<and> now < t + 600 \<and>
      (\<forall>key. resource = Some key \<longrightarrow>
         filter (changes (revision_key hex_digest key)) h2 = [Changed True (revision_key hex_digest key)])) \<and>
    (\<forall>e. Ours e \<in> set before \<longrightarrow> \<not> consumes token e)"
proof -
  have "uses_ok (concat (map ours h))"
    using shared_revisions.review_okD(3) [OF shared_revisions.receipt_run_ok [OF own_history [OF assms(1)]]] .
  from this [unfolded uses_ok_def, rule_format, OF ours_split [OF assms(2)]] in_ours
  obtain t where t: "Ours (Issued token session intent resource t) \<in> set before" "now < t + 600"
    and once: "\<forall>e. Ours e \<in> set before \<longrightarrow> \<not> consumes token e"
    unfolding receipt_ttl_def by metis
  have "\<exists>h1 t h2. before = h1 @ Ours (Issued token session intent resource t) # h2 \<and> now < t + 600 \<and> (\<forall>key. resource = Some key \<longrightarrow>
      filter (changes (revision_key hex_digest key)) h2 = [Changed True (revision_key hex_digest key)])"
  proof (cases resource)
    case None
    with t split_list [OF t(1)] show ?thesis by auto
  next
    case (Some key)
    have "accepted_once hex_digest before (Ours (Consumed token session intent resource now))"
      using shared_okD(4) [OF shared_run_ok [OF assms(1)]] assms(2) unfolding all_accepted_once_def by blast
    then show ?thesis unfolding accepted_once_def receipt_ttl_def Some by auto
  qed
  with once show ?thesis by blast
qed

text \<open>A review of resource 4 on an empty server: the first epoch is ours; before the change is applied, another process advances the
  revision of resource 5.\<close>

definition demo_world :: "(pystr, pystr) dict \<Rightarrow> (bool \<times> pystr) list \<Rightarrow> world" where
  "demo_world d entries = (\<lparr>sv_run = [49], sv_data = d, sv_epochs = (if d = [] then [] else [[50]]), sv_log = entries\<rparr>, [])"

abbreviation key4 :: pystr where "key4 \<equiv> revision_key id [4]"
abbreviation key5 :: pystr where "key5 \<equiv> revision_key id [5]"

definition demo_data :: "pystr \<Rightarrow> (pystr, pystr) dict" where
  "demo_data v = [(epoch_key, [50]), (key4, v)]"

definition demo_coordinator :: "int \<Rightarrow> coordinator" where
  "demo_coordinator n = \<lparr>co_epoch = Some [50], co_run_id = Some [49], co_keys = {key4}, co_high = [(key4, n)]\<rparr>"

lemma demo_numbers: "py_int [48] = Some 0" "py_int [49] = Some 1" "str_of_int 0 = [48]" "str_of_int 1 = [49]" "lit ''0'' = [48]"
  by (simp_all add: py_int_def py_strip_def py_space_def is_digit_def str_of_int_def dec_of_nat.simps lit_def of_char_def)

lemma demo_keys [simp]: "epoch_key \<noteq> revision_key f k" "key4 \<noteq> key5" "key5 \<noteq> key4"
  by (simp_all add: revision_key_def epoch_key_def lit_def)

lemmas shared_eval = shared_redis_def server_call_def demo_world_def demo_data_def demo_coordinator_def set_nx_def dget_dset demo_numbers
  get_or_set_def current_epoch_def revision_section_def current_revision_def high_water_def dget_or_def Let_def new_coordinator_def

lemma demo_stamp:
  "shared_stamp id (\<lambda>s. [50]) [4] (new_coordinator, demo_world [] []) =
     ((demo_coordinator 0, demo_world (demo_data [48]) []), Inr (Some [50], 0))"
  by (simp add: shared_stamp_def redis_stamp_def shared_eval)

lemma demo_shared_claim:
  "shared_claim id (\<lambda>s. [50]) [4] (demo_receipt (Some [50]))
     (demo_coordinator 0, demo_world (demo_data [48] @ [(key5, [49])]) [(False, key5)]) =
   ((demo_coordinator 1, demo_world (demo_data [49] @ [(key5, [49])]) [(False, key5), (True, key4)]), Inr True)"
  by (simp add: shared_claim_def redis_claim_def demo_receipt_def advance_if_current_def advance_section_def advance_script_def shared_eval)

definition demo_shared_history :: "shared_event list" where
  "demo_shared_history = [Ours (Issued [1] [2] [3] (Some [4]) 0), Changed False key5, Changed True key4,
     Ours (Consumed [1] [2] [3] (Some [4]) 9)]"

lemma demo_shared_run: "\<exists>st. shared_run id (\<lambda>s. [50]) st demo_shared_history"
proof -
  let ?run = "shared_run id (\<lambda>s. [50])"
  let ?st = "\<lambda>items co w. \<lparr>rr_items = items, rr_state = (co, w)\<rparr> :: shared_store"
  have start: "?run (new_receipt_store (new_coordinator, demo_world [] [])) []"
    unfolding demo_world_def by (rule shared_start) (simp add: server_ok_def)
  have "issue (shared_stamp id (\<lambda>s. [50])) [2] [3] (Some [4]) 0 [1] (new_receipt_store (new_coordinator, demo_world [] [])) =
      (?st [([1], demo_receipt (Some [50]))] (demo_coordinator 0) (demo_world (demo_data [48]) []), Inr [1])"
    by (simp add: issue_def new_receipt_store_def purge_receipts_def max_receipts_def demo_stamp demo_receipt_def receipt_ttl_def)
  from shared_issued [OF start _ this] have 1: "?run (?st [([1], demo_receipt (Some [50]))] (demo_coordinator 0) (demo_world (demo_data [48]) []))
      [Ours (Issued [1] [2] [3] (Some [4]) 0)]"
    by (simp add: news_def server_of_def new_receipt_store_def demo_world_def)
  have elsewhere: "fold (their id) [TheirFirst [5], TheirAdvance [5] [50] 0] (fst (demo_world (demo_data [48]) [])) =
      fst (demo_world (demo_data [48] @ [(key5, [49])]) [(False, key5)])"
    by (simp add: advance_script_def shared_eval)
  have "rr_state (?st [([1], demo_receipt (Some [50]))] (demo_coordinator 0) (demo_world (demo_data [48]) [])) =
      (demo_coordinator 0, fst (demo_world (demo_data [48]) []), [])"
    by (simp add: demo_world_def)
  from shared_elsewhere [OF 1 this refl, where cs = "[TheirFirst [5], TheirAdvance [5] [50] 0]" and coming' = "[]", unfolded elsewhere]
  have 2: "?run (?st [([1], demo_receipt (Some [50]))] (demo_coordinator 0) (demo_world (demo_data [48] @ [(key5, [49])]) [(False, key5)]))
      [Ours (Issued [1] [2] [3] (Some [4]) 0), Changed False key5]"
    by (simp add: news_def server_of_def demo_world_def demo_data_def)
  have "consume (shared_claim id (\<lambda>s. [50])) [1] [2] [3] (Some [4]) 9
      (?st [([1], demo_receipt (Some [50]))] (demo_coordinator 0) (demo_world (demo_data [48] @ [(key5, [49])]) [(False, key5)])) =
      (?st [] (demo_coordinator 1) (demo_world (demo_data [49] @ [(key5, [49])]) [(False, key5), (True, key4)]), Inr True)"
    by (simp add: consume_def purge_receipts_def demo_receipt_def demo_shared_claim [unfolded demo_receipt_def] Let_def)
  from shared_consumed [OF 2 this] show ?thesis
    by (auto simp: demo_shared_history_def news_def server_of_def demo_world_def demo_data_def)
qed

theorem shared_reviews_are_one_time_witness:
  "\<exists>h1 t h2. [Ours (Issued [1] [2] [3] (Some [4]) 0), Changed False key5, Changed True key4] =
      h1 @ Ours (Issued [1] [2] [3] (Some [4]) t) # h2 \<and> 9 < t + 600 \<and> filter (changes key4) h2 = [Changed True key4]"
proof -
  obtain st where "shared_run id (\<lambda>s. [50]) st demo_shared_history" using demo_shared_run by blast
  from shared_reviews_are_one_time [OF this, of "[Ours (Issued [1] [2] [3] (Some [4]) 0), Changed False key5, Changed True key4]" "[1]" "[2]" "[3]"
      "Some [4]" 9 "[]"] show ?thesis by (simp only: demo_shared_history_def) simp
qed

end
