(* ===== verification/Outbox.thy ===== *)
theory Outbox
  imports Event_Safety
begin

text \<open>
  The audit trail and the outbox of \<open>MetadataStore\<close> (\<open>store.py\<close>). A table is the list of its rows in the order of
  their \<open>rowid\<close>, an SQL statement is the function that it is on such lists, and a method body is one step, since it runs in one
  transaction under the store's lock. The column \<open>payload\<close> holds JSON text; the model keeps what \<open>json.loads\<close> makes of it.
\<close>

section \<open>Rows\<close>

datatype stored_payload = Stored "(pystr \<times> pyany) list" | NotObject | InvalidJson

record outbox_row =
  ob_event_id :: pystr
  ob_event_type :: pystr
  ob_payload :: stored_payload
  ob_created :: int
  ob_attempts :: nat
  ob_next_attempt :: int
  ob_last_error :: pystr
  ob_dead :: "int option"
  ob_delivered :: "int option"

record audit_row =
  au_actor :: pystr
  au_action :: pystr
  au_target :: pystr
  au_status :: pystr
  au_details :: "(pystr \<times> pyany) list"
  au_created :: int

text \<open>An argument of \<open>audit\<close>.\<close>

record audit_item =
  ai_actor :: pystr
  ai_action :: pystr
  ai_target :: pystr
  ai_status :: pystr
  ai_details :: pyany

definition open_row :: "outbox_row \<Rightarrow> bool" where
  "open_row r \<longleftrightarrow> ob_delivered r = None \<and> ob_dead r = None"

definition new_outbox_row :: "pystr \<Rightarrow> stored_payload \<Rightarrow> int \<Rightarrow> outbox_row" where
  "new_outbox_row event_id payload created = \<lparr>ob_event_id = event_id, ob_event_type = lit ''audit'', ob_payload = payload,
     ob_created = created, ob_attempts = 0, ob_next_attempt = created, ob_last_error = [], ob_dead = None, ob_delivered = None\<rparr>"

section \<open>Recording\<close>

text \<open>\<open>INSERT OR IGNORE\<close> with the event identifier as primary key.\<close>

definition insert_event :: "outbox_row \<Rightarrow> outbox_row list \<Rightarrow> outbox_row list" where
  "insert_event row t = (if ob_event_id row \<in> ob_event_id ` set t then t else t @ [row])"

definition recorded_details :: "pyany \<Rightarrow> (pystr \<times> pyany) list" where
  "recorded_details details =
     (case sanitize_audit_details (if truthy details then details else AMap []) of AMap d \<Rightarrow> d | _ \<Rightarrow> [])"

definition audit_event :: "pystr \<Rightarrow> int \<Rightarrow> audit_item \<Rightarrow> (pystr \<times> pyany) list" where
  "audit_event event_id created item =
     [(lit ''event'', AStr (lit ''audit'')), (lit ''event_id'', AStr event_id), (lit ''actor'', AStr (take 128 (ai_actor item))),
      (lit ''action'', AStr (take 128 (ai_action item))), (lit ''target'', AStr (take 256 (ai_target item))),
      (lit ''status'', AStr (take 32 (ai_status item))), (lit ''details'', AMap (recorded_details (ai_details item))),
      (lit ''created_at'', AInt created)]"

definition audit_entry :: "int \<Rightarrow> audit_item \<Rightarrow> audit_row" where
  "audit_entry created item = \<lparr>au_actor = ai_actor item, au_action = ai_action item, au_target = ai_target item,
     au_status = ai_status item, au_details = recorded_details (ai_details item), au_created = created\<rparr>"

text \<open>\<open>audit_many\<close>: each event with its fresh identifier and the time; the outbox is used when a hook is set.\<close>

definition audit_many :: "bool \<Rightarrow> (audit_item \<times> pystr \<times> int) list \<Rightarrow> audit_row list \<times> outbox_row list \<Rightarrow> audit_row list \<times> outbox_row list" where
  "audit_many hook items = fold (\<lambda>(item, event_id, created) (trail, t).
     (trail @ [audit_entry created item],
      if hook then insert_event (new_outbox_row event_id (Stored (audit_event event_id created item)) created) t else t)) items"

text \<open>\<open>recent_audit\<close>: the newest entries first, at most 100 of them.\<close>

definition recent_audit :: "int \<Rightarrow> int option \<Rightarrow> int option \<Rightarrow> audit_row list \<Rightarrow> audit_row list" where
  "recent_audit limit start_at end_at trail =
     take (nat (max 1 (min limit 100)))
       (rev (filter (\<lambda>a. (case start_at of None \<Rightarrow> True | Some s \<Rightarrow> s \<le> au_created a) \<and>
                         (case end_at of None \<Rightarrow> True | Some e \<Rightarrow> au_created a < e)) trail))"

section \<open>Delivery\<close>

text \<open>\<open>UPDATE integration_outbox SET ... WHERE event_id=? AND ...\<close>.\<close>

definition update_event :: "pystr \<Rightarrow> (outbox_row \<Rightarrow> bool) \<Rightarrow> (outbox_row \<Rightarrow> outbox_row) \<Rightarrow> outbox_row list \<Rightarrow> outbox_row list" where
  "update_event event_id P f = map (\<lambda>r. if ob_event_id r = event_id \<and> P r then f r else r)"

definition due_rows :: "nat \<Rightarrow> int \<Rightarrow> outbox_row list \<Rightarrow> outbox_row list" where
  "due_rows limit now t = take limit (sort_key ob_created (filter (\<lambda>r. open_row r \<and> ob_next_attempt r \<le> now) t))"

definition claim_event :: "int \<Rightarrow> outbox_row \<Rightarrow> outbox_row list \<Rightarrow> outbox_row list" where
  "claim_event now row = update_event (ob_event_id row) open_row
     (\<lambda>r. r\<lparr>ob_attempts := ob_attempts row + 1, ob_next_attempt := now + 60, ob_last_error := []\<rparr>)"

text \<open>The claimed rows carry the new number of attempts.\<close>

definition pending_integration_events :: "int \<Rightarrow> int \<Rightarrow> outbox_row list \<Rightarrow> outbox_row list \<times> outbox_row list" where
  "pending_integration_events limit now t =
     (let rows = due_rows (nat (max 1 (min limit 100))) now t in
      (fold (claim_event now) rows t, map (\<lambda>r. r\<lparr>ob_attempts := ob_attempts r + 1\<rparr>) rows))"

definition mark_delivered :: "pystr \<Rightarrow> int \<Rightarrow> outbox_row list \<Rightarrow> outbox_row list" where
  "mark_delivered event_id now =
     update_event event_id (\<lambda>r. ob_dead r = None) (\<lambda>r. r\<lparr>ob_delivered := Some now, ob_last_error := []\<rparr>)"

definition mark_failed :: "pystr \<Rightarrow> pystr \<Rightarrow> int \<Rightarrow> outbox_row list \<Rightarrow> outbox_row list" where
  "mark_failed event_id error retry_at =
     update_event event_id open_row (\<lambda>r. r\<lparr>ob_next_attempt := retry_at, ob_last_error := take 160 error\<rparr>)"

definition mark_dead_lettered :: "pystr \<Rightarrow> pystr \<Rightarrow> int \<Rightarrow> outbox_row list \<Rightarrow> outbox_row list" where
  "mark_dead_lettered event_id reason now =
     update_event event_id open_row (\<lambda>r. r\<lparr>ob_dead := Some now, ob_last_error := take 80 reason\<rparr>)"

text \<open>The outbox's part of \<open>prune_history\<close>.\<close>

definition outdated :: "int \<Rightarrow> outbox_row \<Rightarrow> bool" where
  "outdated before r \<longleftrightarrow> (case ob_delivered r of None \<Rightarrow> False | Some d \<Rightarrow> d < before) \<or> (case ob_dead r of None \<Rightarrow> False | Some d \<Rightarrow> d < before)"

definition prune_outbox :: "int \<Rightarrow> outbox_row list \<Rightarrow> outbox_row list" where
  "prune_outbox before t = filter (\<lambda>r. \<not> outdated before r) t"

section \<open>Reports\<close>

record outbox_metrics =
  om_pending :: nat
  om_due :: nat
  om_retried :: nat
  om_dead_lettered :: nat
  om_oldest_pending_age :: int
  om_last_delivered :: int

definition count_rows :: "(outbox_row \<Rightarrow> bool) \<Rightarrow> outbox_row list \<Rightarrow> nat" where
  "count_rows P t = length (filter P t)"

text \<open>\<open>MIN\<close> and \<open>MAX\<close> of no rows are \<open>NULL\<close>; the code then reports 0, as it does for the value 0.\<close>

definition least_or_0 :: "int list \<Rightarrow> int" where "least_or_0 xs = (case xs of [] \<Rightarrow> 0 | x # r \<Rightarrow> fold min r x)"
definition greatest_or_0 :: "int list \<Rightarrow> int" where "greatest_or_0 xs = (case xs of [] \<Rightarrow> 0 | x # r \<Rightarrow> fold max r x)"

definition integration_outbox_metrics :: "int \<Rightarrow> outbox_row list \<Rightarrow> outbox_metrics" where
  "integration_outbox_metrics now t =
     (let oldest = least_or_0 (map ob_created (filter open_row t)) in
      \<lparr>om_pending = count_rows open_row t,
       om_due = count_rows (\<lambda>r. open_row r \<and> ob_next_attempt r \<le> now) t,
       om_retried = count_rows (\<lambda>r. open_row r \<and> 0 < ob_attempts r) t,
       om_dead_lettered = count_rows (\<lambda>r. ob_delivered r = None \<and> ob_dead r \<noteq> None) t,
       om_oldest_pending_age = (if oldest \<noteq> 0 then max 0 (now - oldest) else 0),
       om_last_delivered = greatest_or_0 (List.map_filter ob_delivered t)\<rparr>)"

text \<open>Newest first; a row is shown by its type and times only.\<close>

definition recent_integration_delivery_events :: "int \<Rightarrow> outbox_row list \<Rightarrow> (pystr \<times> int \<times> int option \<times> int option \<times> nat) list" where
  "recent_integration_delivery_events limit t =
     take (nat (max 1 (min limit 100)))
       (map (\<lambda>r. (ob_event_type r, ob_created r, ob_delivered r, ob_dead r, ob_attempts r)) (rev (sort_key ob_created t)))"

section \<open>Lemmas\<close>

lemma update_event_ids [simp]:
  "(\<And>r. ob_event_id (f r) = ob_event_id r) \<Longrightarrow> map ob_event_id (update_event e P f t) = map ob_event_id t"
  by (simp add: update_event_def)

lemma update_event_rows:
  "r' \<in> set (update_event e P f t) \<longleftrightarrow> (\<exists>r\<in>set t. r' = (if ob_event_id r = e \<and> P r then f r else r))"
  by (simp add: update_event_def image_iff del: if_image_distrib)

lemma mark_ids [simp]:
  "map ob_event_id (mark_delivered e now t) = map ob_event_id t"
  "map ob_event_id (mark_failed e err retry_at t) = map ob_event_id t"
  "map ob_event_id (mark_dead_lettered e err now t) = map ob_event_id t"
  "map ob_event_id (claim_event now row t) = map ob_event_id t"
  by (simp_all add: mark_delivered_def mark_failed_def mark_dead_lettered_def claim_event_def)

lemma claims_ids [simp]: "map ob_event_id (fold (claim_event now) rows t) = map ob_event_id t"
  by (induction rows arbitrary: t) simp_all

lemma due_row: "r \<in> set (due_rows limit now t) \<Longrightarrow> r \<in> set t \<and> open_row r \<and> ob_next_attempt r \<le> now"
  by (auto simp: due_rows_def dest: in_set_takeD)

lemma due_rows_distinct:
  assumes "distinct (map ob_event_id t)"
  shows "distinct (map ob_event_id (due_rows limit now t))"
proof -
  have "set (due_rows limit now t) \<subseteq> set t" using due_row by blast
  moreover have "distinct (due_rows limit now t)" using assms by (simp add: due_rows_def distinct_map)
  ultimately show ?thesis using assms by (auto simp: distinct_map intro: inj_on_subset)
qed

lemma claims_pointwise:
  "fold (claim_event now) rows t =
     map (fold (\<lambda>row r. if ob_event_id r = ob_event_id row \<and> open_row r
            then r\<lparr>ob_attempts := ob_attempts row + 1, ob_next_attempt := now + 60, ob_last_error := []\<rparr> else r) rows) t"
  by (induction rows arbitrary: t) (simp_all add: claim_event_def update_event_def comp_def)

text \<open>What a claim does to a row of the table.\<close>

lemma claimed_row:
  assumes "distinct (map ob_event_id t)" and "r \<in> set t" and "set rows \<subseteq> set t" and "distinct (map ob_event_id rows)" and "\<forall>r\<in>set rows. open_row r"
  shows "fold (\<lambda>row r. if ob_event_id r = ob_event_id row \<and> open_row r
            then r\<lparr>ob_attempts := ob_attempts row + 1, ob_next_attempt := now + 60, ob_last_error := []\<rparr> else r) rows r =
    (if r \<in> set rows then r\<lparr>ob_attempts := ob_attempts r + 1, ob_next_attempt := now + 60, ob_last_error := []\<rparr> else r)"
    (is "fold ?f rows r = _")
proof -
  have other: "ob_event_id x \<notin> ob_event_id ` set ys \<Longrightarrow> fold ?f ys x = x" for x ys
    by (induction ys) auto
  show ?thesis
  proof (cases "r \<in> set rows")
    case True
    then obtain ys zs where rows: "rows = ys @ r # zs" by (auto simp: in_set_conv_decomp)
    with assms(4,5) have "ob_event_id r \<notin> ob_event_id ` set ys" "ob_event_id r \<notin> ob_event_id ` set zs" "open_row r" by auto
    then show ?thesis by (simp add: rows other)
  next
    case False
    then have "ob_event_id r \<notin> ob_event_id ` set rows"
      using assms(1-3) by (auto simp: distinct_map inj_on_def subset_iff)
    then show ?thesis using False by (simp add: other)
  qed
qed

lemma pending_claims:
  assumes "distinct (map ob_event_id t)" and "pending_integration_events limit now t = (t', claimed)"
  defines "rows \<equiv> due_rows (nat (max 1 (min limit 100))) now t"
  shows "t' = map (\<lambda>r. if r \<in> set rows then r\<lparr>ob_attempts := ob_attempts r + 1, ob_next_attempt := now + 60, ob_last_error := []\<rparr> else r) t"
    and "claimed = map (\<lambda>r. r\<lparr>ob_attempts := ob_attempts r + 1\<rparr>) rows"
proof -
  have "set rows \<subseteq> set t" "\<forall>r\<in>set rows. open_row r" using due_row unfolding rows_def by blast+
  note c = claimed_row [OF assms(1) _ this(1) due_rows_distinct [OF assms(1), of "nat (max 1 (min limit 100))" now, folded rows_def] this(2)]
  show "t' = map (\<lambda>r. if r \<in> set rows then r\<lparr>ob_attempts := ob_attempts r + 1, ob_next_attempt := now + 60, ob_last_error := []\<rparr> else r) t"
    using assms(2) c unfolding pending_integration_events_def rows_def [symmetric] claims_pointwise by (auto simp: Let_def rows_def [symmetric])
  show "claimed = map (\<lambda>r. r\<lparr>ob_attempts := ob_attempts r + 1\<rparr>) rows"
    using assms(2) unfolding pending_integration_events_def rows_def by (simp add: Let_def)
qed

text \<open>What happens to the outbox between two claims: other claims, reports of a delivery's outcome, new events, pruning.\<close>

datatype outbox_command =
    Insert outbox_row
  | Claim int int
  | Delivered pystr int
  | Failed pystr pystr int
  | DeadLettered pystr pystr int
  | Prune int

fun outbox_step :: "outbox_command \<Rightarrow> outbox_row list \<Rightarrow> outbox_row list" where
  "outbox_step (Insert row) t = insert_event row t"
| "outbox_step (Claim limit now) t = fst (pending_integration_events limit now t)"
| "outbox_step (Delivered e now) t = mark_delivered e now t"
| "outbox_step (Failed e err retry_at) t = mark_failed e err retry_at t"
| "outbox_step (DeadLettered e reason now) t = mark_dead_lettered e reason now t"
| "outbox_step (Prune before) t = prune_outbox before t"

text \<open>Commands that leave the lease of an event alone: only a reported failure hands it back early. A new event has an identifier of its
  own (\<open>uuid4\<close>).\<close>

fun spares :: "pystr \<Rightarrow> int \<Rightarrow> outbox_command \<Rightarrow> bool" where
  "spares e until (Insert row) \<longleftrightarrow> ob_event_id row \<noteq> e"
| "spares e until (Claim limit now) \<longleftrightarrow> now < until"
| "spares e until (Failed e' err retry_at) \<longleftrightarrow> e' \<noteq> e"
| "spares e until _ \<longleftrightarrow> True"

text \<open>An event that is leased: closed, or not due before the given time.\<close>

definition leased :: "pystr \<Rightarrow> int \<Rightarrow> outbox_row list \<Rightarrow> bool" where
  "leased e until t \<longleftrightarrow> (\<forall>r\<in>set t. ob_event_id r = e \<and> open_row r \<longrightarrow> until \<le> ob_next_attempt r)"

lemma leased_not_due:
  assumes "leased e until t" and "now < until"
  shows "e \<notin> ob_event_id ` set (due_rows n now t)"
  using assms due_row [of _ n now t] by (force simp: leased_def)

lemma leased_claim: "ob_event_id row \<noteq> e \<Longrightarrow> leased e until t \<Longrightarrow> leased e until (claim_event now row t)"
  by (auto simp: leased_def claim_event_def update_event_rows open_row_def)

lemma leased_claims: "e \<notin> ob_event_id ` set rows \<Longrightarrow> leased e until t \<Longrightarrow> leased e until (fold (claim_event now) rows t)"
  by (induction rows arbitrary: t) (auto simp: leased_claim)

lemma leased_step:
  assumes "leased e until t" and "spares e until c"
  shows "leased e until (outbox_step c t)"
proof (cases c)
  case (Claim limit now)
  with assms have "leased e until (fold (claim_event now) (due_rows (nat (max 1 (min limit 100))) now t) t)"
    by (intro leased_claims leased_not_due) simp_all
  then show ?thesis by (simp add: Claim pending_integration_events_def Let_def)
qed (use assms in \<open>auto simp: leased_def insert_event_def mark_delivered_def mark_failed_def mark_dead_lettered_def prune_outbox_def
    update_event_rows open_row_def\<close>)

lemma leased_run: "leased e until t \<Longrightarrow> \<forall>c\<in>set cs. spares e until c \<Longrightarrow> leased e until (fold outbox_step cs t)"
  by (induction cs arbitrary: t) (simp_all add: leased_step)

text \<open>C38: claims are leases. What \<open>pending_integration_events\<close> hands out is open, due, at most a hundred events, the oldest first, and
  stays in the table, open, with the new number of attempts and due again in a minute. Until then no claim hands one of these events out,
  whatever other claims, deliveries, dead letters, failures of other events, new events and prunings come in between; only
  \<open>mark_failed\<close> of the event itself gives it back early.\<close>

theorem claims_are_leases:
  assumes "distinct (map ob_event_id t)" and "pending_integration_events limit now t = (t', claimed)"
  shows "length claimed \<le> 100 \<and> sorted (map ob_created claimed) \<and>
    (\<forall>r\<in>set claimed. open_row r \<and> ob_next_attempt r \<le> now \<and>
       r\<lparr>ob_next_attempt := now + 60, ob_last_error := []\<rparr> \<in> set t') \<and>
    (\<forall>r\<in>set claimed. \<forall>cs limit' now'. (\<forall>c\<in>set cs. spares (ob_event_id r) (now + 60) c) \<and> now' < now + 60 \<longrightarrow>
       ob_event_id r \<notin> ob_event_id ` set (snd (pending_integration_events limit' now' (fold outbox_step cs t'))))"
proof -
  let ?rows = "due_rows (nat (max 1 (min limit 100))) now t"
  note p = pending_claims [OF assms]
  have "length claimed \<le> 100" by (simp add: p(2) due_rows_def)
  moreover have "sorted (map ob_created claimed)"
    by (simp add: p(2) comp_def due_rows_def take_map [symmetric] sorted_wrt_take)
  moreover have "\<forall>r\<in>set claimed. open_row r \<and> ob_next_attempt r \<le> now \<and> r\<lparr>ob_next_attempt := now + 60, ob_last_error := []\<rparr> \<in> set t'"
    using due_row [of _ _ now t] by (force simp: p open_row_def)
  moreover have "ob_event_id r \<notin> ob_event_id ` set (snd (pending_integration_events limit' now' (fold outbox_step cs t')))"
    if "r \<in> set claimed" "\<forall>c\<in>set cs. spares (ob_event_id r) (now + 60) c" "now' < now + 60" for r cs limit' now'
  proof -
    have "x \<in> set ?rows" if "x \<in> set t" "q \<in> set ?rows" "ob_event_id x = ob_event_id q" for x q
      using that due_row [OF that(2)] assms(1) by (auto simp: distinct_map dest: inj_onD)
    then have "leased (ob_event_id r) (now + 60) t'" using \<open>r \<in> set claimed\<close> by (auto simp: leased_def p split: if_splits)
    from leased_not_due [OF leased_run [OF this that(2)] that(3)] show ?thesis
      by (simp add: pending_integration_events_def Let_def image_image)
  qed
  ultimately show ?thesis by blast
qed

text \<open>Two events due at 100, claimed by one worker; at 101 the second is delivered, at 159 another worker's claim finds neither, and had the
  first delivery failed, a claim at its retry time would find that event.\<close>

definition demo_outbox :: "outbox_row list" where
  "demo_outbox = [new_outbox_row [1] (Stored []) 90, new_outbox_row [2] InvalidJson 80]"

definition demo_claimed :: "outbox_row list" where
  "demo_claimed = map (\<lambda>r. r\<lparr>ob_attempts := 1, ob_next_attempt := 160\<rparr>) demo_outbox"

lemmas outbox_eval = demo_outbox_def demo_claimed_def pending_integration_events_def due_rows_def new_outbox_row_def open_row_def Let_def
  claim_event_def update_event_def mark_delivered_def mark_failed_def

lemma demo_claim:
  "pending_integration_events 20 100 demo_outbox = (demo_claimed, map (\<lambda>r. r\<lparr>ob_attempts := 1\<rparr>) (rev demo_outbox))"
  by (simp add: outbox_eval)

theorem claims_are_leases_witness:
  "[1] \<notin> ob_event_id ` set (snd (pending_integration_events 20 159 (fold outbox_step [Delivered [2] 101, Claim 20 130] demo_claimed))) \<and>
   map ob_event_id (snd (pending_integration_events 20 102 (fold outbox_step [Failed [1] [] 102] demo_claimed))) = [[1]]"
proof -
  have "distinct (map ob_event_id demo_outbox)" by (simp add: demo_outbox_def new_outbox_row_def)
  from claims_are_leases [OF this demo_claim]
  have *: "\<forall>c\<in>set cs. spares (ob_event_id r) (100 + 60) c \<Longrightarrow> now' < 100 + 60 \<Longrightarrow>
      ob_event_id r \<notin> ob_event_id ` set (snd (pending_integration_events limit' now' (fold outbox_step cs demo_claimed)))"
    if "r \<in> set (map (\<lambda>r. r\<lparr>ob_attempts := 1\<rparr>) (rev demo_outbox))" for r cs limit' now'
    using that by blast
  have "[1] \<notin> ob_event_id ` set (snd (pending_integration_events 20 159 (fold outbox_step [Delivered [2] 101, Claim 20 130] demo_claimed)))"
    using * [of "(demo_outbox ! 0)\<lparr>ob_attempts := 1\<rparr>" "[Delivered [2] 101, Claim 20 130]" 159 20]
    by (simp add: demo_outbox_def new_outbox_row_def del: fold_simps)
  moreover have "map ob_event_id (snd (pending_integration_events 20 102 (fold outbox_step [Failed [1] [] 102] demo_claimed))) = [[1]]"
    by (simp add: outbox_eval)
  ultimately show ?thesis ..
qed

end
