(* ===== verification/Delivery.thy ===== *)
theory Delivery
  imports Outbox
begin

text \<open>
  \<open>WebhookDispatcher\<close> and \<open>RedisStreamPublisher\<close> of \<open>integrations.py\<close>: events of the outbox are sent to a
  webhook and a Redis stream, with retries, a circuit breaker and dead letters. The clocks, the network, \<open>uuid4\<close>, the threading events and the
  outbox are the operations of a record on an abstract world \<open>'w\<close>; a call that raises answers with the class name of the exception.
  The signature of a request is a function of its fields and the secret and is left to \<open>de_post\<close>.
\<close>

section \<open>Configuration and state\<close>

record 'w delivery_env =
  de_monotonic :: "'w \<Rightarrow> 'w \<times> rat"
  de_time :: "'w \<Rightarrow> 'w \<times> rat"
  de_uuid :: "'w \<Rightarrow> 'w \<times> pystr"
  de_stopping :: "'w \<Rightarrow> 'w \<times> bool"
  de_sleep :: "rat \<Rightarrow> 'w \<Rightarrow> 'w"
  de_post :: "(pystr \<times> pyany) list \<Rightarrow> int \<Rightarrow> nat \<Rightarrow> 'w \<Rightarrow> 'w \<times> (pystr + int)"
  de_xadd :: "(pystr \<times> pyany) list \<Rightarrow> 'w \<Rightarrow> 'w \<times> pystr option"
  de_pending :: "int \<Rightarrow> 'w \<Rightarrow> 'w \<times> outbox_row list option"
  de_delivered :: "pystr \<Rightarrow> 'w \<Rightarrow> 'w \<times> bool"
  de_failed :: "pystr \<Rightarrow> pystr \<Rightarrow> int \<Rightarrow> 'w \<Rightarrow> 'w \<times> bool"
  de_dead :: "pystr \<Rightarrow> pystr \<Rightarrow> 'w \<Rightarrow> 'w \<times> bool"

record delivery_config =
  dc_webhook :: bool
  dc_redis :: bool
  dc_base :: rat
  dc_max :: rat
  dc_threshold :: nat
  dc_cooldown :: rat
  dc_max_attempts :: nat

definition delivery_config :: "bool \<Rightarrow> bool \<Rightarrow> rat \<Rightarrow> rat \<Rightarrow> int \<Rightarrow> rat \<Rightarrow> int \<Rightarrow> delivery_config" where
  "delivery_config webhook redis base_backoff max_backoff threshold cooldown max_attempts =
     (let base = max (1 / 10) base_backoff in
      \<lparr>dc_webhook = webhook, dc_redis = redis, dc_base = base, dc_max = max base max_backoff,
       dc_threshold = nat (max 1 threshold), dc_cooldown = max 1 cooldown, dc_max_attempts = nat (max 1 (min max_attempts 100))\<rparr>)"

record publisher =
  rp_successes :: nat
  rp_failures :: nat
  rp_last_success :: int
  rp_last_succeeded :: "bool option"

record dispatcher =
  dp_streak :: nat
  dp_open_until :: rat
  dp_successes :: nat
  dp_failures :: nat
  dp_last_success :: int
  dp_storage_failures :: nat
  dp_storage_streak :: nat
  dp_publisher :: publisher

definition new_publisher :: publisher where
  "new_publisher = \<lparr>rp_successes = 0, rp_failures = 0, rp_last_success = 0, rp_last_succeeded = None\<rparr>"

definition new_dispatcher :: dispatcher where
  "new_dispatcher = \<lparr>dp_streak = 0, dp_open_until = 0, dp_successes = 0, dp_failures = 0, dp_last_success = 0,
     dp_storage_failures = 0, dp_storage_streak = 0, dp_publisher = new_publisher\<rparr>"

definition dispatch_enabled :: "delivery_config \<Rightarrow> bool" where
  "dispatch_enabled c \<longleftrightarrow> dc_webhook c \<or> dc_redis c"

definition backoff :: "delivery_config \<Rightarrow> nat \<Rightarrow> rat" where
  "backoff c attempt = min (dc_max c) (dc_base c * 2 ^ (attempt - 1))"

section \<open>One delivery\<close>

definition event_id_of :: "(pystr \<times> pyany) list \<Rightarrow> pystr option" where
  "event_id_of items = (case dget items (lit ''event_id'') of Some (AStr s) \<Rightarrow> if s = [] then None else Some s | _ \<Rightarrow> None)"

text \<open>Sanitize and give the event an identifier if it has none.\<close>

definition identified :: "'w delivery_env \<Rightarrow> (pystr \<times> pyany) list \<Rightarrow> 'w \<Rightarrow> 'w \<times> (pystr \<times> pyany) list" where
  "identified env event w =
     (let payload = sanitize_integration_event (AMap event) in
      case event_id_of payload of
        Some event_id \<Rightarrow> (w, dset (lit ''event_id'') (AStr event_id) payload)
      | None \<Rightarrow> (case de_uuid env w of (w, event_id) \<Rightarrow> (w, dset (lit ''event_id'') (AStr event_id) payload)))"

definition stream_publish :: "'w delivery_env \<Rightarrow> (pystr \<times> pyany) list \<Rightarrow> publisher \<Rightarrow> 'w \<Rightarrow> publisher \<times> 'w \<times> pystr option" where
  "stream_publish env event p w =
     (case identified env event w of (w, payload) \<Rightarrow>
      case de_xadd env payload w of
        (w, Some err) \<Rightarrow> (p\<lparr>rp_failures := rp_failures p + 1, rp_last_succeeded := Some False\<rparr>, w, Some err)
      | (w, None) \<Rightarrow> (case de_time env w of (w, t) \<Rightarrow>
          (p\<lparr>rp_successes := rp_successes p + 1, rp_last_success := py_trunc t, rp_last_succeeded := Some True\<rparr>, w, None)))"

text \<open>The request, when a webhook is configured; a status outside of 200 to 299 is an \<open>OSError\<close>.\<close>

definition post_if :: "'w delivery_env \<Rightarrow> bool \<Rightarrow> (pystr \<times> pyany) list \<Rightarrow> int \<Rightarrow> nat \<Rightarrow> 'w \<Rightarrow> 'w \<times> pystr option" where
  "post_if env webhook payload timestamp attempt w =
     (if \<not> webhook then (w, None)
      else case de_post env payload timestamp attempt w of
        (w, Inl err) \<Rightarrow> (w, Some err)
      | (w, Inr status) \<Rightarrow> if 200 \<le> status \<and> status < 300 then (w, None) else (w, Some (lit ''OSError'')))"

definition deliver :: "delivery_config \<Rightarrow> 'w delivery_env \<Rightarrow> (pystr \<times> pyany) list \<Rightarrow> nat \<Rightarrow> dispatcher \<Rightarrow> 'w \<Rightarrow> dispatcher \<times> 'w \<times> pystr option" where
  "deliver c env event attempt d w =
     (case identified env event w of (w, payload) \<Rightarrow>
      case de_time env w of (w, t) \<Rightarrow>
      case post_if env (dc_webhook c) payload (py_trunc t) attempt w of
        (w, Some err) \<Rightarrow> (d, w, Some err)
      | (w, None) \<Rightarrow>
          if dc_redis c then (case stream_publish env payload (dp_publisher d) w of (p, w, r) \<Rightarrow> (d\<lparr>dp_publisher := p\<rparr>, w, r))
          else (d, w, None))"

text \<open>The attempts that are left, with the error of the last one.\<close>

fun try_deliver :: "delivery_config \<Rightarrow> 'w delivery_env \<Rightarrow> (pystr \<times> pyany) list \<Rightarrow> nat list \<Rightarrow> pystr \<Rightarrow> dispatcher \<Rightarrow> 'w
    \<Rightarrow> dispatcher \<times> 'w \<times> pystr option" where
  "try_deliver c env event [] last_error d w = (d, w, Some last_error)"
| "try_deliver c env event (attempt # rest) last_error d w =
     (case deliver c env event attempt d w of
        (d, w, Some err) \<Rightarrow> try_deliver c env event rest err d (if attempt < 3 then de_sleep env (backoff c attempt) w else w)
      | (d, w, None) \<Rightarrow> (case de_time env w of (w, t) \<Rightarrow>
          (d\<lparr>dp_streak := 0, dp_open_until := 0, dp_successes := dp_successes d + 1, dp_last_success := py_trunc t\<rparr>, w, None)))"

definition deliver_with_retries :: "delivery_config \<Rightarrow> 'w delivery_env \<Rightarrow> (pystr \<times> pyany) list \<Rightarrow> dispatcher \<Rightarrow> 'w
    \<Rightarrow> dispatcher \<times> 'w \<times> pystr option" where
  "deliver_with_retries c env event d w =
     (case identified env event w of (w, event) \<Rightarrow>
      case try_deliver c env event [1, 2, 3] (lit ''RuntimeError'') d w of
        (d, w, None) \<Rightarrow> (d, w, None)
      | (d, w, Some err) \<Rightarrow>
          (let d = d\<lparr>dp_streak := dp_streak d + 1, dp_failures := dp_failures d + 1\<rparr> in
           if dc_threshold c \<le> dp_streak d
           then (case de_monotonic env w of (w, now) \<Rightarrow> (d\<lparr>dp_open_until := now + dc_cooldown c\<rparr>, w, Some err))
           else (d, w, Some err)))"

section \<open>A batch of the outbox\<close>

definition earlier :: "rat option \<Rightarrow> rat \<Rightarrow> rat option" where
  "earlier x y = Some (case x of None \<Rightarrow> y | Some x \<Rightarrow> min x y)"

definition next_retry_deadline :: "rat option \<Rightarrow> rat option \<Rightarrow> rat option" where
  "next_retry_deadline retry storage_retry =
     (case storage_retry of None \<Rightarrow> retry | Some s \<Rightarrow> earlier retry s)"

definition storage_failure :: "delivery_config \<Rightarrow> dispatcher \<Rightarrow> dispatcher \<times> rat" where
  "storage_failure c d =
     (let d = d\<lparr>dp_storage_streak := dp_storage_streak d + 1, dp_storage_failures := dp_storage_failures d + 1\<rparr> in
      (d, backoff c (dp_storage_streak d)))"

text \<open>The body of the inner \<open>try\<close>; the last component says whether SQLite raised.\<close>

definition settle_record :: "delivery_config \<Rightarrow> 'w delivery_env \<Rightarrow> outbox_row \<Rightarrow> rat option \<Rightarrow> dispatcher \<Rightarrow> 'w
    \<Rightarrow> dispatcher \<times> 'w \<times> rat option \<times> bool" where
  "settle_record c env row retry d w =
     (case ob_payload row of
        InvalidJson \<Rightarrow> (case de_dead env (ob_event_id row) (lit ''malformed_payload_invalid_json'') w of (w, ok) \<Rightarrow> (d, w, retry, \<not> ok))
      | NotObject \<Rightarrow> (case de_dead env (ob_event_id row) (lit ''malformed_payload_not_object'') w of (w, ok) \<Rightarrow> (d, w, retry, \<not> ok))
      | Stored payload \<Rightarrow>
          (case deliver_with_retries c env (dset (lit ''event_id'') (AStr (ob_event_id row)) payload) d w of
             (d, w, None) \<Rightarrow> (case de_delivered env (ob_event_id row) w of (w, ok) \<Rightarrow> (d, w, retry, \<not> ok))
           | (d, w, Some err) \<Rightarrow>
               if dc_max_attempts c \<le> ob_attempts row
               then (case de_dead env (ob_event_id row) (lit ''retry_limit_'' @ err) w of (w, ok) \<Rightarrow> (d, w, retry, \<not> ok))
               else
                 let delay = (if dc_threshold c \<le> dp_streak d then dc_cooldown c else backoff c (ob_attempts row)) in
                 (case de_monotonic env w of (w, now) \<Rightarrow>
                  case de_time env w of (w, t) \<Rightarrow>
                  case de_failed env (ob_event_id row) err (py_trunc (t + delay)) w of
                    (w, ok) \<Rightarrow> (d, w, earlier retry (now + delay), \<not> ok))))"

text \<open>The handler of \<open>sqlite3.Error\<close>: it gives the event back, if SQLite lets it.\<close>

definition release_record :: "delivery_config \<Rightarrow> 'w delivery_env \<Rightarrow> outbox_row \<Rightarrow> rat option \<Rightarrow> dispatcher \<Rightarrow> 'w
    \<Rightarrow> dispatcher \<times> 'w \<times> rat option" where
  "release_record c env row storage_retry d w =
     (case storage_failure c d of (d, delay) \<Rightarrow>
      case de_monotonic env w of (w, now) \<Rightarrow>
      let storage_retry = earlier storage_retry (now + delay) in
      case de_time env w of (w, t) \<Rightarrow>
      case de_failed env (ob_event_id row) (lit ''SQLiteStorageError'') (py_trunc (t + delay)) w of
        (w, True) \<Rightarrow> (d, w, storage_retry)
      | (w, False) \<Rightarrow>
          (case storage_failure c d of (d, delay) \<Rightarrow>
           case de_monotonic env w of (w, now) \<Rightarrow> (d, w, earlier storage_retry (now + delay))))"

fun dispatch_records :: "delivery_config \<Rightarrow> 'w delivery_env \<Rightarrow> outbox_row list \<Rightarrow> bool \<Rightarrow> rat option \<Rightarrow> rat option \<Rightarrow> dispatcher \<Rightarrow> 'w
    \<Rightarrow> dispatcher \<times> 'w \<times> bool \<times> rat option" where
  "dispatch_records c env [] failed retry storage_retry d w = (d, w, \<not> failed, next_retry_deadline retry storage_retry)"
| "dispatch_records c env (row # rows) failed retry storage_retry d w =
     (case de_stopping env w of
        (w, True) \<Rightarrow> (d, w, \<not> failed, next_retry_deadline retry storage_retry)
      | (w, False) \<Rightarrow>
          (case settle_record c env row retry d w of
             (d, w, retry, False) \<Rightarrow> dispatch_records c env rows failed retry storage_retry d w
           | (d, w, retry, True) \<Rightarrow>
               (case release_record c env row storage_retry d w of
                  (d, w, storage_retry) \<Rightarrow> dispatch_records c env rows True retry storage_retry d w)))"

text \<open>\<open>None\<close> when the claim itself raised.\<close>

definition dispatch_batch :: "delivery_config \<Rightarrow> 'w delivery_env \<Rightarrow> dispatcher \<Rightarrow> 'w \<Rightarrow> dispatcher \<times> 'w \<times> (bool \<times> rat option) option" where
  "dispatch_batch c env d w =
     (case de_pending env 20 w of
        (w, None) \<Rightarrow> (d, w, None)
      | (w, Some []) \<Rightarrow> (d, de_sleep env 1 w, Some (True, None))
      | (w, Some pending) \<Rightarrow>
          (case dispatch_records c env pending False None None d w of (d, w, succeeded, deadline) \<Rightarrow> (d, w, Some (succeeded, deadline))))"

section \<open>The worker\<close>

text \<open>One turn of the loop of \<open>_run\<close> with a store.\<close>

definition worker_turn :: "delivery_config \<Rightarrow> 'w delivery_env \<Rightarrow> dispatcher \<times> 'w \<Rightarrow> dispatcher \<times> 'w" where
  "worker_turn c env = (\<lambda>(d, w).
     case de_monotonic env w of (w, now) \<Rightarrow>
     if now < dp_open_until d then (d, de_sleep env 1 w)
     else
       (case (case dispatch_batch c env d w of
                (d, w, None) \<Rightarrow>
                  (case storage_failure c d of (d, delay) \<Rightarrow>
                   case de_monotonic env w of (w, now) \<Rightarrow> (d, w, Some (now + delay)))
              | (d, w, Some (succeeded, deadline)) \<Rightarrow> ((if succeeded then d\<lparr>dp_storage_streak := 0\<rparr> else d), w, deadline)) of
          (d, w, None) \<Rightarrow> (d, w)
        | (d, w, Some deadline) \<Rightarrow>
            (case de_monotonic env w of (w, now) \<Rightarrow> (d, de_sleep env (max 0 (deadline - now)) w))))"

partial_function (option) run_worker :: "delivery_config \<Rightarrow> 'w delivery_env \<Rightarrow> dispatcher \<times> 'w \<Rightarrow> (dispatcher \<times> 'w) option" where
  "run_worker c env s =
     (case s of (d, w) \<Rightarrow>
      case de_stopping env w of (w, stopping) \<Rightarrow> if stopping then Some (d, w) else run_worker c env (worker_turn c env (d, w)))"

text \<open>Without a store, \<open>publish\<close> keeps sanitized events in a bounded queue, and a turn delivers one of them.\<close>

definition publish_event :: "delivery_config \<Rightarrow> bool \<Rightarrow> int \<Rightarrow> pyany \<Rightarrow> (pystr \<times> pyany) list list \<Rightarrow> (pystr \<times> pyany) list list" where
  "publish_event c has_store queue_size event q =
     (if dispatch_enabled c \<and> \<not> has_store \<and> int (length q) < max 1 queue_size then q @ [sanitize_integration_event event] else q)"

definition queue_turn :: "delivery_config \<Rightarrow> 'w delivery_env \<Rightarrow> dispatcher \<times> (pystr \<times> pyany) list list \<times> 'w
    \<Rightarrow> dispatcher \<times> (pystr \<times> pyany) list list \<times> 'w" where
  "queue_turn c env = (\<lambda>(d, q, w).
     case de_monotonic env w of (w, now) \<Rightarrow>
     if now < dp_open_until d then (d, q, de_sleep env 1 w)
     else (case q of
         [] \<Rightarrow> (d, q, de_sleep env 1 w)
       | event # q \<Rightarrow> (case deliver_with_retries c env event d w of (d, w, _) \<Rightarrow> (d, q, w))))"

section \<open>Metrics\<close>

definition delivery_metrics :: "delivery_config \<Rightarrow> dispatcher \<Rightarrow> (string \<times> int) list" where
  "delivery_metrics c d =
     [(''enabled'', of_bool (dispatch_enabled c)), (''webhook_configured'', of_bool (dc_webhook c)),
      (''redis_configured'', of_bool (dc_redis c)), (''delivery_successes'', int (dp_successes d)),
      (''delivery_failures'', int (dp_failures d)), (''last_delivery_success'', dp_last_success d),
      (''outbox_storage_failures'', int (dp_storage_failures d)), (''redis_configured'', of_bool (dc_redis c)),
      (''redis_available'', if dc_redis c then (case rp_last_succeeded (dp_publisher d) of None \<Rightarrow> - 1 | Some b \<Rightarrow> of_bool b) else - 1),
      (''redis_publish_successes'', if dc_redis c then int (rp_successes (dp_publisher d)) else 0),
      (''redis_publish_failures'', if dc_redis c then int (rp_failures (dp_publisher d)) else 0),
      (''redis_last_publish_success'', if dc_redis c then rp_last_success (dp_publisher d) else 0)]"

end
