(* ===== verification/Delivery_Props.thy ===== *)
theory Delivery_Props
  imports Delivery
begin

text \<open>
  What becomes of audited events. The locale \<open>outbox_world\<close> says what the dispatcher needs of its surroundings: every
  operation of the outbox is the one of \<open>Outbox\<close> or fails without effect, other threads may record events and prune the
  history before any operation, and a receiver has what it acknowledged (it may have more: a request can fail after it was served). In every such world the
  dispatcher accounts for each event. The model world at the end interprets the locale.
\<close>

section \<open>The ledger\<close>

datatype sent = Posted "(pystr \<times> pyany) list" | Added "(pystr \<times> pyany) list"

text \<open>The outbox, what was pruned from it, the identifiers ever recorded, and what the receivers got.\<close>

record ledger =
  lg_rows :: "outbox_row list"
  lg_pruned :: "outbox_row list"
  lg_recorded :: "pystr set"
  lg_log :: "sent list"

text \<open>What other threads do: \<open>audit_many\<close> with a fresh UUID, and \<open>prune_history\<close>.\<close>

definition record_event :: "pystr \<Rightarrow> stored_payload \<Rightarrow> int \<Rightarrow> ledger \<Rightarrow> ledger" where
  "record_event event_id payload created l =
     l\<lparr>lg_rows := insert_event (new_outbox_row event_id payload created) (lg_rows l), lg_recorded := insert event_id (lg_recorded l)\<rparr>"

definition prune_events :: "int \<Rightarrow> ledger \<Rightarrow> ledger" where
  "prune_events before l =
     l\<lparr>lg_rows := prune_outbox before (lg_rows l), lg_pruned := lg_pruned l @ filter (outdated before) (lg_rows l)\<rparr>"

inductive others :: "ledger \<Rightarrow> ledger \<Rightarrow> bool" where
  others_none: "others l l"
| others_record: "others l m \<Longrightarrow> event_id \<notin> lg_recorded m \<Longrightarrow> is_uuid_text event_id \<Longrightarrow> others l (record_event event_id payload created m)"
| others_prune: "others l m \<Longrightarrow> others l (prune_events before m)"

definition all_rows :: "ledger \<Rightarrow> outbox_row list" where
  "all_rows l = lg_rows l @ lg_pruned l"

definition reached :: "delivery_config \<Rightarrow> sent list \<Rightarrow> pystr \<Rightarrow> bool" where
  "reached c sends event_id \<longleftrightarrow>
     (dc_webhook c \<longrightarrow> (\<exists>p. Posted p \<in> set sends \<and> event_id_of p = Some event_id)) \<and>
     (dc_redis c \<longrightarrow> (\<exists>p. Added p \<in> set sends \<and> event_id_of p = Some event_id))"

definition excused :: "delivery_config \<Rightarrow> outbox_row \<Rightarrow> bool" where
  "excused c r \<longleftrightarrow> ob_payload r \<in> {NotObject, InvalidJson} \<or> dc_max_attempts c \<le> ob_attempts r"

definition row_ok :: "delivery_config \<Rightarrow> sent list \<Rightarrow> outbox_row \<Rightarrow> bool" where
  "row_ok c sends r \<longleftrightarrow> is_uuid_text (ob_event_id r) \<and> (ob_delivered r \<noteq> None \<longrightarrow> reached c sends (ob_event_id r)) \<and> (ob_dead r \<noteq> None \<longrightarrow> excused c r)"

definition ledger_ok :: "delivery_config \<Rightarrow> ledger \<Rightarrow> bool" where
  "ledger_ok c l \<longleftrightarrow> distinct (map ob_event_id (all_rows l)) \<and> lg_recorded l = ob_event_id ` set (all_rows l) \<and>
     (\<forall>r\<in>set (all_rows l). row_ok c (lg_log l) r) \<and> (\<forall>r\<in>set (lg_pruned l). \<not> open_row r)"

text \<open>A claimed event still stands for its row.\<close>

definition claim_ok :: "ledger \<Rightarrow> outbox_row \<Rightarrow> bool" where
  "claim_ok l q \<longleftrightarrow> is_uuid_text (ob_event_id q) \<and> ob_event_id q \<in> lg_recorded l \<and>
     (\<forall>r\<in>set (all_rows l). ob_event_id r = ob_event_id q \<longrightarrow> ob_payload r = ob_payload q \<and> ob_attempts q \<le> ob_attempts r)"

definition moves :: "delivery_config \<Rightarrow> ledger \<Rightarrow> ledger \<Rightarrow> bool" where
  "moves c l l' \<longleftrightarrow> (ledger_ok c l \<longrightarrow> ledger_ok c l') \<and> set (lg_log l) \<subseteq> set (lg_log l') \<and>
     (\<forall>q. ledger_ok c l \<longrightarrow> claim_ok l q \<longrightarrow> claim_ok l' q)"

lemma outbox_moves_refl [simp]: "moves c l l" by (simp add: moves_def)

lemma outbox_moves_trans: "moves c l m \<Longrightarrow> moves c m n \<Longrightarrow> moves c l n"
  unfolding moves_def by blast

lemma reached_mono: "reached c sends e \<Longrightarrow> set sends \<subseteq> set sends' \<Longrightarrow> reached c sends' e"
  unfolding reached_def by blast

lemma row_ok_mono: "row_ok c sends r \<Longrightarrow> set sends \<subseteq> set sends' \<Longrightarrow> row_ok c sends' r"
  unfolding row_ok_def using reached_mono by blast

lemma moves_record:
  assumes "event_id \<notin> lg_recorded l" and "is_uuid_text event_id"
  shows "moves c l (record_event event_id payload created l)"
proof -
  have n: "row_ok c sends (new_outbox_row event_id payload created)" "ob_event_id (new_outbox_row event_id payload created) = event_id" for sends
    using assms(2) by (simp_all add: row_ok_def new_outbox_row_def)
  show ?thesis
    unfolding moves_def
    using assms n by (auto simp: ledger_ok_def claim_ok_def all_rows_def record_event_def insert_event_def)
qed

lemma moves_prune: "moves c l (prune_events before l)"
proof -
  have p: "distinct (map ob_event_id (prune_outbox before t @ u @ filter (outdated before) t)) \<longleftrightarrow> distinct (map ob_event_id (t @ u))" for t u
    by (induction t) (auto simp: prune_outbox_def)
  have q: "set (prune_outbox before t @ u @ filter (outdated before) t) = set (t @ u)" for t u
    by (auto simp: prune_outbox_def)
  have "\<not> open_row r" if "outdated before r" for r
    using that by (auto simp: outdated_def open_row_def)
  then show ?thesis
    unfolding moves_def ledger_ok_def claim_ok_def all_rows_def prune_events_def
    by (simp add: p q del: set_append map_append distinct_append) auto
qed

lemma moves_others: "others l l' \<Longrightarrow> moves c l l'"
  by (induction rule: others.induct) (auto intro: outbox_moves_trans moves_record moves_prune)

lemma moves_log: "moves c l (l\<lparr>lg_log := lg_log l @ [x]\<rparr>)"
  by (auto simp: moves_def ledger_ok_def claim_ok_def all_rows_def intro: row_ok_mono)

lemma moves_rows:
  assumes same: "\<And>r. ob_event_id (f r) = ob_event_id r" "\<And>r. ob_payload (f r) = ob_payload r"
      "\<And>r. ob_attempts r \<le> ob_attempts (f r)"
    and ok: "\<And>r. ledger_ok c l \<Longrightarrow> r \<in> set (lg_rows l) \<Longrightarrow> row_ok c (lg_log l) r \<Longrightarrow> row_ok c (lg_log l) (f r)"
  shows "moves c l (l\<lparr>lg_rows := map f (lg_rows l)\<rparr>)"
proof -
  have "ledger_ok c (l\<lparr>lg_rows := map f (lg_rows l)\<rparr>)" if "ledger_ok c l"
    using that ok [OF that] by (auto simp: ledger_ok_def all_rows_def same comp_def image_image image_Un)
  moreover have "claim_ok (l\<lparr>lg_rows := map f (lg_rows l)\<rparr>) q" if "claim_ok l q" for q
    using that by (auto simp: claim_ok_def all_rows_def same intro: order_trans [OF _ same(3)])
  ultimately show ?thesis by (simp add: moves_def)
qed

lemma moves_failed: "moves c l (l\<lparr>lg_rows := mark_failed e err t (lg_rows l)\<rparr>)"
  unfolding mark_failed_def update_event_def
  by (rule moves_rows) (auto simp: row_ok_def excused_def open_row_def)

lemma moves_delivered: "reached c (lg_log l) e \<Longrightarrow> moves c l (l\<lparr>lg_rows := mark_delivered e t (lg_rows l)\<rparr>)"
  unfolding mark_delivered_def update_event_def
  by (rule moves_rows) (auto simp: row_ok_def excused_def)

lemma moves_dead:
  assumes "claim_ok l q" and "excused c q"
  shows "moves c l (l\<lparr>lg_rows := mark_dead_lettered (ob_event_id q) err t (lg_rows l)\<rparr>)"
proof -
  have "excused c r" if "r \<in> set (lg_rows l)" "ob_event_id r = ob_event_id q" for r
    using assms that by (auto simp: claim_ok_def excused_def all_rows_def)
  then show ?thesis
    unfolding mark_dead_lettered_def update_event_def
    by (intro moves_rows) (auto simp: row_ok_def excused_def)
qed

lemma moves_pending:
  assumes "pending_integration_events limit now (lg_rows l) = (t', claimed)"
  shows "moves c l (l\<lparr>lg_rows := t'\<rparr>)" and "ledger_ok c l \<Longrightarrow> q \<in> set claimed \<Longrightarrow> claim_ok (l\<lparr>lg_rows := t'\<rparr>) q"
proof -
  let ?rows = "due_rows (nat (max 1 (min limit 100))) now (lg_rows l)"
  let ?f = "\<lambda>r. if r \<in> set ?rows then r\<lparr>ob_attempts := ob_attempts r + 1, ob_next_attempt := now + 60, ob_last_error := []\<rparr> else r"
  have d: "distinct (map ob_event_id (lg_rows l))" if "ledger_ok c l"
    using that by (simp add: ledger_ok_def all_rows_def)
  have t': "t' = map ?f (lg_rows l)" and cl: "claimed = map (\<lambda>r. r\<lparr>ob_attempts := ob_attempts r + 1\<rparr>) ?rows" if "ledger_ok c l"
    using pending_claims [OF d [OF that] assms] by simp_all
  have m: "moves c l (l\<lparr>lg_rows := map ?f (lg_rows l)\<rparr>)"
  proof (rule moves_rows)
    fix r assume "r \<in> set (lg_rows l)" "row_ok c (lg_log l) r"
    then show "row_ok c (lg_log l) (?f r)" using due_row [of r "nat (max 1 (min limit 100))" now "lg_rows l"]
      by (auto simp: row_ok_def open_row_def)
  qed auto
  show "moves c l (l\<lparr>lg_rows := t'\<rparr>)"
  proof (cases "ledger_ok c l")
    case True
    then show ?thesis using m t' by simp
  qed (simp add: moves_def)
  show "claim_ok (l\<lparr>lg_rows := t'\<rparr>) q" if ok: "ledger_ok c l" and q: "q \<in> set claimed"
  proof -
    obtain r where r: "r \<in> set ?rows" and q': "q = r\<lparr>ob_attempts := ob_attempts r + 1\<rparr>" using cl [OF ok] q by auto
    have rt: "r \<in> set (lg_rows l)" using due_row [OF r] by simp
    have "is_uuid_text (ob_event_id r) \<and> ob_event_id r \<in> lg_recorded l"
      using ok rt by (auto simp: ledger_ok_def all_rows_def row_ok_def)
    moreover have "ob_payload x = ob_payload q \<and> ob_attempts q \<le> ob_attempts x"
      if x: "x \<in> set (all_rows (l\<lparr>lg_rows := t'\<rparr>))" "ob_event_id x = ob_event_id q" for x
    proof -
      have uniq: "y = r" if "y \<in> set (all_rows l)" "ob_event_id y = ob_event_id r" for y
        using that ok rt by (auto simp: ledger_ok_def all_rows_def distinct_map dest: inj_onD)
      have closed: "r \<notin> set (lg_pruned l)" using ok due_row [OF r] by (auto simp: ledger_ok_def)
      from x(1) consider y where "y \<in> set (lg_rows l)" "x = ?f y" | "x \<in> set (lg_pruned l)"
        by (auto simp: t' [OF ok] all_rows_def)
      then show ?thesis
      proof cases
        case (1 y)
        then have "y = r" using x(2) uniq [of y] q' by (simp add: all_rows_def split: if_splits)
        then show ?thesis using 1 r q' by simp
      next
        case 2
        then show ?thesis using x(2) uniq [of x] q' closed by (auto simp: all_rows_def)
      qed
    qed
    ultimately show ?thesis by (auto simp: claim_ok_def q')
  qed
qed

section \<open>Sending\<close>

lemma sanitize_event_again: "sanitize_integration_event (AMap (sanitize_integration_event v)) = sanitize_integration_event v"
proof -
  obtain e a t c where shape: "sanitize_integration_event v = event_header @ e @ a @ t @ c"
    "e = [] \<or> (\<exists>i. uuid_is_v4 i \<and> parse_uuid (uuid_text i) = Some i \<and> e = [(lit ''event_id'', AStr (uuid_text i))])"
    "a = [] \<or> (\<exists>s. s \<in> set safe_action_categories \<and> a = [(lit ''action'', AStr s)])"
    "t = [] \<or> (\<exists>s. s \<in> set safe_statuses \<and> t = [(lit ''status'', AStr s)])"
    "c = [] \<or> (\<exists>i. 0 \<le> i \<and> c = [(lit ''created_at'', AInt i)])"
    using sanitize_event_shape [of v] by blast
  show ?thesis using rebuilt_event(1) [OF shape(2-5)] unfolding shape(1) .
qed

text \<open>An event under a UUID keeps it when it is sanitized.\<close>

definition carries :: "pystr \<Rightarrow> (pystr \<times> pyany) list \<Rightarrow> bool" where
  "carries event_id event \<longleftrightarrow> event_id_of (sanitize_integration_event (AMap event)) = Some event_id"

lemma uuid_text_carried:
  assumes "is_uuid_text e"
  shows "carries e (dset (lit ''event_id'') (AStr e) payload)"
proof -
  obtain i where i: "parse_uuid e = Some i" "uuid_is_v4 i" "e = uuid_text i"
    using assms by (auto simp: is_uuid_text_def split: option.splits)
  then have "event_id_items (Some (AStr e)) = [(lit ''event_id'', AStr e)]"
    using items_again(1) [of i] by simp
  moreover have "e \<noteq> []" using i(3) by (simp add: uuid_text_def Let_def)
  ultimately show ?thesis
    by (simp add: carries_def sanitize_integration_event_def event_id_of_def update_conv' event_header_def)
qed

lemma dset_same: "dget d k = Some v \<Longrightarrow> dset k v d = d"
  by (induction d) auto

lemma identified_carries:
  assumes "carries e event"
  shows "identified env event w = (w, sanitize_integration_event (AMap event))" and "carries e (sanitize_integration_event (AMap event))"
proof -
  have "dget (sanitize_integration_event (AMap event)) (lit ''event_id'') = Some (AStr e)"
    using assms by (auto simp: carries_def event_id_of_def split: option.splits pyany.splits if_splits)
  then show "identified env event w = (w, sanitize_integration_event (AMap event))"
    using assms by (simp add: identified_def Let_def carries_def dset_same)
  show "carries e (sanitize_integration_event (AMap event))"
    using assms by (simp add: carries_def sanitize_event_again)
qed

section \<open>The contract\<close>

locale outbox_world =
  fixes env :: "'w delivery_env" and view :: "'w \<Rightarrow> ledger"
  assumes monotonic_law: "de_monotonic env w = (w', x) \<Longrightarrow> others (view w) (view w')"
    and time_law: "de_time env w = (w', x) \<Longrightarrow> others (view w) (view w')"
    and uuid_law: "de_uuid env w = (w', u) \<Longrightarrow> others (view w) (view w')"
    and stopping_law: "de_stopping env w = (w', b) \<Longrightarrow> others (view w) (view w')"
    and sleep_law: "others (view w) (view (de_sleep env x w))"
    and post_law: "de_post env p ts a w = (w', r) \<Longrightarrow> \<exists>m. others (view w) m \<and>
          (view w' = m\<lparr>lg_log := lg_log m @ [Posted p]\<rparr> \<or> view w' = m \<and> (\<forall>status. r = Inr status \<longrightarrow> \<not> (200 \<le> status \<and> status < 300)))"
    and xadd_law: "de_xadd env p w = (w', e) \<Longrightarrow> \<exists>m. others (view w) m \<and>
          (view w' = m\<lparr>lg_log := lg_log m @ [Added p]\<rparr> \<or> view w' = m \<and> e \<noteq> None)"
    and pending_law: "de_pending env n w = (w', c) \<Longrightarrow> \<exists>m. others (view w) m \<and>
          (c = None \<and> view w' = m \<or>
           (\<exists>now t' claimed. pending_integration_events n now (lg_rows m) = (t', claimed) \<and> c = Some claimed \<and> view w' = m\<lparr>lg_rows := t'\<rparr>))"
    and delivered_law: "de_delivered env i w = (w', ok) \<Longrightarrow> \<exists>m t. others (view w) m \<and>
          view w' = (if ok then m\<lparr>lg_rows := mark_delivered i t (lg_rows m)\<rparr> else m)"
    and failed_law: "de_failed env i err retry_at w = (w', ok) \<Longrightarrow> \<exists>m. others (view w) m \<and>
          view w' = (if ok then m\<lparr>lg_rows := mark_failed i err retry_at (lg_rows m)\<rparr> else m)"
    and dead_law: "de_dead env i err w = (w', ok) \<Longrightarrow> \<exists>m t. others (view w) m \<and>
          view w' = (if ok then m\<lparr>lg_rows := mark_dead_lettered i err t (lg_rows m)\<rparr> else m)"
begin

lemmas quiet_laws = monotonic_law [THEN moves_others] time_law [THEN moves_others] uuid_law [THEN moves_others]
  stopping_law [THEN moves_others] sleep_law [THEN moves_others]

lemma post_moves:
  assumes "post_if env webhook p ts a w = (w', r)" and "event_id_of p = Some e"
  shows "moves c (view w) (view w')" and "r = None \<Longrightarrow> webhook \<Longrightarrow> \<exists>q. Posted q \<in> set (lg_log (view w')) \<and> event_id_of q = Some e"
proof -
  show "moves c (view w) (view w')"
    using assms(1) post_law [of p ts a w] by (auto simp: post_if_def split: if_splits prod.splits sum.splits
      intro: moves_others outbox_moves_trans [OF moves_others moves_log])
  show "\<exists>q. Posted q \<in> set (lg_log (view w')) \<and> event_id_of q = Some e" if "r = None" "webhook"
  proof -
    from that assms(1) obtain status where "de_post env p ts a w = (w', Inr status)" "200 \<le> status \<and> status < 300"
      by (auto simp: post_if_def split: prod.splits sum.splits if_splits)
    from post_law [OF this(1)] this(2) obtain m where "view w' = m\<lparr>lg_log := lg_log m @ [Posted p]\<rparr>" by blast
    then show ?thesis using assms(2) by auto
  qed
qed

lemma publish_moves:
  assumes "stream_publish env event p w = (p', w', r)" and "carries e event"
  shows "moves c (view w) (view w')" and "r = None \<Longrightarrow> \<exists>q. Added q \<in> set (lg_log (view w')) \<and> event_id_of q = Some e"
proof -
  let ?p = "sanitize_integration_event (AMap event)"
  have id: "event_id_of ?p = Some e" using assms(2) by (simp add: carries_def)
  obtain w1 x where x: "de_xadd env ?p w = (w1, x)" by (metis surj_pair)
  obtain w2 t where t: "de_time env w1 = (w2, t)" by (metis surj_pair)
  have m1: "moves c (view w) (view w1)" for c
    using xadd_law [OF x] by (metis moves_log moves_others outbox_moves_trans)
  have m2: "moves c (view w1) (view w2)" for c using quiet_laws(2) [OF t] .
  have w': "w' = (if x = None then w2 else w1)" "r = x"
    using assms(1) x t identified_carries(1) [OF assms(2), of env w] by (auto simp: stream_publish_def split: option.splits)
  then show "moves c (view w) (view w')" using outbox_moves_trans [OF m1 m2] m1 by auto
  show "\<exists>q. Added q \<in> set (lg_log (view w')) \<and> event_id_of q = Some e" if "r = None"
  proof -
    have "Added ?p \<in> set (lg_log (view w1))" using xadd_law [OF x] that w'(2) by auto
    then show ?thesis using m2 [unfolded moves_def] id w' that by auto
  qed
qed

lemma deliver_moves:
  assumes "deliver c env event a d w = (d', w', r)" and "carries e event"
  shows "moves c (view w) (view w') \<and> (r = None \<longrightarrow> reached c (lg_log (view w')) e)"
proof -
  let ?p = "sanitize_integration_event (AMap event)"
  have id: "event_id_of ?p = Some e" using assms(2) by (simp add: carries_def)
  obtain w1 t where t: "de_time env w = (w1, t)" by (metis surj_pair)
  obtain w2 x where x: "post_if env (dc_webhook c) ?p (py_trunc t) a w1 = (w2, x)" by (metis surj_pair)
  obtain p' w3 y where y: "stream_publish env ?p (dp_publisher d) w2 = (p', w3, y)" by (metis surj_pair)
  note m1 = quiet_laws(2) [OF t, of c]
  note m2 = post_moves(1) [OF x id, of c] post_moves(2) [OF x id]
  note m3 = publish_moves(1) [OF y identified_carries(2) [OF assms(2)], of c] publish_moves(2) [OF y identified_carries(2) [OF assms(2)]]
  have r: "w' = (if x = None \<and> dc_redis c then w3 else w2)" "r = (if x = None \<and> dc_redis c then y else x)"
    using assms(1) t x y identified_carries(1) [OF assms(2), of env w] by (auto simp: deliver_def split: option.splits if_splits)
  have m: "moves c (view w) (view w2)" using outbox_moves_trans [OF m1 m2(1)] .
  then have "moves c (view w) (view w')" using r m3(1) outbox_moves_trans by auto
  moreover have "reached c (lg_log (view w')) e" if "r = None"
  proof -
    have "x = None" using that r by (auto split: if_splits)
    then show ?thesis using that r m2(2) m3(2) m3(1) [unfolded moves_def] unfolding reached_def by auto
  qed
  ultimately show ?thesis by blast
qed

lemma try_deliver_moves:
  "try_deliver c env event attempts err d w = (d', w', r) \<Longrightarrow> carries e event \<Longrightarrow>
     moves c (view w) (view w') \<and> (r = None \<longrightarrow> reached c (lg_log (view w')) e)"
proof (induction attempts arbitrary: err d w)
  case (Cons a attempts)
  obtain d1 w1 x where x: "deliver c env event a d w = (d1, w1, x)" by (metis surj_pair)
  note m = deliver_moves [OF x Cons.prems(2)]
  show ?case
  proof (cases x)
    case None
    obtain w2 t where t: "de_time env w1 = (w2, t)" by (metis surj_pair)
    have "w' = w2" using Cons.prems(1) x None t by simp
    then show ?thesis using m None quiet_laws(2) [OF t, of c] by (auto intro: outbox_moves_trans reached_mono simp: moves_def)
  next
    case (Some err')
    let ?w = "if a < 3 then de_sleep env (backoff c a) w1 else w1"
    have "try_deliver c env event attempts err' d1 ?w = (d', w', r)" using Cons.prems(1) x Some by simp
    moreover have "moves c (view w1) (view ?w)" using quiet_laws(5) by simp
    ultimately show ?thesis using Cons.IH Cons.prems(2) m outbox_moves_trans by blast
  qed
qed auto

lemma retries_moves:
  assumes "deliver_with_retries c env event d w = (d', w', r)" and "carries e event"
  shows "moves c (view w) (view w') \<and> (r = None \<longrightarrow> reached c (lg_log (view w')) e)"
proof -
  let ?p = "sanitize_integration_event (AMap event)"
  obtain d1 w1 x where x: "try_deliver c env ?p [1, 2, 3] (lit ''RuntimeError'') d w = (d1, w1, x)" by (metis surj_pair)
  note m = try_deliver_moves [OF x identified_carries(2) [OF assms(2)]]
  obtain w2 t where t: "de_monotonic env w1 = (w2, t)" by (metis surj_pair)
  have "r = x \<and> (w' = w1 \<or> x \<noteq> None \<and> w' = w2)"
    using assms(1) x t identified_carries(1) [OF assms(2), of env w]
    by (auto simp: deliver_with_retries_def Let_def simp del: try_deliver.simps split: option.splits if_splits)
  then show ?thesis using m quiet_laws(1) [OF t, of c] outbox_moves_trans by auto
qed

lemma failed_moves: "de_failed env i err retry_at w = (w', ok) \<Longrightarrow> moves c (view w) (view w')"
  using failed_law [of i err retry_at w w' ok] moves_others moves_failed outbox_moves_trans by (metis (full_types))

lemma delivered_moves: "de_delivered env i w = (w', ok) \<Longrightarrow> reached c (lg_log (view w)) i \<Longrightarrow> moves c (view w) (view w')"
proof -
  assume "de_delivered env i w = (w', ok)" and reached: "reached c (lg_log (view w)) i"
  then obtain m t where o: "others (view w) m" and w': "view w' = (if ok then m\<lparr>lg_rows := mark_delivered i t (lg_rows m)\<rparr> else m)"
    using delivered_law by blast
  have m: "moves c (view w) m" using moves_others [OF o] .
  then have "reached c (lg_log m) i" using reached reached_mono unfolding moves_def by blast
  then show ?thesis using w' m moves_delivered outbox_moves_trans by auto
qed

lemma dead_moves:
  assumes "de_dead env (ob_event_id q) err w = (w', ok)" and "claim_ok (view w) q" and "excused c q"
  shows "moves c (view w) (view w')"
proof (cases "ledger_ok c (view w)")
  case True
  obtain m t where o: "others (view w) m"
    and w': "view w' = (if ok then m\<lparr>lg_rows := mark_dead_lettered (ob_event_id q) err t (lg_rows m)\<rparr> else m)"
    using dead_law [OF assms(1)] by blast
  have m: "moves c (view w) m" using moves_others [OF o] .
  then have "claim_ok m q" using True assms(2) unfolding moves_def by blast
  then show ?thesis using w' m moves_dead [OF _ assms(3)] outbox_moves_trans by auto
next
  case False
  have "set (lg_log (view w)) \<subseteq> set (lg_log (view w'))"
    using dead_law [OF assms(1)] moves_others unfolding moves_def by (metis ledger.ext_inject ledger.surjective ledger.update_convs(1))
  then show ?thesis using False by (simp add: moves_def)
qed

text \<open>Settling a claimed event.\<close>

lemma settle_failed_moves:
  assumes "de_monotonic env w = (w1, now)" and "de_time env w1 = (w2, t)" and "de_failed env i err retry_at w2 = (w3, ok)"
  shows "moves c (view w) (view w3)"
  using quiet_laws(1) [OF assms(1), of c] quiet_laws(2) [OF assms(2), of c] failed_moves [OF assms(3), of c] outbox_moves_trans by blast

lemma malformed_moves:
  assumes "ob_payload q \<in> {NotObject, InvalidJson}" and "settle_record c env q retry d w = (d', w', retry', raised)"
    and "claim_ok (view w) q"
  shows "moves c (view w) (view w')"
proof -
  have "excused c q" using assms(1) by (simp add: excused_def)
  then show ?thesis using assms dead_moves by (auto simp: settle_record_def split: prod.splits)
qed

lemma settle_moves:
  assumes s: "settle_record c env q retry d w = (d', w', retry', raised)" and q: "claim_ok (view w) q" and ok: "ledger_ok c (view w)"
  shows "moves c (view w) (view w')"
proof (cases "ob_payload q")
  case (Stored payload)
  let ?event = "dset (lit ''event_id'') (AStr (ob_event_id q)) payload"
  obtain d1 w1 x where x: "deliver_with_retries c env ?event d w = (d1, w1, x)" by (metis surj_pair)
  have "carries (ob_event_id q) ?event" using uuid_text_carried q by (simp add: claim_ok_def)
  note m = retries_moves [OF x this]
  show ?thesis
  proof (cases x)
    case None
    obtain w2 b where b: "de_delivered env (ob_event_id q) w1 = (w2, b)" by (metis surj_pair)
    then have "w' = w2" using s Stored x None by (simp add: settle_record_def)
    then show ?thesis using m None delivered_moves [OF b, of c] outbox_moves_trans by blast
  next
    case (Some err)
    have q': "claim_ok (view w1) q" using m q ok unfolding moves_def by blast
    show ?thesis
    proof (cases "dc_max_attempts c \<le> ob_attempts q")
      case True
      obtain w2 b where b: "de_dead env (ob_event_id q) (lit ''retry_limit_'' @ err) w1 = (w2, b)" by (metis surj_pair)
      then have "w' = w2" using s Stored x Some True by (simp add: settle_record_def)
      moreover have "excused c q" using True by (simp add: excused_def)
      ultimately show ?thesis using m dead_moves [OF b q'] outbox_moves_trans by blast
    next
      case False
      let ?delay = "if dc_threshold c \<le> dp_streak d1 then dc_cooldown c else backoff c (ob_attempts q)"
      obtain w2 now where now: "de_monotonic env w1 = (w2, now)" by (metis surj_pair)
      obtain w3 t where t: "de_time env w2 = (w3, t)" by (metis surj_pair)
      obtain w4 b where b: "de_failed env (ob_event_id q) err (py_trunc (t + ?delay)) w3 = (w4, b)" by (metis surj_pair)
      have "w' = w4" using s Stored x Some False now t b by (simp add: settle_record_def Let_def)
      then show ?thesis using m settle_failed_moves [OF now t b, of c] outbox_moves_trans by blast
    qed
  qed
qed (use malformed_moves [OF _ s q] in auto)

lemma release_moves:
  assumes "release_record c env q storage_retry d w = (d', w', storage_retry')"
  shows "moves c (view w) (view w')"
proof -
  obtain d1 delay where d: "storage_failure c d = (d1, delay)" by (metis surj_pair)
  obtain w1 now where now: "de_monotonic env w = (w1, now)" by (metis surj_pair)
  obtain w2 t where t: "de_time env w1 = (w2, t)" by (metis surj_pair)
  obtain w3 b where b: "de_failed env (ob_event_id q) (lit ''SQLiteStorageError'') (py_trunc (t + delay)) w2 = (w3, b)" by (metis surj_pair)
  obtain w4 now' where n: "de_monotonic env w3 = (w4, now')" by (metis surj_pair)
  have m: "moves c (view w) (view w3)" using settle_failed_moves [OF now t b] .
  have "w' = w3 \<or> w' = w4"
    using assms d now t b n by (cases b) (auto simp: release_record_def Let_def split: prod.splits)
  then show ?thesis using m quiet_laws(1) [OF n, of c] outbox_moves_trans by blast
qed

lemma records_moves:
  "dispatch_records c env rows failed retry storage_retry d w = (d', w', succeeded, deadline) \<Longrightarrow>
     ledger_ok c (view w) \<Longrightarrow> \<forall>q\<in>set rows. claim_ok (view w) q \<Longrightarrow> moves c (view w) (view w')"
proof (induction rows arbitrary: failed retry storage_retry d w)
  case (Cons q rows)
  obtain w1 b where b: "de_stopping env w = (w1, b)" by (metis surj_pair)
  note m1 = quiet_laws(4) [OF b, of c]
  have ok1: "ledger_ok c (view w1)" "\<forall>q\<in>set (q # rows). claim_ok (view w1) q"
    using m1 Cons.prems(2,3) unfolding moves_def by blast+
  show ?case
  proof (cases b)
    case True
    then show ?thesis using Cons.prems(1) b m1 by simp
  next
    case False
    obtain d2 w2 retry' raised where st: "settle_record c env q retry d w1 = (d2, w2, retry', raised)" by (metis surj_pair)
    have m2: "moves c (view w1) (view w2)" using settle_moves [OF st _ ok1(1)] ok1(2) by simp
    obtain d3 w3 storage_retry' where rl: "release_record c env q storage_retry d2 w2 = (d3, w3, storage_retry')" by (metis surj_pair)
    have m3: "moves c (view w2) (view w3)" using release_moves [OF rl] .
    let ?d = "if raised then d3 else d2" and ?w = "if raised then w3 else w2"
    have m: "moves c (view w) (view ?w)" using m1 m2 m3 outbox_moves_trans by (metis (full_types))
    have "dispatch_records c env rows (failed \<or> raised) retry' (if raised then storage_retry' else storage_retry) ?d ?w = (d', w', succeeded, deadline)"
      using Cons.prems(1) b False st rl by (cases raised) simp_all
    from Cons.IH [OF this] m Cons.prems(2,3) have "moves c (view ?w) (view w')" unfolding moves_def by simp
    with m show ?thesis using outbox_moves_trans by blast
  qed
qed simp

lemma batch_moves:
  assumes b: "dispatch_batch c env d w = (d', w', r)" and ok: "ledger_ok c (view w)"
  shows "moves c (view w) (view w')"
proof -
  obtain w1 x where x: "de_pending env 20 w = (w1, x)" by (metis surj_pair)
  obtain m where o: "others (view w) m"
    and cases: "x = None \<and> view w1 = m \<or>
      (\<exists>now t' claimed. pending_integration_events 20 now (lg_rows m) = (t', claimed) \<and> x = Some claimed \<and> view w1 = m\<lparr>lg_rows := t'\<rparr>)"
    using pending_law [OF x] by blast
  note m = moves_others [OF o, of c]
  then have okm: "ledger_ok c m" using ok by (simp add: moves_def)
  show ?thesis
  proof (cases x)
    case None
    then show ?thesis using b x cases m by (simp add: dispatch_batch_def)
  next
    case (Some claimed)
    with cases obtain now t' where p: "pending_integration_events 20 now (lg_rows m) = (t', claimed)" "view w1 = m\<lparr>lg_rows := t'\<rparr>" by auto
    have m1: "moves c (view w) (view w1)" using m moves_pending(1) [OF p(1)] p(2) outbox_moves_trans by metis
    have q: "\<forall>q\<in>set claimed. claim_ok (view w1) q" using moves_pending(2) [OF p(1) okm] p(2) by simp
    have ok1: "ledger_ok c (view w1)" using m1 ok by (simp add: moves_def)
    show ?thesis
    proof (cases claimed)
      case Nil
      then show ?thesis using b x Some m1 quiet_laws(5) outbox_moves_trans by (auto simp: dispatch_batch_def)
    next
      case (Cons z zs)
      obtain d2 w2 s dl where rs: "dispatch_records c env claimed False None None d w1 = (d2, w2, s, dl)" by (metis surj_pair)
      then have "w' = w2" using b x Some Cons by (simp add: dispatch_batch_def del: dispatch_records.simps)
      then show ?thesis using m1 records_moves [OF rs ok1 q] outbox_moves_trans by blast
    qed
  qed
qed

lemma turn_moves:
  assumes "worker_turn c env (d, w) = (d', w')" and ok: "ledger_ok c (view w)"
  shows "moves c (view w) (view w')"
proof -
  obtain w1 now where now: "de_monotonic env w = (w1, now)" by (metis surj_pair)
  note m1 = quiet_laws(1) [OF now, of c]
  have ok1: "ledger_ok c (view w1)" using m1 ok by (simp add: moves_def)
  obtain d2 w2 r where r: "dispatch_batch c env d w1 = (d2, w2, r)" by (metis surj_pair)
  have m2: "moves c (view w) (view w2)" using m1 batch_moves [OF r ok1] outbox_moves_trans by blast
  obtain w3 now' where n3: "de_monotonic env w2 = (w3, now')" by (metis surj_pair)
  obtain w4 now'' where n4: "de_monotonic env w3 = (w4, now'')" by (metis surj_pair)
  have m3: "moves c (view w) (view w3)" using m2 quiet_laws(1) [OF n3, of c] outbox_moves_trans by blast
  have m4: "moves c (view w) (view w4)" using m3 quiet_laws(1) [OF n4, of c] outbox_moves_trans by blast
  have "(\<exists>u x. u \<in> {w1, w2, w3, w4} \<and> (w' = u \<or> w' = de_sleep env x u))"
    using assms(1) now r n3 n4
    by (auto simp: worker_turn_def storage_failure_def Let_def split: if_splits option.splits prod.splits)
  then obtain u x where u: "u \<in> {w1, w2, w3, w4}" "w' = u \<or> w' = de_sleep env x u" by blast
  have "moves c (view w) (view u)" using u(1) m1 m2 m3 m4 by auto
  then show ?thesis using u(2) quiet_laws(5) [of c u x] outbox_moves_trans by blast
qed

lemma turns_keep_the_ledger:
  "ledger_ok c (view w) \<Longrightarrow> ledger_ok c (view (snd ((worker_turn c env ^^ n) (d, w))))"
proof (induction n)
  case (Suc n)
  obtain d1 w1 where w1: "(worker_turn c env ^^ n) (d, w) = (d1, w1)" by (metis surj_pair)
  obtain d2 w2 where w2: "worker_turn c env (d1, w1) = (d2, w2)" by (metis surj_pair)
  have "ledger_ok c (view w1)" using Suc w1 by simp
  then show ?case using turn_moves [OF w2] w1 w2 by (simp add: moves_def)
qed simp

end

section \<open>A world\<close>

text \<open>The world of the model: a ledger, and a count of the operations so far. What each operation answers, and what other threads do
  before it, is given for each count.\<close>

datatype other_action = RecordEvent pystr stored_payload int | PruneHistory int

record office =
  of_ledger :: ledger
  of_tick :: nat

record surroundings =
  su_monotonic :: "nat \<Rightarrow> rat"
  su_time :: "nat \<Rightarrow> rat"
  su_uuid :: "nat \<Rightarrow> pystr"
  su_stopping :: "nat \<Rightarrow> bool"
  su_answer :: "nat \<Rightarrow> pystr + int"
  su_stream :: "nat \<Rightarrow> pystr option"
  su_served :: "nat \<Rightarrow> bool"
  su_sqlite :: "nat \<Rightarrow> bool"
  su_meanwhile :: "nat \<Rightarrow> other_action list"

text \<open>\<open>uuid4\<close> gives no identifier twice.\<close>

fun perform :: "other_action \<Rightarrow> ledger \<Rightarrow> ledger" where
  "perform (RecordEvent e payload created) l =
     (if e \<notin> lg_recorded l \<and> is_uuid_text e then record_event e payload created l else l)"
| "perform (PruneHistory before) l = prune_events before l"

definition passed :: "surroundings \<Rightarrow> office \<Rightarrow> office" where
  "passed su w = \<lparr>of_ledger = fold perform (su_meanwhile su (of_tick w)) (of_ledger w), of_tick = of_tick w + 1\<rparr>"

definition on_ledger :: "(ledger \<Rightarrow> ledger) \<Rightarrow> office \<Rightarrow> office" where
  "on_ledger f w = w\<lparr>of_ledger := f (of_ledger w)\<rparr>"

definition sent_to :: "sent \<Rightarrow> ledger \<Rightarrow> ledger" where
  "sent_to x l = l\<lparr>lg_log := lg_log l @ [x]\<rparr>"

definition with_rows :: "(outbox_row list \<Rightarrow> outbox_row list) \<Rightarrow> ledger \<Rightarrow> ledger" where
  "with_rows f l = l\<lparr>lg_rows := f (lg_rows l)\<rparr>"

definition success_status :: "pystr + int \<Rightarrow> bool" where
  "success_status r = (case r of Inl _ \<Rightarrow> False | Inr s \<Rightarrow> 200 \<le> s \<and> s < 300)"

definition stored :: "surroundings \<Rightarrow> (outbox_row list \<Rightarrow> outbox_row list) \<Rightarrow> office \<Rightarrow> office \<times> bool" where
  "stored su f w = (if su_sqlite su (of_tick w) then (on_ledger (with_rows f) (passed su w), True) else (passed su w, False))"

definition office_env :: "surroundings \<Rightarrow> office delivery_env" where
  "office_env su = \<lparr>
     de_monotonic = (\<lambda>w. (passed su w, su_monotonic su (of_tick w))),
     de_time = (\<lambda>w. (passed su w, su_time su (of_tick w))),
     de_uuid = (\<lambda>w. (passed su w, su_uuid su (of_tick w))),
     de_stopping = (\<lambda>w. (passed su w, su_stopping su (of_tick w))),
     de_sleep = (\<lambda>_ w. passed su w),
     de_post = (\<lambda>p _ _ w. (if success_status (su_answer su (of_tick w)) \<or> su_served su (of_tick w)
        then on_ledger (sent_to (Posted p)) (passed su w) else passed su w, su_answer su (of_tick w))),
     de_xadd = (\<lambda>p w. (if su_stream su (of_tick w) = None \<or> su_served su (of_tick w)
        then on_ledger (sent_to (Added p)) (passed su w) else passed su w, su_stream su (of_tick w))),
     de_pending = (\<lambda>n w. if su_sqlite su (of_tick w)
        then let now = py_trunc (su_time su (of_tick w)); t = lg_rows (of_ledger (passed su w)) in
          (on_ledger (with_rows (\<lambda>_. fst (pending_integration_events n now t))) (passed su w), Some (snd (pending_integration_events n now t)))
        else (passed su w, None)),
     de_delivered = (\<lambda>i w. stored su (mark_delivered i (py_trunc (su_time su (of_tick w)))) w),
     de_failed = (\<lambda>i err retry_at w. stored su (mark_failed i err retry_at) w),
     de_dead = (\<lambda>i err w. stored su (mark_dead_lettered i err (py_trunc (su_time su (of_tick w)))) w)\<rparr>"

lemma others_trans: "others m n \<Longrightarrow> others l m \<Longrightarrow> others l n"
  by (induction rule: others.induct) (blast intro: others.intros)+

lemma others_perform: "others l (perform a l)"
  by (cases a) (auto intro: others.intros)

lemma others_fold: "others l (fold perform acts l)"
proof (induction acts arbitrary: l)
  case (Cons a acts)
  then show ?case using others_trans [OF _ others_perform [of l a]] by simp
qed (simp add: others_none)

lemma others_passed: "others (of_ledger w) (of_ledger (passed su w))"
  by (simp add: passed_def others_fold)

lemma stored_law:
  assumes "stored su f w = (w', ok)"
  shows "\<exists>m. others (of_ledger w) m \<and> of_ledger w' = (if ok then m\<lparr>lg_rows := f (lg_rows m)\<rparr> else m)"
  using assms others_passed [of w su] by (auto simp: stored_def on_ledger_def with_rows_def split: if_splits)

interpretation office: outbox_world "office_env su" of_ledger for su
proof unfold_locales
  fix w :: office and n w' c
  assume pending: "de_pending (office_env su) n w = (w', c)"
  show "\<exists>m. others (of_ledger w) m \<and> (c = None \<and> of_ledger w' = m \<or>
      (\<exists>now t' claimed. pending_integration_events n now (lg_rows m) = (t', claimed) \<and> c = Some claimed \<and> of_ledger w' = m\<lparr>lg_rows := t'\<rparr>))"
  proof -
    let ?m = "of_ledger (passed su w)"
    obtain t' claimed where p: "pending_integration_events n (py_trunc (su_time su (of_tick w))) (lg_rows ?m) = (t', claimed)"
      by (metis surj_pair)
    have "c = None \<and> of_ledger w' = ?m \<or> c = Some claimed \<and> of_ledger w' = ?m\<lparr>lg_rows := t'\<rparr>"
      using pending p
      by (auto simp: office_env_def on_ledger_def with_rows_def Let_def split: if_splits)
    then show ?thesis using others_passed [of w su] p by blast
  qed
next
  fix w :: office and p ts a w' r
  assume "de_post (office_env su) p ts a w = (w', r)"
  then show "\<exists>m. others (of_ledger w) m \<and> (of_ledger w' = m\<lparr>lg_log := lg_log m @ [Posted p]\<rparr> \<or>
      of_ledger w' = m \<and> (\<forall>status. r = Inr status \<longrightarrow> \<not> (200 \<le> status \<and> status < 300)))"
    using others_passed [of w su]
    by (auto simp: office_env_def on_ledger_def sent_to_def success_status_def split: if_splits sum.splits intro!: exI [of _ "of_ledger (passed su w)"])
next
  fix w :: office and p w' e
  assume "de_xadd (office_env su) p w = (w', e)"
  then show "\<exists>m. others (of_ledger w) m \<and> (of_ledger w' = m\<lparr>lg_log := lg_log m @ [Added p]\<rparr> \<or> of_ledger w' = m \<and> e \<noteq> None)"
    using others_passed [of w su]
    by (auto simp: office_env_def on_ledger_def sent_to_def split: if_splits intro!: exI [of _ "of_ledger (passed su w)"])
qed (use others_passed stored_law in \<open>fastforce simp: office_env_def\<close>)+

section \<open>Properties\<close>

definition new_office :: office where
  "new_office = \<lparr>of_ledger = \<lparr>lg_rows = [], lg_pruned = [], lg_recorded = {}, lg_log = []\<rparr>, of_tick = 0\<rparr>"

lemma new_office_ok: "ledger_ok c (of_ledger new_office)"
  by (simp add: new_office_def ledger_ok_def all_rows_def)

text \<open>C12: the dispatcher accounts for every audited event. Whatever the receivers answer, whenever SQLite fails, and
  whatever other threads record and prune in the meantime: after any number of turns each recorded event is in the outbox, or was pruned from it
  after it was delivered or dead-lettered; it is marked as delivered only if every configured receiver got an event under its identifier; and it is
  dead-lettered only if its payload is malformed or its attempts are used up.\<close>

theorem outbox_accounts_for_every_event:
  assumes "((worker_turn c (office_env su)) ^^ n) (d, new_office) = (d', w)" and "event_id \<in> lg_recorded (of_ledger w)"
  shows "\<exists>r \<in> set (lg_rows (of_ledger w)) \<union> set (lg_pruned (of_ledger w)). ob_event_id r = event_id \<and>
    (r \<in> set (lg_pruned (of_ledger w)) \<longrightarrow> \<not> open_row r) \<and>
    (ob_delivered r \<noteq> None \<longrightarrow>
      (dc_webhook c \<longrightarrow> (\<exists>p. Posted p \<in> set (lg_log (of_ledger w)) \<and> event_id_of p = Some event_id)) \<and>
      (dc_redis c \<longrightarrow> (\<exists>p. Added p \<in> set (lg_log (of_ledger w)) \<and> event_id_of p = Some event_id))) \<and>
    (ob_dead r \<noteq> None \<longrightarrow> ob_payload r \<in> {NotObject, InvalidJson} \<or> dc_max_attempts c \<le> ob_attempts r)"
proof -
  have ok: "ledger_ok c (of_ledger w)"
    using office.turns_keep_the_ledger [OF new_office_ok] assms(1) by (metis snd_conv)
  then obtain r where "r \<in> set (all_rows (of_ledger w))" "ob_event_id r = event_id"
    using assms(2) by (auto simp: ledger_ok_def)
  then show ?thesis using ok by (auto simp: ledger_ok_def all_rows_def row_ok_def reached_def excused_def)
qed

text \<open>Every delay is positive and at most the configured maximum, whatever is configured.\<close>

lemma backoff_bounded:
  "c = delivery_config webhook redis base_backoff max_backoff threshold cooldown max_attempts \<Longrightarrow>
     0 < backoff c k \<and> backoff c k \<le> max (max (1 / 10) base_backoff) max_backoff \<and> 1 \<le> dc_cooldown c \<and>
     1 \<le> dc_max_attempts c \<and> dc_max_attempts c \<le> 100 \<and> 1 \<le> dc_threshold c"
  by (auto simp: delivery_config_def backoff_def Let_def less_max_iff_disj min_def)

text \<open>After a failed delivery that reaches the threshold the circuit is open for the cooldown, and while it is open a turn only waits.\<close>

lemma failed_delivery_opens_the_circuit:
  assumes "deliver_with_retries c env event d w = (d', w', Some err)" and "dc_threshold c \<le> dp_streak d'"
  shows "\<exists>w'' now. de_monotonic env w'' = (w', now) \<and> dp_open_until d' = now + dc_cooldown c"
  using assms
  by (auto simp: deliver_with_retries_def Let_def simp del: try_deliver.simps split: prod.splits option.splits if_splits)

lemma open_circuit_waits:
  "de_monotonic env w = (w', now) \<Longrightarrow> now < dp_open_until d \<Longrightarrow> worker_turn c env (d, w) = (d, de_sleep env 1 w')"
  by (simp add: worker_turn_def)

section \<open>A run\<close>

definition demo_uuid :: pystr where "demo_uuid = lit ''00000000-0000-4000-8000-000000000000''"

definition demo_surroundings :: surroundings where
  "demo_surroundings = \<lparr>su_monotonic = (\<lambda>_. 1), su_time = (\<lambda>_. 100), su_uuid = (\<lambda>_. []), su_stopping = (\<lambda>_. False),
     su_answer = (\<lambda>_. Inr 204), su_stream = (\<lambda>_. None), su_served = (\<lambda>_. False), su_sqlite = (\<lambda>_. True),
     su_meanwhile = (\<lambda>n. if n = 0 then [RecordEvent demo_uuid (Stored []) 50] else [])\<rparr>"

definition demo_config :: delivery_config where "demo_config = delivery_config True False 1 60 3 60 10"

definition demo_office :: office where
  "demo_office = snd (worker_turn demo_config (office_env demo_surroundings) (new_dispatcher, new_office))"

lemma demo_uuid_text: "is_uuid_text demo_uuid"
  by code_simp

lemma demo_carries: "carries demo_uuid [(lit ''event_id'', AStr demo_uuid)]"
  using uuid_text_carried [OF demo_uuid_text, of "[]"] by simp

lemma demo_turn:
  "demo_office = \<lparr>of_ledger = \<lparr>
     lg_rows = [\<lparr>ob_event_id = demo_uuid, ob_event_type = lit ''audit'', ob_payload = Stored [], ob_created = 50, ob_attempts = 1,
       ob_next_attempt = 160, ob_last_error = [], ob_dead = None, ob_delivered = Some 100\<rparr>],
     lg_pruned = [], lg_recorded = {demo_uuid},
     lg_log = [Posted (sanitize_integration_event (AMap (sanitize_integration_event (AMap [(lit ''event_id'', AStr demo_uuid)]))))]\<rparr>,
     of_tick = 7\<rparr>"
  unfolding demo_office_def
  by (simp add: worker_turn_def dispatch_batch_def settle_record_def deliver_with_retries_def deliver_def post_if_def
      identified_carries(1) [OF demo_carries] identified_carries(1) [OF identified_carries(2) [OF demo_carries]] demo_uuid_text
      office_env_def passed_def demo_surroundings_def new_office_def new_dispatcher_def demo_config_def delivery_config_def
      on_ledger_def with_rows_def sent_to_def stored_def success_status_def pending_integration_events_def due_rows_def
      claim_event_def update_event_def record_event_def insert_event_def new_outbox_row_def open_row_def mark_delivered_def
      next_retry_deadline_def Let_def)

theorem outbox_accounts_for_every_event_witness:
  "\<exists>p. Posted p \<in> set (lg_log (of_ledger demo_office)) \<and> event_id_of p = Some demo_uuid"
proof -
  have run: "((worker_turn demo_config (office_env demo_surroundings)) ^^ 1) (new_dispatcher, new_office) =
      (fst (worker_turn demo_config (office_env demo_surroundings) (new_dispatcher, new_office)), demo_office)"
    by (simp add: demo_office_def)
  have "demo_uuid \<in> lg_recorded (of_ledger demo_office)" by (simp add: demo_turn)
  from outbox_accounts_for_every_event [OF run this] show ?thesis
    unfolding bex_simps demo_turn by (simp add: demo_config_def delivery_config_def Let_def)
qed

end
