(* ===== verification/Effects.thy ===== *)
theory Effects
  imports Prelude
begin

text \<open>
  Programs that talk to other systems. A run is the list of the calls made so far, newest first, with their answers; what a call answers is a
  function of that list, so every behaviour of the surroundings is covered. A program either returns (\<open>Inr\<close>) or raises
  (\<open>Inl\<close>). \<open>wp\<close> is the weakest precondition on such lists; its equations (\<open>wp_simps\<close>) execute a program symbolically.
\<close>

named_theorems wp_simps "equations for wp"

type_synonym ('c, 'e, 'a) act = "'c list \<Rightarrow> 'c list \<times> ('e + 'a)"

definition ret :: "'a \<Rightarrow> ('c, 'e, 'a) act" where "ret x h = (h, Inr x)"

definition throw :: "'e \<Rightarrow> ('c, 'e, 'a) act" where "throw e h = (h, Inl e)"

text \<open>A call: the answer of the surroundings, recorded.\<close>

definition ask :: "('c list \<Rightarrow> 'a) \<Rightarrow> ('a \<Rightarrow> 'c) \<Rightarrow> ('c, 'e, 'a) act" where
  "ask answer call h = (call (answer h) # h, Inr (answer h))"

definition andthen :: "('c, 'e, 'a) act \<Rightarrow> ('a \<Rightarrow> ('c, 'e, 'b) act) \<Rightarrow> ('c, 'e, 'b) act" where
  "andthen m f h = (case m h of (h, Inl e) \<Rightarrow> (h, Inl e) | (h, Inr x) \<Rightarrow> f x h)"

text \<open>\<open>try\<close> and \<open>except\<close>; the handler decides by the exception, and may raise again.\<close>

definition handle :: "('c, 'e, 'a) act \<Rightarrow> ('e \<Rightarrow> ('c, 'e, 'a) act) \<Rightarrow> ('c, 'e, 'a) act" where
  "handle m f h = (case m h of (h, Inl e) \<Rightarrow> f e h | (h, Inr x) \<Rightarrow> (h, Inr x))"

text \<open>Exceptions that take along how far the caller has come, and \<open>try\<close> with \<open>finally\<close>: the clean-up sees it, and its own exceptions
  replace the others.\<close>

definition carry :: "'p \<Rightarrow> ('c, 'e, 'a) act \<Rightarrow> ('c, 'p \<times> 'e, 'a) act" where
  "carry p m h = (case m h of (h, Inl e) \<Rightarrow> (h, Inl (p, e)) | (h, Inr x) \<Rightarrow> (h, Inr x))"

definition finally_do :: "('c, 'p \<times> 'e, 'p \<times> 'a) act \<Rightarrow> ('p \<Rightarrow> ('c, 'e, unit) act) \<Rightarrow> ('c, 'e, 'a) act" where
  "finally_do m cleanup h =
     (case m h of
        (h, Inl (p, e)) \<Rightarrow> andthen (cleanup p) (\<lambda>_. throw e) h
      | (h, Inr (p, x)) \<Rightarrow> andthen (cleanup p) (\<lambda>_. ret x) h)"

text \<open>The same without such knowledge: a \<open>with\<close> statement.\<close>

definition lastly :: "('c, 'e, 'a) act \<Rightarrow> ('c, 'e, unit) act \<Rightarrow> ('c, 'e, 'a) act" where
  "lastly m cleanup h =
     (case m h of
        (h, Inl e) \<Rightarrow> andthen cleanup (\<lambda>_. throw e) h
      | (h, Inr x) \<Rightarrow> andthen cleanup (\<lambda>_. ret x) h)"

text \<open>A loop over a list with an accumulator.\<close>

fun each :: "('x \<Rightarrow> 's \<Rightarrow> ('c, 'e, 's) act) \<Rightarrow> 'x list \<Rightarrow> 's \<Rightarrow> ('c, 'e, 's) act" where
  "each f [] s = ret s"
| "each f (x # xs) s = andthen (f x s) (each f xs)"

text \<open>Equations that run a program on a given list.\<close>

named_theorems run_simps "equations for runs"

lemma run_basic [run_simps]: "ret x h = (h, Inr x)" "throw e h = (h, Inl e)" "ask answer call h = (call (answer h) # h, Inr (answer h))"
  by (simp_all add: ret_def throw_def ask_def)

lemma run_raised [run_simps]: "m h = (h', Inl e) \<Longrightarrow> andthen m f h = (h', Inl e)" "m h = (h', Inl e) \<Longrightarrow> handle m g h = g e h'"
  by (simp_all add: andthen_def handle_def)

lemma run_returned [run_simps]: "m h = (h', Inr x) \<Longrightarrow> andthen m f h = f x h'" "m h = (h', Inr x) \<Longrightarrow> handle m g h = (h', Inr x)"
  by (simp_all add: andthen_def handle_def)

lemma run_carried [run_simps]: "m h = (h', Inl e) \<Longrightarrow> carry p m h = (h', Inl (p, e))" "m h = (h', Inr x) \<Longrightarrow> carry p m h = (h', Inr x)"
  by (simp_all add: carry_def)

lemma run_finally [run_simps]:
  "m h = (h', Inl (p, e)) \<Longrightarrow> finally_do m c h = andthen (c p) (\<lambda>_. throw e) h'"
  "m h = (h', Inr (p, x)) \<Longrightarrow> finally_do m c h = andthen (c p) (\<lambda>_. ret x) h'"
  by (simp_all add: finally_do_def)

lemma run_lastly [run_simps]:
  "m h = (h', Inl e) \<Longrightarrow> lastly m c h = andthen c (\<lambda>_. throw e) h'"
  "m h = (h', Inr x) \<Longrightarrow> lastly m c h = andthen c (\<lambda>_. ret x) h'"
  by (simp_all add: lastly_def)

section \<open>Weakest preconditions\<close>

definition wp :: "('c, 'e, 'a) act \<Rightarrow> ('a \<Rightarrow> 'c list \<Rightarrow> bool) \<Rightarrow> ('e \<Rightarrow> 'c list \<Rightarrow> bool) \<Rightarrow> 'c list \<Rightarrow> bool" where
  "wp m Q E h = (case m h of (h, Inl e) \<Rightarrow> E e h | (h, Inr x) \<Rightarrow> Q x h)"

lemma wp_ret [wp_simps]: "wp (ret x) Q E = Q x"
  by (simp add: wp_def ret_def fun_eq_iff)

lemma wp_throw [wp_simps]: "wp (throw e) Q E = E e"
  by (simp add: wp_def throw_def fun_eq_iff)

lemma wp_ask [wp_simps]: "wp (ask answer call) Q E = (\<lambda>h. Q (answer h) (call (answer h) # h))"
  by (simp add: wp_def ask_def fun_eq_iff)

lemma wp_andthen [wp_simps]: "wp (andthen m f) Q E = wp m (\<lambda>x. wp (f x) Q E) E"
  by (auto simp: wp_def andthen_def fun_eq_iff split: prod.splits sum.splits)

lemma wp_handle [wp_simps]: "wp (handle m f) Q E = wp m Q (\<lambda>e. wp (f e) Q E)"
  by (auto simp: wp_def handle_def fun_eq_iff split: prod.splits sum.splits)

lemma wp_carry [wp_simps]: "wp (carry p m) Q E = wp m Q (\<lambda>e. E (p, e))"
  by (auto simp: wp_def carry_def fun_eq_iff split: prod.splits sum.splits)

lemma wp_finally:
  "wp (finally_do m c) Q E =
     wp m (\<lambda>(p, x). wp (c p) (\<lambda>_. Q x) E) (\<lambda>(p, e). wp (c p) (\<lambda>_. E e) E)"
  by (auto simp: wp_def finally_do_def andthen_def ret_def throw_def fun_eq_iff split: prod.splits sum.splits)

lemma wp_lastly: "wp (lastly m c) Q E = wp m (\<lambda>x. wp c (\<lambda>_. Q x) E) (\<lambda>e. wp c (\<lambda>_. E e) E)"
  by (auto simp: wp_def lastly_def andthen_def ret_def throw_def fun_eq_iff split: prod.splits sum.splits)

lemma wp_if [wp_simps]: "wp (if b then m else n) Q E = (\<lambda>h. (b \<longrightarrow> wp m Q E h) \<and> (\<not> b \<longrightarrow> wp n Q E h))"
  by (simp add: fun_eq_iff)

lemma wp_case_option [wp_simps]:
  "wp (case x of None \<Rightarrow> m | Some y \<Rightarrow> f y) Q E = (\<lambda>h. (x = None \<longrightarrow> wp m Q E h) \<and> (\<forall>y. x = Some y \<longrightarrow> wp (f y) Q E h))"
  by (cases x) (auto simp: fun_eq_iff)

lemma wp_case_prod [wp_simps]: "wp (case x of (a, b) \<Rightarrow> f a b) Q E = (\<lambda>h. \<forall>a b. x = (a, b) \<longrightarrow> wp (f a b) Q E h)"
  by (cases x) (auto simp: fun_eq_iff)

lemma wp_mono:
  "wp m Q E h \<Longrightarrow> (\<And>x h. Q x h \<Longrightarrow> Q' x h) \<Longrightarrow> (\<And>e h. E e h \<Longrightarrow> E' e h) \<Longrightarrow> wp m Q' E' h"
  by (auto simp: wp_def split: prod.splits sum.splits)

lemma wp_each:
  assumes "\<And>x s h. x \<in> set xs \<Longrightarrow> I s h \<Longrightarrow> wp (f x s) I E h" and "I s h"
  shows "wp (each f xs s) I E h"
  using assms
proof (induction xs arbitrary: s h)
  case (Cons x xs)
  from Cons.prems(1) [of x s h] Cons.prems(2) have "wp (f x s) I E h" by simp
  then show ?case unfolding each.simps wp_andthen using Cons.prems(1) by (elim wp_mono) (auto intro: Cons.IH)
qed (simp add: wp_simps)

text \<open>One step after the other.\<close>

lemma wp_seq:
  "wp m R E h \<Longrightarrow> (\<And>x h. R x h \<Longrightarrow> wp (f x) Q E h) \<Longrightarrow> wp (andthen m f) Q E h"
  unfolding wp_andthen by (erule wp_mono)

text \<open>What stays true while calls are added.\<close>

named_theorems stables "facts about stable properties of runs"

definition stable :: "('c list \<Rightarrow> bool) \<Rightarrow> bool" where
  "stable F \<longleftrightarrow> (\<forall>c h. F h \<longrightarrow> F (c # h))"

lemma stableD: "stable F \<Longrightarrow> F h \<Longrightarrow> F (c # h)"
  by (simp add: stable_def)

lemma stable_basic [stables]:
  "stable (\<lambda>_. b)" "stable (\<lambda>h. c \<in> set h)" "stable F \<Longrightarrow> stable G \<Longrightarrow> stable (\<lambda>h. F h \<and> G h)"
  "stable F \<Longrightarrow> stable G \<Longrightarrow> stable (\<lambda>h. F h \<or> G h)" "stable F \<Longrightarrow> stable (\<lambda>h. b \<longrightarrow> F h)"
  "(\<And>x. stable (P x)) \<Longrightarrow> stable (\<lambda>h. \<exists>x. P x h)" "(\<And>x. x \<in> S \<Longrightarrow> stable (P x)) \<Longrightarrow> stable (\<lambda>h. \<forall>x\<in>S. P x h)"
  "(\<And>x. stable (P x)) \<Longrightarrow> stable (\<lambda>h. \<forall>x. P x h)"
  by (auto simp: stable_def)

lemma wp_result: "wp m Q E h \<Longrightarrow> m h = (h', Inr x) \<Longrightarrow> Q x h'"
  and wp_exception: "wp m Q E h \<Longrightarrow> m h = (h', Inl e) \<Longrightarrow> E e h'"
  by (simp_all add: wp_def)

text \<open>Calls justified by what went before.\<close>

fun justified :: "('c list \<Rightarrow> 'c \<Rightarrow> bool) \<Rightarrow> 'c list \<Rightarrow> bool" where
  "justified J [] = True"
| "justified J (c # h) \<longleftrightarrow> J h c \<and> justified J h"

lemma justified_iff: "justified J h \<longleftrightarrow> (\<forall>later c before. h = later @ c # before \<longrightarrow> J before c)"
proof (induction h)
  case (Cons c h)
  show ?case
  proof (intro iffI allI impI)
    fix later c' before
    assume "justified J (c # h)" "c # h = later @ c' # before"
    then show "J before c'" using Cons.IH by (cases later) auto
  next
    assume "\<forall>later c' before. c # h = later @ c' # before \<longrightarrow> J before c'"
    then have "J h c" and "\<forall>later c' before. h = later @ c' # before \<longrightarrow> J before c'"
      by (metis append_Nil, metis append_Cons)
    then show "justified J (c # h)" using Cons.IH by simp
  qed
qed simp

end
