(* ===== verification/User_Controls.thy ===== *)
theory User_Controls
  imports Prelude
begin

text \<open>
  The table \<open>user_controls\<close> of \<open>MetadataStore\<close> (\<open>store.py\<close>), one row for each VPN user, as the dictionary of its primary key.
\<close>

record user_control =
  uc_policy :: pystr
  uc_expires :: "int option"
  uc_max_sessions :: int
  uc_rate_limit :: int
  uc_dns_mode :: pystr
  uc_notifications :: bool
  uc_quota_mb :: int
  uc_schedule :: pystr
  uc_state :: pystr
  uc_updated :: int

definition control_defaults :: user_control where
  "control_defaults = \<lparr>uc_policy = lit ''full-tunnel'', uc_expires = None, uc_max_sessions = 5, uc_rate_limit = 0, uc_dns_mode = lit ''router'',
     uc_notifications = True, uc_quota_mb = 0, uc_schedule = lit ''always'', uc_state = [], uc_updated = 0\<rparr>"

definition user_controls :: "(pystr, user_control) dict \<Rightarrow> pystr \<Rightarrow> user_control" where
  "user_controls t username = dget_or t username control_defaults"

text \<open>An insert leaves the enforcement state at its default, an update leaves it alone.\<close>

definition set_user_controls :: "pystr \<Rightarrow> user_control \<Rightarrow> int \<Rightarrow> (pystr, user_control) dict \<Rightarrow> (pystr, user_control) dict" where
  "set_user_controls username new now t =
     dset username (new\<lparr>uc_max_sessions := max 1 (min 5 (uc_max_sessions new)), uc_rate_limit := max 0 (uc_rate_limit new),
       uc_quota_mb := max 0 (uc_quota_mb new), uc_state := uc_state (user_controls t username), uc_updated := now\<rparr>) t"

definition set_enforcement_state :: "pystr \<Rightarrow> pystr \<Rightarrow> int \<Rightarrow> (pystr, user_control) dict \<Rightarrow> (pystr, user_control) dict" where
  "set_enforcement_state username state now t =
     map (\<lambda>(k, r). (k, if k = username then r\<lparr>uc_state := state, uc_updated := now\<rparr> else r)) t"

definition delete_user_controls :: "pystr \<Rightarrow> (pystr, user_control) dict \<Rightarrow> (pystr, user_control) dict" where
  "delete_user_controls username t = ddel username t"

lemma dget_set_enforcement_state:
  "dget (set_enforcement_state u s now t) k = (if k = u then map_option (\<lambda>r. r\<lparr>uc_state := s, uc_updated := now\<rparr>) (dget t k) else dget t k)"
  by (induction t) (auto simp: set_enforcement_state_def)

text \<open>Editing the controls of a user keeps a pending or active restriction, and the state of no other user changes.\<close>

lemma edits_keep_the_state:
  "uc_state (user_controls (set_user_controls u new now t) k) = uc_state (user_controls t k)"
  "k \<noteq> u \<Longrightarrow> user_controls (set_enforcement_state u s now t) k = user_controls t k"
  "dget t u \<noteq> None \<Longrightarrow> uc_state (user_controls (set_enforcement_state u s now t) u) = s"
  by (auto simp: set_user_controls_def user_controls_def dget_or_def dict_simps dget_set_enforcement_state split: option.splits)

end
