(* ===== verification/Automation.thy ===== *)
theory Automation
  imports Effects User_Controls Review_Locks "HOL-Library.List_Lexorder"
begin

text \<open>
  The automatic enforcement of \<open>automation.py\<close>: accounts that have expired, used up their quota or left their schedule are disabled and
  their sessions ended; accounts whose restriction is over are enabled again; surplus sessions are ended. RouterOS, the store, the review locks and
  the calendar are asked through \<open>automation_env\<close>. Operator texts (titles, details) are left out of audit records and alerts.
\<close>

section \<open>Data\<close>

record ros_user =
  us_id :: pystr
  us_name :: pystr
  us_profile :: pystr
  us_comment :: pystr
  us_disabled :: bool

record ros_session =
  ss_id :: pystr
  ss_name :: pystr
  ss_session_id :: pystr
  ss_source :: pystr
  ss_vpn :: pystr

text \<open>The calls, with their answers. \<open>None\<close> and \<open>False\<close> stand for an exception of the call.\<close>

datatype call =
    UsersRead "ros_user list option"
  | SessionsRead "ros_session list option"
  | Exported pystr bool
  | Updated pystr bool bool
  | Terminated pystr bool
  | Locked pystr bool
  | Unlocked pystr
  | OwnedChecked pystr bool
  | Invalidated pystr bool
  | ControlsRead pystr "user_control option"
  | AllControlsRead "(pystr, user_control) dict option"
  | QuotaRead pystr int "int option"
  | StateSet pystr pystr bool
  | Observed "ros_session list" bool
  | Audited pystr pystr pystr bool
  | Alerted pystr pystr pystr "bool option"

text \<open>\<open>TypeFailure\<close> is the \<open>TypeError\<close> of iterating over \<open>None\<close>.\<close>

datatype automation_error = RouterFailure | CoordinationLost | StoreFailure | TypeFailure

text \<open>\<open>ae_redis\<close> says whether the review locks are leased in Redis too; without it they are locks of the process, which are always
  obtained and never lost.\<close>

record automation_env =
  ae_redis :: bool
  ae_users :: "call list \<Rightarrow> ros_user list option"
  ae_sessions :: "call list \<Rightarrow> ros_session list option"
  ae_export :: "call list \<Rightarrow> bool"
  ae_update :: "call list \<Rightarrow> bool"
  ae_terminate :: "call list \<Rightarrow> bool"
  ae_lock :: "call list \<Rightarrow> bool"
  ae_owned :: "call list \<Rightarrow> bool"
  ae_invalidate :: "call list \<Rightarrow> bool"
  ae_controls :: "call list \<Rightarrow> user_control option"
  ae_all_controls :: "call list \<Rightarrow> (pystr, user_control) dict option"
  ae_quota :: "call list \<Rightarrow> int option"
  ae_store :: "call list \<Rightarrow> bool"
  ae_alert :: "call list \<Rightarrow> bool option"
  ae_now :: "call list \<Rightarrow> int"
  ae_localtime :: "int \<Rightarrow> int \<times> int \<times> int \<times> int \<times> int"
  ae_month_start :: "int \<Rightarrow> int \<Rightarrow> int"

type_synonym 'a auto = "(call, automation_error, 'a) act"

definition require :: "automation_error \<Rightarrow> bool \<Rightarrow> unit auto" where
  "require e ok = (if ok then ret () else throw e)"

definition obtained :: "automation_error \<Rightarrow> 'a option \<Rightarrow> 'a auto" where
  "obtained e x = (case x of None \<Rightarrow> throw e | Some y \<Rightarrow> ret y)"

definition read_users :: "automation_env \<Rightarrow> ros_user list option auto" where
  "read_users env = ask (ae_users env) UsersRead"

text \<open>\<open>_automation_fresh_sessions\<close>.\<close>

definition fresh_sessions :: "automation_env \<Rightarrow> ros_session list option auto" where
  "fresh_sessions env = ask (ae_sessions env) SessionsRead"

text \<open>The lock of an account as a lease in Redis: \<open>assert_lock_owned\<close> asks for it, and does nothing when there is none.\<close>

definition assert_owned_lock :: "automation_env \<Rightarrow> pystr \<Rightarrow> unit auto" where
  "assert_owned_lock env key =
     (if ae_redis env then andthen (ask (ae_owned env) (OwnedChecked key)) (require CoordinationLost) else ret ())"

definition acquire :: "automation_env \<Rightarrow> pystr \<Rightarrow> unit auto" where
  "acquire env key = andthen (ask (\<lambda>h. ae_redis env \<longrightarrow> ae_lock env h) (Locked key)) (require CoordinationLost)"

definition release :: "pystr \<Rightarrow> unit auto" where
  "release key = ask (\<lambda>_. ()) (\<lambda>_. Unlocked key)"

definition audited :: "automation_env \<Rightarrow> string \<Rightarrow> pystr \<Rightarrow> string \<Rightarrow> unit auto" where
  "audited env action target status = andthen (ask (ae_store env) (Audited (lit action) target (lit status))) (require StoreFailure)"

definition alerted :: "automation_env \<Rightarrow> string \<Rightarrow> pystr \<Rightarrow> pystr \<Rightarrow> bool auto" where
  "alerted env severity action target = andthen (ask (ae_alert env) (Alerted (lit severity) action target)) (obtained StoreFailure)"

definition state_set :: "automation_env \<Rightarrow> pystr \<Rightarrow> pystr \<Rightarrow> unit auto" where
  "state_set env username state = andthen (ask (ae_store env) (StateSet username state)) (require StoreFailure)"

definition controls_read :: "automation_env \<Rightarrow> pystr \<Rightarrow> user_control auto" where
  "controls_read env username = andthen (ask (ae_controls env) (ControlsRead username)) (obtained StoreFailure)"

text \<open>The result of a call, and whether it raised the given exception.\<close>

definition attempt :: "automation_error \<Rightarrow> unit auto \<Rightarrow> bool auto" where
  "attempt e m = handle (andthen m (\<lambda>_. ret True)) (\<lambda>e'. if e' = e then ret False else throw e')"

definition exported :: "automation_env \<Rightarrow> pystr \<Rightarrow> bool auto" where
  "exported env name = attempt RouterFailure (andthen (ask (ae_export env) (Exported name)) (require RouterFailure))"

section \<open>Policy\<close>

definition quota_period_start :: "automation_env \<Rightarrow> int \<Rightarrow> int" where
  "quota_period_start env now = (case ae_localtime env now of (year, month, _) \<Rightarrow> ae_month_start env year month)"

definition schedule_allows :: "automation_env \<Rightarrow> pystr \<Rightarrow> int \<Rightarrow> bool" where
  "schedule_allows env schedule now =
     (if schedule = lit ''always'' then True
      else case ae_localtime env now of (_, _, hour, minute, weekday) \<Rightarrow>
        let minutes = hour * 60 + minute in
        if schedule = lit ''weekdays'' then weekday < 5 \<and> 9 * 60 \<le> minutes \<and> minutes < 18 * 60
        else if schedule = lit ''daytime'' then 8 * 60 \<le> minutes \<and> minutes < 22 * 60
        else True)"

text \<open>The empty state is no restriction.\<close>

definition automation_state :: "automation_env \<Rightarrow> pystr \<Rightarrow> user_control \<Rightarrow> int \<Rightarrow> pystr auto" where
  "automation_state env username control now =
     (if (case uc_expires control of None \<Rightarrow> False | Some t \<Rightarrow> t \<noteq> 0 \<and> t \<le> now) then ret (lit ''expired'')
      else
        let quota = uc_quota_mb control;
            scheduled = (if schedule_allows env (uc_schedule control) now then ret [] else ret (lit ''schedule'')) in
        if quota \<noteq> 0 then
          andthen (andthen (ask (ae_quota env) (QuotaRead username (quota_period_start env now))) (obtained StoreFailure))
            (\<lambda>used. if quota * 1024 * 1024 \<le> used then ret (lit ''quota'') else scheduled)
        else scheduled)"

section \<open>Reading back\<close>

definition session_matches :: "ros_session \<Rightarrow> ros_session \<Rightarrow> bool" where
  "session_matches l r \<longleftrightarrow> ss_id l = ss_id r \<and>
     list_all (\<lambda>field. field l = [] \<or> field r = [] \<or> field l = field r) [ss_name, ss_session_id, ss_source, ss_vpn]"

datatype readback = Verified ros_user | Mismatch ros_user | ReadbackStale ros_user | ReadbackUnknown

definition user_readback :: "automation_env \<Rightarrow> ros_user \<Rightarrow> bool \<Rightarrow> readback auto" where
  "user_readback env expected disabled =
     andthen (read_users env) (\<lambda>users. ret
       (case users of None \<Rightarrow> ReadbackUnknown
        | Some us \<Rightarrow>
            (case find (\<lambda>u. us_id u = us_id expected) us of
               None \<Rightarrow> ReadbackUnknown
             | Some current \<Rightarrow>
                 if us_name current \<noteq> us_name expected then ReadbackStale current
                 else if us_disabled current = disabled then Verified current else Mismatch current)))"

datatype freshness = Fresh ros_user | Stale ros_user | FreshUnknown

text \<open>\<open>_automation_user_matches\<close> compares all fields of the record.\<close>

definition fresh_user :: "automation_env \<Rightarrow> ros_user \<Rightarrow> freshness auto" where
  "fresh_user env expected =
     andthen (read_users env) (\<lambda>users. ret
       (case users of None \<Rightarrow> FreshUnknown
        | Some us \<Rightarrow>
            (case find (\<lambda>u. us_id u = us_id expected) us of
               None \<Rightarrow> FreshUnknown
             | Some current \<Rightarrow> if current = expected then Fresh current else Stale current)))"

definition freshness_status :: "freshness \<Rightarrow> string" where
  "freshness_status f = (case f of FreshUnknown \<Rightarrow> ''unknown'' | _ \<Rightarrow> ''stale'')"

text \<open>Record the outcome, alert the operator, and leave everything as it is.\<close>

definition give_up :: "automation_env \<Rightarrow> string \<Rightarrow> string \<Rightarrow> pystr \<Rightarrow> pystr \<Rightarrow> 'a \<Rightarrow> 'a auto" where
  "give_up env action status alert target result =
     andthen (audited env action target status) (\<lambda>_. andthen (alerted env ''critical'' alert target) (\<lambda>_. ret result))"

section \<open>Ending sessions\<close>

record termination_counts =
  ct_attempted :: nat
  ct_verified :: nat
  ct_failed :: nat
  ct_unknown :: nat
  ct_stale :: nat

definition no_counts :: termination_counts where
  "no_counts = \<lparr>ct_attempted = 0, ct_verified = 0, ct_failed = 0, ct_unknown = 0, ct_stale = 0\<rparr>"

definition of_user :: "pystr \<Rightarrow> ros_session list \<Rightarrow> ros_session list" where
  "of_user username = filter (\<lambda>s. ss_name s = username)"

text \<open>\<open>cap\<close> is \<open>max_sessions\<close>: only sessions beyond it may be ended.\<close>

definition terminate_one :: "automation_env \<Rightarrow> pystr \<Rightarrow> pystr \<Rightarrow> nat option \<Rightarrow> ros_session \<Rightarrow> ros_session list option \<times> termination_counts
    \<Rightarrow> (ros_session list option \<times> termination_counts) auto" where
  "terminate_one env key username cap target = (\<lambda>(_, c).
     andthen (fresh_sessions env) (\<lambda>current.
       case current of None \<Rightarrow> ret (None, c\<lparr>ct_unknown := ct_unknown c + 1\<rparr>)
       | Some ss \<Rightarrow>
           (case find (session_matches target) (of_user username ss) of
              None \<Rightarrow> ret (Some ss, c\<lparr>ct_stale := ct_stale c + 1\<rparr>)
            | Some exact \<Rightarrow>
                if (case cap of None \<Rightarrow> False | Some m \<Rightarrow> \<not> list_ex (session_matches target) (drop m (of_user username ss)))
                then ret (Some ss, c\<lparr>ct_stale := ct_stale c + 1\<rparr>)
                else
                  andthen (assert_owned_lock env key) (\<lambda>_.
                  andthen (attempt RouterFailure (andthen (ask (ae_terminate env) (Terminated (ss_id exact))) (require RouterFailure))) (\<lambda>_.
                  andthen (fresh_sessions env) (\<lambda>readback.
                    let c = c\<lparr>ct_attempted := ct_attempted c + 1\<rparr> in
                    case readback of None \<Rightarrow> ret (Some ss, c\<lparr>ct_unknown := ct_unknown c + 1\<rparr>)
                    | Some now_active \<Rightarrow>
                        ret (Some now_active,
                          if list_ex (session_matches target) (of_user username now_active) then c\<lparr>ct_failed := ct_failed c + 1\<rparr>
                          else c\<lparr>ct_verified := ct_verified c + 1\<rparr>)))))))"

definition terminate_sessions :: "automation_env \<Rightarrow> pystr \<Rightarrow> pystr \<Rightarrow> nat option \<Rightarrow> ros_session list
    \<Rightarrow> (ros_session list option \<times> termination_counts) auto" where
  "terminate_sessions env key username cap targets =
     andthen (fresh_sessions env) (\<lambda>current.
       case current of None \<Rightarrow> ret (None, no_counts\<lparr>ct_unknown := length targets\<rparr>)
       | Some ss \<Rightarrow> each (terminate_one env key username cap) targets (Some ss, no_counts))"

section \<open>Changing an account\<close>

text \<open>The guarded write: \<open>None\<close> when coordination was lost, else whether the request raised.\<close>

definition guarded_update :: "automation_env \<Rightarrow> pystr \<Rightarrow> pystr \<Rightarrow> bool \<Rightarrow> bool option auto" where
  "guarded_update env key user_id disabled =
     handle
       (andthen (assert_owned_lock env key) (\<lambda>_.
        andthen (andthen (ask (\<lambda>h. ae_redis env \<longrightarrow> ae_invalidate env h) (Invalidated key)) (require CoordinationLost)) (\<lambda>_.
        andthen (assert_owned_lock env key) (\<lambda>_.
        andthen (andthen (ask (ae_update env) (Updated user_id disabled)) (require RouterFailure)) (\<lambda>_. ret (Some False))))))
       (\<lambda>e. if e = RouterFailure then ret (Some True) else if e = CoordinationLost then ret None else throw e)"

definition resource_key_of :: "ros_user \<Rightarrow> pystr" where
  "resource_key_of user = lit ''vpn-user:'' @ us_id user"

definition checkpoint_name :: "string \<Rightarrow> pystr \<Rightarrow> int \<Rightarrow> pystr" where
  "checkpoint_name purpose username now = lit ''vpn-dashboard-before-'' @ lit purpose @ lit ''-'' @ username @ lit ''-'' @ str_of_int now"

text \<open>The rest of a restoration once the account is found disabled.\<close>

definition restore_disabled :: "automation_env \<Rightarrow> ros_user \<Rightarrow> ros_user \<Rightarrow> 'a \<Rightarrow> user_control \<Rightarrow> int \<Rightarrow> 'a auto" where
  "restore_disabled env user current active control now =
     (let username = us_name user in
      andthen (exported env (checkpoint_name ''restore'' username now)) (\<lambda>ok.
      if \<not> ok then give_up env ''user.auto_restore'' ''failed'' (lit ''user.auto_restore.failed'') username active
      else
        andthen (fresh_user env current) (\<lambda>checked.
        case checked of
          Fresh current \<Rightarrow>
            andthen (guarded_update env (resource_key_of user) (us_id user) False) (\<lambda>written.
            case written of None \<Rightarrow> give_up env ''user.auto_restore'' ''unknown'' (lit ''user.auto_restore.review'') username active
            | Some _ \<Rightarrow>
                andthen (user_readback env current False) (\<lambda>result.
                case result of
                  Verified _ \<Rightarrow>
                    andthen (state_set env username []) (\<lambda>_.
                    andthen (audited env ''user.auto_restore'' username ''success'') (\<lambda>_.
                    if uc_notifications control
                    then andthen (alerted env ''info'' (lit ''user.auto_restore'') username) (\<lambda>_. ret active)
                    else ret active))
                | ReadbackUnknown \<Rightarrow> give_up env ''user.auto_restore'' ''unknown'' (lit ''user.auto_restore.failed'') username active
                | _ \<Rightarrow> give_up env ''user.auto_restore'' ''failed'' (lit ''user.auto_restore.failed'') username active))
        | f \<Rightarrow> give_up env ''user.auto_restore'' (freshness_status f) (lit ''user.auto_restore.review'') username active)))"

definition restore_access :: "automation_env \<Rightarrow> ros_user \<Rightarrow> 'a \<Rightarrow> user_control \<Rightarrow> bool \<Rightarrow> int \<Rightarrow> 'a auto" where
  "restore_access env user active control pending now =
     (let username = us_name user in
      andthen (fresh_user env user) (\<lambda>f.
      case f of
        Fresh current \<Rightarrow>
          if us_disabled current then restore_disabled env user current active control now
          else if pending then
            andthen (state_set env username []) (\<lambda>_.
            andthen (audited env ''user.auto_restore'' username ''success'') (\<lambda>_. ret active))
          else give_up env ''user.auto_restore'' ''stale'' (lit ''user.auto_restore.review'') username active
      | _ \<Rightarrow> give_up env ''user.auto_restore'' (freshness_status f) (lit ''user.auto_restore.review'') username active))"

definition disable_alert :: "pystr \<Rightarrow> string \<Rightarrow> pystr" where
  "disable_alert state suffix = lit ''user.auto_disable.'' @ state @ lit suffix"

text \<open>Disabling an account that is enabled: whether RouterOS confirmed it. Otherwise the outcome is recorded.\<close>

definition disable_account :: "automation_env \<Rightarrow> ros_user \<Rightarrow> ros_user \<Rightarrow> pystr \<Rightarrow> int \<Rightarrow> bool auto" where
  "disable_account env user current state now =
     (let username = us_name user in
      andthen (exported env (checkpoint_name ''enforcement'' username now)) (\<lambda>ok.
      if \<not> ok then give_up env ''user.auto_disable'' ''failed'' (disable_alert state ''.failed'') username False
      else
        andthen (fresh_user env current) (\<lambda>checked.
        case checked of
          Fresh current \<Rightarrow>
            andthen (attempt StoreFailure (state_set env username (lit ''pending:'' @ state))) (\<lambda>saved.
            if \<not> saved then andthen (alerted env ''critical'' (disable_alert state ''.failed'') username) (\<lambda>_. ret False)
            else
              andthen (guarded_update env (resource_key_of user) (us_id user) True) (\<lambda>written.
              case written of None \<Rightarrow> give_up env ''user.auto_disable'' ''unknown'' (disable_alert state ''.review'') username False
              | Some _ \<Rightarrow>
                  andthen (user_readback env current True) (\<lambda>result.
                  case result of
                    Verified _ \<Rightarrow> ret True
                  | ReadbackUnknown \<Rightarrow> give_up env ''user.auto_disable'' ''unknown'' (disable_alert state ''.failed'') username False
                  | _ \<Rightarrow>
                      andthen (give_up env ''user.auto_disable'' ''failed'' (disable_alert state ''.failed'') username False) (\<lambda>r.
                      andthen (state_set env username []) (\<lambda>_. ret r)))))
        | f \<Rightarrow> give_up env ''user.auto_disable'' (freshness_status f) (disable_alert state ''.review'') username False)))"

text \<open>With the account disabled: end its sessions, and report what is left of them.\<close>

definition end_access :: "automation_env \<Rightarrow> ros_user \<Rightarrow> user_control \<Rightarrow> pystr \<Rightarrow> ros_session list option auto" where
  "end_access env user control state =
     (let username = us_name user in
      andthen (fresh_sessions env) (\<lambda>post_disable.
      andthen (case post_disable of None \<Rightarrow> ret None
               | Some ss \<Rightarrow> andthen (terminate_sessions env (resource_key_of user) username None (of_user username ss)) (\<lambda>(left, _). ret left)) (\<lambda>left.
      andthen (fresh_sessions env) (\<lambda>final.
        let left = (case final of None \<Rightarrow> left | Some ss \<Rightarrow> Some ss);
            failures = (case final of None \<Rightarrow> True | Some ss \<Rightarrow> of_user username ss \<noteq> []) in
        andthen (audited env ''user.auto_disable'' username (if failures then ''partial'' else ''success'')) (\<lambda>_.
        if uc_notifications control
        then andthen (alerted env (if failures then ''critical'' else ''warning'') (disable_alert state (if failures then ''.partial'' else [])) username)
          (\<lambda>_. ret left)
        else ret left)))))"

definition restrict_access :: "automation_env \<Rightarrow> ros_user \<Rightarrow> ros_session list option \<Rightarrow> user_control \<Rightarrow> pystr \<Rightarrow> pystr \<Rightarrow> bool \<Rightarrow> int
    \<Rightarrow> ros_session list option auto" where
  "restrict_access env user active control state previous pending now =
     (let username = us_name user in
      if us_disabled user \<and> previous = [] then ret active
      else
        andthen (fresh_user env user) (\<lambda>f.
        case f of
          Fresh current \<Rightarrow>
            if us_disabled current \<and> previous = [] then ret active
            else
              andthen (fresh_sessions env) (\<lambda>sessions.
              case sessions of
                None \<Rightarrow> give_up env ''user.auto_disable'' ''unknown'' (disable_alert state ''.unknown'') username active
              | Some ss \<Rightarrow>
                  if us_disabled current \<and> previous = state \<and> of_user username ss = [] then
                    (if pending then andthen (state_set env username state) (\<lambda>_. ret (Some ss)) else ret (Some ss))
                  else
                    andthen (if us_disabled current then ret True else disable_account env user current state now) (\<lambda>disabled.
                    if \<not> disabled then ret active
                    else andthen (state_set env username state) (\<lambda>_. end_access env user control state)))
        | _ \<Rightarrow> give_up env ''user.auto_disable'' (freshness_status f) (disable_alert state ''.review'') username active))"

text \<open>\<open>_apply_automation_access\<close> under the lock. A pending intent to disable an expired account is carried out even if the expiry was
  edited away.\<close>

definition apply_access_locked :: "automation_env \<Rightarrow> ros_user \<Rightarrow> ros_session list option \<Rightarrow> user_control \<Rightarrow> pystr \<Rightarrow> int
    \<Rightarrow> ros_session list option auto" where
  "apply_access_locked env user active control state now =
     (let pending = take 8 (uc_state control) = lit ''pending:'';
          previous = (if pending then drop 8 (uc_state control) else uc_state control) in
      if state \<noteq> [] then restrict_access env user active control state previous pending now
      else if previous = lit ''expired'' then
        (if pending then restrict_access env user active control (lit ''expired'') previous pending now else ret active)
      else if previous \<noteq> lit ''quota'' \<and> previous \<noteq> lit ''schedule'' then ret active
      else restore_access env user active control pending now)"

text \<open>\<open>mutation_locks\<close> for one account: behind the gate, which is let go once the account's lock is held; that is let go at the end of
  the section, however it ends.\<close>

definition with_user_lock :: "automation_env \<Rightarrow> ros_user \<Rightarrow> 'a auto \<Rightarrow> 'a auto" where
  "with_user_lock env user m =
     andthen (acquire env provisioning_gate) (\<lambda>_.
     andthen (lastly (acquire env (resource_key_of user)) (release provisioning_gate)) (\<lambda>_.
     lastly m (release (resource_key_of user))))"

definition on_coordination_loss :: "'a auto \<Rightarrow> 'a auto \<Rightarrow> 'a auto" where
  "on_coordination_loss m alternative = handle m (\<lambda>e. if e = CoordinationLost then alternative else throw e)"

definition apply_automation_access :: "automation_env \<Rightarrow> ros_user \<Rightarrow> ros_session list option \<Rightarrow> int \<Rightarrow> ros_session list option auto" where
  "apply_automation_access env user active now =
     on_coordination_loss
       (with_user_lock env user
         (andthen (controls_read env (us_name user)) (\<lambda>control.
          andthen (automation_state env (us_name user) control now) (\<lambda>state.
          apply_access_locked env user active control state now))))
       (give_up env ''user.auto_enforcement'' ''unknown'' (lit ''user.auto_enforcement.review'') (us_name user) active)"

section \<open>The session cap\<close>

definition session_limit :: "user_control \<Rightarrow> int" where
  "session_limit control = (if uc_max_sessions control = 0 then 5 else uc_max_sessions control)"

definition cap_sessions :: "automation_env \<Rightarrow> ros_user \<Rightarrow> ros_session list option \<Rightarrow> ros_session list option auto" where
  "cap_sessions env user active =
     (let username = us_name user in
      andthen (controls_read env username) (\<lambda>control.
      andthen (fresh_user env user) (\<lambda>f.
      case f of
        Fresh _ \<Rightarrow>
          andthen (fresh_sessions env) (\<lambda>sessions.
          case sessions of
            None \<Rightarrow> andthen (audited env ''session.limit'' username ''unknown'') (\<lambda>_. ret active)
          | Some ss \<Rightarrow>
              let limit = session_limit control; matching = of_user username ss in
              if limit \<le> 0 \<or> int (length matching) \<le> limit then ret (Some ss)
              else
                andthen (assert_owned_lock env (resource_key_of user)) (\<lambda>_.
                andthen (terminate_sessions env (resource_key_of user) username (Some (nat limit)) (drop (nat limit) matching)) (\<lambda>(left, c).
                andthen (assert_owned_lock env (resource_key_of user)) (\<lambda>_.
                  let effective = (case left of None \<Rightarrow> ss | Some l \<Rightarrow> l);
                      partial = 0 < ct_failed c \<or> 0 < ct_unknown c \<or> limit < int (length (of_user username effective)) in
                  andthen (audited env ''session.limit'' username (if partial then ''partial'' else ''success'')) (\<lambda>_.
                  if uc_notifications control
                  then andthen (alerted env (if partial then ''critical'' else ''warning'') (lit (if partial then ''session.limit.partial'' else ''session.limit'')) username)
                    (\<lambda>_. ret (Some effective))
                  else ret (Some effective))))))
      | _ \<Rightarrow> give_up env ''session.limit'' (freshness_status f) (lit ''session.limit.review'') username active)))"

definition enforce_session_limit :: "automation_env \<Rightarrow> ros_user \<Rightarrow> ros_session list option \<Rightarrow> user_control \<Rightarrow> ros_session list option auto" where
  "enforce_session_limit env user active observed =
     (case active of
        None \<Rightarrow> throw TypeFailure
      | Some ss \<Rightarrow>
          if session_limit observed \<le> 0 \<or> int (length (of_user (us_name user) ss)) \<le> session_limit observed
          then ret active
          else on_coordination_loss (with_user_lock env user (cap_sessions env user active))
            (give_up env ''session.limit'' ''unknown'' (lit ''session.limit.review'') (us_name user) active))"

section \<open>The worker\<close>

text \<open>Accounts in use from several sources, in the order of their first session, with the sources sorted.\<close>

definition first_uses :: "'a list \<Rightarrow> 'a list" where
  "first_uses xs = rev (remdups (rev xs))"

definition simultaneous_session_sources :: "ros_session list \<Rightarrow> (pystr \<times> pystr list) list" where
  "simultaneous_session_sources sessions =
     (let pairs = filter (\<lambda>(u, s). u \<noteq> [] \<and> s \<noteq> []) (map (\<lambda>x. (py_strip (ss_name x), py_strip (ss_source x))) sessions) in
      filter (\<lambda>(_, sources). 1 < length sources)
        (map (\<lambda>u. (u, sort (remdups (map snd (filter (\<lambda>(v, _). v = u) pairs))))) (first_uses (map fst pairs))))"

definition alert_sources :: "automation_env \<Rightarrow> (pystr, user_control) dict \<Rightarrow> pystr \<times> pystr list \<Rightarrow> unit \<Rightarrow> unit auto" where
  "alert_sources env controls = (\<lambda>(username, _) _.
     andthen (controls_read env username) (\<lambda>fallback.
     if \<not> uc_notifications (dget_or controls username fallback) then ret ()
     else andthen (alerted env ''warning'' (lit ''session.multiple_sources'') username) (\<lambda>created.
       if created then audited env ''session.multiple_sources'' username ''warning'' else ret ())))"

text \<open>The state computed before the lock is not used: it is computed again under the lock.\<close>

definition poll_user :: "automation_env \<Rightarrow> (pystr, user_control) dict \<Rightarrow> int \<Rightarrow> ros_user \<Rightarrow> ros_session list option \<Rightarrow> ros_session list option auto" where
  "poll_user env controls now user active =
     andthen (controls_read env (us_name user)) (\<lambda>fallback.
       let control = dget_or controls (us_name user) fallback in
       andthen (automation_state env (us_name user) control now) (\<lambda>_.
       andthen (apply_automation_access env user active now) (\<lambda>active. enforce_session_limit env user active control)))"

definition clock_read :: "automation_env \<Rightarrow> int auto" where
  "clock_read env h = (h, Inr (ae_now env h))"

text \<open>One signed-in session's turn; only a failure of RouterOS is survived.\<close>

definition poll_session :: "automation_env \<Rightarrow> unit auto" where
  "poll_session env =
     handle
       (andthen (andthen (read_users env) (obtained RouterFailure)) (\<lambda>users.
        andthen (andthen (fresh_sessions env) (obtained RouterFailure)) (\<lambda>active.
        andthen (andthen (ask (ae_store env) (Observed active)) (require StoreFailure)) (\<lambda>_.
        andthen (andthen (ask (ae_all_controls env) AllControlsRead) (obtained StoreFailure)) (\<lambda>controls.
        andthen (clock_read env) (\<lambda>now.
        andthen (each (alert_sources env controls) (simultaneous_session_sources active) ()) (\<lambda>_.
        andthen (each (poll_user env controls now) users (Some active)) (\<lambda>_. ret ()))))))))
       (\<lambda>e. if e = RouterFailure then ret () else throw e)"

text \<open>A turn of the loop: every signed-in session in turn.\<close>

definition telemetry_turn :: "automation_env \<Rightarrow> nat \<Rightarrow> unit auto" where
  "telemetry_turn env sessions = each (\<lambda>_ _. poll_session env) [0..<sessions] ()"

end
