(* ===== verification/Automation_Props.thy ===== *)
theory Automation_Props
  imports Automation
begin

text \<open>
  What the automatic enforcement does to RouterOS, whatever RouterOS, the store and the other instances answer. Each call of a run is justified
  by the calls before it (\<open>automation_rule\<close>): the proofs execute the operations symbolically.
\<close>

section \<open>Justification\<close>

fun latest_users :: "call list \<Rightarrow> ros_user list option" where
  "latest_users [] = None"
| "latest_users (UsersRead us # _) = us"
| "latest_users (_ # h) = latest_users h"

fun latest_controls :: "pystr \<Rightarrow> call list \<Rightarrow> user_control option" where
  "latest_controls u [] = None"
| "latest_controls u (ControlsRead v c # h) = (if v = u then c else latest_controls u h)"
| "latest_controls u (_ # h) = latest_controls u h"

definition found :: "ros_user list option \<Rightarrow> ros_user \<Rightarrow> bool" where
  "found us user \<longleftrightarrow> (case us of None \<Rightarrow> False | Some l \<Rightarrow> find (\<lambda>u. us_id u = us_id user) l = Some user)"

text \<open>RouterOS was last seen with an account of this name disabled.\<close>

definition known_disabled :: "pystr \<Rightarrow> call list \<Rightarrow> bool" where
  "known_disabled username h \<longleftrightarrow> (\<exists>us user. latest_users h = Some us \<and> user \<in> set us \<and> us_name user = username \<and> us_disabled user)"

text \<open>The account's lock is held when its last acquisition succeeded and it was not released since; the calls made since then.\<close>

definition lock_call :: "pystr \<Rightarrow> call \<Rightarrow> bool" where
  "lock_call key c \<longleftrightarrow> c = Locked key True \<or> c = Unlocked key"

definition locked :: "pystr \<Rightarrow> call list \<Rightarrow> bool" where
  "locked key h \<longleftrightarrow> (case dropWhile (\<lambda>c. \<not> lock_call key c) h of [] \<Rightarrow> False | c # _ \<Rightarrow> c = Locked key True)"

definition locked_calls :: "pystr \<Rightarrow> call list \<Rightarrow> call list" where
  "locked_calls key h = takeWhile (\<lambda>c. \<not> lock_call key c) h"

text \<open>The last checks before a change: with Redis the lease of the lock, before and after the reviews are invalidated.\<close>

definition owned :: "automation_env \<Rightarrow> pystr \<Rightarrow> call list" where
  "owned env key = (if ae_redis env then [OwnedChecked key True] else [])"

definition lock_guards :: "automation_env \<Rightarrow> pystr \<Rightarrow> call list" where
  "lock_guards env key = owned env key @ [Invalidated key True] @ owned env key"

definition own_restriction :: "pystr \<Rightarrow> call list \<Rightarrow> bool" where
  "own_restriction username h \<longleftrightarrow> (\<exists>c. latest_controls username h = Some c \<and>
     uc_state c \<in> {lit ''quota'', lit ''schedule'', lit ''pending:quota'', lit ''pending:schedule''})"

fun automation_rule :: "automation_env \<Rightarrow> call list \<Rightarrow> call \<Rightarrow> bool" where
  "automation_rule env past (Updated uid True ok) \<longleftrightarrow> (\<exists>user state us name rest.
     us_id user = uid \<and> \<not> us_disabled user \<and> found (Some us) user \<and> found (latest_users rest) user \<and>
     locked (resource_key_of user) past \<and>
     locked_calls (resource_key_of user) past = lock_guards env (resource_key_of user) @
       [StateSet (us_name user) (lit ''pending:'' @ state) True, UsersRead (Some us), Exported name True] @ rest)"
| "automation_rule env past (Updated uid False ok) \<longleftrightarrow> (\<exists>user us name rest.
     us_id user = uid \<and> us_disabled user \<and> found (Some us) user \<and> found (latest_users rest) user \<and> own_restriction (us_name user) rest \<and>
     locked (resource_key_of user) past \<and>
     locked_calls (resource_key_of user) past = lock_guards env (resource_key_of user) @ [UsersRead (Some us), Exported name True] @ rest)"
| "automation_rule env past (StateSet username state ok) \<longleftrightarrow>
     state = [] \<or> take 8 state = lit ''pending:'' \<or> known_disabled username past"
| "automation_rule env past (Terminated sid ok) \<longleftrightarrow> (\<exists>user ss rest s. locked (resource_key_of user) past \<and>
     locked_calls (resource_key_of user) past = owned env (resource_key_of user) @ SessionsRead (Some ss) # rest \<and>
     s \<in> set ss \<and> ss_id s = sid \<and> ss_name s = us_name user \<and>
     (known_disabled (us_name user) rest \<or>
      (\<exists>c. found (latest_users rest) user \<and> latest_controls (us_name user) rest = Some c \<and> 0 < session_limit c \<and>
         sid \<in> ss_id ` set (drop (nat (session_limit c)) (of_user (us_name user) ss)))))"
| "automation_rule env past _ = True"

text \<open>Calls other than those on the account's lock leave it alone.\<close>

lemma locked_call [simp]:
  "\<not> lock_call key c \<Longrightarrow> locked key (c # h) = locked key h"
  "\<not> lock_call key c \<Longrightarrow> locked_calls key (c # h) = c # locked_calls key h"
  by (simp_all add: locked_def locked_calls_def)

lemma lock_call_simps [simp]:
  "\<not> lock_call key (UsersRead a)" "\<not> lock_call key (SessionsRead b)" "\<not> lock_call key (Exported n ok)" "\<not> lock_call key (Updated i d ok)"
  "\<not> lock_call key (Terminated i ok)" "\<not> lock_call key (OwnedChecked k ok)" "\<not> lock_call key (Invalidated k ok)"
  "\<not> lock_call key (ControlsRead n c)" "\<not> lock_call key (AllControlsRead cs)" "\<not> lock_call key (QuotaRead n t q)"
  "\<not> lock_call key (StateSet n st ok)" "\<not> lock_call key (Observed ss ok)" "\<not> lock_call key (Audited n m st ok)"
  "\<not> lock_call key (Alerted n m st r)" "\<not> lock_call key (Locked k False)"
  "lock_call key (Locked k True) \<longleftrightarrow> k = key" "lock_call key (Unlocked k) \<longleftrightarrow> k = key"
  by (auto simp: lock_call_def)

lemma just_locked [simp]: "locked key (Locked key True # h)" "locked_calls key (Locked key True # h) = []"
  by (simp_all add: locked_def locked_calls_def)

lemma locked_append [simp]:
  "locked key (owned env k @ h) = locked key h" "locked_calls key (owned env k @ h) = owned env k @ locked_calls key h"
  by (simp_all add: owned_def)

lemma locked_guards [simp]:
  "locked key (lock_guards env k @ h) = locked key h" "locked_calls key (lock_guards env k @ h) = lock_guards env k @ locked_calls key h"
  by (simp_all add: lock_guards_def)

abbreviation lawful :: "automation_env \<Rightarrow> call list \<Rightarrow> bool" where
  "lawful env \<equiv> justified (automation_rule env)"

section \<open>Symbolic execution\<close>

lemma wp_require [wp_simps]: "wp (require e ok) Q E = (\<lambda>h. (ok \<longrightarrow> Q () h) \<and> (\<not> ok \<longrightarrow> E e h))"
  by (simp add: require_def wp_simps)

lemma wp_obtained [wp_simps]: "wp (obtained e x) Q E = (\<lambda>h. (x = None \<longrightarrow> E e h) \<and> (\<forall>y. x = Some y \<longrightarrow> Q y h))"
  by (simp add: obtained_def wp_simps)

lemma wp_attempt [wp_simps]:
  "wp (attempt e m) Q E = wp m (\<lambda>_. Q True) (\<lambda>e' h. (e' = e \<longrightarrow> Q False h) \<and> (e' \<noteq> e \<longrightarrow> E e' h))"
  by (simp add: attempt_def wp_simps)

lemma wp_clock [wp_simps]: "wp (clock_read env) Q E = (\<lambda>h. Q (ae_now env h) h)"
  by (simp add: wp_def clock_read_def fun_eq_iff)

lemmas calls_def = audited_def alerted_def state_set_def controls_read_def exported_def read_users_def fresh_sessions_def give_up_def

text \<open>Under the lock of an account.\<close>

abbreviation under :: "automation_env \<Rightarrow> pystr \<Rightarrow> call list \<Rightarrow> bool" where
  "under env key h \<equiv> lawful env h \<and> locked key h"

text \<open>Calls that need no justification and read no account.\<close>

lemma wp_give_up: "lawful env h \<Longrightarrow> (\<And>h. lawful env h \<Longrightarrow> Q result h) \<Longrightarrow> (\<And>e h. lawful env h \<Longrightarrow> E e h) \<Longrightarrow>
    wp (give_up env action status alert target result) Q E h"
  by (auto simp: calls_def wp_simps split: option.splits)

lemma wp_automation_state: "under env key h \<Longrightarrow>
    (\<And>s h'. under env key h' \<Longrightarrow> latest_controls u (locked_calls key h') = latest_controls u (locked_calls key h) \<Longrightarrow> Q s h') \<Longrightarrow>
    (\<And>e h. lawful env h \<Longrightarrow> E e h) \<Longrightarrow> wp (automation_state env username control now) Q E h"
  by (auto simp: automation_state_def Let_def wp_simps split: option.splits)

lemma wp_automation_state': "lawful env h \<Longrightarrow> (\<And>s h'. lawful env h' \<Longrightarrow> Q s h') \<Longrightarrow>
    (\<And>e h. lawful env h \<Longrightarrow> E e h) \<Longrightarrow> wp (automation_state env username control now) Q E h"
  by (auto simp: automation_state_def Let_def wp_simps split: option.splits)

lemma wp_assert_owned:
  "under env key h \<Longrightarrow> (\<And>h'. h' = owned env key @ h \<Longrightarrow> under env key h' \<Longrightarrow> Q () h') \<Longrightarrow> (\<And>e h. lawful env h \<Longrightarrow> E e h) \<Longrightarrow>
     wp (assert_owned_lock env key) Q E h"
  by (cases "ae_redis env") (auto simp: assert_owned_lock_def wp_simps owned_def)

section \<open>Sessions\<close>

definition ending_ok :: "ros_user \<Rightarrow> nat option \<Rightarrow> call list \<Rightarrow> bool" where
  "ending_ok user cap h \<longleftrightarrow>
     (case cap of
        None \<Rightarrow> known_disabled (us_name user) h
      | Some m \<Rightarrow> \<exists>c. found (latest_users h) user \<and> latest_controls (us_name user) h = Some c \<and> session_limit c = int m \<and> 0 < m)"

lemma ending_ok_quiet [simp]:
  "ending_ok u cap (SessionsRead x # h) = ending_ok u cap h"
  "ending_ok u cap (OwnedChecked k b # h) = ending_ok u cap h"
  "ending_ok u cap (owned env k @ h) = ending_ok u cap h"
  "ending_ok u cap (Terminated sid b # h) = ending_ok u cap h"
  by (simp_all add: ending_ok_def known_disabled_def owned_def split: option.splits)

lemma ending_justified:
  fixes user h
  defines "key \<equiv> resource_key_of user"
  assumes "locked key h" and "ending_ok user cap (locked_calls key h)"
    and "find (session_matches target) (of_user (us_name user) ss) = Some exact"
    and "\<And>m. cap = Some m \<Longrightarrow> list_ex (session_matches target) (drop m (of_user (us_name user) ss))"
  shows "automation_rule env (owned env key @ SessionsRead (Some ss) # h) (Terminated (ss_id exact) ok)"
proof -
  let ?rest = "locked_calls key h"
  have e: "exact \<in> set (of_user (us_name user) ss)" "session_matches target exact"
    using assms(4) by (auto simp: find_Some_iff)
  then have s: "exact \<in> set ss" "ss_name exact = us_name user" by (auto simp: of_user_def)
  have why: "known_disabled (us_name user) ?rest \<or> (\<exists>c. found (latest_users ?rest) user \<and> latest_controls (us_name user) ?rest = Some c \<and>
      0 < session_limit c \<and> ss_id exact \<in> ss_id ` set (drop (nat (session_limit c)) (of_user (us_name user) ss)))"
  proof (cases cap)
    case None
    then show ?thesis using assms(3) by (simp add: ending_ok_def)
  next
    case (Some m)
    then obtain x where x: "x \<in> set (drop m (of_user (us_name user) ss))" "session_matches target x"
      using assms(5) by (auto simp: list_ex_iff)
    have "ss_id x = ss_id exact" using x(2) e(2) by (simp add: session_matches_def)
    with x(1) have "ss_id exact \<in> ss_id ` set (drop m (of_user (us_name user) ss))" by (metis image_eqI)
    then show ?thesis using assms(3) Some by (fastforce simp: ending_ok_def)
  qed
  show ?thesis
    unfolding automation_rule.simps
    by (rule exI [of _ user], rule exI [of _ ss], rule exI [of _ ?rest], rule exI [of _ exact])
      (use why s assms(2) in \<open>simp flip: key_def\<close>)
qed

lemma wp_terminate_one:
  fixes user
  defines "key \<equiv> resource_key_of user"
  assumes "under env key h" and "ending_ok user cap (locked_calls key h)"
  shows "wp (terminate_one env key (us_name user) cap target acc)
    (\<lambda>_ h. under env key h \<and> ending_ok user cap (locked_calls key h)) (\<lambda>_ h. lawful env h) h"
proof -
  obtain l c where acc: "acc = (l, c)" by (metis surj_pair)
  have j: "automation_rule env (owned env key @ SessionsRead (Some ss) # h) (Terminated (ss_id exact) ok)"
    if "find (session_matches target) (of_user (us_name user) ss) = Some exact"
      "\<And>m. cap = Some m \<Longrightarrow> list_ex (session_matches target) (drop m (of_user (us_name user) ss))" for ss exact ok
    using ending_justified [of user h cap target ss exact env ok] assms(2,3) that by (simp add: key_def)
  show ?thesis
    using assms(2,3) j
    by (auto simp: acc terminate_one_def calls_def wp_simps Let_def simp del: automation_rule.simps(4) split: option.splits
        intro!: wp_assert_owned)
qed

lemma wp_terminate_sessions:
  assumes "under env (resource_key_of user) h" and "ending_ok user cap (locked_calls (resource_key_of user) h)"
  shows "wp (terminate_sessions env (resource_key_of user) (us_name user) cap targets)
    (\<lambda>_ h. under env (resource_key_of user) h \<and> ending_ok user cap (locked_calls (resource_key_of user) h)) (\<lambda>_ h. lawful env h) h"
  using assms
  by (auto simp: terminate_sessions_def fresh_sessions_def wp_simps intro!: wp_each wp_mono [OF wp_terminate_one])

section \<open>Accounts\<close>

lemma readback_known:
  "find P us = Some current \<Longrightarrow> us_name current = u \<Longrightarrow> us_disabled current \<Longrightarrow> known_disabled u (UsersRead (Some us) # h)"
  by (auto simp: known_disabled_def find_Some_iff intro: nth_mem)

lemma found_known: "found (Some us) user \<Longrightarrow> us_disabled user \<Longrightarrow> known_disabled (us_name user) (UsersRead (Some us) # h)"
  by (auto simp: found_def known_disabled_def find_Some_iff in_set_conv_nth split: option.splits)

lemma wp_guarded_update:
  assumes "under env (resource_key_of user) h"
    and "\<And>ok. automation_rule env (lock_guards env (resource_key_of user) @ h) (Updated (us_id user) disabled ok)"
    and "\<And>r h'. under env (resource_key_of user) h' \<Longrightarrow> Q r h'" and "\<And>e h. lawful env h \<Longrightarrow> E e h"
  shows "wp (guarded_update env (resource_key_of user) (us_id user) disabled) Q E h"
proof (cases "ae_redis env")
  case True
  with assms show ?thesis
    by (auto simp: guarded_update_def assert_owned_lock_def wp_simps lock_guards_def owned_def simp del: automation_rule.simps(1,2))
next
  case False
  with assms show ?thesis
    by (auto simp: guarded_update_def assert_owned_lock_def wp_simps lock_guards_def owned_def simp del: automation_rule.simps(1,2))
qed

lemma wp_user_readback:
  assumes "\<And>us. Q ReadbackUnknown (UsersRead us # h)"
    and "\<And>us current. find (\<lambda>u. us_id u = us_id expected) us = Some current \<Longrightarrow> Q (ReadbackStale current) (UsersRead (Some us) # h)"
    and "\<And>us current. find (\<lambda>u. us_id u = us_id expected) us = Some current \<Longrightarrow> Q (Mismatch current) (UsersRead (Some us) # h)"
    and "\<And>us current. find (\<lambda>u. us_id u = us_id expected) us = Some current \<Longrightarrow> us_name current = us_name expected \<Longrightarrow>
      us_disabled current = disabled \<Longrightarrow> Q (Verified current) (UsersRead (Some us) # h)"
  shows "wp (user_readback env expected disabled) Q E h"
  using assms by (auto simp: user_readback_def read_users_def wp_simps split: option.splits)

lemma wp_fresh_user:
  assumes "\<And>us. Q FreshUnknown (UsersRead us # h)" and "\<And>us current. Q (Stale current) (UsersRead (Some us) # h)"
    and "\<And>us. found (Some us) expected \<Longrightarrow> Q (Fresh expected) (UsersRead (Some us) # h)"
  shows "wp (fresh_user env expected) Q E h"
  using assms by (auto simp: fresh_user_def found_def read_users_def wp_simps split: option.splits)

lemma wp_exported: "Q True (Exported name True # h) \<Longrightarrow> Q False (Exported name False # h) \<Longrightarrow> wp (exported env name) Q E h"
  by (cases "ae_export env h") (auto simp: exported_def wp_simps)

lemma wp_case_freshness [wp_simps]:
  "wp (case f of Fresh u \<Rightarrow> a u | Stale u \<Rightarrow> b u | FreshUnknown \<Rightarrow> c) Q E =
     (\<lambda>h. (\<forall>u. f = Fresh u \<longrightarrow> wp (a u) Q E h) \<and> (\<forall>u. f = Stale u \<longrightarrow> wp (b u) Q E h) \<and> (f = FreshUnknown \<longrightarrow> wp c Q E h))"
  by (cases f) (auto simp: fun_eq_iff)

lemma wp_case_readback [wp_simps]:
  "wp (case r of Verified u \<Rightarrow> a u | Mismatch u \<Rightarrow> b u | ReadbackStale u \<Rightarrow> c u | ReadbackUnknown \<Rightarrow> d) Q E =
     (\<lambda>h. (\<forall>u. r = Verified u \<longrightarrow> wp (a u) Q E h) \<and> (\<forall>u. r = Mismatch u \<longrightarrow> wp (b u) Q E h) \<and>
        (\<forall>u. r = ReadbackStale u \<longrightarrow> wp (c u) Q E h) \<and> (r = ReadbackUnknown \<longrightarrow> wp d Q E h))"
  by (cases r) (auto simp: fun_eq_iff)

text \<open>The exit of an operation: lawful, whatever it returns.\<close>

abbreviation (input) "lawful_ret env \<equiv> (\<lambda>_ h. lawful env h)"

lemma wp_give_up': "lawful env h \<Longrightarrow> wp (give_up env action status alert target result) (lawful_ret env) (lawful_ret env) h"
  by (rule wp_give_up)

lemma restore_rule:
  assumes "us_disabled user" and "locked (resource_key_of user) h" and "found (latest_users (locked_calls (resource_key_of user) h)) user"
    and "found (Some us) user" and "own_restriction (us_name user) (locked_calls (resource_key_of user) h)"
  shows "automation_rule env (lock_guards env (resource_key_of user) @ UsersRead (Some us) # Exported name True # h) (Updated (us_id user) False ok)"
  unfolding automation_rule.simps
  by (rule exI [of _ user], rule exI [of _ us], rule exI [of _ name], rule exI [of _ "locked_calls (resource_key_of user) h"]) (use assms in simp)

lemma disable_rule:
  assumes "\<not> us_disabled user" and "locked (resource_key_of user) h" and "found (latest_users (locked_calls (resource_key_of user) h)) user"
    and "found (Some us) user"
  shows "automation_rule env (lock_guards env (resource_key_of user) @ StateSet (us_name user) (lit ''pending:'' @ state) True #
      UsersRead (Some us) # Exported name True # h) (Updated (us_id user) True ok)"
  unfolding automation_rule.simps
  by (rule exI [of _ user], rule exI [of _ state], rule exI [of _ us], rule exI [of _ name],
      rule exI [of _ "locked_calls (resource_key_of user) h"]) (use assms in simp)

lemma wp_restore_disabled:
  assumes "under env (resource_key_of user) h" and "us_disabled user" and "found (latest_users (locked_calls (resource_key_of user) h)) user"
    and "own_restriction (us_name user) (locked_calls (resource_key_of user) h)"
  shows "wp (restore_disabled env user user active control now) (lawful_ret env) (lawful_ret env) h"
  unfolding restore_disabled_def Let_def wp_simps
  using assms
  by (auto simp: wp_simps wp_give_up' simp del: automation_rule.simps(1,2) intro!: wp_exported wp_fresh_user wp_guarded_update restore_rule)
    (auto simp: wp_simps calls_def intro!: wp_user_readback)

lemma latest_users_quiet [simp]:
  "known_disabled u (SessionsRead x # h) = known_disabled u h"
  "known_disabled u (StateSet n st b # h) = known_disabled u h"
  by (simp_all add: known_disabled_def)

lemma own_restriction_quiet [simp]:
  "own_restriction u (UsersRead x # h) = own_restriction u h"
  "own_restriction u (SessionsRead y # h) = own_restriction u h"
  by (simp_all add: own_restriction_def)

lemma wp_restore_access:
  assumes "under env (resource_key_of user) h" and "own_restriction (us_name user) (locked_calls (resource_key_of user) h)"
  shows "wp (restore_access env user active control pending now) (lawful_ret env) (lawful_ret env) h"
  unfolding restore_access_def Let_def wp_simps
  using assms
  by (auto simp: wp_simps wp_give_up' intro!: wp_fresh_user wp_restore_disabled)
    (auto simp: wp_simps calls_def)

text \<open>Disabling an account ends with RouterOS seen to have it disabled, or with nothing more to do. What was seen under the lock was
  seen.\<close>

definition seen_disabled :: "ros_user \<Rightarrow> call list \<Rightarrow> bool" where
  "seen_disabled user h \<longleftrightarrow> known_disabled (us_name user) (locked_calls (resource_key_of user) h)"

lemma latest_locked: "latest_users (locked_calls key h) = Some us \<Longrightarrow> latest_users h = Some us"
proof (induction h rule: latest_users.induct)
  case (2 us' h)
  then show ?case by (simp add: locked_calls_def)
qed (auto simp: locked_calls_def split: if_splits)

lemma seen_known: "seen_disabled user h \<Longrightarrow> known_disabled (us_name user) h"
  using latest_locked unfolding seen_disabled_def known_disabled_def by blast

lemma seen_quiet [simp]:
  "seen_disabled user (SessionsRead x # h) = seen_disabled user h"
  "seen_disabled user (StateSet n st b # h) = seen_disabled user h"
  by (simp_all add: seen_disabled_def)

lemma found_seen: "found (Some us) user \<Longrightarrow> us_disabled user \<Longrightarrow> seen_disabled user (UsersRead (Some us) # h)"
  by (simp add: seen_disabled_def found_known)

lemma readback_seen:
  "find P us = Some current \<Longrightarrow> us_name current = us_name user \<Longrightarrow> us_disabled current \<Longrightarrow> seen_disabled user (UsersRead (Some us) # h)"
  by (simp add: seen_disabled_def readback_known)

lemma wp_disable_account:
  assumes "under env (resource_key_of user) h" and "\<not> us_disabled user" and "found (latest_users (locked_calls (resource_key_of user) h)) user"
  shows "wp (disable_account env user user state now)
    (\<lambda>r h. lawful env h \<and> (r \<longrightarrow> locked (resource_key_of user) h \<and> seen_disabled user h)) (lawful_ret env) h"
  unfolding disable_account_def Let_def wp_simps
  using assms
  by (auto simp: wp_simps state_set_def simp del: automation_rule.simps(1,2)
      intro!: wp_give_up wp_exported wp_fresh_user wp_guarded_update disable_rule)
    (auto simp: wp_simps calls_def intro!: wp_user_readback readback_seen)

lemma wp_end_access:
  assumes "under env (resource_key_of user) h" and "seen_disabled user h"
  shows "wp (end_access env user control state) (lawful_ret env) (lawful_ret env) h"
proof -
  have t: "wp (terminate_sessions env (resource_key_of user) (us_name user) None ts) Q (\<lambda>_. lawful env) h'"
    if "lawful env h'" "locked (resource_key_of user) h'" "seen_disabled user h'" "\<And>x h. lawful env h \<Longrightarrow> Q x h" for ts Q h'
    using wp_terminate_sessions [of env h' user None ts] that by (auto simp: ending_ok_def seen_disabled_def elim!: wp_mono)
  show ?thesis
    unfolding end_access_def Let_def wp_simps
    using assms by (auto simp: wp_simps calls_def intro!: t)
qed

lemma wp_restrict_access:
  assumes "under env (resource_key_of user) h"
  shows "wp (restrict_access env user active control state previous pending now) (lawful_ret env) (lawful_ret env) h"
  unfolding restrict_access_def Let_def wp_simps fresh_sessions_def state_set_def
  using assms
  by (auto simp: wp_simps wp_give_up' found_known found_seen seen_known intro!: wp_fresh_user wp_end_access wp_mono [OF wp_disable_account])

lemma own_restriction_read:
  assumes "latest_controls u h = Some c" and "(if take 8 (uc_state c) = lit ''pending:'' then drop 8 (uc_state c) else uc_state c) = previous"
    and "previous = lit ''quota'' \<or> previous = lit ''schedule''"
  shows "own_restriction u h"
proof -
  have "uc_state c = previous \<or> uc_state c = lit ''pending:'' @ previous"
    using assms(2) append_take_drop_id [of 8 "uc_state c"] by (metis (full_types))
  then show ?thesis using assms(1,3) by (auto simp: own_restriction_def lit_def)
qed

lemma wp_apply_access_locked:
  assumes "under env (resource_key_of user) h" and "latest_controls (us_name user) (locked_calls (resource_key_of user) h) = Some control"
  shows "wp (apply_access_locked env user active control state now) (lawful_ret env) (lawful_ret env) h"
  using own_restriction_read [OF assms(2) refl] assms(1)
  unfolding apply_access_locked_def Let_def
  by (auto simp: wp_simps wp_restrict_access intro!: wp_restore_access)

text \<open>The section of a lock starts with the lock held, and nothing read yet.\<close>

lemma gate_is_not_a_user [simp]: "provisioning_gate \<noteq> resource_key_of user"
  by (simp add: provisioning_gate_def resource_key_of_def lit_def)

lemma wp_with_user_lock:
  assumes "lawful env h" and "\<And>h. under env (resource_key_of user) h \<Longrightarrow> wp m (lawful_ret env) (lawful_ret env) h"
  shows "wp (with_user_lock env user m) (lawful_ret env) (lawful_ret env) h"
  unfolding with_user_lock_def acquire_def release_def
  using assms by (auto simp: wp_simps wp_lastly intro!: wp_mono [OF assms(2)])

lemma wp_on_coordination_loss:
  "wp m (lawful_ret env) (lawful_ret env) h \<Longrightarrow> (\<And>h. lawful env h \<Longrightarrow> wp a (lawful_ret env) (lawful_ret env) h) \<Longrightarrow>
     wp (on_coordination_loss m a) (lawful_ret env) (lawful_ret env) h"
  by (auto simp: on_coordination_loss_def wp_simps elim!: wp_mono)

lemma wp_apply_automation_access:
  assumes "lawful env h"
  shows "wp (apply_automation_access env user active now) (lawful_ret env) (lawful_ret env) h"
  unfolding apply_automation_access_def
proof (rule wp_on_coordination_loss [OF wp_with_user_lock [OF assms]])
  fix h assume h: "under env (resource_key_of user) h"
  let ?u = "us_name user"
  show "wp (andthen (controls_read env ?u) (\<lambda>control. andthen (automation_state env ?u control now) (\<lambda>state.
      apply_access_locked env user active control state now))) (lawful_ret env) (lawful_ret env) h"
    unfolding controls_read_def wp_simps
    using h by (auto simp: wp_simps intro!: wp_automation_state [where key = "resource_key_of user" and u = ?u] wp_apply_access_locked)
qed (simp add: wp_give_up')

section \<open>The worker\<close>

lemma wp_cap_sessions:
  assumes "under env (resource_key_of user) h"
  shows "wp (cap_sessions env user active) (lawful_ret env) (lawful_ret env) h"
proof -
  let ?u = "us_name user" and ?k = "resource_key_of user"
  have t: "wp (terminate_sessions env ?k ?u (Some m) ts) Q (\<lambda>_. lawful env) h'"
    if "under env ?k h'" "latest_controls ?u (locked_calls ?k h') = Some c" "found (latest_users (locked_calls ?k h')) user"
      "session_limit c = int m" "0 < m" "\<And>x h. under env ?k h \<Longrightarrow> Q x h" for m c ts Q h'
    using wp_terminate_sessions [of env h' user "Some m" ts] that by (auto simp: ending_ok_def elim!: wp_mono)
  have o: "latest_controls u (owned env k @ h) = latest_controls u h" "latest_users (owned env k @ h) = latest_users h" for u k h
    by (simp_all add: owned_def)
  show ?thesis
    unfolding cap_sessions_def Let_def wp_simps controls_read_def fresh_sessions_def audited_def alerted_def
    using assms by (auto simp: wp_simps wp_give_up' Let_def o intro!: wp_fresh_user wp_assert_owned t)
qed

lemma wp_enforce_session_limit:
  "lawful env h \<Longrightarrow> wp (enforce_session_limit env user active observed) (lawful_ret env) (lawful_ret env) h"
  by (auto simp: enforce_session_limit_def wp_simps wp_give_up' wp_cap_sessions intro!: wp_on_coordination_loss wp_with_user_lock)

lemma wp_poll_user: "lawful env h \<Longrightarrow> wp (poll_user env controls now user active) (lawful_ret env) (lawful_ret env) h"
  by (auto simp: poll_user_def controls_read_def wp_simps Let_def
      intro!: wp_automation_state' wp_mono [OF wp_apply_automation_access] wp_enforce_session_limit)

lemma wp_alert_sources: "lawful env h \<Longrightarrow> wp (alert_sources env controls x s) (lawful_ret env) (lawful_ret env) h"
  by (cases x) (auto simp: alert_sources_def calls_def wp_simps)

lemma wp_poll_session: "lawful env h \<Longrightarrow> wp (poll_session env) (lawful_ret env) (lawful_ret env) h"
  unfolding poll_session_def read_users_def fresh_sessions_def
  by (auto simp: wp_simps intro!: wp_mono [OF wp_each [where I = "lawful_ret env", OF wp_alert_sources]]
      wp_mono [OF wp_each [where I = "lawful_ret env", OF wp_poll_user]])

lemma wp_telemetry_turn: "lawful env h \<Longrightarrow> wp (telemetry_turn env n) (lawful_ret env) (lawful_ret env) h"
  unfolding telemetry_turn_def by (rule wp_each) (auto intro: wp_poll_session)

lemma telemetry_turn_lawful: "lawful env h \<Longrightarrow> lawful env (fst (telemetry_turn env n h))"
  using wp_telemetry_turn [of env h n] by (auto simp: wp_def split: prod.splits sum.splits)

lemma telemetry_rule: "fst (telemetry_turn env n []) = later @ c # before \<Longrightarrow> automation_rule env before c"
  using telemetry_turn_lawful [of env "[]" n] justified_iff [of "automation_rule env" "fst (telemetry_turn env n [])"] by simp

section \<open>Properties\<close>

lemma locked_split:
  assumes "locked key h"
  shows "\<exists>outside. h = locked_calls key h @ Locked key True # outside"
proof -
  obtain c outside where "dropWhile (\<lambda>c. \<not> lock_call key c) h = c # outside" "c = Locked key True"
    using assms by (auto simp: locked_def split: list.splits)
  then show ?thesis using takeWhile_dropWhile_id [of "\<lambda>c. \<not> lock_call key c" h] unfolding locked_calls_def by metis
qed

lemma not_released: "Unlocked key \<notin> set (locked_calls key h)"
  by (auto simp: locked_calls_def dest: set_takeWhileD)

text \<open>C11: the worker changes only accounts that it has just checked, under their lock, and only in one direction. In every run, each
  request that disables or enables an account is made between taking and releasing the account's lock, and in this very section (\<open>inside\<close>) the
  account, unchanged in all its fields, was read twice in the opposite state, before and after a configuration checkpoint; right before the
  request all outstanding reviews of the account were invalidated and, with Redis, the lease of the lock was confirmed before and after that.
  An account is disabled only with the intent recorded first, so that a lost answer is not mistaken for an operator's action; and
  it is enabled only when its controls, read in the section, say that the worker itself restricted it for quota or schedule, so never after an
  expiry or an operator's suspension.\<close>

theorem automation_changes_only_checked_accounts:
  assumes "fst (telemetry_turn env n []) = later @ Updated uid disabled ok # before"
  shows "\<exists>user us name rest intent inside outside. us_id user = uid \<and> us_disabled user \<noteq> disabled \<and>
    before = inside @ Locked (resource_key_of user) True # outside \<and> Unlocked (resource_key_of user) \<notin> set inside \<and>
    inside = lock_guards env (resource_key_of user) @ intent @ [UsersRead (Some us), Exported name True] @ rest \<and>
    found (Some us) user \<and> found (latest_users rest) user \<and>
    (if disabled then \<exists>state. intent = [StateSet (us_name user) (lit ''pending:'' @ state) True]
     else intent = [] \<and> own_restriction (us_name user) rest)"
proof -
  note rule = telemetry_rule [OF assms]
  obtain user us name rest intent where c: "us_id user = uid" "us_disabled user \<noteq> disabled" "found (Some us) user" "found (latest_users rest) user"
    "locked (resource_key_of user) before"
    "locked_calls (resource_key_of user) before = lock_guards env (resource_key_of user) @ intent @ [UsersRead (Some us), Exported name True] @ rest"
    "if disabled then \<exists>state. intent = [StateSet (us_name user) (lit ''pending:'' @ state) True] else intent = [] \<and> own_restriction (us_name user) rest"
  proof (cases disabled)
    case True
    with rule obtain user state us name rest where "us_id user = uid" "\<not> us_disabled user" "found (Some us) user" "found (latest_users rest) user"
      "locked (resource_key_of user) before" "locked_calls (resource_key_of user) before = lock_guards env (resource_key_of user) @
        [StateSet (us_name user) (lit ''pending:'' @ state) True, UsersRead (Some us), Exported name True] @ rest"
      by auto
    then show thesis using True by (intro that [of user us rest "[StateSet (us_name user) (lit ''pending:'' @ state) True]" name]) auto
  next
    case False
    with rule obtain user us name rest where "us_id user = uid" "us_disabled user" "found (Some us) user" "found (latest_users rest) user"
      "own_restriction (us_name user) rest" "locked (resource_key_of user) before"
      "locked_calls (resource_key_of user) before = lock_guards env (resource_key_of user) @ [UsersRead (Some us), Exported name True] @ rest"
      by auto
    then show thesis using False by (intro that [of user us rest "[]" name]) auto
  qed
  from locked_split [OF c(5)] not_released [of "resource_key_of user" before] c show ?thesis by metis
qed


text \<open>A restriction is recorded as in force only when RouterOS was last seen with the account disabled.\<close>

lemma recorded_restrictions_are_confirmed:
  assumes "fst (telemetry_turn env n []) = later @ StateSet username state ok # before"
    and "state \<noteq> []" and "take 8 state \<noteq> lit ''pending:''"
  shows "known_disabled username before"
  using telemetry_rule [OF assms(1)] assms(2,3) by simp

section \<open>Runs\<close>

text \<open>Ada's access has expired; RouterOS does what it is told. \<open>readable\<close> says whether sessions can be read after the account was
  disabled.\<close>

definition ada :: ros_user where
  "ada = \<lparr>us_id = [1], us_name = [97], us_profile = [], us_comment = [], us_disabled = False\<rparr>"

definition ada_first :: ros_session where
  "ada_first = \<lparr>ss_id = [7], ss_name = [97], ss_session_id = [], ss_source = [], ss_vpn = []\<rparr>"

definition disabled_in :: "call list \<Rightarrow> bool" where
  "disabled_in h = list_ex (\<lambda>c. case c of Updated _ _ _ \<Rightarrow> True | _ \<Rightarrow> False) h"

definition ended_in :: "call list \<Rightarrow> bool" where
  "ended_in h = list_ex (\<lambda>c. case c of Terminated _ _ \<Rightarrow> True | _ \<Rightarrow> False) h"

definition ada_controls :: user_control where
  "ada_controls = control_defaults\<lparr>uc_expires := Some 1\<rparr>"

definition ada_env :: "bool \<Rightarrow> automation_env" where
  "ada_env readable = \<lparr>ae_redis = True,
     ae_users = (\<lambda>h. Some [ada\<lparr>us_disabled := disabled_in h\<rparr>]),
     ae_sessions = (\<lambda>h. if disabled_in h \<and> \<not> readable then None
       else Some (if ended_in h then [] else [ada_first])),
     ae_export = (\<lambda>_. True), ae_update = (\<lambda>_. True), ae_terminate = (\<lambda>_. True), ae_lock = (\<lambda>_. True), ae_owned = (\<lambda>_. True),
     ae_invalidate = (\<lambda>_. True), ae_controls = (\<lambda>_. Some ada_controls), ae_all_controls = (\<lambda>_. Some [([97], ada_controls)]),
     ae_quota = (\<lambda>_. Some 0), ae_store = (\<lambda>_. True), ae_alert = (\<lambda>_. Some True), ae_now = (\<lambda>_. 100),
     ae_localtime = (\<lambda>_. (2026, 1, 12, 0, 0)), ae_month_start = (\<lambda>_ _. 0)\<rparr>"

text \<open>The answers of this environment, and what the calls say of the past.\<close>

lemma ada_answers:
  "ae_redis (ada_env r)" "ae_users (ada_env r) h = Some [ada\<lparr>us_disabled := disabled_in h\<rparr>]"
  "ae_sessions (ada_env False) h = (if disabled_in h then None
     else Some (if ended_in h then [] else [ada_first]))"
  "ae_export (ada_env r) h" "ae_update (ada_env r) h" "ae_terminate (ada_env r) h" "ae_lock (ada_env r) h" "ae_owned (ada_env r) h"
  "ae_invalidate (ada_env r) h" "ae_controls (ada_env r) h = Some ada_controls" "ae_all_controls (ada_env r) h = Some [([97], ada_controls)]"
  "ae_store (ada_env r) h" "ae_alert (ada_env r) h = Some True" "ae_now (ada_env r) h = 100"
  "automation_state (ada_env r) [97] ada_controls 100 = ret (lit ''expired'')"
  by (simp_all add: ada_env_def automation_state_def ada_controls_def)

lemma ada_policy:
  "ss_name ada_first = [97]" "of_user [97] [ada_first] = [ada_first]"
  "uc_state ada_controls = []" "uc_notifications ada_controls" "us_name ada = [97]" "us_id ada = [1]" "\<not> us_disabled ada"
  "ada\<lparr>us_disabled := False\<rparr> = ada"
  by (simp_all add: ada_controls_def control_defaults_def ada_def ada_first_def of_user_def)

lemma past_simps:
  "\<not> disabled_in []" "disabled_in (Updated i b ok # h)" "disabled_in (Locked k ok # h) = disabled_in h" "disabled_in (Unlocked k # h) = disabled_in h"
  "disabled_in (OwnedChecked k ok # h) = disabled_in h" "disabled_in (Invalidated k ok # h) = disabled_in h"
  "disabled_in (UsersRead us # h) = disabled_in h" "disabled_in (SessionsRead ss # h) = disabled_in h"
  "disabled_in (ControlsRead n cs # h) = disabled_in h" "disabled_in (AllControlsRead cd # h) = disabled_in h"
  "disabled_in (Observed l ok # h) = disabled_in h" "disabled_in (Exported n ok # h) = disabled_in h"
  "disabled_in (StateSet n k ok # h) = disabled_in h" "disabled_in (Audited n k st ok # h) = disabled_in h"
  "disabled_in (Alerted n k st res # h) = disabled_in h"
  by (simp_all add: disabled_in_def)

lemma ended_in_simps:
  "ended_in [] = False" "ended_in (Terminated i ok # h)" "ended_in (Locked k ok # h) = ended_in h" "ended_in (Unlocked k # h) = ended_in h"
  "ended_in (OwnedChecked k ok # h) = ended_in h" "ended_in (Invalidated k ok # h) = ended_in h"
  "ended_in (UsersRead us # h) = ended_in h" "ended_in (SessionsRead ss # h) = ended_in h" "ended_in (ControlsRead n cs # h) = ended_in h"
  "ended_in (AllControlsRead cd # h) = ended_in h" "ended_in (Observed l ok # h) = ended_in h" "ended_in (Exported n ok # h) = ended_in h"
  "ended_in (StateSet n k ok # h) = ended_in h" "ended_in (Updated i b ok # h) = ended_in h"
  by (simp_all add: ended_in_def)

lemmas turn_defs = telemetry_turn_def poll_session_def poll_user_def enforce_session_limit_def on_coordination_loss_def with_user_lock_def
  acquire_def release_def assert_owned_lock_def terminate_sessions_def terminate_one_def fresh_user_def calls_def attempt_def require_def
  obtained_def clock_read_def Let_def run_simps ended_in_simps dget_or_def

lemma ada_sources: "simultaneous_session_sources [ada_first] = []"
  by (simp add: simultaneous_session_sources_def first_uses_def py_strip_def ada_first_def)

lemma ada_apply: "apply_access_locked env user active ada_controls (lit ''expired'') now = restrict_access env user active ada_controls (lit ''expired'') [] False now"
  by (simp add: apply_access_locked_def ada_policy lit_def)

text \<open>The part of the worker's turn under Ada's lock.\<close>

definition ada_start :: "call list" where
  "ada_start = [ControlsRead [97] (Some ada_controls), Unlocked provisioning_gate, Locked (resource_key_of ada) True, Locked provisioning_gate True,
     ControlsRead [97] (Some ada_controls), AllControlsRead (Some [([97], ada_controls)]),
     Observed [ada_first] True,
     SessionsRead (Some [ada_first]), UsersRead (Some [ada])]"

lemma ada_start_past: "\<not> disabled_in ada_start" "\<not> ended_in ada_start"
  by (simp_all add: ada_start_def past_simps ended_in_simps)

lemma ada_restricted:
  "\<exists>more. restrict_access (ada_env False) ada (Some active) ada_controls (lit ''expired'') [] False 100 ada_start =
     (more @ Updated [1] True True # [OwnedChecked (resource_key_of ada) True, Invalidated (resource_key_of ada) True,
        OwnedChecked (resource_key_of ada) True, StateSet [97] (lit ''pending:'' @ lit ''expired'') True, UsersRead (Some [ada]),
        Exported (checkpoint_name ''enforcement'' [97] 100) True,
        SessionsRead (Some [ada_first]), UsersRead (Some [ada])] @ ada_start, Inr None)"
  by (simp add: restrict_access_def disable_account_def guarded_update_def user_readback_def end_access_def turn_defs ada_answers ada_policy past_simps
      ada_start_past of_user_def lit_def)

lemma ada_turn:
  "\<exists>more. telemetry_turn (ada_env False) 1 [] = (more @ Updated [1] True True # [OwnedChecked (resource_key_of ada) True,
     Invalidated (resource_key_of ada) True, OwnedChecked (resource_key_of ada) True, StateSet [97] (lit ''pending:'' @ lit ''expired'') True,
     UsersRead (Some [ada]), Exported (checkpoint_name ''enforcement'' [97] 100) True,
     SessionsRead (Some [ada_first]), UsersRead (Some [ada])] @ ada_start,
     Inl TypeFailure)"
proof -
  obtain more where m: "restrict_access (ada_env False) ada (Some [ada_first]) ada_controls (lit ''expired'') [] False 100 ada_start =
     (more @ Updated [1] True True # [OwnedChecked (resource_key_of ada) True, Invalidated (resource_key_of ada) True,
        OwnedChecked (resource_key_of ada) True, StateSet [97] (lit ''pending:'' @ lit ''expired'') True, UsersRead (Some [ada]),
        Exported (checkpoint_name ''enforcement'' [97] 100) True,
        SessionsRead (Some [ada_first]), UsersRead (Some [ada])] @ ada_start, Inr None)"
    using ada_restricted by blast
  show ?thesis
    by (rule exI [of _ "Unlocked (resource_key_of ada) # more"])
      (simp add: turn_defs apply_automation_access_def ada_answers ada_policy past_simps ada_sources ada_apply m [unfolded ada_start_def] ada_start_def)
qed

text \<open>When the sessions cannot be read after the account was disabled, the worker passes \<open>None\<close> on as the list of sessions and stops with a
  \<open>TypeError\<close>, which its loop does not catch: from then on no policy is enforced.\<close>

lemma unreadable_sessions_stop_the_worker: "snd (telemetry_turn (ada_env False) 1 []) = Inl TypeFailure"
  using ada_turn by auto

lemma ada_disabled: "Updated [1] True True \<in> set (fst (telemetry_turn (ada_env False) 1 []))"
  using ada_turn by auto

theorem automation_changes_only_checked_accounts_witness:
  "\<exists>later before user us inside outside. fst (telemetry_turn (ada_env False) 1 []) = later @ Updated [1] True True # before \<and>
     us_id user = [1] \<and> \<not> us_disabled user \<and> before = inside @ Locked (resource_key_of user) True # outside \<and>
     found (Some us) user \<and> UsersRead (Some us) \<in> set inside"
proof -
  obtain later before where h: "fst (telemetry_turn (ada_env False) 1 []) = later @ Updated [1] True True # before"
    using split_list [OF ada_disabled] by blast
  from automation_changes_only_checked_accounts [OF h] obtain user us inside outside where
    "us_id user = [1]" "us_disabled user \<noteq> True" "found (Some us) user" "before = inside @ Locked (resource_key_of user) True # outside"
    "UsersRead (Some us) \<in> set inside"
    by fastforce
  with h show ?thesis by blast
qed








end
