(* ===== verification/Certificate_Lifecycle.thy ===== *)
theory Certificate_Lifecycle
  imports Prelude
begin

text \<open>
  \<open>certificate_lifecycle.py\<close>: the relative times of RouterOS, such as \<open>3w2d4h5m6s\<close>. The regular expression reads an optional
  number in front of each unit letter in turn; since the letters differ, its match is unique; case is ignored, and the long s (U+017F) is an s then. \<open>str(value or "")\<close> is the argument.
\<close>

text \<open>The digits \<open>\d\<close> (decimal digits of any script) at the front; \<open>digit\<close> tells them and their values apart.\<close>

definition take_unit :: "(nat \<Rightarrow> int option) \<Rightarrow> nat \<Rightarrow> pystr \<Rightarrow> int option \<times> pystr" where
  "take_unit digit letter s =
     (let ds = takeWhile (\<lambda>c. digit c \<noteq> None) s; rest = dropWhile (\<lambda>c. digit c \<noteq> None) s in
      if ds \<noteq> [] \<and> rest \<noteq> [] \<and> (hd rest = letter \<or> hd rest + 32 = letter \<or> hd rest = 383 \<and> letter = 115)
      then (Some (fold (\<lambda>c n. 10 * n + the (digit c)) ds 0), tl rest) else (None, s))"

text \<open>Weeks, days, hours, minutes and seconds; the whole string must be used up.\<close>

definition duration_units :: "(nat \<times> int) list" where
  "duration_units = [(119, 604800), (100, 86400), (104, 3600), (109, 60), (115, 1)]"

fun read_units :: "(nat \<Rightarrow> int option) \<Rightarrow> (nat \<times> int) list \<Rightarrow> pystr \<Rightarrow> (int option list \<times> pystr)" where
  "read_units digit [] s = ([], s)"
| "read_units digit ((letter, _) # units) s =
     (case take_unit digit letter s of (part, s) \<Rightarrow> case read_units digit units s of (parts, s) \<Rightarrow> (part # parts, s))"

definition part_value :: "int option \<Rightarrow> int" where "part_value p = (case p of None \<Rightarrow> 0 | Some n \<Rightarrow> n)"

definition remaining_seconds :: "(nat \<Rightarrow> int option) \<Rightarrow> pystr \<Rightarrow> int option" where
  "remaining_seconds digit value =
     (let raw = py_strip value in
      if raw = [] \<or> 64 < length raw then None
      else
        let negative = hd raw = 45 in
        (case read_units digit duration_units (if negative then tl raw else raw) of
           (parts, rest) \<Rightarrow>
             if rest \<noteq> [] \<or> list_all (\<lambda>p. p = None) parts then None
             else
               let total = sum_list (map2 (\<lambda>p (_, seconds). part_value p * seconds) parts duration_units) in
               Some (if negative then - total else total)))"

definition ascii_digit :: "nat \<Rightarrow> int option" where
  "ascii_digit c = (if is_digit c then Some (int c - 48) else None)"

section \<open>Round trip\<close>

text \<open>RouterOS's own notation of a time.\<close>

definition show_unit :: "nat \<Rightarrow> nat \<times> int \<Rightarrow> pystr" where
  "show_unit n u = (if n = 0 then [] else dec_of_nat n @ [fst u])"

definition duration_parts :: "nat \<Rightarrow> nat list" where
  "duration_parts t = [t div 604800, t div 86400 mod 7, t div 3600 mod 24, t div 60 mod 60, t mod 60]"

definition show_duration :: "nat \<Rightarrow> pystr" where
  "show_duration t = (if t = 0 then lit ''0s'' else concat (map2 show_unit (duration_parts t) duration_units))"

lemma ascii_digit_None: "ascii_digit c = None \<longleftrightarrow> \<not> is_digit c"
  by (simp add: ascii_digit_def)

lemma take_unit_number:
  assumes "\<not> is_digit l"
  shows "take_unit ascii_digit l (dec_of_nat n @ l # rest) = (Some (int n), rest)"
proof -
  have d: "list_all is_digit (dec_of_nat n)" "dec_of_nat n \<noteq> []" by (simp_all add: dec_of_nat_digits)
  then have "takeWhile (\<lambda>c. ascii_digit c \<noteq> None) (dec_of_nat n @ l # rest) = dec_of_nat n"
    "dropWhile (\<lambda>c. ascii_digit c \<noteq> None) (dec_of_nat n @ l # rest) = l # rest"
    using assms by (simp_all add: ascii_digit_None list_all_iff takeWhile_append2 dropWhile_append2)
  moreover have "fold (\<lambda>c m. 10 * m + the (ascii_digit c)) xs a = foldl (\<lambda>a c. a * 10 + (int c - 48)) a xs" if "list_all is_digit xs" for xs a
    using that by (induction xs arbitrary: a) (simp_all add: ascii_digit_def algebra_simps)
  ultimately show ?thesis using d dec_of_nat_value [of n] by (simp add: take_unit_def Let_def)
qed

lemma take_unit_other:
  assumes "\<not> is_digit l'" and "l' \<noteq> l" "l' + 32 \<noteq> l" "l' \<noteq> 383"
  shows "take_unit ascii_digit l (dec_of_nat n @ l' # rest) = (None, dec_of_nat n @ l' # rest)"
proof -
  have d: "list_all is_digit (dec_of_nat n)" "dec_of_nat n \<noteq> []" by (simp_all add: dec_of_nat_digits)
  then have "dropWhile (\<lambda>c. ascii_digit c \<noteq> None) (dec_of_nat n @ l' # rest) = l' # rest"
    using assms by (simp add: ascii_digit_None list_all_iff dropWhile_append2)
  then show ?thesis using assms by (simp add: take_unit_def Let_def)
qed

text \<open>The letters of the units that are left: lower case and not \<open>letter\<close>.\<close>

definition later_letters :: "nat \<Rightarrow> (nat \<times> int) list \<Rightarrow> bool" where
  "later_letters l units \<longleftrightarrow> (\<forall>u\<in>set units. \<not> is_digit (fst u) \<and> fst u \<noteq> l \<and> fst u + 32 \<noteq> l \<and> fst u \<noteq> 383)"

lemma take_unit_absent:
  "length ns = length units \<Longrightarrow> later_letters l units \<Longrightarrow>
     take_unit ascii_digit l (concat (map2 show_unit ns units)) = (None, concat (map2 show_unit ns units))"
proof (induction ns units rule: list_induct2)
  case Nil
  show ?case by (simp add: take_unit_def)
next
  case (Cons n ns u units)
  then show ?case
    by (cases "n = 0") (simp_all add: show_unit_def later_letters_def take_unit_other)
qed

lemma read_units_show:
  "length ns = length units \<Longrightarrow> (\<And>i. i < length units \<Longrightarrow> \<not> is_digit (fst (units ! i)) \<and> later_letters (fst (units ! i)) (drop (Suc i) units)) \<Longrightarrow>
     read_units ascii_digit units (concat (map2 show_unit ns units)) = (map (\<lambda>n. if n = 0 then None else Some (int n)) ns, [])"
proof (induction ns units rule: list_induct2)
  case (Cons n ns u units)
  have "read_units ascii_digit units (concat (map2 show_unit ns units)) = (map (\<lambda>n. if n = 0 then None else Some (int n)) ns, [])"
    using Cons.IH Cons.prems [of "Suc _"] by simp
  moreover have "take_unit ascii_digit (fst u) (show_unit n u @ concat (map2 show_unit ns units)) =
      (if n = 0 then None else Some (int n), concat (map2 show_unit ns units))"
    using Cons.prems [of 0] Cons.hyps take_unit_absent [of ns units "fst u"] by (auto simp: show_unit_def take_unit_number)
  ultimately show ?case by (cases u) simp
qed simp

lemma duration_letters:
  "i < length duration_units \<Longrightarrow> \<not> is_digit (fst (duration_units ! i)) \<and> later_letters (fst (duration_units ! i)) (drop (Suc i) duration_units)"
  by (auto simp: duration_units_def later_letters_def is_digit_def less_Suc_eq nth_Cons split: nat.splits)

lemma duration_total:
  "sum_list (map2 (\<lambda>p (_, seconds). part_value p * seconds) (map (\<lambda>n. if n = 0 then None else Some (int n)) (duration_parts t)) duration_units) = int t"
proof -
  have "part_value (if n = 0 then None else Some (int n)) = int n" for n by (simp add: part_value_def)
  moreover have "t div 604800 * 604800 + (t div 86400 mod 7 * 86400 + (t div 3600 mod 24 * 3600 + (t div 60 mod 60 * 60 + t mod 60))) = t"
  proof -
    have "t div 3600 = t div 60 div 60" "t div 86400 = t div 3600 div 24" "t div 604800 = t div 86400 div 7"
      by (simp_all add: div_mult2_eq [symmetric])
    then show ?thesis
      using div_mult_mod_eq [of t 60] div_mult_mod_eq [of "t div 60" 60] div_mult_mod_eq [of "t div 3600" 24] div_mult_mod_eq [of "t div 86400" 7]
      by linarith
  qed
  then have "int (t div 604800) * 604800 + (int (t div 86400 mod 7) * 86400 + (int (t div 3600 mod 24) * 3600 + (int (t div 60 mod 60) * 60 + int (t mod 60)))) = int t"
    by (metis (no_types) of_nat_add of_nat_mult of_nat_numeral)
  ultimately show ?thesis by (simp only: duration_parts_def duration_units_def list.map zip_Cons_Cons zip_Nil prod.case sum_list.Cons sum_list.Nil)
qed

text \<open>C39: the times RouterOS prints are read as what they are, with and without a minus sign, as long as they fit into the 64
  characters that are accepted.\<close>

theorem printed_durations_are_read:
  assumes "length (show_duration t) < 64"
  shows "remaining_seconds ascii_digit (show_duration t) = Some (int t) \<and> remaining_seconds ascii_digit (45 # show_duration t) = Some (- int t)"
proof (cases "t = 0")
  case True
  then show ?thesis
    by (simp add: show_duration_def lit_def remaining_seconds_def py_strip_def py_space_def duration_units_def take_unit_def ascii_digit_def is_digit_def
        part_value_def Let_def)
next
  case False
  let ?s = "show_duration t"
  have s: "?s = concat (map2 show_unit (duration_parts t) duration_units)" using False by (simp add: show_duration_def)
  have len: "length (duration_parts t) = length duration_units" by (simp add: duration_parts_def duration_units_def)
  note read = read_units_show [OF len duration_letters]
  have absent: "list_all (\<lambda>p. p = None) (map (\<lambda>n. if n = 0 then None else Some (int n)) (duration_parts t)) = False"
  proof (rule ccontr)
    assume "\<not> ?thesis"
    then have "\<forall>n\<in>set (duration_parts t). n = 0" by (auto simp: list_all_iff split: if_splits)
    then have "int t = 0" using duration_total [of t] by (simp add: duration_parts_def duration_units_def part_value_def)
    with False show False by simp
  qed
  then have nonempty: "?s \<noteq> []"
  proof -
    have "read_units ascii_digit duration_units [] = ([None, None, None, None, None], [])"
      by (simp add: duration_units_def take_unit_def)
    with read [folded s] absent show ?thesis by auto
  qed
  have chars: "is_digit c \<or> c \<in> {119, 100, 104, 109, 115}" if "c \<in> set ?s" for c
  proof -
    from that obtain n u where "c \<in> set (show_unit n u)" "u \<in> set duration_units" unfolding s by (auto dest: set_zip_rightD)
    then show ?thesis using dec_of_nat_digits [of n]
      by (auto simp: show_unit_def duration_units_def list_all_iff split: if_splits)
  qed
  have no_space: "\<not> py_space c \<and> c \<noteq> 45" if "c \<in> set ?s" for c
    using chars [OF that] by (auto simp: is_digit_def py_space_def)
  then have strip: "py_strip ?s = ?s" "py_strip (45 # ?s) = 45 # ?s"
    using nonempty by (auto intro!: py_strip_no_space simp: py_space_def)
  have "hd ?s \<noteq> 45" using no_space nonempty by (metis list.set_sel(1))
  then show ?thesis
    using assms nonempty read absent duration_total [of t] strip
    by (simp add: remaining_seconds_def Let_def s)
qed

theorem printed_durations_are_read_witness:
  "remaining_seconds ascii_digit (show_duration 2345678) = Some 2345678 \<and> show_duration 2345678 = lit ''3w6d3h34m38s''"
proof -
  have d: "show_duration 2345678 = lit ''3w6d3h34m38s''"
    by (simp add: show_duration_def duration_parts_def duration_units_def show_unit_def lit_def dec_of_nat.simps)
  then show ?thesis using printed_durations_are_read [of 2345678] by simp
qed

end
