(* ===== verification/Spec2Isabelle.thy ===== *)
theory Spec2Isabelle
  imports Connection_Replies Session_Races Login_Limiter Runtime_Props Canary Polling_Bridge Qr_Scan Profile_Shares Review_Receipts
    Review_Locks Review_Redis Delivery_Props Automation_Props Certificate_Lifecycle
begin

text \<open>
  Verification of the MikroTik OpenVPN dashboard.

  The program is a web dashboard for the OpenVPN server of a RouterOS device. Administrators sign in with RouterOS
  accounts; a session store (\<open>security.py\<close>) keeps their credentials in memory, gives every session a
  role and revokes the sessions of an account. Live telemetry comes from one read-only Binary API stream
  (\<open>routeros_binary.py\<close>): a supervisor (\<open>telemetry_supervisor.py\<close>) keeps the stream open with
  credentials it borrows from a signed-in session, a broker (\<open>telemetry_broker.py\<close>) turns replies into a
  cache and numbered events, a gateway (\<open>telemetry_gateway.py\<close>) redacts the events into frames for
  browsers, and a polling bridge (\<open>telemetry_socketio_polling.py\<close>) serves the frames to them.
  \<open>telemetry_runtime.py\<close> wires these parts together, \<open>telemetry_state.py\<close> reports their health,
  \<open>telemetry_canary.py\<close> decides whether the new transport may be promoted, and
  \<open>event_safety.py\<close> cleans everything that is written to the audit trail or leaves the program. Changes of VPN users
  are reviewed before they are applied: \<open>app.py\<close> keeps one-time review receipts and locks, which
  \<open>integrations.py\<close> shares between processes through Redis. Finished profiles are handed over by short-lived shares
  (\<open>app.py\<close>), whose links \<open>qr.py\<close> draws as QR symbols. A worker (\<open>automation.py\<close>) ends
  expired access, exceeded quotas and surplus sessions, and a dispatcher (\<open>integrations.py\<close>) hands the events of the audit trail
  (\<open>store.py\<close>) to a webhook and a Redis stream.

  \<^bold>\<open>Conventions.\<close>
  A Python \<open>str\<close> is a list of code points (\<open>pystr\<close>), \<open>bytes\<close> are 8-bit words, an
  \<open>int\<close> is an \<open>int\<close>, a float is a rational (with its printed text where the code prints it), a
  \<open>dict\<close> is an association list in insertion order, an object is a record, an exception is the left side of a
  sum, and a value whose type the code inspects (\<open>Any\<close>) is a datatype of the possible values
  (\<open>pyval\<close>, \<open>jval\<close>, \<open>pyany\<close>). Clock readings, random tokens and the results of callbacks and
  sockets are arguments. A body under a lock is one step; where the code releases a lock in between, the steps are
  separate and other threads act between them, either as explicit interleavings (\<open>Session_Races\<close>) or as a
  function applied at that point (\<open>surroundings\<close> of \<open>Supervisor\<close>, \<open>meanwhile\<close> of
  \<open>Polling_Bridge\<close>). Loops over lists are structural recursions, so they need no fuel. The six loops that run as long as their surroundings let
  them (\<open>listen_loop\<close> and \<open>run_loop\<close> of the supervisor, its \<open>sampler_loop\<close>,
  \<open>run_sampler\<close> of the runtime, \<open>acquire_lease\<close> of the review coordinator, and \<open>run_worker\<close> of the dispatcher) are \<open>partial_function (option)\<close>: not returning is the value
  \<open>None\<close>, and the properties that speak of their end prove that they return.

  \<^bold>\<open>The theories.\<close>
  \<^item> \<open>Prelude\<close>: strings, UTF-8, dictionaries, sums, and the \<open>named_theorems\<close>
    collections (\<open>dict_simps\<close>, \<open>err_simps\<close>) that carry the component proofs.
  \<^item> \<open>Wire\<close> (\<open>encode_length\<close>, \<open>decode_length\<close>, words, sentences),
    \<open>Sentence_Reader\<close> (class \<open>SentenceReader\<close>), \<open>Reply\<close> (\<open>parse_reply\<close>,
    \<open>RouterOSReply\<close>): the decoding of the RouterOS API. Lengths and sentences round-trip for all five
    length classes; the incremental reader refines the function that splits the whole input at once, so chunk boundaries do not
    matter, and its memory is bounded by the limits for words and sentences whatever arrives.
  \<^item> \<open>Binary_Connection\<close> (class \<open>RouterOSBinaryConnection\<close>), with
    \<open>Connection_Safety\<close> and \<open>Connection_Replies\<close>: in every run the bytes written are login words and
    allow-listed read-only commands; a returned response is complete, tagged and bounded; an error closes the socket;
    the replies of a well-behaved router are returned exactly.
  \<^item> \<open>Broker\<close> and \<open>Broker_Props\<close> (class \<open>TelemetryBroker\<close>): the cache and all
    retained values are bounded; events are numbered without gaps; replaying them rebuilds the cache; only allow-listed
    fields influence what is kept; counters that a record omits keep their values.
  \<^item> \<open>Roles\<close> (the role tables of \<open>security.py\<close>), \<open>Gateway\<close>,
    \<open>Gateway_Props\<close> (\<open>TelemetryGatewayContract\<close>): frames are redacted and bounded, subscriptions
    authorised, the replay buffer within its budgets.
  \<^item> \<open>Broker_Gateway\<close>: the locale \<open>telemetry_source\<close> is what the gateway expects of a
    broker (\<open>recovery_snapshot\<close>, \<open>sequence\<close>); the broker model interprets it, and from there a poll never skips
    an event and fails only for an unknown subscription or the size of the snapshot frame.
  \<^item> \<open>Polling_Bridge\<close> (\<open>SocketIOPollingBridge\<close>): clients belong to the session of their handshake,
    frames are sent only after an authorisation check each, and the table stays consistent with the gateway's subscriptions.
  \<^item> \<open>Session_Store\<close> (class \<open>SessionStore\<close>), with \<open>Session_Props\<close> (what every operation
    keeps, and the locales for roles and counters), \<open>Session_Runs\<close> (sequential runs) and \<open>Session_Races\<close> (threads
    that interleave at the critical sections of sign-in, rotation, dispatch and revocation): sessions end with their
    lifetimes, never gain privileges, and do not survive a revocation; nothing is committed that a revocation overtook; sign-ins,
    rotations, account revocations and bulk removals do not wait for each other in a circle; deferred revocations finish.
  \<^item> \<open>Login_Limiter\<close> (class \<open>LoginRateLimiter\<close>): attempts per client and memory are limited.
  \<^item> \<open>Event_Safety\<close> (\<open>event_safety.py\<close>): no value under a secret key reaches the audit trail or a
    webhook; remote events carry fixed classifications and bounded texts.
  \<^item> \<open>Telemetry_State\<close> (\<open>TelemetryRuntimeState\<close>): the reported health agrees with the
    recorded events. \<open>Canary\<close> (\<open>telemetry_canary.py\<close>): promotion needs agreement on every sample.
  \<^item> \<open>Supervisor\<close> and \<open>Supervisor_Props\<close> (\<open>telemetry_supervisor.py\<close>) over a record
    \<open>deps\<close> of the injected collaborators: back-off and failure counts, termination of limited runs, and the
    locale \<open>revoked_lease\<close>: after the authorisation of a stream ends, nothing of it is published.
  \<^item> \<open>Telemetry_Runtime\<close> and \<open>Runtime_Props\<close> (class \<open>TelemetryRuntime\<close>): the collaborators
    on the models of store, broker, gateway and state; they interpret \<open>revoked_lease\<close>, so a session that is gone from the
    store publishes nothing more, and leases come from stored sessions.
  \<^item> \<open>Review_Coordinator\<close> (\<open>RedisReviewCoordinator\<close>, \<open>_RedisReviewLock\<close>): what
    a process observes of shared revisions never goes back, and a lease that was lost stays lost, whatever Redis answers.
    \<open>Review_Receipts\<close> (\<open>ReviewReceiptStore\<close>): the locale \<open>revision_authority\<close> is what the store needs of the keeper
    of the revisions; the store's own counters and the coordinator interpret it, so that in both configurations a review is used once, by its
    session, for its intent, and not after its resource changed. \<open>Review_Redis\<close> puts the coordinator on a Redis server that other
    processes use at the same time and that may lose its data (\<open>advance_script\<close>): there too, nobody changed the resource since the
    review was issued. \<open>Review_Locks\<close>: threads that take the striped locks
    of their requests (\<open>mutation_locks\<close>, \<open>resource_locks\<close>) never deadlock and never work on one resource at
    the same time.
  \<^item> \<open>Profile_Shares\<close> (\<open>ProfileShareStore\<close>): a share needs its access code, is handed out three
    times at most, and wrong codes never keep the right one out.
  \<^item> \<open>Qr_Codewords\<close>, \<open>Qr_Matrix\<close>, \<open>Qr_Scan\<close> (\<open>qr.py\<close>): the
    multiplication is the one of the field of the standard, given by long division (\<open>field_product\<close>), the error correction is its
    Reed-Solomon code, and a standard reader (\<open>scan\<close>, the specification) reads the bytes of the text back from
    every symbol drawn.
  \<^item> \<open>Outbox\<close> (the tables \<open>audit\<close> and \<open>integration_outbox\<close> of \<open>store.py\<close>): a claim of events is a lease of a
    minute, which only a reported failure of the event ends early. \<open>Delivery\<close>, \<open>Delivery_Props\<close> (\<open>WebhookDispatcher\<close>, \<open>RedisStreamPublisher\<close>) over a record of their
    surroundings: the locale \<open>outbox_world\<close> is what the dispatcher needs of the outbox; the model of the tables interprets it, so that
    every event is delivered everywhere or dead-lettered for a reason, and stays in the outbox until then.
  \<^item> \<open>Effects\<close>: programs as functions on the list of their calls, with weakest preconditions (\<open>wp_simps\<close>).
    \<open>User_Controls\<close> (the table \<open>user_controls\<close>), \<open>Automation\<close>, \<open>Automation_Props\<close> (\<open>automation.py\<close>) on it:
    every change of an account is made under its lock and justified by the reads made under it, and only surplus sessions are ended.
  \<^item> \<open>Certificate_Lifecycle\<close> (\<open>certificate_lifecycle.py\<close>): the times RouterOS prints are read as what they are.

  \<^bold>\<open>Not modelled.\<close>
  The request handlers, page assembly and ASGI transport of \<open>app.py\<close>, \<open>asgi.py\<close> and
  \<open>templates.py\<close> (input, output and HTML over the modelled parts); the other tables of \<open>store.py\<close>, whose statements are plain
  SQL; the HTTP client of \<open>routeros.py\<close>; environment parsing in \<open>config.py\<close>; the diagnostics reports; the release
  tooling under \<open>scripts\<close> and the installers, which read files, the network and git. TLS, certificate
  verification and the sockets of the Binary API connection are arguments of its model. The keyed signature of webhook requests, the texts of alerts, the starting of threads and URL
  parsing in \<open>telemetry_runtime.py\<close>, and the command line and display rounding of \<open>telemetry_canary.py\<close>, are
  left out of otherwise modelled components; so are the recursion limit of Python and the rounding of floats.
\<close>

end
